(* ===== verification/Prelude.thy ===== *)
theory Prelude
  imports Main "HOL-Library.Word" "HOL-Library.Sublist"
begin

text \<open>
  What the theories of this development share: machine integers and bytes, the outcome of a
  fallible Rust function, arithmetic under both of Rust's overflow modes, big-endian integers,
  the fixed-width readers of a byte buffer, ASCII classes, and two interfaces: a field codec
  (a writer and a reader that undo each other) and a transition system with an invariant.
\<close>

section \<open>Types\<close>

unbundle bit_operations_syntax

type_synonym u8 = "8 word"
type_synonym u16 = "16 word"
type_synonym u32 = "32 word"
type_synonym u64 = "64 word"
type_synonym byte = "8 word"

text \<open>A Rust \<open>String\<close> is its UTF-8 bytes, as \<open>as_bytes\<close> and \<open>len\<close> see it.\<close>

type_synonym rstring = "byte list"

definition ascii :: "string \<Rightarrow> byte list" where
  "ascii s = map of_char s"

text \<open>
  The outcome of a fallible function: \<open>Ok\<close> and \<open>Err\<close> are Rust's \<open>Result\<close>; \<open>Panic\<close> is the
  unwinding of the running task by a failed assertion, a slice index out of range, an
  \<open>unwrap\<close> of an error or, in a build with overflow checks, an arithmetic overflow.
\<close>

datatype ('e, 'a) outcome = Ok 'a | Err 'e | Panic

fun bind_outcome :: "('e, 'a) outcome \<Rightarrow> ('a \<Rightarrow> ('e, 'b) outcome) \<Rightarrow> ('e, 'b) outcome" where
  "bind_outcome (Ok x) f = f x"
| "bind_outcome (Err e) f = Err e"
| "bind_outcome Panic f = Panic"

fun is_Ok :: "('e, 'a) outcome \<Rightarrow> bool" where
  "is_Ok (Ok _) = True"
| "is_Ok _ = False"

lemma bind_outcome_Ok_iff [simp]:
  "bind_outcome m f = Ok y \<longleftrightarrow> (\<exists>x. m = Ok x \<and> f x = Ok y)"
  by (cases m) auto

lemma bind_outcome_assoc:
  "bind_outcome (bind_outcome m f) g = bind_outcome m (\<lambda>x. bind_outcome (f x) g)"
  by (cases m) auto

lemma bind_outcome_Panic_iff:
  "bind_outcome m f = Panic \<longleftrightarrow> m = Panic \<or> (\<exists>x. m = Ok x \<and> f x = Panic)"
  by (cases m) auto

text \<open>A reader that reports a short buffer as \<open>None\<close>, turned into one that fails with \<open>e\<close>.\<close>

fun or_err :: "'e \<Rightarrow> 'a option \<Rightarrow> ('e, 'a) outcome" where
  "or_err e None = Err e"
| "or_err e (Some x) = Ok x"

section \<open>Arithmetic with and without overflow checks\<close>

text \<open>
  Rust's \<open>+\<close>, \<open>-\<close> and \<open>*\<close> on machine integers panic on overflow in a build with overflow
  checks (the default of \<open>cargo build\<close> and \<open>cargo test\<close>) and wrap in one without (the default
  of \<open>cargo build --release\<close>). No \<open>Cargo.toml\<close> of the repository sets the mode, so definitions
  that use plain arithmetic take it as the argument \<open>oc\<close>: \<open>True\<close> with checks.
\<close>

definition add_w :: "bool \<Rightarrow> 'l::len word \<Rightarrow> 'l word \<Rightarrow> ('e, 'l word) outcome" where
  "add_w oc a b = (if oc \<and> 2 ^ LENGTH('l) \<le> unat a + unat b then Panic else Ok (a + b))"

definition sub_w :: "bool \<Rightarrow> 'l::len word \<Rightarrow> 'l word \<Rightarrow> ('e, 'l word) outcome" where
  "sub_w oc a b = (if oc \<and> a < b then Panic else Ok (a - b))"

definition mul_w :: "bool \<Rightarrow> 'l::len word \<Rightarrow> 'l word \<Rightarrow> ('e, 'l word) outcome" where
  "mul_w oc a b = (if oc \<and> 2 ^ LENGTH('l) \<le> unat a * unat b then Panic else Ok (a * b))"

lemma add_w_Ok: "unat a + unat b < 2 ^ LENGTH('l::len) \<Longrightarrow> add_w oc a (b :: 'l word) = Ok (a + b)"
  by (simp add: add_w_def)

lemma mul_w_Ok: "unat a * unat b < 2 ^ LENGTH('l::len) \<Longrightarrow> mul_w oc a (b :: 'l word) = Ok (a * b)"
  by (simp add: mul_w_def)

lemma sub_w_Ok: "b \<le> a \<Longrightarrow> sub_w oc a b = Ok (a - b)"
  by (simp add: sub_w_def not_less)

lemma unat_add_lem': "unat a + unat b < 2 ^ LENGTH('l::len) \<Longrightarrow> unat (a + b :: 'l word) = unat a + unat b"
  by (simp add: unat_word_ariths)

lemma unat_mul_lem': "unat a * unat b < 2 ^ LENGTH('l::len) \<Longrightarrow> unat (a * b :: 'l word) = unat a * unat b"
  by (simp add: unat_word_ariths)

lemma unat_sub': "b \<le> a \<Longrightarrow> unat (a - b :: 'l::len word) = unat a - unat b"
  by (rule unat_sub)

lemma add_w_nat:
  "unat a + unat b < 2 ^ LENGTH('l::len) \<Longrightarrow>
    \<exists>c. add_w oc a (b :: 'l word) = Ok c \<and> unat c = unat a + unat b"
  by (simp add: add_w_Ok unat_add_lem')

lemma unat_ucast_up:
  "LENGTH('a) \<le> LENGTH('b) \<Longrightarrow> unat (ucast (x :: 'a::len word) :: 'b::len word) = unat x"
proof -
  assume "LENGTH('a) \<le> LENGTH('b)"
  then have "unat x < 2 ^ LENGTH('b)"
    by (intro order_less_le_trans [OF unsigned_less] power_increasing) auto
  then show ?thesis
    by (simp add: unsigned_ucast_eq take_bit_nat_eq_self)
qed

lemma unat_of_nat_small: "n < 2 ^ LENGTH('l::len) \<Longrightarrow> unat (of_nat n :: 'l word) = n"
  by (simp add: unat_of_nat)

section \<open>Big-endian integers\<close>

named_theorems wire_simps \<open>equations that read back what a writer wrote\<close>

definition to_be_u16 :: "u16 \<Rightarrow> byte list" where
  "to_be_u16 w = [ucast (drop_bit 8 w), ucast w]"

definition to_be_u32 :: "u32 \<Rightarrow> byte list" where
  "to_be_u32 w = [ucast (drop_bit 24 w), ucast (drop_bit 16 w), ucast (drop_bit 8 w), ucast w]"

definition from_be_u16 :: "byte \<Rightarrow> byte \<Rightarrow> u16" where
  "from_be_u16 a b = push_bit 8 (ucast a) OR ucast b"

definition from_be_u32 :: "byte \<Rightarrow> byte \<Rightarrow> byte \<Rightarrow> byte \<Rightarrow> u32" where
  "from_be_u32 a b c d =
     push_bit 24 (ucast a) OR push_bit 16 (ucast b) OR push_bit 8 (ucast c) OR ucast d"

lemma length_to_be [simp]: "length (to_be_u16 v) = 2" "length (to_be_u32 w) = 4"
  by (simp_all add: to_be_u16_def to_be_u32_def)

lemma from_to_be_u16:
  "from_be_u16 (ucast (drop_bit 8 w)) (ucast w) = w"
  unfolding from_be_u16_def
  by (rule bit_word_eqI) (auto simp: bit_simps)

lemma from_to_be_u32:
  "from_be_u32 (ucast (drop_bit 24 w)) (ucast (drop_bit 16 w)) (ucast (drop_bit 8 w)) (ucast w) = w"
  (is "?v = w")
proof (rule bit_word_eqI)
  fix n
  assume "n < LENGTH(32)"
  then consider "n < 8" | "8 \<le> n \<and> n < 16" | "16 \<le> n \<and> n < 24" | "24 \<le> n \<and> n < 32"
    by fastforce
  then show "bit ?v n = bit w n"
    by cases (auto simp: from_be_u32_def bit_simps)
qed

lemma not_bit_byte: "8 \<le> n \<Longrightarrow> \<not> bit (b :: byte) n"
  using bit_imp_le_length [of b n] by auto

lemma to_from_be_u32: "to_be_u32 (from_be_u32 a b c d) = [a, b, c, d]"
  unfolding to_be_u32_def from_be_u32_def
  by (auto intro!: bit_word_eqI simp: bit_simps not_bit_byte)

lemma to_from_be_u16: "to_be_u16 (from_be_u16 a b) = [a, b]"
  unfolding to_be_u16_def from_be_u16_def
  by (auto intro!: bit_word_eqI simp: bit_simps not_bit_byte)

section \<open>Fixed-width readers\<close>

fun rd_u8 :: "byte list \<Rightarrow> (u8 \<times> byte list) option" where
  "rd_u8 (b # bs) = Some (b, bs)"
| "rd_u8 [] = None"

fun rd_u16 :: "byte list \<Rightarrow> (u16 \<times> byte list) option" where
  "rd_u16 (a # b # bs) = Some (from_be_u16 a b, bs)"
| "rd_u16 _ = None"

fun rd_u32 :: "byte list \<Rightarrow> (u32 \<times> byte list) option" where
  "rd_u32 (a # b # c # d # bs) = Some (from_be_u32 a b c d, bs)"
| "rd_u32 _ = None"

definition rd_exact :: "nat \<Rightarrow> byte list \<Rightarrow> (byte list \<times> byte list) option" where
  "rd_exact n bs = (if n \<le> length bs then Some (take n bs, drop n bs) else None)"

text \<open>A reader repeated \<open>n\<close> times.\<close>

fun rd_many :: "(byte list \<Rightarrow> ('a \<times> byte list) option) \<Rightarrow> nat \<Rightarrow> byte list \<Rightarrow> ('a list \<times> byte list) option" where
  "rd_many rd 0 bs = Some ([], bs)"
| "rd_many rd (Suc n) bs =
     (case rd bs of None \<Rightarrow> None
      | Some (x, bs') \<Rightarrow> map_option (\<lambda>(xs, r). (x # xs, r)) (rd_many rd n bs'))"

lemma rd_u16_eq: "rd_u16 bs = (if 2 \<le> length bs then Some (from_be_u16 (bs ! 0) (bs ! 1), drop 2 bs) else None)"
  by (cases bs rule: rd_u16.cases) auto

lemma rd_u32_eq:
  "rd_u32 bs = (if 4 \<le> length bs
     then Some (from_be_u32 (bs ! 0) (bs ! 1) (bs ! 2) (bs ! 3), drop 4 bs) else None)"
  by (cases bs rule: rd_u32.cases) (auto simp: numeral_eq_Suc)

lemma rd_put [wire_simps]:
  "rd_u8 (b # rest) = Some (b, rest)"
  "rd_u16 (to_be_u16 v @ rest) = Some (v, rest)"
  "rd_u32 (to_be_u32 w @ rest) = Some (w, rest)"
  "rd_exact (length s) (s @ rest) = Some (s, rest)"
  by (simp_all add: to_be_u16_def to_be_u32_def from_to_be_u16 from_to_be_u32 rd_exact_def)

text \<open>Readers only drop bytes from the front.\<close>

lemma rd_u8_Some: "rd_u8 bs = Some (x, r) \<longleftrightarrow> bs = x # r"
  by (cases bs) auto

lemma rd_exact_Some: "rd_exact n bs = Some (s, r) \<longleftrightarrow> bs = s @ r \<and> length s = n"
  by (auto simp: rd_exact_def)

lemma rd_u16_Some: "rd_u16 bs = Some (x, r) \<longleftrightarrow> bs = to_be_u16 x @ r"
proof
  assume "rd_u16 bs = Some (x, r)"
  then show "bs = to_be_u16 x @ r"
    by (cases bs rule: rd_u16.cases) (auto simp: to_from_be_u16)
qed (simp add: rd_put)

lemma rd_u32_Some: "rd_u32 bs = Some (x, r) \<longleftrightarrow> bs = to_be_u32 x @ r"
proof
  assume "rd_u32 bs = Some (x, r)"
  then show "bs = to_be_u32 x @ r"
    by (cases bs rule: rd_u32.cases) (auto simp: to_from_be_u32)
qed (simp add: rd_put)

section \<open>Bytes that are ASCII\<close>

definition is_ascii :: "byte \<Rightarrow> bool" where
  "is_ascii b \<longleftrightarrow> b < 128"

definition is_ascii_digit :: "byte \<Rightarrow> bool" where
  "is_ascii_digit b \<longleftrightarrow> 48 \<le> b \<and> b \<le> 57"

definition is_ascii_alphanumeric :: "byte \<Rightarrow> bool" where
  "is_ascii_alphanumeric b \<longleftrightarrow>
     is_ascii_digit b \<or> (65 \<le> b \<and> b \<le> 90) \<or> (97 \<le> b \<and> b \<le> 122)"

text \<open>\<open>u8::is_ascii_whitespace\<close>: space, tab, line feed, form feed, carriage return.\<close>

definition is_ascii_whitespace :: "byte \<Rightarrow> bool" where
  "is_ascii_whitespace b \<longleftrightarrow> b = 32 \<or> b = 9 \<or> b = 10 \<or> b = 12 \<or> b = 13"

text \<open>\<open>u8::is_ascii_graphic\<close>: \<open>!\<close> to \<open>~\<close>.\<close>

definition is_ascii_graphic :: "byte \<Rightarrow> bool" where
  "is_ascii_graphic b \<longleftrightarrow> 33 \<le> b \<and> b \<le> 126"

section \<open>Positions in a byte sequence\<close>

text \<open>\<open>Iterator::position\<close>.\<close>

fun position :: "('a \<Rightarrow> bool) \<Rightarrow> 'a list \<Rightarrow> nat option" where
  "position p [] = None"
| "position p (x # xs) = (if p x then Some 0 else map_option Suc (position p xs))"

lemma position_None: "position p xs = None \<longleftrightarrow> (\<forall>x \<in> set xs. \<not> p x)"
  by (induction xs) auto

lemma position_Some:
  "position p xs = Some i \<longleftrightarrow>
     i < length xs \<and> p (xs ! i) \<and> (\<forall>j < i. \<not> p (xs ! j))"
proof (induction xs arbitrary: i)
  case (Cons x xs)
  then show ?case
    by (cases i) (auto simp: less_Suc_eq_0_disj nth_Cons split: nat.splits)
qed simp

lemma position_append:
  "position p (xs @ ys) =
     (case position p xs of Some i \<Rightarrow> Some i | None \<Rightarrow> map_option ((+) (length xs)) (position p ys))"
proof (induction xs)
  case Nil
  show ?case by (cases "position p ys") simp_all
next
  case (Cons x xs)
  then show ?case
    by (cases "position p ys") (auto split: option.splits)
qed

lemma position_drop:
  "\<forall>x \<in> set (take n xs). \<not> p x \<Longrightarrow> n \<le> length xs \<Longrightarrow>
     position p xs = map_option ((+) n) (position p (drop n xs))"
  using position_append [of p "take n xs" "drop n xs"]
  by (simp add: position_None [THEN iffD2])

text \<open>\<open>Iterator::max_by_key\<close>: of several maximal elements the last.\<close>

fun max_by_key :: "('a \<Rightarrow> 'k::linorder) \<Rightarrow> 'a list \<Rightarrow> 'a option" where
  "max_by_key f [] = None"
| "max_by_key f (x # xs) =
     (case max_by_key f xs of
        None \<Rightarrow> Some x
      | Some y \<Rightarrow> if f x \<le> f y then Some y else Some x)"

lemma max_by_key_Some:
  "xs \<noteq> [] \<Longrightarrow> \<exists>y \<in> set xs. max_by_key f xs = Some y \<and> (\<forall>x \<in> set xs. f x \<le> f y)"
proof (induction xs)
  case (Cons x xs)
  show ?case
  proof (cases "xs = []")
    case False
    then obtain y where y: "y \<in> set xs" "max_by_key f xs = Some y" "\<forall>x \<in> set xs. f x \<le> f y"
      using Cons.IH by blast
    then show ?thesis
      by (cases "f x \<le> f y") (auto intro: order_trans)
  qed simp
qed simp

section \<open>Interfaces\<close>

text \<open>
  A field codec: what a writer puts in front of any bytes, the reader takes off again. \<open>ok\<close> says
  which values the writer can represent (a length prefix bounds a string's length, for one).
\<close>

locale field_codec =
  fixes put :: "'a \<Rightarrow> byte list"
    and get :: "byte list \<Rightarrow> ('a \<times> byte list) option"
    and ok :: "'a \<Rightarrow> bool"
  assumes get_put: "ok x \<Longrightarrow> get (put x @ rest) = Some (x, rest)"
begin

lemma get_put_Nil: "ok x \<Longrightarrow> get (put x) = Some (x, [])"
  using get_put [of x "[]"] by simp

lemma put_inj: "ok x \<Longrightarrow> ok y \<Longrightarrow> put x @ r = put y @ s \<Longrightarrow> x = y \<and> r = s"
  by (metis get_put option.inject prod.inject)

lemma many_put:
  "\<forall>x \<in> set xs. ok x \<Longrightarrow>
     rd_many get (length xs) (concat (map put xs) @ rest) = Some (xs, rest)"
  by (induction xs) (auto simp: get_put)

end

text \<open>
  A codec for a stream that arrives in pieces: on a part of an encoding the reader asks for more.
\<close>

locale incremental_codec = field_codec +
  assumes get_prefix: "ok x \<Longrightarrow> strict_prefix bs (put x) \<Longrightarrow> get bs = None"
begin

lemma get_take: "ok x \<Longrightarrow> n < length (put x) \<Longrightarrow> get (take n (put x)) = None"
  by (rule get_prefix) (auto simp: strict_prefix_def take_is_prefix dest: arg_cong [where f = length])

lemma put_nonempty_or_total: "ok x \<Longrightarrow> put x = [] \<Longrightarrow> get [] = Some (x, [])"
  using get_put_Nil [of x] by simp

end

text \<open>A transition system, its reachable states and an invariant that its steps keep.\<close>

inductive reach :: "('s \<Rightarrow> bool) \<Rightarrow> ('s \<Rightarrow> 's \<Rightarrow> bool) \<Rightarrow> 's \<Rightarrow> bool" for init step where
  reach_init: "init s \<Longrightarrow> reach init step s"
| reach_step: "reach init step s \<Longrightarrow> step s t \<Longrightarrow> reach init step t"

locale invariant_system =
  fixes init :: "'s \<Rightarrow> bool"
    and step :: "'s \<Rightarrow> 's \<Rightarrow> bool"
    and inv :: "'s \<Rightarrow> bool"
  assumes init_inv: "init s \<Longrightarrow> inv s"
    and step_inv: "step s t \<Longrightarrow> inv s \<Longrightarrow> inv t"
begin

lemma reach_inv: "reach init step s \<Longrightarrow> inv s"
  by (induction rule: reach.induct) (auto intro: init_inv step_inv)

lemma steps_inv: "step\<^sup>*\<^sup>* s t \<Longrightarrow> inv s \<Longrightarrow> inv t"
  by (induction rule: rtranclp_induct) (auto intro: step_inv)

end

text \<open>A system that implements another one: a step of it is a step of the other in the view, or none.\<close>

locale simulation = invariant_system init step inv for init :: "'s \<Rightarrow> bool" and step and inv +
  fixes spec :: "'a \<Rightarrow> 'a \<Rightarrow> bool"
    and view :: "'s \<Rightarrow> 'a"
  assumes step_view: "step s t \<Longrightarrow> inv s \<Longrightarrow> view t = view s \<or> spec (view s) (view t)"
begin

lemma steps_view: "step\<^sup>*\<^sup>* s t \<Longrightarrow> inv s \<Longrightarrow> spec\<^sup>*\<^sup>* (view s) (view t)"
proof (induction rule: rtranclp_induct)
  case (step t u)
  then have "view u = view t \<or> spec (view t) (view u)"
    using steps_inv step_view by blast
  with step show ?case
    by (auto intro: rtranclp.rtrancl_into_rtrancl)
qed simp

lemma reach_view: "reach init step s \<Longrightarrow> \<exists>s0. init s0 \<and> spec\<^sup>*\<^sup>* (view s0) (view s)"
proof (induction rule: reach.induct)
  case (reach_step s t)
  moreover have "view t = view s \<or> spec (view s) (view t)"
    using step_view [OF reach_step(2)] reach_inv [OF reach_step(1)] by blast
  ultimately show ?case
    by (auto intro: rtranclp.rtrancl_into_rtrancl)
qed blast

end

lemma reach_steps: "step\<^sup>*\<^sup>* s t \<Longrightarrow> reach init step s \<Longrightarrow> reach init step t"
  by (induction rule: rtranclp_induct) (auto intro: reach_step)

lemma strict_prefix_length: "strict_prefix bs cs \<Longrightarrow> length bs < length cs"
  by (rule prefix_length_less)

interpretation u8_codec: incremental_codec "\<lambda>b. [b]" rd_u8 "\<lambda>_. True"
  by unfold_locales (auto simp: strict_prefix_def prefix_Cons)

interpretation u16_codec: incremental_codec to_be_u16 rd_u16 "\<lambda>_. True"
proof unfold_locales
  show "rd_u16 bs = None" if "strict_prefix bs (to_be_u16 x)" for x bs
    using strict_prefix_length [OF that] by (simp add: rd_u16_eq)
qed (simp add: rd_put)

interpretation u32_codec: incremental_codec to_be_u32 rd_u32 "\<lambda>_. True"
proof unfold_locales
  show "rd_u32 bs = None" if "strict_prefix bs (to_be_u32 x)" for x bs
    using strict_prefix_length [OF that] by (simp add: rd_u32_eq)
qed (simp add: rd_put)

end
