(* ===== verification/Utf8.thy ===== *)
theory Utf8
  imports Prelude
begin

text \<open>
  UTF-8 as Rust's \<open>str::from_utf8\<close> checks it (\<open>String::from_utf8\<close>, \<open>read_line\<close> and the line codecs
  of the repository rest on it): the well-formed byte sequences of the Unicode standard.
\<close>

definition cont :: "byte \<Rightarrow> bool" where
  "cont b \<longleftrightarrow> 128 \<le> b \<and> b \<le> 191"

text \<open>The length of the well-formed character that the bytes begin with, if they do.\<close>

fun utf8_char :: "byte list \<Rightarrow> nat option" where
  "utf8_char [] = None"
| "utf8_char (a # bs) =
     (if a < 128 then Some 1
      else if 194 \<le> a \<and> a \<le> 223 then
        (case bs of b # _ \<Rightarrow> if cont b then Some 2 else None | _ \<Rightarrow> None)
      else if 224 \<le> a \<and> a \<le> 239 then
        (case bs of b # c # _ \<Rightarrow>
            if cont b \<and> cont c \<and> (a = 224 \<longrightarrow> 160 \<le> b) \<and> (a = 237 \<longrightarrow> b \<le> 159) then Some 3 else None
          | _ \<Rightarrow> None)
      else if 240 \<le> a \<and> a \<le> 244 then
        (case bs of b # c # d # _ \<Rightarrow>
            if cont b \<and> cont c \<and> cont d \<and> (a = 240 \<longrightarrow> 144 \<le> b) \<and> (a = 244 \<longrightarrow> b \<le> 143)
            then Some 4 else None
          | _ \<Rightarrow> None)
      else None)"

lemma utf8_char_bounds: "utf8_char bs = Some n \<Longrightarrow> 0 < n \<and> n \<le> length bs"
  by (cases bs rule: utf8_char.cases) (auto split: if_splits list.splits)

lemma utf8_char_append: "utf8_char bs = Some n \<Longrightarrow> utf8_char (bs @ cs) = Some n"
  by (cases bs rule: utf8_char.cases) (auto split: if_splits list.splits)

function utf8_valid :: "byte list \<Rightarrow> bool" where
  "utf8_valid bs =
     (if bs = [] then True
      else case utf8_char bs of None \<Rightarrow> False | Some n \<Rightarrow> utf8_valid (drop n bs))"
  by pat_completeness auto
termination
  by (relation "measure length") (auto dest: utf8_char_bounds)

declare utf8_valid.simps [simp del]

lemma utf8_valid_Nil [simp]: "utf8_valid []"
  by (subst utf8_valid.simps) simp

lemma utf8_valid_append: "utf8_valid xs \<Longrightarrow> utf8_valid ys \<Longrightarrow> utf8_valid (xs @ ys)"
proof (induction xs rule: utf8_valid.induct)
  case (1 xs)
  show ?case
  proof (cases "xs = []")
    case False
    then obtain n where n: "utf8_char xs = Some n" "utf8_valid (drop n xs)"
      using "1.prems"(1) by (subst (asm) utf8_valid.simps) (auto split: option.splits)
    then have "utf8_valid (drop n (xs @ ys))"
      using "1.IH" [OF False n(1)] "1.prems"(2) utf8_char_bounds [OF n(1)] by simp
    then show ?thesis
      using False utf8_char_append [OF n(1), of ys] by (subst utf8_valid.simps) simp
  qed (use "1.prems" in simp)
qed

lemma utf8_valid_ascii: "list_all is_ascii xs \<Longrightarrow> utf8_valid xs"
proof (induction xs)
  case (Cons x xs)
  then show ?case
    by (subst utf8_valid.simps) (simp add: is_ascii_def)
qed simp


section \<open>Lossy decoding\<close>

text \<open>
  \<open>String::from_utf8_lossy\<close>: every maximal beginning of a character that goes wrong becomes the
  replacement character U+FFFD. \<open>bad_length\<close> is the length of that beginning.
\<close>

definition pair_ok :: "byte \<Rightarrow> byte \<Rightarrow> bool" where
  "pair_ok a b \<longleftrightarrow> cont b \<and> (a = 224 \<longrightarrow> 160 \<le> b) \<and> (a = 237 \<longrightarrow> b \<le> 159) \<and>
     (a = 240 \<longrightarrow> 144 \<le> b) \<and> (a = 244 \<longrightarrow> b \<le> 143)"

fun bad_length :: "byte list \<Rightarrow> nat" where
  "bad_length (a # b # c # bs) =
     (if 224 \<le> a \<and> a \<le> 244 \<and> pair_ok a b then (if 240 \<le> a \<and> cont c then 3 else 2) else 1)"
| "bad_length [a, b] = (if 224 \<le> a \<and> a \<le> 244 \<and> pair_ok a b then 2 else 1)"
| "bad_length _ = 1"

lemma bad_length_pos: "0 < bad_length bs"
  by (induction bs rule: bad_length.induct) auto

function utf8_lossy :: "byte list \<Rightarrow> byte list" where
  "utf8_lossy bs =
     (if bs = [] then []
      else case utf8_char bs of
          Some n \<Rightarrow> take n bs @ utf8_lossy (drop n bs)
        | None \<Rightarrow> [239, 191, 189] @ utf8_lossy (drop (bad_length bs) bs))"
  by pat_completeness auto
termination
  by (relation "measure length") (use utf8_char_bounds bad_length_pos in \<open>force+\<close>)

declare utf8_lossy.simps [simp del]

lemma utf8_lossy_Nil [simp]: "utf8_lossy [] = []"
  by (subst utf8_lossy.simps) simp

lemma utf8_lossy_valid: "utf8_valid bs \<Longrightarrow> utf8_lossy bs = bs"
proof (induction bs rule: utf8_valid.induct)
  case (1 bs)
  then show ?case
    by (subst utf8_lossy.simps, subst (asm) (2) utf8_valid.simps) (auto split: option.splits)
qed

lemma utf8_valid_take: "utf8_char bs = Some n \<Longrightarrow> utf8_valid (take n bs)"
proof -
  assume n: "utf8_char bs = Some n"
  have "utf8_char (take n bs) = Some n"
    using n by (cases bs rule: utf8_char.cases) (auto split: if_splits list.splits simp: numeral_eq_Suc)
  then show ?thesis
    using utf8_char_bounds [OF n] by (subst utf8_valid.simps) simp
qed

lemma utf8_lossy_is_valid: "utf8_valid (utf8_lossy bs)"
proof (induction bs rule: utf8_lossy.induct)
  case (1 bs)
  have "utf8_valid [239, 191, 189]"
    by (subst utf8_valid.simps) (simp add: cont_def)
  then show ?case
    using 1 by (subst utf8_lossy.simps)
      (auto split: option.splits intro!: utf8_valid_append utf8_valid_take simp del: append_Cons)
qed

lemma utf8_lossy_replicate: "utf8_lossy (replicate n 255) = concat (replicate n [239, 191, 189])"
proof (induction n)
  case (Suc n)
  have "bad_length (255 # replicate n 255) = 1"
    by (cases "(255 :: byte) # replicate n 255" rule: bad_length.cases) auto
  then show ?case
    using Suc by (subst utf8_lossy.simps) simp
qed simp

end
