(* ===== verification/SpeedWire.thy ===== *)
theory SpeedWire
  imports Utf8
begin

text \<open>
  The messages of the speed daemon, \<open>rust/p06-speed-daemon/src/wire.rs\<close>. A writer is the bytes it
  appends to the connection, a reader takes the bytes it needs from the front of those that will
  arrive (too few are the end of the stream, an internal error). The traits \<open>TaggedMessage\<close>,
  \<open>WriteTo\<close> and \<open>ReadFrom\<close> are the locale \<open>tagged_message\<close>, interpreted for every message.
\<close>

section \<open>The traits\<close>

datatype read_error = InternalError | InvalidMessage byte

type_synonym 'a reader = "byte list \<Rightarrow> ('a \<times> byte list) option"

text \<open>\<open>WriteTo::write_to\<close> and \<open>ReadFrom::read_from\<close>, for a message with this tag and payload.\<close>

definition write_to :: "byte \<Rightarrow> ('a \<Rightarrow> byte list) \<Rightarrow> 'a \<Rightarrow> byte list" where
  "write_to tag write_payload_to m = tag # write_payload_to m"

definition read_from :: "byte \<Rightarrow> 'a reader \<Rightarrow> byte list \<Rightarrow> (read_error, 'a \<times> byte list) outcome" where
  "read_from tag read_payload_from bs =
     (case rd_u8 bs of
        None \<Rightarrow> Err InternalError
      | Some (t, bs) \<Rightarrow>
          if t = tag then or_err InternalError (read_payload_from bs) else Err (InvalidMessage t))"

section \<open>Strings\<close>

text \<open>A length byte (\<open>len() as u8\<close>, which truncates) and the bytes; read into a buffer of 256
  bytes and decoded lossily.\<close>

definition write_str :: "rstring \<Rightarrow> byte list" where
  "write_str s = of_nat (length s) # s"

definition read_str :: "rstring reader" where
  "read_str bs =
     (case rd_u8 bs of
        None \<Rightarrow> None
      | Some (len, bs) \<Rightarrow> map_option (\<lambda>(s, r). (utf8_lossy s, r)) (rd_exact (unat len) bs))"

section \<open>Messages\<close>

datatype error_msg = Error_msg (error_text: rstring)

definition TAG_Error :: byte where "TAG_Error = 0x10"

definition write_Error :: "error_msg \<Rightarrow> byte list" where
  "write_Error m = write_str (error_text m)"

definition read_Error :: "error_msg reader" where
  "read_Error bs = map_option (\<lambda>(s, r). (Error_msg s, r)) (read_str bs)"

datatype plate_msg = Plate_msg (plate_text: rstring) (plate_time: u32)

definition TAG_Plate :: byte where "TAG_Plate = 0x20"

definition write_Plate :: "plate_msg \<Rightarrow> byte list" where
  "write_Plate m = write_str (plate_text m) @ to_be_u32 (plate_time m)"

definition read_Plate :: "plate_msg reader" where
  "read_Plate bs =
     (case read_str bs of
        None \<Rightarrow> None
      | Some (s, bs) \<Rightarrow> map_option (\<lambda>(t, r). (Plate_msg s t, r)) (rd_u32 bs))"

record ticket =
  plate :: rstring
  road :: u16
  mile1 :: u16
  timestamp1 :: u32
  mile2 :: u16
  timestamp2 :: u32
  speed :: u16

definition TAG_Ticket :: byte where "TAG_Ticket = 0x21"

definition write_Ticket :: "ticket \<Rightarrow> byte list" where
  "write_Ticket m =
     write_str (plate m) @ to_be_u16 (road m) @ to_be_u16 (mile1 m) @ to_be_u32 (timestamp1 m) @
     to_be_u16 (mile2 m) @ to_be_u32 (timestamp2 m) @ to_be_u16 (speed m)"

definition read_Ticket :: "ticket reader" where
  "read_Ticket bs =
     (case read_str bs of None \<Rightarrow> None | Some (p, bs) \<Rightarrow>
     (case rd_u16 bs of None \<Rightarrow> None | Some (r, bs) \<Rightarrow>
     (case rd_u16 bs of None \<Rightarrow> None | Some (m1, bs) \<Rightarrow>
     (case rd_u32 bs of None \<Rightarrow> None | Some (t1, bs) \<Rightarrow>
     (case rd_u16 bs of None \<Rightarrow> None | Some (m2, bs) \<Rightarrow>
     (case rd_u32 bs of None \<Rightarrow> None | Some (t2, bs) \<Rightarrow>
     (case rd_u16 bs of None \<Rightarrow> None | Some (sp, bs) \<Rightarrow>
       Some (\<lparr>plate = p, road = r, mile1 = m1, timestamp1 = t1, mile2 = m2, timestamp2 = t2,
              speed = sp\<rparr>, bs))))))))"

datatype want_heartbeat = Want_heartbeat (interval_ds: u32)

definition TAG_WantHeartbeat :: byte where "TAG_WantHeartbeat = 0x40"

definition write_WantHeartbeat :: "want_heartbeat \<Rightarrow> byte list" where
  "write_WantHeartbeat m = to_be_u32 (interval_ds m)"

definition read_WantHeartbeat :: "want_heartbeat reader" where
  "read_WantHeartbeat bs = map_option (\<lambda>(i, r). (Want_heartbeat i, r)) (rd_u32 bs)"

datatype heartbeat_msg = Heartbeat_msg

definition TAG_Heartbeat :: byte where "TAG_Heartbeat = 0x41"

definition write_Heartbeat :: "heartbeat_msg \<Rightarrow> byte list" where
  "write_Heartbeat m = []"

definition read_Heartbeat :: "heartbeat_msg reader" where
  "read_Heartbeat bs = Some (Heartbeat_msg, bs)"

record i_am_camera =
  cam_road :: u16
  cam_mile :: u16
  cam_limit :: u16

definition TAG_IAmCamera :: byte where "TAG_IAmCamera = 0x80"

definition write_IAmCamera :: "i_am_camera \<Rightarrow> byte list" where
  "write_IAmCamera m = to_be_u16 (cam_road m) @ to_be_u16 (cam_mile m) @ to_be_u16 (cam_limit m)"

definition read_IAmCamera :: "i_am_camera reader" where
  "read_IAmCamera bs =
     (case rd_u16 bs of None \<Rightarrow> None | Some (r, bs) \<Rightarrow>
     (case rd_u16 bs of None \<Rightarrow> None | Some (m, bs) \<Rightarrow>
     (case rd_u16 bs of None \<Rightarrow> None | Some (l, bs) \<Rightarrow>
       Some (\<lparr>cam_road = r, cam_mile = m, cam_limit = l\<rparr>, bs))))"

datatype i_am_dispatcher = I_am_dispatcher (disp_roads: "u16 list")

definition TAG_IAmDispatcher :: byte where "TAG_IAmDispatcher = 0x81"

definition write_IAmDispatcher :: "i_am_dispatcher \<Rightarrow> byte list" where
  "write_IAmDispatcher m = of_nat (length (disp_roads m)) # concat (map to_be_u16 (disp_roads m))"

definition read_IAmDispatcher :: "i_am_dispatcher reader" where
  "read_IAmDispatcher bs =
     (case rd_u8 bs of
        None \<Rightarrow> None
      | Some (len, bs) \<Rightarrow> map_option (\<lambda>(rs, r). (I_am_dispatcher rs, r)) (rd_many rd_u16 (unat len) bs))"

section \<open>The interface of a message\<close>

locale tagged_message = field_codec put get ok
  for put :: "'a \<Rightarrow> byte list" and get :: "'a reader" and ok :: "'a \<Rightarrow> bool" +
  fixes tag :: byte
begin

lemma read_write: "ok m \<Longrightarrow> read_from tag get (write_to tag put m @ rest) = Ok (m, rest)"
  by (simp add: read_from_def write_to_def get_put)

lemma read_other_tag: "b \<noteq> tag \<Longrightarrow> read_from tag get (b # bs) = Err (InvalidMessage b)"
  by (simp add: read_from_def)

end

definition str_ok :: "rstring \<Rightarrow> bool" where
  "str_ok s \<longleftrightarrow> length s < 256 \<and> utf8_valid s"

lemma read_write_str: "str_ok s \<Longrightarrow> read_str (write_str s @ rest) = Some (s, rest)"
  by (simp add: read_str_def write_str_def str_ok_def unat_of_nat_small rd_exact_def utf8_lossy_valid)

interpretation str_codec: field_codec write_str read_str str_ok
  by unfold_locales (rule read_write_str)

interpretation error_message: tagged_message write_Error read_Error "\<lambda>m. str_ok (error_text m)" TAG_Error
  by unfold_locales (simp add: write_Error_def read_Error_def read_write_str)

interpretation plate_message: tagged_message write_Plate read_Plate "\<lambda>m. str_ok (plate_text m)" TAG_Plate
  by unfold_locales (simp add: write_Plate_def read_Plate_def read_write_str wire_simps)

interpretation ticket_message: tagged_message write_Ticket read_Ticket "\<lambda>m. str_ok (plate m)" TAG_Ticket
  by unfold_locales (simp add: write_Ticket_def read_Ticket_def read_write_str wire_simps)

interpretation want_heartbeat_message:
  tagged_message write_WantHeartbeat read_WantHeartbeat "\<lambda>_. True" TAG_WantHeartbeat
  by unfold_locales (simp add: write_WantHeartbeat_def read_WantHeartbeat_def wire_simps)

interpretation heartbeat_message: tagged_message write_Heartbeat read_Heartbeat "\<lambda>_. True" TAG_Heartbeat
  by unfold_locales (simp add: write_Heartbeat_def read_Heartbeat_def, metis heartbeat_msg.exhaust)

interpretation camera_message: tagged_message write_IAmCamera read_IAmCamera "\<lambda>_. True" TAG_IAmCamera
  by unfold_locales (simp add: write_IAmCamera_def read_IAmCamera_def wire_simps)

interpretation dispatcher_message:
  tagged_message write_IAmDispatcher read_IAmDispatcher "\<lambda>m. length (disp_roads m) < 256" TAG_IAmDispatcher
  by unfold_locales
    (simp add: write_IAmDispatcher_def read_IAmDispatcher_def unat_of_nat_small u16_codec.many_put)

section \<open>Properties\<close>

text \<open>Every message of the speed daemon whose strings are UTF-8 of at most 255 bytes and whose
  lists have at most 255 members is read back as it was written, whatever bytes follow it.\<close>

theorem speed_messages_roundtrip:
  assumes "str_ok (plate t)" and "str_ok (error_text e)" and "str_ok (plate_text p)"
    and "length (disp_roads d) < 256"
  shows "read_from TAG_Ticket read_Ticket (write_to TAG_Ticket write_Ticket t @ rest) = Ok (t, rest) \<and>
    read_from TAG_Error read_Error (write_to TAG_Error write_Error e @ rest) = Ok (e, rest) \<and>
    read_from TAG_Plate read_Plate (write_to TAG_Plate write_Plate p @ rest) = Ok (p, rest) \<and>
    read_from TAG_IAmDispatcher read_IAmDispatcher
      (write_to TAG_IAmDispatcher write_IAmDispatcher d @ rest) = Ok (d, rest) \<and>
    read_from TAG_IAmCamera read_IAmCamera (write_to TAG_IAmCamera write_IAmCamera c @ rest) = Ok (c, rest) \<and>
    read_from TAG_WantHeartbeat read_WantHeartbeat
      (write_to TAG_WantHeartbeat write_WantHeartbeat w @ rest) = Ok (w, rest) \<and>
    read_from TAG_Heartbeat read_Heartbeat (write_to TAG_Heartbeat write_Heartbeat h @ rest) = Ok (h, rest)"
  using assms
  by (intro conjI ticket_message.read_write error_message.read_write plate_message.read_write
      dispatcher_message.read_write camera_message.read_write want_heartbeat_message.read_write
      heartbeat_message.read_write) auto

lemma speed_messages_roundtrip_witness:
  "\<exists>t :: ticket. plate t = [85, 78] \<and>
     read_from TAG_Ticket read_Ticket (write_to TAG_Ticket write_Ticket t @ [1]) = Ok (t, [1])"
proof -
  let ?t = "\<lparr>plate = [85, 78], road = 66, mile1 = 100, timestamp1 = 123456, mile2 = 110,
      timestamp2 = 123816, speed = 10000\<rparr>"
  have "read_from TAG_Ticket read_Ticket (write_to TAG_Ticket write_Ticket ?t @ [1]) = Ok (?t, [1])"
    by (rule speed_messages_roundtrip [of ?t "Error_msg []" "Plate_msg [] 0" "I_am_dispatcher []", THEN conjunct1])
      (auto simp: str_ok_def is_ascii_def intro!: utf8_valid_ascii)
  then show ?thesis
    by (intro exI [of _ ?t]) simp
qed

text \<open>A camera's plate of bytes that are not UTF-8 grows when it is decoded, so that the ticket
  for it carries a length byte that is not the length of its plate: for 86 to 170 bytes of value 255
  the plate has three times as many bytes, and 256 less are announced.\<close>

theorem lossy_plate_breaks_ticket:
  assumes "86 \<le> n" and "n \<le> 170"
    and "read_Plate (of_nat n # replicate n 255 @ to_be_u32 ts @ rest) = Some (p, rest')"
    and "plate t = plate_text p"
  shows "length (plate t) = 3 * n \<and> unat (write_Ticket t ! 0) = 3 * n - 256"
proof -
  have "plate t = concat (replicate n [239, 191, 189])"
    using assms
    by (auto simp: read_Plate_def read_str_def unat_of_nat_small rd_exact_def utf8_lossy_replicate
        split: option.splits)
  then have len: "length (plate t) = 3 * n"
    by (simp add: length_concat sum_list_replicate)
  have "unat (of_nat (3 * n) :: byte) = 3 * n - 256"
    using assms(1,2) by (simp only: unat_of_nat) (simp add: mod_if)
  then show ?thesis
    using len by (simp add: write_Ticket_def write_str_def)
qed

lemma lossy_plate_breaks_ticket_witness:
  "\<exists>t :: ticket. length (plate t) = 3 * 100 \<and> unat (write_Ticket t ! 0) = 44"
proof -
  have "read_Plate (of_nat 100 # replicate 100 255 @ to_be_u32 0 @ [])
      = Some (Plate_msg (utf8_lossy (replicate 100 255)) 0, [])"
    by (simp add: read_Plate_def read_str_def rd_exact_def rd_u32_eq to_be_u32_def from_be_u32_def)
  from lossy_plate_breaks_ticket [OF _ _ this,
      of "\<lparr>plate = utf8_lossy (replicate 100 255), road = 0, mile1 = 0, timestamp1 = 0, mile2 = 0,
           timestamp2 = 0, speed = 0\<rparr>"]
  show ?thesis
    by (intro exI [of _ "\<lparr>plate = utf8_lossy (replicate 100 255), road = 0, mile1 = 0, timestamp1 = 0,
      mile2 = 0, timestamp2 = 0, speed = 0\<rparr>"]) simp
qed

end
