(* ===== verification/SpeedController.thy ===== *)
theory SpeedController
  imports SpeedWire
begin

text \<open>
  The ticketing rules of the speed daemon, \<open>rust/p06-speed-daemon/src/controller.rs\<close>. The order in
  which a \<open>HashSet\<close> is iterated is unspecified: it is the parameter \<open>order\<close>, of which only that it
  keeps the members is assumed. \<open>oc\<close> is the overflow mode of the build.
\<close>

definition UNIX_DAY :: u32 where
  "UNIX_DAY = 86400"

record observation =
  obs_road :: u16
  obs_mile :: u16
  obs_limit :: u16
  obs_plate :: rstring
  obs_time :: u32

record controller =
  observations :: "(rstring \<times> u16) \<rightharpoonup> (u16 \<times> u32) list"
  tickets :: "(rstring \<times> u32) set"

definition controller_new :: controller where
  "controller_new = \<lparr>observations = Map.empty, tickets = {}\<rparr>"

type_synonym order = "(u16 \<times> u32) list \<Rightarrow> (u16 \<times> u32) list"

text \<open>The unsigned difference of two values read as wider signed integers.\<close>

definition abs_diff16 :: "u16 \<Rightarrow> u16 \<Rightarrow> u32" where
  "abs_diff16 a b = of_nat (nat \<bar>int (unat a) - int (unat b)\<bar>)"

definition abs_diff32 :: "u32 \<Rightarrow> u32 \<Rightarrow> u32" where
  "abs_diff32 a b = of_nat (nat \<bar>int (unat a) - int (unat b)\<bar>)"

text \<open>Hundredths of miles per hour, capped at the largest \<open>u16\<close>.\<close>

definition speed_between :: "bool \<Rightarrow> u16 \<Rightarrow> u32 \<Rightarrow> u16 \<Rightarrow> u32 \<Rightarrow> (unit, u16) outcome" where
  "speed_between oc mile ts old_mile old_ts =
     (let dt = abs_diff32 ts old_ts
      in if 0 < dt then
           bind_outcome (mul_w oc (abs_diff16 mile old_mile) 100) (\<lambda>m.
           bind_outcome (mul_w oc m 3600) (\<lambda>dm.
             let sp = dm div dt in Ok (if 65535 < sp then 65535 else ucast sp)))
         else Ok 65535)"

definition day_range :: "u32 \<Rightarrow> u32 \<Rightarrow> u32 list" where
  "day_range d1 d2 = map of_nat [unat d1..<Suc (unat d2)]"

text \<open>The ticket for this observation and an earlier one: the earlier time comes first.\<close>

definition make_ticket :: "observation \<Rightarrow> u16 \<times> u32 \<Rightarrow> u16 \<Rightarrow> ticket" where
  "make_ticket ob old sp =
     (let (old_mile, old_ts) = old;
          (ts1, m1) = (if old_ts < obs_time ob then (old_ts, old_mile) else (obs_time ob, obs_mile ob));
          (ts2, m2) = (if old_ts < obs_time ob then (obs_time ob, obs_mile ob) else (old_ts, old_mile))
      in \<lparr>plate = obs_plate ob, road = obs_road ob, mile1 = m1, timestamp1 = ts1,
          mile2 = m2, timestamp2 = ts2, speed = sp\<rparr>)"

definition days_of :: "ticket \<Rightarrow> u32 list" where
  "days_of t = day_range (timestamp1 t div UNIX_DAY) (timestamp2 t div UNIX_DAY)"

type_synonym marks = "(rstring \<times> u32) set"

text \<open>The body of the loop over the earlier observations of the car on this road.\<close>

definition try_ticket ::
  "bool \<Rightarrow> u16 \<Rightarrow> observation \<Rightarrow> u16 \<times> u32 \<Rightarrow> marks \<times> ticket list \<Rightarrow> (unit, marks \<times> ticket list) outcome" where
  "try_ticket oc limit ob old st =
     bind_outcome (speed_between oc (obs_mile ob) (obs_time ob) (fst old) (snd old)) (\<lambda>sp.
       if limit < sp \<and> 50 \<le> sp - limit then
         (let (tks, acc) = st; t = make_ticket ob old sp
          in if list_all (\<lambda>d. (obs_plate ob, d) \<notin> tks) (days_of t)
             then Ok (tks \<union> Pair (obs_plate ob) ` set (days_of t), acc @ [t])
             else Ok st)
       else Ok st)"

fun signal_loop ::
  "bool \<Rightarrow> u16 \<Rightarrow> observation \<Rightarrow> (u16 \<times> u32) list \<Rightarrow> marks \<times> ticket list \<Rightarrow> (unit, marks \<times> ticket list) outcome" where
  "signal_loop oc limit ob [] st = Ok st"
| "signal_loop oc limit ob (old # olds) st =
     bind_outcome (try_ticket oc limit ob old st) (signal_loop oc limit ob olds)"

definition car_observations :: "controller \<Rightarrow> rstring \<times> u16 \<Rightarrow> (u16 \<times> u32) list" where
  "car_observations c key = (case observations c key of Some os \<Rightarrow> os | None \<Rightarrow> [])"

definition signal :: "bool \<Rightarrow> order \<Rightarrow> observation \<Rightarrow> controller \<Rightarrow> (unit, ticket list \<times> controller) outcome" where
  "signal oc order ob c =
     bind_outcome (mul_w oc (obs_limit ob) 100) (\<lambda>limit.
       let key = (obs_plate ob, obs_road ob);
           car = car_observations c key;
           here = (obs_mile ob, obs_time ob)
       in if here \<in> set car then Ok ([], c\<lparr>observations := (observations c)(key \<mapsto> car)\<rparr>)
          else
            bind_outcome (signal_loop oc limit ob (order car) (tickets c, [])) (\<lambda>(tks, out).
              Ok (out, c\<lparr>observations := (observations c)(key \<mapsto> here # car), tickets := tks\<rparr>)))"

text \<open>A sequence of signals; the tickets in the order they were issued.\<close>

fun signals :: "bool \<Rightarrow> order \<Rightarrow> observation list \<Rightarrow> controller \<Rightarrow> (unit, ticket list \<times> controller) outcome" where
  "signals oc order [] c = Ok ([], c)"
| "signals oc order (ob # obs) c =
     bind_outcome (signal oc order ob c) (\<lambda>(ts, c).
     bind_outcome (signals oc order obs c) (\<lambda>(us, c). Ok (ts @ us, c)))"

section \<open>Days of a ticket\<close>

definition ticket_days :: "ticket \<Rightarrow> nat set" where
  "ticket_days t = {unat (timestamp1 t) div 86400 .. unat (timestamp2 t) div 86400}"

lemma unat_day: "unat (ts div UNIX_DAY) = unat ts div 86400"
  by (simp add: UNIX_DAY_def unat_div)

lemma set_day_range: "d \<in> set (day_range a b) \<longleftrightarrow> unat a \<le> unat d \<and> unat d \<le> unat b"
proof
  assume "d \<in> set (day_range a b)"
  then obtain n where n: "unat a \<le> n" "n \<le> unat b" "d = of_nat n"
    by (auto simp: day_range_def)
  then have "n < 2 ^ 32"
    using unsigned_less [of b, where ?'a = nat] by simp
  then show "unat a \<le> unat d \<and> unat d \<le> unat b"
    using n by (simp add: unat_of_nat_small)
next
  assume "unat a \<le> unat d \<and> unat d \<le> unat b"
  then show "d \<in> set (day_range a b)"
    unfolding day_range_def by (auto simp: less_Suc_eq_le simp del: upt_Suc intro!: image_eqI [of _ _ "unat d"])
qed

text \<open>The invariant: the days of the tickets issued so far are marked, and tickets of one car do not
  share a day.\<close>

definition issued_ok :: "ticket list \<Rightarrow> (rstring \<times> u32) set \<Rightarrow> bool" where
  "issued_ok ts tks \<longleftrightarrow>
     (\<forall>t \<in> set ts. \<forall>d. unat d \<in> ticket_days t \<longrightarrow> (plate t, d) \<in> tks) \<and>
     (\<forall>d p. (p, d) \<in> tks \<longrightarrow> (\<exists>t \<in> set ts. plate t = p \<and> unat d \<in> ticket_days t)) \<and>
     (\<forall>i < length ts. \<forall>j < i. plate (ts ! i) = plate (ts ! j) \<longrightarrow>
        ticket_days (ts ! i) \<inter> ticket_days (ts ! j) = {})"

lemma set_days_of: "d \<in> set (days_of t) \<longleftrightarrow> unat d \<in> ticket_days t"
  by (simp add: days_of_def set_day_range unat_day ticket_days_def)

lemma ticket_days_u32: "n \<in> ticket_days u \<Longrightarrow> unat (of_nat n :: u32) = n"
  using unsigned_less [of "timestamp2 u", where ?'a = nat] div_le_dividend [of "unat (timestamp2 u)" 86400]
  unfolding ticket_days_def by (intro unat_of_nat_small) auto

lemma issued_ok_snoc:
  assumes ok: "issued_ok ts tks" and fresh: "list_all (\<lambda>d. (plate t, d) \<notin> tks) (days_of t)"
  shows "issued_ok (ts @ [t]) (tks \<union> Pair (plate t) ` set (days_of t))"
proof -
  have "ticket_days t \<inter> ticket_days u = {}" if "u \<in> set ts" "plate t = plate u" for u
  proof -
    have "n \<notin> ticket_days t" if "n \<in> ticket_days u" for n
    proof -
      have n: "unat (of_nat n :: u32) = n"
        by (rule ticket_days_u32 [OF that])
      then have "(plate t, of_nat n) \<in> tks"
        using ok \<open>u \<in> set ts\<close> \<open>plate t = plate u\<close> \<open>n \<in> ticket_days u\<close> unfolding issued_ok_def by metis
      then show ?thesis
        using fresh n by (auto simp: list_all_iff set_days_of)
    qed
    then show ?thesis
      by auto
  qed
  then have "\<forall>i < length (ts @ [t]). \<forall>j < i. plate ((ts @ [t]) ! i) = plate ((ts @ [t]) ! j) \<longrightarrow>
      ticket_days ((ts @ [t]) ! i) \<inter> ticket_days ((ts @ [t]) ! j) = {}"
    using ok by (auto simp: issued_ok_def nth_append less_Suc_eq)
  moreover have "\<forall>u \<in> set (ts @ [t]). \<forall>d. unat d \<in> ticket_days u \<longrightarrow>
      (plate u, d) \<in> tks \<union> Pair (plate t) ` set (days_of t)"
    using ok by (auto simp: issued_ok_def set_days_of)
  moreover have "\<forall>d q. (q, d) \<in> tks \<union> Pair (plate t) ` set (days_of t) \<longrightarrow>
      (\<exists>u \<in> set (ts @ [t]). plate u = q \<and> unat d \<in> ticket_days u)"
    using ok unfolding issued_ok_def by (auto simp: set_days_of)
  ultimately show ?thesis
    unfolding issued_ok_def by blast
qed

lemma make_ticket_simps [simp]:
  "plate (make_ticket ob old sp) = obs_plate ob" "road (make_ticket ob old sp) = obs_road ob"
  "speed (make_ticket ob old sp) = sp"
  by (simp_all add: make_ticket_def Let_def split_def)

lemma try_ticket_Ok:
  assumes "try_ticket oc limit ob old (tks, acc) = Ok (tks', acc')"
  obtains sp where "speed_between oc (obs_mile ob) (obs_time ob) (fst old) (snd old) = Ok sp"
    "limit < sp \<and> 50 \<le> sp - limit" "list_all (\<lambda>d. (obs_plate ob, d) \<notin> tks) (days_of (make_ticket ob old sp))"
    "tks' = tks \<union> Pair (obs_plate ob) ` set (days_of (make_ticket ob old sp))" "acc' = acc @ [make_ticket ob old sp]"
  | sp where "speed_between oc (obs_mile ob) (obs_time ob) (fst old) (snd old) = Ok sp"
    "tks' = tks" "acc' = acc" "limit < sp \<and> 50 \<le> sp - limit \<Longrightarrow>
       \<exists>d \<in> set (days_of (make_ticket ob old sp)). (obs_plate ob, d) \<in> tks"
  using assms by (fastforce simp: try_ticket_def Let_def list_all_iff split: if_splits)

lemma try_ticket_issued:
  "try_ticket oc limit ob old (tks, acc) = Ok (tks', acc') \<Longrightarrow> issued_ok (ts @ acc) tks \<Longrightarrow>
     issued_ok (ts @ acc') tks'"
  by (erule try_ticket_Ok) (auto dest: issued_ok_snoc [of "ts @ acc" _ "make_ticket ob old _"])

lemma signal_loop_issued:
  "signal_loop oc limit ob olds st = Ok st' \<Longrightarrow> issued_ok (ts @ snd st) (fst st) \<Longrightarrow>
     issued_ok (ts @ snd st') (fst st')"
proof (induction olds arbitrary: st)
  case (Cons old olds)
  obtain st1 where st1: "try_ticket oc limit ob old st = Ok st1" "signal_loop oc limit ob olds st1 = Ok st'"
    using Cons.prems(1) by auto
  have "issued_ok (ts @ snd st1) (fst st1)"
    using try_ticket_issued [of oc limit ob old "fst st" "snd st" "fst st1" "snd st1" ts] st1(1) Cons.prems(2)
    by simp
  then show ?case
    using Cons.IH [OF st1(2)] by simp
qed simp

lemma signal_issued:
  "signal oc order ob c = Ok (out, c') \<Longrightarrow> issued_ok ts (tickets c) \<Longrightarrow> issued_ok (ts @ out) (tickets c')"
  by (auto simp: signal_def Let_def split: if_splits dest!: signal_loop_issued [where ts = ts])

lemma signals_issued:
  "signals oc order obs c = Ok (out, c') \<Longrightarrow> issued_ok ts (tickets c) \<Longrightarrow> issued_ok (ts @ out) (tickets c')"
proof (induction obs arbitrary: c ts out)
  case (Cons ob obs)
  obtain out1 c1 out2 where "signal oc order ob c = Ok (out1, c1)" "signals oc order obs c1 = Ok (out2, c')"
    "out = out1 @ out2"
    using Cons.prems(1) by auto
  then show ?case
    using Cons.IH [of c1 out2 "ts @ out1"] signal_issued [of oc order ob c out1 c1 ts] Cons.prems(2) by simp
qed simp


section \<open>Speeds\<close>

text \<open>What the code means to compute: the average speed in hundredths of miles per hour, capped.\<close>

definition exact_speed :: "u16 \<times> u32 \<Rightarrow> u16 \<times> u32 \<Rightarrow> nat" where
  "exact_speed x y =
     (let dt = nat \<bar>int (unat (snd x)) - int (unat (snd y))\<bar>;
          dm = nat \<bar>int (unat (fst x)) - int (unat (fst y))\<bar>
      in if dt = 0 then 65535 else min 65535 (dm * 360000 div dt))"

lemma exact_speed_commute: "exact_speed x y = exact_speed y x"
  by (simp add: exact_speed_def Let_def abs_minus_commute)

lemma abs_diff_bound: "x < m \<Longrightarrow> y < m \<Longrightarrow> nat \<bar>int x - int y\<bar> < m"
  by linarith

lemma unat_abs_diff16: "unat (abs_diff16 a b) = nat \<bar>int (unat a) - int (unat b)\<bar>"
proof -
  have "nat \<bar>int (unat a) - int (unat b)\<bar> < 65536"
    using unsigned_less [of a, where ?'a = nat] unsigned_less [of b, where ?'a = nat]
    by (intro abs_diff_bound) simp_all
  then show ?thesis
    unfolding abs_diff16_def by (intro unat_of_nat_small) simp
qed

lemma unat_abs_diff32: "unat (abs_diff32 a b) = nat \<bar>int (unat a) - int (unat b)\<bar>"
proof -
  have "nat \<bar>int (unat a) - int (unat b)\<bar> < 4294967296"
    using unsigned_less [of a, where ?'a = nat] unsigned_less [of b, where ?'a = nat]
    by (intro abs_diff_bound) simp_all
  then show ?thesis
    unfolding abs_diff32_def by (intro unat_of_nat_small) simp
qed

lemma mul_w_True_Ok: "mul_w True a b = Ok (c :: 'l::len word) \<Longrightarrow> unat c = unat a * unat b"
  by (auto simp: mul_w_def unat_mul_lem' split: if_splits)

text \<open>With overflow checks a speed that is returned at all is the exact one.\<close>

lemma speed_between_exact:
  assumes "speed_between True m t m' t' = Ok sp"
  shows "unat sp = exact_speed (m, t) (m', t')"
proof (cases "0 < abs_diff32 t t'")
  case True
  then obtain x y where xy: "mul_w True (abs_diff16 m m') 100 = (Ok x :: (unit, u32) outcome)"
    "mul_w True x 3600 = (Ok y :: (unit, u32) outcome)"
    and sp: "sp = (if 65535 < y div abs_diff32 t t' then 65535 else ucast (y div abs_diff32 t t'))"
    using assms by (auto simp: speed_between_def Let_def)
  have y: "unat y = unat (abs_diff16 m m') * 360000"
    using mul_w_True_Ok [OF xy(1)] mul_w_True_Ok [OF xy(2)] by simp
  let ?q = "y div abs_diff32 t t'"
  have q: "unat ?q = unat (abs_diff16 m m') * 360000 div unat (abs_diff32 t t')"
    by (simp add: unat_div y)
  have "unat sp = min 65535 (unat ?q)"
  proof (cases "65535 < ?q")
    case False
    then have le: "unat ?q \<le> 65535"
      by (simp add: word_less_nat_alt)
    then have "unat (ucast ?q :: u16) = unat ?q"
      by (simp add: unsigned_ucast_eq take_bit_nat_eq_self)
    then show ?thesis
      using sp False le by simp
  qed (use sp in \<open>simp add: word_less_nat_alt\<close>)
  moreover have "unat (abs_diff32 t t') \<noteq> 0"
    using True by (simp add: word_less_nat_alt)
  ultimately show ?thesis
    by (simp add: q exact_speed_def Let_def unat_abs_diff16 unat_abs_diff32)
next
  case False
  then have "unat (abs_diff32 t t') = 0"
    by (simp add: word_less_nat_alt)
  then show ?thesis
    using assms False by (simp add: speed_between_def exact_speed_def Let_def unat_abs_diff32)
qed

lemma over_limit_nat:
  assumes "mul_w True l 100 = (Ok limit :: (unit, u16) outcome)"
  shows "limit < sp \<and> 50 \<le> sp - limit \<longleftrightarrow> unat l * 100 + 50 \<le> unat sp"
proof -
  have l: "unat limit = unat l * 100"
    using mul_w_True_Ok [OF assms] by simp
  show ?thesis
  proof (cases "limit \<le> sp")
    case True
    then show ?thesis
      using l unat_sub' [OF True] by (auto simp: word_less_nat_alt word_le_nat_alt)
  next
    case False
    then show ?thesis
      using l by (auto simp: word_less_nat_alt word_le_nat_alt)
  qed
qed

section \<open>Every ticket is deserved\<close>

definition point :: "observation \<Rightarrow> u16 \<times> u32" where
  "point ob = (obs_mile ob, obs_time ob)"

text \<open>The two observations behind a ticket.\<close>

definition deserved :: "observation set \<Rightarrow> ticket \<Rightarrow> bool" where
  "deserved H t \<longleftrightarrow>
     (\<exists>a \<in> H. \<exists>b \<in> H. obs_plate a = plate t \<and> obs_plate b = plate t \<and> obs_road a = road t \<and> obs_road b = road t \<and>
        point a \<noteq> point b \<and>
        (mile1 t, timestamp1 t) = point a \<and> (mile2 t, timestamp2 t) = point b \<and> timestamp1 t \<le> timestamp2 t \<and>
        unat (speed t) = exact_speed (point a) (point b) \<and>
        (unat (obs_limit a) * 100 + 50 \<le> unat (speed t) \<or> unat (obs_limit b) * 100 + 50 \<le> unat (speed t)))"

lemma deserved_mono: "deserved H t \<Longrightarrow> H \<subseteq> K \<Longrightarrow> deserved K t"
  unfolding deserved_def by blast

definition recorded :: "observation set \<Rightarrow> controller \<Rightarrow> bool" where
  "recorded H c \<longleftrightarrow>
     (\<forall>p r os x. observations c (p, r) = Some os \<longrightarrow> x \<in> set os \<longrightarrow>
        (\<exists>a \<in> H. obs_plate a = p \<and> obs_road a = r \<and> point a = x))"

lemma make_ticket_deserved:
  assumes "ob \<in> H" "a \<in> H" "obs_plate a = obs_plate ob" "obs_road a = obs_road ob" "point a = old"
    and "point ob \<noteq> old" "unat sp = exact_speed (point ob) old" "unat (obs_limit ob) * 100 + 50 \<le> unat sp"
  shows "deserved H (make_ticket ob old sp)"
proof (cases "snd old < obs_time ob")
  case True
  then show ?thesis
    unfolding deserved_def
    by (intro bexI [of _ a] bexI [of _ ob])
      (use assms in \<open>auto simp: make_ticket_def point_def exact_speed_commute\<close>)
next
  case False
  then show ?thesis
    unfolding deserved_def
    by (intro bexI [of _ ob] bexI [of _ a])
      (use assms in \<open>auto simp: make_ticket_def point_def exact_speed_commute\<close>)
qed

lemma signal_loop_deserved:
  "signal_loop True limit ob olds st = Ok st' \<Longrightarrow> mul_w True (obs_limit ob) 100 = (Ok limit :: (unit, u16) outcome) \<Longrightarrow>
   ob \<in> H \<Longrightarrow> point ob \<notin> set olds \<Longrightarrow>
   (\<And>x. x \<in> set olds \<Longrightarrow> \<exists>a \<in> H. obs_plate a = obs_plate ob \<and> obs_road a = obs_road ob \<and> point a = x) \<Longrightarrow>
   \<forall>t \<in> set (snd st). deserved H t \<Longrightarrow> \<forall>t \<in> set (snd st'). deserved H t"
proof (induction olds arbitrary: st)
  case (Cons old olds)
  obtain tks acc st1 where st: "st = (tks, acc)" and st1: "try_ticket True limit ob old st = Ok st1"
    "signal_loop True limit ob olds st1 = Ok st'"
    using Cons.prems(1) by (cases st) auto
  obtain tks1 acc1 where s1: "st1 = (tks1, acc1)"
    by (cases st1)
  obtain a where a: "a \<in> H" "obs_plate a = obs_plate ob" "obs_road a = obs_road ob" "point a = old"
    using Cons.prems(5) [of old] by auto
  have "\<forall>t \<in> set acc1. deserved H t"
    using st1(1) [unfolded st s1]
  proof (cases rule: try_ticket_Ok)
    case (1 sp)
    have "deserved H (make_ticket ob old sp)"
      using Cons.prems(3,4) a 1(2) over_limit_nat [OF Cons.prems(2), of sp] speed_between_exact [OF 1(1)]
      by (intro make_ticket_deserved [OF Cons.prems(3) a]) (auto simp: point_def)
    then show ?thesis
      using 1 Cons.prems(6) st by auto
  next
    case (2 sp)
    then show ?thesis
      using Cons.prems(6) st by auto
  qed
  then show ?case
    using Cons.IH [OF st1(2) Cons.prems(2,3)] Cons.prems(4,5) s1 by auto
qed simp

lemma signal_deserved:
  assumes "signal True order ob c = Ok (out, c')" and "recorded H c" and "\<And>xs. set (order xs) = set xs"
  shows "recorded (insert ob H) c' \<and> (\<forall>t \<in> set out. deserved (insert ob H) t)"
proof -
  let ?key = "(obs_plate ob, obs_road ob)"
  define car where "car = car_observations c ?key"
  obtain limit where limit: "mul_w True (obs_limit ob) 100 = (Ok limit :: (unit, u16) outcome)"
    using assms(1) by (auto simp: signal_def)
  have car: "\<exists>a \<in> insert ob H. obs_plate a = obs_plate ob \<and> obs_road a = obs_road ob \<and> point a = x" if x: "x \<in> set car" for x
  proof -
    obtain os where "observations c ?key = Some os" "x \<in> set os"
      using x by (cases "observations c ?key") (auto simp: car_def car_observations_def)
    then show ?thesis
      using assms(2) unfolding recorded_def by blast
  qed
  show ?thesis
  proof (cases "point ob \<in> set car")
    case True
    then have "out = [] \<and> c' = c\<lparr>observations := (observations c)(?key \<mapsto> car)\<rparr>"
      using assms(1) limit by (auto simp: signal_def Let_def car_def point_def)
    then show ?thesis
      using assms(2) car by (auto simp: recorded_def; meson insertCI)
  next
    case False
    then obtain tks where loop: "signal_loop True limit ob (order car) (tickets c, []) = Ok (tks, out)"
      and c': "c' = c\<lparr>observations := (observations c)(?key \<mapsto> point ob # car), tickets := tks\<rparr>"
      using assms(1) limit by (auto simp: signal_def Let_def car_def point_def)
    have "\<forall>t \<in> set out. deserved (insert ob H) t"
      using signal_loop_deserved [OF loop limit, of "insert ob H"] False car assms(3) by auto
    moreover have "recorded (insert ob H) c'"
      using assms(2) car unfolding c' recorded_def by (auto split: if_splits; meson insertCI)
    ultimately show ?thesis
      by simp
  qed
qed


lemma signals_deserved:
  assumes "signals True order obs c = Ok (out, c')" and "recorded H c" and "\<And>xs. set (order xs) = set xs"
  shows "\<forall>t \<in> set out. deserved (H \<union> set obs) t"
  using assms(1,2)
proof (induction obs arbitrary: c H out)
  case (Cons ob obs)
  obtain out1 c1 out2 where o: "signal True order ob c = Ok (out1, c1)"
    "signals True order obs c1 = Ok (out2, c')" "out = out1 @ out2"
    using Cons.prems(1) by auto
  then show ?case
    using signal_deserved [OF o(1) Cons.prems(2) assms(3)] Cons.IH [OF o(2), of "insert ob H"]
    by (auto intro: deserved_mono)
qed simp

section \<open>Every speeding car gets a ticket\<close>

definition span :: "u16 \<times> u32 \<Rightarrow> u16 \<times> u32 \<Rightarrow> nat set" where
  "span x y = {min (unat (snd x)) (unat (snd y)) div 86400 .. max (unat (snd x)) (unat (snd y)) div 86400}"

lemma span_commute: "span x y = span y x"
  by (simp add: span_def min.commute max.commute)

lemma span_ticket: "ticket_days (make_ticket ob old sp) = span (point ob) old"
  by (auto simp: make_ticket_def span_def ticket_days_def point_def word_less_nat_alt min_def max_def split_def)

text \<open>The members of \<open>xs\<close> that \<open>x\<close> was too fast from or to have a marked day between.\<close>

definition covered :: "nat \<Rightarrow> rstring \<Rightarrow> marks \<Rightarrow> u16 \<times> u32 \<Rightarrow> u16 \<times> u32 \<Rightarrow> bool" where
  "covered l p tks x y \<longleftrightarrow> l * 100 + 50 \<le> exact_speed x y \<longrightarrow> (\<exists>d. (p, d) \<in> tks \<and> unat d \<in> span x y)"

lemma covered_mono: "covered l p tks x y \<Longrightarrow> tks \<subseteq> tks' \<Longrightarrow> covered l p tks' x y"
  unfolding covered_def by blast

lemma covered_commute: "covered l p tks x y \<longleftrightarrow> covered l p tks y x"
  by (simp add: covered_def exact_speed_commute [of x] span_commute [of x])

lemma days_of_nonempty: "timestamp1 t \<le> timestamp2 t \<Longrightarrow> \<exists>d. d \<in> set (days_of t)"
  unfolding set_days_of
  by (rule exI [of _ "timestamp1 t div UNIX_DAY"])
    (simp add: ticket_days_def unat_day div_le_mono word_le_nat_alt)

lemma make_ticket_le: "timestamp1 (make_ticket ob old sp) \<le> timestamp2 (make_ticket ob old sp)"
  by (auto simp: make_ticket_def split_def)

lemma try_ticket_covers:
  assumes "try_ticket True limit ob old (tks, acc) = Ok (tks', acc')"
    and "mul_w True (obs_limit ob) 100 = (Ok limit :: (unit, u16) outcome)"
  shows "covered (unat (obs_limit ob)) (obs_plate ob) tks' (point ob) old \<and> tks \<subseteq> tks'"
  using assms(1)
proof (cases rule: try_ticket_Ok)
  case (1 sp)
  obtain d where d: "d \<in> set (days_of (make_ticket ob old sp))"
    using days_of_nonempty [OF make_ticket_le] by blast
  have "(obs_plate ob, d) \<in> tks'" "unat d \<in> span (point ob) old"
    using d 1(4) by (auto simp: set_days_of span_ticket)
  then show ?thesis
    using 1(4) unfolding covered_def by blast
next
  case (2 sp)
  have "\<exists>d. (obs_plate ob, d) \<in> tks' \<and> unat d \<in> span (point ob) old"
    if "unat (obs_limit ob) * 100 + 50 \<le> exact_speed (point ob) old"
  proof -
    have "limit < sp \<and> 50 \<le> sp - limit"
      using that over_limit_nat [OF assms(2), of sp] speed_between_exact [OF 2(1)] by (simp add: point_def)
    then obtain d where "d \<in> set (days_of (make_ticket ob old sp))" "(obs_plate ob, d) \<in> tks"
      using 2(4) by blast
    then show ?thesis
      using 2(2) by (auto simp: set_days_of span_ticket)
  qed
  then show ?thesis
    using 2(2) by (simp add: covered_def)
qed

lemma signal_loop_covers:
  "signal_loop True limit ob olds st = Ok st' \<Longrightarrow> mul_w True (obs_limit ob) 100 = (Ok limit :: (unit, u16) outcome) \<Longrightarrow>
     fst st \<subseteq> fst st' \<and> (\<forall>old \<in> set olds. covered (unat (obs_limit ob)) (obs_plate ob) (fst st') (point ob) old)"
proof (induction olds arbitrary: st)
  case (Cons old olds)
  obtain st1 where st1: "try_ticket True limit ob old st = Ok st1" "signal_loop True limit ob olds st1 = Ok st'"
    using Cons.prems(1) by auto
  have "covered (unat (obs_limit ob)) (obs_plate ob) (fst st1) (point ob) old \<and> fst st \<subseteq> fst st1"
    using try_ticket_covers [of limit ob old "fst st" "snd st" "fst st1" "snd st1"] st1(1) Cons.prems(2) by simp
  then show ?case
    using Cons.IH [OF st1(2) Cons.prems(2)] by (auto intro: covered_mono)
qed simp

definition complete :: "(u16 \<Rightarrow> u16) \<Rightarrow> controller \<Rightarrow> bool" where
  "complete L c \<longleftrightarrow>
     (\<forall>p r os x y. observations c (p, r) = Some os \<longrightarrow> x \<in> set os \<longrightarrow> y \<in> set os \<longrightarrow> x \<noteq> y \<longrightarrow>
        covered (unat (L r)) p (tickets c) x y)"

lemma signal_complete:
  assumes res: "signal True order ob c = Ok (out, c')" and comp: "complete L c" and "obs_limit ob = L (obs_road ob)"
    and order: "\<And>xs. set (order xs) = set xs"
  shows "complete L c' \<and> tickets c \<subseteq> tickets c' \<and>
    (\<exists>os. observations c' (obs_plate ob, obs_road ob) = Some os \<and> point ob \<in> set os) \<and>
    (\<forall>k os. observations c k = Some os \<longrightarrow> (\<exists>os'. observations c' k = Some os' \<and> set os \<subseteq> set os'))"
proof -
  let ?key = "(obs_plate ob, obs_road ob)"
  define car where "car = car_observations c ?key"
  obtain limit where limit: "mul_w True (obs_limit ob) 100 = (Ok limit :: (unit, u16) outcome)"
    using res by (auto simp: signal_def)
  have car: "observations c ?key = Some os \<Longrightarrow> car = os" for os
    by (simp add: car_def car_observations_def)
  have old: "covered (unat (L (obs_road ob))) (obs_plate ob) (tickets c) x y"
    if "x \<in> set car" "y \<in> set car" "x \<noteq> y" for x y
  proof (cases "observations c ?key")
    case (Some os)
    then have "car = os"
      by (simp add: car_def car_observations_def)
    then show ?thesis
      using comp that Some unfolding complete_def by blast
  qed (use that in \<open>simp add: car_def car_observations_def\<close>)
  show ?thesis
  proof (cases "point ob \<in> set car")
    case True
    then have c': "c' = c\<lparr>observations := (observations c)(?key \<mapsto> car)\<rparr>"
      using res limit by (auto simp: signal_def Let_def car_def point_def)
    then show ?thesis
      using comp old True car by (auto simp: complete_def)
  next
    case False
    then obtain tks where loop: "signal_loop True limit ob (order car) (tickets c, []) = Ok (tks, out)"
      and c': "c' = c\<lparr>observations := (observations c)(?key \<mapsto> point ob # car), tickets := tks\<rparr>"
      using res limit by (auto simp: signal_def Let_def car_def point_def)
    have sub: "tickets c \<subseteq> tks"
      and new: "\<forall>x \<in> set car. covered (unat (L (obs_road ob))) (obs_plate ob) tks (point ob) x"
      using signal_loop_covers [OF loop limit] assms(3) order by auto
    have "complete L c'"
      unfolding complete_def
    proof (intro allI impI)
      fix p r os x y
      assume xy: "observations c' (p, r) = Some os" "x \<in> set os" "y \<in> set os" "x \<noteq> y"
      show "covered (unat (L r)) p (tickets c') x y"
      proof (cases "(p, r) = ?key")
        case True
        then have os: "os = point ob # car"
          using xy(1) c' by simp
        consider "x = point ob" "y \<in> set car" | "x \<in> set car" "y = point ob" | "x \<in> set car" "y \<in> set car"
          using xy(2-4) unfolding os by auto
        then show ?thesis
        proof cases
          case 1
          then show ?thesis
            using True new by (simp add: c')
        next
          case 2
          then show ?thesis
            using True new covered_commute [of _ _ _ x] by (simp add: c')
        next
          case 3
          then show ?thesis
            using True covered_mono [OF old sub] xy(4) by (simp add: c')
        qed
      next
        case False
        then have "observations c (p, r) = Some os"
          using xy(1) c' by auto
        then have "covered (unat (L r)) p (tickets c) x y"
          using comp xy unfolding complete_def by blast
        then show ?thesis
          using c' sub covered_mono by simp
      qed
    qed
    then show ?thesis
      using sub car unfolding c' by auto
  qed
qed


lemma signals_complete:
  assumes order: "\<And>xs. set (order xs) = set xs"
  shows "signals True order obs c = Ok (out, c') \<Longrightarrow> complete L c \<Longrightarrow>
    \<forall>ob \<in> set obs. obs_limit ob = L (obs_road ob) \<Longrightarrow>
    complete L c' \<and>
    (\<forall>ob \<in> set obs. \<exists>os. observations c' (obs_plate ob, obs_road ob) = Some os \<and> point ob \<in> set os) \<and>
    (\<forall>k os. observations c k = Some os \<longrightarrow> (\<exists>os'. observations c' k = Some os' \<and> set os \<subseteq> set os'))"
proof (induction obs arbitrary: c out)
  case (Cons ob obs)
  obtain out1 c1 out2 where o: "signal True order ob c = Ok (out1, c1)"
    "signals True order obs c1 = Ok (out2, c')"
    using Cons.prems(1) by auto
  have one: "complete L c1"
    "\<exists>os. observations c1 (obs_plate ob, obs_road ob) = Some os \<and> point ob \<in> set os"
    "\<forall>k os. observations c k = Some os \<longrightarrow> (\<exists>os'. observations c1 k = Some os' \<and> set os \<subseteq> set os')"
    using signal_complete [OF o(1) Cons.prems(2) _ order] Cons.prems(3) by auto
  have rest: "complete L c'"
    "\<forall>ob \<in> set obs. \<exists>os. observations c' (obs_plate ob, obs_road ob) = Some os \<and> point ob \<in> set os"
    "\<forall>k os. observations c1 k = Some os \<longrightarrow> (\<exists>os'. observations c' k = Some os' \<and> set os \<subseteq> set os')"
    using Cons.IH [OF o(2) one(1)] Cons.prems(3) by auto
  have "\<exists>os. observations c' (obs_plate ob, obs_road ob) = Some os \<and> point ob \<in> set os"
    using one(2) rest(3) by blast
  moreover have "\<forall>k os. observations c k = Some os \<longrightarrow> (\<exists>os'. observations c' k = Some os' \<and> set os \<subseteq> set os')"
    using one(3) rest(3) by (meson subset_trans)
  ultimately show ?case
    using rest by simp
qed auto

lemma controller_new_facts:
  "complete L controller_new" "recorded {} controller_new" "issued_ok [] (tickets controller_new)"
  by (auto simp: controller_new_def complete_def recorded_def issued_ok_def)

section \<open>Limits and miles that do not overflow\<close>

text \<open>Below these bounds no product overflows, and the two kinds of build do the same.\<close>

definition in_bounds :: "u16 \<Rightarrow> u16 \<Rightarrow> bool" where
  "in_bounds limit mile \<longleftrightarrow> limit \<le> 655 \<and> mile \<le> 11930"

definition no_overflow :: "bool \<Rightarrow> observation list \<Rightarrow> bool" where
  "no_overflow oc obs \<longleftrightarrow> oc \<or> (\<forall>ob \<in> set obs. in_bounds (obs_limit ob) (obs_mile ob))"

lemma mul_w_mode:
  "unat a * unat b < 2 ^ LENGTH('l) \<Longrightarrow> (mul_w oc a b :: ('e, 'l::len word) outcome) = mul_w True a b"
  by (cases oc) (simp_all add: mul_w_Ok)

lemma speed_between_mode:
  assumes "m \<le> 11930" and "m' \<le> 11930"
  shows "speed_between oc m t m' t' = speed_between True m t m' t'"
proof -
  have d: "unat (abs_diff16 m m') \<le> 11930"
    using abs_diff_bound [of "unat m" 11931 "unat m'"] assms
    by (simp add: unat_abs_diff16 word_le_nat_alt less_Suc_eq_le)
  then have one: "mul_w oc' (abs_diff16 m m') 100 = (Ok (abs_diff16 m m' * 100) :: (unit, u32) outcome)" for oc'
    by (intro mul_w_Ok) simp
  have "unat (abs_diff16 m m' * 100) = unat (abs_diff16 m m') * 100"
    using d by (simp add: unat_mul_lem')
  then have "mul_w oc' (abs_diff16 m m' * 100) 3600 = (Ok (abs_diff16 m m' * 100 * 3600) :: (unit, u32) outcome)" for oc'
    using d by (intro mul_w_Ok) simp
  with one show ?thesis
    unfolding speed_between_def Let_def by simp
qed

lemma signal_loop_mode:
  "obs_mile ob \<le> 11930 \<Longrightarrow> \<forall>old \<in> set olds. fst old \<le> 11930 \<Longrightarrow>
     signal_loop oc limit ob olds st = signal_loop True limit ob olds st"
proof (induction olds arbitrary: st)
  case (Cons old olds)
  have "try_ticket oc limit ob old st = try_ticket True limit ob old st"
    using Cons.prems by (simp add: try_ticket_def speed_between_mode [of "obs_mile ob" "fst old" oc])
  moreover have "signal_loop oc limit ob olds = signal_loop True limit ob olds"
    using Cons by (intro ext) simp
  ultimately show ?case
    by simp
qed simp

definition miles_ok :: "controller \<Rightarrow> bool" where
  "miles_ok c \<longleftrightarrow> (\<forall>k os x. observations c k = Some os \<longrightarrow> x \<in> set os \<longrightarrow> fst x \<le> 11930)"

lemma miles_ok_car: "miles_ok c \<Longrightarrow> x \<in> set (car_observations c k) \<Longrightarrow> fst x \<le> 11930"
  by (cases "observations c k") (auto simp: car_observations_def miles_ok_def simp del: split_paired_All)

lemma signal_mode:
  assumes "in_bounds (obs_limit ob) (obs_mile ob)" and "miles_ok c" and "\<And>xs. set (order xs) = set xs"
  shows "signal oc order ob c = signal True order ob c"
proof -
  let ?car = "car_observations c (obs_plate ob, obs_road ob)"
  have limit: "mul_w oc (obs_limit ob) 100 = (mul_w True (obs_limit ob) 100 :: (unit, u16) outcome)"
    using assms(1) by (intro mul_w_mode) (simp add: in_bounds_def word_le_nat_alt)
  have loop: "signal_loop oc l ob (order ?car) st = signal_loop True l ob (order ?car) st" for l st
    using assms miles_ok_car [OF assms(2)] by (intro signal_loop_mode) (auto simp: in_bounds_def)
  show ?thesis
    unfolding signal_def Let_def limit loop ..
qed

lemma signal_miles_ok:
  assumes "signal oc order ob c = Ok (out, c')" and "miles_ok c" and "obs_mile ob \<le> 11930"
  shows "miles_ok c'"
proof -
  let ?key = "(obs_plate ob, obs_road ob)"
  let ?car = "car_observations c ?key"
  have "observations c' = (observations c)(?key \<mapsto> ?car) \<or>
      observations c' = (observations c)(?key \<mapsto> (obs_mile ob, obs_time ob) # ?car)"
    using assms(1) by (auto simp: signal_def Let_def split: if_splits)
  then obtain xs where "observations c' = (observations c)(?key \<mapsto> xs)"
    "set xs \<subseteq> insert (obs_mile ob, obs_time ob) (set ?car)"
    by auto
  then show ?thesis
    using assms(2,3) miles_ok_car [OF assms(2), of _ ?key]
    by (auto simp: miles_ok_def simp del: split_paired_All split: if_splits)
qed

lemma signals_mode:
  "\<forall>ob \<in> set obs. in_bounds (obs_limit ob) (obs_mile ob) \<Longrightarrow> miles_ok c \<Longrightarrow> (\<And>xs. set (order xs) = set xs) \<Longrightarrow>
     signals oc order obs c = signals True order obs c"
proof (induction obs arbitrary: c)
  case (Cons ob obs)
  have one: "signal oc order ob c = signal True order ob c"
    using Cons.prems by (intro signal_mode) auto
  have "signals oc order obs c1 = signals True order obs c1" if "signal True order ob c = Ok (out, c1)" for out c1
    using Cons.prems signal_miles_ok [OF that] by (intro Cons.IH) (auto simp: in_bounds_def)
  then show ?case
    unfolding signals.simps one by (cases "signal True order ob c") auto
qed simp

lemma signals_no_overflow:
  assumes "signals oc order obs controller_new = Ok r" and "\<And>xs. set (order xs) = set xs" and "no_overflow oc obs"
  shows "signals True order obs controller_new = Ok r"
proof (cases oc)
  case False
  have "miles_ok controller_new"
    by (simp add: miles_ok_def controller_new_def)
  then show ?thesis
    using signals_mode [of obs controller_new order oc] assms False by (simp add: no_overflow_def)
qed (use assms(1) in simp)

section \<open>Properties\<close>

definition demo_obs :: "observation list" where
  "demo_obs =
     [\<lparr>obs_road = 123, obs_mile = 8, obs_limit = 60, obs_plate = [85, 78], obs_time = 0\<rparr>,
      \<lparr>obs_road = 123, obs_mile = 9, obs_limit = 60, obs_plate = [85, 78], obs_time = 45\<rparr>]"

lemma demo_signals:
  "\<exists>c. signals True id demo_obs controller_new =
     Ok ([\<lparr>plate = [85, 78], road = 123, mile1 = 8, timestamp1 = 0, mile2 = 9, timestamp2 = 45, speed = 8000\<rparr>], c)"
  by (simp add: demo_obs_def controller_new_def signal_def Let_def mul_w_def try_ticket_def speed_between_def car_observations_def
      abs_diff16_def abs_diff32_def make_ticket_def days_of_def day_range_def UNIX_DAY_def)

text \<open>C5: Tickets for one car never share a day, in the order that they were issued and whatever
  the observations, the iteration order of the sets and the build's overflow mode.\<close>

theorem one_ticket_per_day:
  assumes "signals oc order obs controller_new = Ok (out, c)"
    and "j < i" and "i < length out" and "plate (out ! i) = plate (out ! j)"
  shows "ticket_days (out ! i) \<inter> ticket_days (out ! j) = {}"
proof -
  have "issued_ok ([] @ out) (tickets c)"
    by (rule signals_issued [OF assms(1) controller_new_facts(3)])
  then show ?thesis
    using assms(2-4) by (simp add: issued_ok_def)
qed

lemma one_ticket_per_day_witness:
  "\<exists>out c. signals True id (demo_obs @ map (\<lambda>ob. ob\<lparr>obs_time := obs_time ob + 86400\<rparr>) demo_obs) controller_new
       = Ok (out, c) \<and> length out = 2 \<and> ticket_days (out ! 1) \<inter> ticket_days (out ! 0) = {}"
proof -
  obtain out c where run: "signals True id (demo_obs @ map (\<lambda>ob. ob\<lparr>obs_time := obs_time ob + 86400\<rparr>) demo_obs)
      controller_new = Ok (out, c)" and out: "length out = 2" "plate (out ! 1) = plate (out ! 0)"
    by (simp add: demo_obs_def controller_new_def signal_def Let_def mul_w_def try_ticket_def speed_between_def
        car_observations_def abs_diff16_def abs_diff32_def make_ticket_def days_of_def day_range_def UNIX_DAY_def)
  show ?thesis
    using one_ticket_per_day [OF run, of 0 1] run out by (intro exI [of _ out] exI [of _ c]) simp
qed

text \<open>C12: In a build with overflow checks, and in one without when every limit is at most 655 miles per
  hour and every mile at most 11930, every ticket is deserved: it names two observations of the car on
  that road, in the order of their times, its speed is exactly the average between them in hundredths of
  miles per hour (or 65535, the largest \<open>u16\<close>, if it is faster, and if they are at the same time), and this
  exceeds the limit reported with one of them by half a mile per hour or more.\<close>

theorem tickets_deserved:
  assumes "signals oc order obs controller_new = Ok (out, c)" and "\<And>xs. set (order xs) = set xs"
    and "no_overflow oc obs" and "t \<in> set out"
  shows "deserved (set obs) t"
  using signals_deserved [OF signals_no_overflow [OF assms(1-3)] controller_new_facts(2) assms(2)] assms(4)
  by simp

lemma tickets_deserved_witness:
  "deserved (set demo_obs)
     \<lparr>plate = [85, 78], road = 123, mile1 = 8, timestamp1 = 0, mile2 = 9, timestamp2 = 45, speed = 8000\<rparr>"
proof -
  obtain c where "signals True id demo_obs controller_new =
     Ok ([\<lparr>plate = [85, 78], road = 123, mile1 = 8, timestamp1 = 0, mile2 = 9, timestamp2 = 45, speed = 8000\<rparr>], c)"
    using demo_signals by blast
  then show ?thesis
    by (rule tickets_deserved) (auto simp: no_overflow_def)
qed

text \<open>C13: Nobody gets away. In a build with overflow checks, and in one without when every limit is at
  most 655 miles per hour and every mile at most 11930: if the cameras of one road report one limit (which
  the server enforces), two observations of a car on a road between which it was too fast by half a mile
  per hour or more, by a speed that is capped at 65535 hundredths, leave it with a ticket for a day between
  them.\<close>

theorem speeding_gets_ticket:
  assumes "signals oc order obs controller_new = Ok (out, c)" and "\<And>xs. set (order xs) = set xs"
    and "no_overflow oc obs" and "\<forall>ob \<in> set obs. obs_limit ob = L (obs_road ob)"
    and "a \<in> set obs" and "b \<in> set obs" and "obs_plate a = obs_plate b" and "obs_road a = obs_road b"
    and "point a \<noteq> point b" and "unat (obs_limit a) * 100 + 50 \<le> exact_speed (point a) (point b)"
  shows "\<exists>t \<in> set out. plate t = obs_plate a \<and> ticket_days t \<inter> span (point a) (point b) \<noteq> {}"
proof -
  note run = signals_no_overflow [OF assms(1-3)]
  have comp: "complete L c"
    using signals_complete [OF assms(2) run controller_new_facts(1) assms(4)] by auto
  have seen: "\<exists>os. observations c (obs_plate ob, obs_road ob) = Some os \<and> point ob \<in> set os" if "ob \<in> set obs" for ob
    using signals_complete [OF assms(2) run controller_new_facts(1) assms(4)] that by auto
  obtain os where "observations c (obs_plate a, obs_road a) = Some os" "point a \<in> set os" "point b \<in> set os"
    using seen [OF assms(5)] seen [OF assms(6)] assms(7,8) by auto
  then have "covered (unat (L (obs_road a))) (obs_plate a) (tickets c) (point a) (point b)"
    using comp assms(9) unfolding complete_def by blast
  then obtain d where d: "(obs_plate a, d) \<in> tickets c" "unat d \<in> span (point a) (point b)"
    using assms(4,5,10) unfolding covered_def by metis
  have "issued_ok ([] @ out) (tickets c)"
    by (rule signals_issued [OF assms(1) controller_new_facts(3)])
  then obtain t where "t \<in> set out" "plate t = obs_plate a" "unat d \<in> ticket_days t"
    using d(1) unfolding issued_ok_def append_Nil by blast
  then show ?thesis
    using d(2) by blast
qed

lemma speeding_gets_ticket_witness:
  "\<exists>out c. signals True id demo_obs controller_new = Ok (out, c) \<and> (\<exists>t. t \<in> set out \<and> plate t = [85, 78])"
proof -
  obtain out c where run: "signals True id demo_obs controller_new = Ok (out, c)"
    using demo_signals by blast
  have "\<exists>t \<in> set out. plate t = obs_plate (demo_obs ! 0) \<and>
      ticket_days t \<inter> span (point (demo_obs ! 0)) (point (demo_obs ! 1)) \<noteq> {}"
    by (rule speeding_gets_ticket [OF run, where L = "\<lambda>_. 60"])
      (auto simp: demo_obs_def point_def exact_speed_def no_overflow_def)
  then show ?thesis
    using run by (auto simp: demo_obs_def)
qed

text \<open>The limit in hundredths overflows 16 bits from 656 miles per hour on: a build with
  overflow checks panics on the first observation, and one without wraps the limit, so that a car at
  80 miles per hour on a road with a limit of 656 gets a ticket.\<close>

theorem limit_overflows:
  "signal True order (ob\<lparr>obs_limit := 656\<rparr>) c = Panic \<and>
   (\<exists>c'. signals False id (map (\<lambda>ob. ob\<lparr>obs_limit := 656\<rparr>) demo_obs) controller_new =
     Ok ([\<lparr>plate = [85, 78], road = 123, mile1 = 8, timestamp1 = 0, mile2 = 9, timestamp2 = 45, speed = 8000\<rparr>], c'))"
proof
  show "signal True order (ob\<lparr>obs_limit := 656\<rparr>) c = Panic"
    by (simp add: signal_def mul_w_def)
  show "\<exists>c'. signals False id (map (\<lambda>ob. ob\<lparr>obs_limit := 656\<rparr>) demo_obs) controller_new =
     Ok ([\<lparr>plate = [85, 78], road = 123, mile1 = 8, timestamp1 = 0, mile2 = 9, timestamp2 = 45, speed = 8000\<rparr>], c')"
    by (simp add: demo_obs_def controller_new_def signal_def Let_def mul_w_def try_ticket_def speed_between_def
        car_observations_def abs_diff16_def abs_diff32_def make_ticket_def days_of_def day_range_def UNIX_DAY_def)
qed

end
