(* ===== verification/SpeedServer.thy ===== *)
theory SpeedServer
  imports SpeedController "HOL-Library.Multiset"
begin

text \<open>
  The server of the speed daemon, \<open>rust/p06-speed-daemon/src/lib.rs\<close>: the dispatchers and the
  tickets that wait for one, the main loop's messages, the registry of cameras, heartbeats, and the
  handlers of a client as functions of the bytes that it sends. A channel to a dispatcher's handler
  is a number; sending on it fails once its receiver is gone (\<open>gone\<close>).
\<close>

section \<open>Dispatchers\<close>

record dispatchers =
  registered :: "(nat \<times> u16 list \<times> nat) list"
  pending_tickets :: "ticket list"

definition dispatchers_new :: dispatchers where
  "dispatchers_new = \<lparr>registered = [], pending_tickets = []\<rparr>"

datatype run_error = Send_error

fun find_sender :: "u16 \<Rightarrow> (nat \<times> u16 list \<times> nat) list \<Rightarrow> nat option" where
  "find_sender r [] = None"
| "find_sender r ((i, roads, sender) # ds) = (if r \<in> set roads then Some sender else find_sender r ds)"

text \<open>
  The loop of \<open>send_pending_tickets\<close>: tickets sent so far and tickets kept. On a failed send the
  function returns at once: what the drain has not yielded yet and what was kept is dropped.
\<close>

fun send_loop :: "(nat \<Rightarrow> bool) \<Rightarrow> (nat \<times> u16 list \<times> nat) list \<Rightarrow> ticket list
    \<Rightarrow> (nat \<times> ticket) list \<times> ticket list \<Rightarrow> (run_error \<times> (nat \<times> ticket) list, (nat \<times> ticket) list \<times> ticket list) outcome" where
  "send_loop gone ds [] st = Ok st"
| "send_loop gone ds (t # ts) (sent, kept) =
     (case find_sender (road t) ds of
        Some s \<Rightarrow> if gone s then Err (Send_error, sent) else send_loop gone ds ts (sent @ [(s, t)], kept)
      | None \<Rightarrow> send_loop gone ds ts (sent, kept @ [t]))"

type_synonym dispatch_result = "(run_error \<times> (nat \<times> ticket) list, (nat \<times> ticket) list \<times> dispatchers) outcome"

definition send_pending_tickets :: "(nat \<Rightarrow> bool) \<Rightarrow> dispatchers \<Rightarrow> dispatch_result" where
  "send_pending_tickets gone d =
     bind_outcome (send_loop gone (registered d) (pending_tickets d) ([], [])) (\<lambda>(sent, kept).
       Ok (sent, d\<lparr>pending_tickets := kept\<rparr>))"

definition add_dispatcher :: "(nat \<Rightarrow> bool) \<Rightarrow> nat \<Rightarrow> u16 list \<Rightarrow> nat \<Rightarrow> dispatchers \<Rightarrow> dispatch_result" where
  "add_dispatcher gone i roads sender d =
     send_pending_tickets gone (d\<lparr>registered := registered d @ [(i, roads, sender)]\<rparr>)"

definition remove_dispatcher :: "nat \<Rightarrow> dispatchers \<Rightarrow> dispatchers" where
  "remove_dispatcher i d = d\<lparr>registered := filter (\<lambda>(j, _, _). j \<noteq> i) (registered d)\<rparr>"

definition send_tickets :: "(nat \<Rightarrow> bool) \<Rightarrow> ticket list \<Rightarrow> dispatchers \<Rightarrow> dispatch_result" where
  "send_tickets gone ts d = send_pending_tickets gone (d\<lparr>pending_tickets := pending_tickets d @ ts\<rparr>)"

section \<open>The main loop\<close>

datatype controller_message =
    AddDispatcher nat "u16 list" nat
  | RemoveDispatcher nat
  | PlateSeen observation

record server =
  ctl :: controller
  disp :: dispatchers

definition server_new :: server where
  "server_new = \<lparr>ctl = controller_new, disp = dispatchers_new\<rparr>"

text \<open>One message of the loop of \<open>run\<close>; an error ends the loop, and with it the server.\<close>

fun run_message ::
  "bool \<Rightarrow> order \<Rightarrow> (nat \<Rightarrow> bool) \<Rightarrow> controller_message \<Rightarrow> server
     \<Rightarrow> (run_error \<times> (nat \<times> ticket) list, (nat \<times> ticket) list \<times> server) outcome" where
  "run_message oc order gone (AddDispatcher i roads sender) s =
     bind_outcome (add_dispatcher gone i roads sender (disp s)) (\<lambda>(sent, d). Ok (sent, s\<lparr>disp := d\<rparr>))"
| "run_message oc order gone (RemoveDispatcher i) s = Ok ([], s\<lparr>disp := remove_dispatcher i (disp s)\<rparr>)"
| "run_message oc order gone (PlateSeen ob) s =
     (case signal oc order ob (ctl s) of
        Ok (ts, c) \<Rightarrow>
          bind_outcome (send_tickets gone ts (disp s)) (\<lambda>(sent, d). Ok (sent, s\<lparr>ctl := c, disp := d\<rparr>))
      | _ \<Rightarrow> Panic)"

section \<open>Cameras\<close>

text \<open>The registry: for every road the limit and the number of its cameras.\<close>

type_synonym cameras = "u16 \<rightharpoonup> u16 \<times> nat"

definition camera_guard_new :: "u16 \<Rightarrow> u16 \<Rightarrow> cameras \<Rightarrow> bool \<times> cameras" where
  "camera_guard_new r limit cs =
     (let (l, c) = (case cs r of Some e \<Rightarrow> e | None \<Rightarrow> (limit, 0))
      in if l \<noteq> limit then (False, cs(r \<mapsto> (l, c))) else (True, cs(r \<mapsto> (l, c + 1))))"

definition camera_guard_drop :: "u16 \<Rightarrow> cameras \<Rightarrow> cameras" where
  "camera_guard_drop r cs =
     (case cs r of
        Some (l, c) \<Rightarrow> if c - 1 = 0 then cs(r := None) else cs(r \<mapsto> (l, c - 1))
      | None \<Rightarrow> cs)"

section \<open>Heartbeats\<close>

text \<open>Periods in milliseconds; the interval's next tick and its period.\<close>

record heartbeat =
  hb_interval :: "(nat \<times> nat) option"
  hb_period :: "nat option"

definition set_period :: "nat \<Rightarrow> nat \<Rightarrow> heartbeat \<Rightarrow> heartbeat" where
  "set_period now period h =
     h\<lparr>hb_period := Some period,
       hb_interval := (if period = 0 then None else Some (now + period, period))\<rparr>"

definition heartbeat_new :: "nat \<Rightarrow> nat option \<Rightarrow> heartbeat" where
  "heartbeat_new now period =
     (let h = \<lparr>hb_interval = None, hb_period = None\<rparr>
      in case period of Some p \<Rightarrow> set_period now p h | None \<Rightarrow> h)"

definition is_valid :: "heartbeat \<Rightarrow> bool" where
  "is_valid h = (case hb_interval h of Some (_, period) \<Rightarrow> period \<noteq> 0 | None \<Rightarrow> False)"

definition is_setted :: "heartbeat \<Rightarrow> bool" where
  "is_setted h = (hb_period h \<noteq> None)"

text \<open>\<open>tick\<close> completes when the interval's time has come.\<close>

definition tick :: "nat \<Rightarrow> heartbeat \<Rightarrow> heartbeat option" where
  "tick now h =
     (case hb_interval h of
        Some (next, period) \<Rightarrow> if next \<le> now then Some (h\<lparr>hb_interval := Some (next + period, period)\<rparr>) else None
      | None \<Rightarrow> None)"

section \<open>Clients\<close>

text \<open>What a client is known to be, with the guard that it holds.\<close>

datatype role = Unknown | Camera i_am_camera | Dispatcher nat

record client =
  role :: role
  beat :: heartbeat

definition client_new :: "nat \<Rightarrow> client" where
  "client_new now = \<lparr>role = Unknown, beat = heartbeat_new now None\<rparr>"

datatype client_error = Io | Invalid_message byte | Invalid_camera

text \<open>
  \<open>handle_client\<close> multiplies the interval in 32 bits, \<open>handle_camera\<close> and \<open>handle_dispatcher\<close> in 64.
\<close>

definition heartbeat_ms :: "bool \<Rightarrow> role \<Rightarrow> u32 \<Rightarrow> (client_error, nat) outcome" where
  "heartbeat_ms oc r i =
     (case r of
        Unknown \<Rightarrow> bind_outcome (mul_w oc i 100) (\<lambda>p. Ok (unat p))
      | _ \<Rightarrow> Ok (unat i * 100))"

text \<open>
  One message of a client, taken from the front of what it sends: the client's new state, the rest,
  the registry and the message for the main loop, where \<open>fresh\<close> is the number of a new dispatcher
  and of its channel. The client of an error is told and closed.
\<close>

type_synonym client_result = "(client_error, client \<times> byte list \<times> cameras \<times> controller_message list) outcome"

definition on_want_heartbeat :: "bool \<Rightarrow> nat \<Rightarrow> client \<Rightarrow> byte list \<Rightarrow> cameras \<Rightarrow> client_result" where
  "on_want_heartbeat oc now c bs cs =
     bind_outcome (or_err Io (read_WantHeartbeat bs)) (\<lambda>(w, bs).
     bind_outcome (heartbeat_ms oc (role c) (interval_ds w)) (\<lambda>p.
       Ok (c\<lparr>beat := set_period now p (beat c)\<rparr>, bs, cs, [])))"

definition unknown_message :: "bool \<Rightarrow> nat \<Rightarrow> nat \<Rightarrow> byte \<Rightarrow> client \<Rightarrow> byte list \<Rightarrow> cameras \<Rightarrow> client_result" where
  "unknown_message oc now fresh tag c bs cs =
     (if tag = TAG_IAmCamera then
        bind_outcome (or_err Io (read_IAmCamera bs)) (\<lambda>(m, bs).
          case camera_guard_new (cam_road m) (cam_limit m) cs of
            (ok, cs) \<Rightarrow> if ok then Ok (c\<lparr>role := Camera m\<rparr>, bs, cs, []) else Err Invalid_camera)
      else if tag = TAG_IAmDispatcher then
        bind_outcome (or_err Io (read_IAmDispatcher bs)) (\<lambda>(m, bs).
          Ok (c\<lparr>role := Dispatcher fresh\<rparr>, bs, cs, [AddDispatcher fresh (disp_roads m) fresh]))
      else if tag = TAG_WantHeartbeat \<and> \<not> is_setted (beat c) then on_want_heartbeat oc now c bs cs
      else Err (Invalid_message tag))"

definition camera_message :: "bool \<Rightarrow> nat \<Rightarrow> i_am_camera \<Rightarrow> byte \<Rightarrow> client \<Rightarrow> byte list \<Rightarrow> cameras \<Rightarrow> client_result" where
  "camera_message oc now cam tag c bs cs =
     (if tag = TAG_Plate then
        bind_outcome (or_err Io (read_Plate bs)) (\<lambda>(m, bs).
          Ok (c, bs, cs, [PlateSeen \<lparr>obs_road = cam_road cam, obs_mile = cam_mile cam, obs_limit = cam_limit cam,
                                     obs_plate = plate_text m, obs_time = plate_time m\<rparr>]))
      else if tag = TAG_WantHeartbeat \<and> \<not> is_setted (beat c) then on_want_heartbeat oc now c bs cs
      else Err (Invalid_message tag))"

definition dispatcher_message :: "bool \<Rightarrow> nat \<Rightarrow> byte \<Rightarrow> client \<Rightarrow> byte list \<Rightarrow> cameras \<Rightarrow> client_result" where
  "dispatcher_message oc now tag c bs cs =
     (if tag = TAG_WantHeartbeat \<and> \<not> is_setted (beat c) then on_want_heartbeat oc now c bs cs
      else Err (Invalid_message tag))"

definition client_message :: "bool \<Rightarrow> nat \<Rightarrow> nat \<Rightarrow> client \<Rightarrow> byte list \<Rightarrow> cameras \<Rightarrow> client_result" where
  "client_message oc now fresh c bs cs =
     bind_outcome (or_err Io (rd_u8 bs)) (\<lambda>(tag, bs).
       case role c of
         Unknown \<Rightarrow> unknown_message oc now fresh tag c bs cs
       | Camera cam \<Rightarrow> camera_message oc now cam tag c bs cs
       | Dispatcher i \<Rightarrow> dispatcher_message oc now tag c bs cs)"

text \<open>The guards of a client that goes away.\<close>

definition client_drop :: "client \<Rightarrow> cameras \<Rightarrow> cameras \<times> controller_message list" where
  "client_drop c cs =
     (case role c of
        Unknown \<Rightarrow> (cs, [])
      | Camera cam \<Rightarrow> (camera_guard_drop (cam_road cam) cs, [])
      | Dispatcher i \<Rightarrow> (cs, [RemoveDispatcher i]))"

text \<open>What goes to a client: a heartbeat when it is due, the tickets of a dispatcher's channel.\<close>

definition client_tick :: "nat \<Rightarrow> client \<Rightarrow> (client \<times> byte list) option" where
  "client_tick now c =
     (if is_valid (beat c) then
        map_option (\<lambda>h. (c\<lparr>beat := h\<rparr>, write_to TAG_Heartbeat write_Heartbeat Heartbeat_msg)) (tick now (beat c))
      else None)"

definition client_ticket :: "ticket \<Rightarrow> byte list" where
  "client_ticket t = write_to TAG_Ticket write_Ticket t"


section \<open>Dispatching\<close>

lemma find_sender_append:
  "find_sender r (ds @ es) = (case find_sender r ds of Some s \<Rightarrow> Some s | None \<Rightarrow> find_sender r es)"
  by (induction r ds rule: find_sender.induct) auto

lemma find_sender_filter: "find_sender r ds = None \<Longrightarrow> find_sender r (filter P ds) = None"
  by (induction r ds rule: find_sender.induct) (auto split: if_splits)

text \<open>What the loop sends and keeps: every ticket once, the kept ones being those without dispatcher.\<close>

lemma send_loop_Ok:
  "send_loop gone ds ts (sent, kept) = Ok (sent', kept') \<Longrightarrow>
     mset (map snd sent') + mset kept' = mset (map snd sent) + mset kept + mset ts \<and>
     (\<forall>t \<in> set kept'. t \<in> set kept \<or> find_sender (road t) ds = None) \<and>
     (\<forall>(i, t) \<in> set sent'. (i, t) \<in> set sent \<or> find_sender (road t) ds = Some i \<and> \<not> gone i)"
proof (induction ts arbitrary: sent kept)
  case (Cons t ts)
  show ?case
  proof (cases "find_sender (road t) ds")
    case None
    then have loop: "send_loop gone ds ts (sent, kept @ [t]) = Ok (sent', kept')"
      using Cons.prems by simp
    show ?thesis
      using Cons.IH [OF loop] None by auto
  next
    case (Some i)
    then have loop: "send_loop gone ds ts (sent @ [(i, t)], kept) = Ok (sent', kept')"
      and "\<not> gone i"
      using Cons.prems by (simp_all split: if_splits)
    then show ?thesis
      using Cons.IH [OF loop] Some by auto
  qed
qed auto

definition undeliverable :: "dispatchers \<Rightarrow> bool" where
  "undeliverable d \<longleftrightarrow> (\<forall>t \<in> set (pending_tickets d). find_sender (road t) (registered d) = None)"

lemma send_pending_Ok:
  assumes "send_pending_tickets gone d = Ok (sent, d')"
  shows "mset (map snd sent) + mset (pending_tickets d') = mset (pending_tickets d) \<and>
    undeliverable d' \<and> registered d' = registered d \<and>
    (\<forall>(i, t) \<in> set sent. find_sender (road t) (registered d) = Some i \<and> \<not> gone i)"
  using assms by (auto simp: send_pending_tickets_def undeliverable_def dest!: send_loop_Ok)

lemma remove_undeliverable: "undeliverable d \<Longrightarrow> undeliverable (remove_dispatcher i d)"
  by (auto simp: undeliverable_def remove_dispatcher_def find_sender_filter)

lemma find_sender_Some: "find_sender r ds = Some c \<Longrightarrow> \<exists>i roads. (i, roads, c) \<in> set ds \<and> r \<in> set roads"
  by (induction r ds rule: find_sender.induct) (auto split: if_splits)

lemma find_sender_None: "find_sender r ds = None \<Longrightarrow> (i, roads, c) \<in> set ds \<Longrightarrow> r \<notin> set roads"
  by (induction r ds rule: find_sender.induct) (auto split: if_splits)

text \<open>
  Who is connected, from the messages alone: a dispatcher that has come, with its roads and its channel,
  and has not left since.
\<close>

type_synonym history = "((nat \<Rightarrow> bool) \<times> controller_message) list"

definition connected :: "history \<Rightarrow> nat \<Rightarrow> u16 list \<Rightarrow> nat \<Rightarrow> bool" where
  "connected ms i roads c \<longleftrightarrow>
     (\<exists>before gone after. ms = before @ (gone, AddDispatcher i roads c) # after \<and>
        RemoveDispatcher i \<notin> snd ` set after)"

lemma connected_Nil: "\<not> connected [] i roads c"
  by (simp add: connected_def)

lemma connected_snoc:
  "connected (ms @ [(g, m)]) i roads c \<longleftrightarrow>
     m = AddDispatcher i roads c \<or> connected ms i roads c \<and> m \<noteq> RemoveDispatcher i"
proof
  assume "connected (ms @ [(g, m)]) i roads c"
  then obtain xs gone ys where *: "ms @ [(g, m)] = xs @ (gone, AddDispatcher i roads c) # ys"
    "RemoveDispatcher i \<notin> snd ` set ys"
    by (auto simp: connected_def)
  then show "m = AddDispatcher i roads c \<or> connected ms i roads c \<and> m \<noteq> RemoveDispatcher i"
    by (cases ys rule: rev_cases) (auto simp: connected_def)
next
  assume "m = AddDispatcher i roads c \<or> connected ms i roads c \<and> m \<noteq> RemoveDispatcher i"
  then consider "m = AddDispatcher i roads c"
    | xs gone ys where "m \<noteq> RemoveDispatcher i" "ms = xs @ (gone, AddDispatcher i roads c) # ys"
      "RemoveDispatcher i \<notin> snd ` set ys"
    by (auto simp: connected_def)
  then show "connected (ms @ [(g, m)]) i roads c"
  proof cases
    case 1
    then show ?thesis
      unfolding connected_def by (intro exI [of _ ms] exI [of _ g] exI [of _ "[]"]) simp
  next
    case (2 xs gone ys)
    then show ?thesis
      unfolding connected_def by (intro exI [of _ xs] exI [of _ gone] exI [of _ "ys @ [(g, m)]"]) simp
  qed
qed

text \<open>A run of the main loop; the channels that are gone may differ from message to message.\<close>

fun server_run ::
  "bool \<Rightarrow> order \<Rightarrow> ((nat \<Rightarrow> bool) \<times> controller_message) list \<Rightarrow> server
     \<Rightarrow> (run_error \<times> (nat \<times> ticket) list, (nat \<times> ticket) list \<times> server) outcome" where
  "server_run oc order [] s = Ok ([], s)"
| "server_run oc order ((gone, m) # ms) s =
     bind_outcome (run_message oc order gone m s) (\<lambda>(sent, s).
     bind_outcome (server_run oc order ms s) (\<lambda>(sent', s). Ok (sent @ sent', s)))"

fun plates_seen :: "((nat \<Rightarrow> bool) \<times> controller_message) list \<Rightarrow> observation list" where
  "plates_seen [] = []"
| "plates_seen ((_, PlateSeen ob) # ms) = ob # plates_seen ms"
| "plates_seen (_ # ms) = plates_seen ms"

lemma run_message_Ok:
  assumes "run_message oc order gone m s = Ok (sent, s')"
  shows "\<exists>out. signals oc order (plates_seen [(gone, m)]) (ctl s) = Ok (out, ctl s') \<and>
    mset (map snd sent) + mset (pending_tickets (disp s')) = mset (pending_tickets (disp s)) + mset out \<and>
    (undeliverable (disp s) \<longrightarrow> undeliverable (disp s'))"
proof (cases m)
  case (AddDispatcher i roads sender)
  then show ?thesis
    using assms by (auto simp: add_dispatcher_def dest!: send_pending_Ok)
next
  case (RemoveDispatcher i)
  then show ?thesis
    using assms remove_undeliverable by (auto simp: remove_dispatcher_def)
next
  case (PlateSeen ob)
  then obtain ts c d where "signal oc order ob (ctl s) = Ok (ts, c)" "send_tickets gone ts (disp s) = Ok (sent, d)"
    "s' = s\<lparr>ctl := c, disp := d\<rparr>"
    using assms by (auto split: outcome.splits)
  then show ?thesis
    using PlateSeen by (auto simp: send_tickets_def dest!: send_pending_Ok)
qed

lemma signals_append:
  "signals oc order (as @ bs) c =
     bind_outcome (signals oc order as c) (\<lambda>(ts, c).
     bind_outcome (signals oc order bs c) (\<lambda>(us, c). Ok (ts @ us, c)))"
proof (induction "as" arbitrary: c)
  case Nil
  show ?case
    by (cases "signals oc order bs c") auto
next
  case (Cons a "as")
  show ?case
    by (cases "signal oc order a c") (auto simp: Cons bind_outcome_assoc split_def intro!: arg_cong2 [where f = bind_outcome])
qed

lemma server_run_Ok:
  "server_run oc order ms s = Ok (sent, s') \<Longrightarrow>
    \<exists>out. signals oc order (plates_seen ms) (ctl s) = Ok (out, ctl s') \<and>
      mset (map snd sent) + mset (pending_tickets (disp s')) = mset (pending_tickets (disp s)) + mset out \<and>
      (undeliverable (disp s) \<longrightarrow> undeliverable (disp s'))"
proof (induction ms arbitrary: s sent)
  case (Cons gm ms)
  obtain gone m where gm: "gm = (gone, m)"
    by (cases gm)
  obtain sent1 s1 sent2 where run: "run_message oc order gone m s = Ok (sent1, s1)"
    "server_run oc order ms s1 = Ok (sent2, s')" "sent = sent1 @ sent2"
    using Cons.prems gm by auto
  obtain out1 where out1: "signals oc order (plates_seen [(gone, m)]) (ctl s) = Ok (out1, ctl s1)"
    "mset (map snd sent1) + mset (pending_tickets (disp s1)) = mset (pending_tickets (disp s)) + mset out1"
    "undeliverable (disp s) \<longrightarrow> undeliverable (disp s1)"
    using run_message_Ok [OF run(1)] by blast
  obtain out2 where out2: "signals oc order (plates_seen ms) (ctl s1) = Ok (out2, ctl s')"
    "mset (map snd sent2) + mset (pending_tickets (disp s')) = mset (pending_tickets (disp s1)) + mset out2"
    "undeliverable (disp s1) \<longrightarrow> undeliverable (disp s')"
    using Cons.IH [OF run(2)] by blast
  have "plates_seen (gm # ms) = plates_seen [(gone, m)] @ plates_seen ms"
    using gm by (cases m) auto
  then have "signals oc order (plates_seen (gm # ms)) (ctl s) = Ok (out1 @ out2, ctl s')"
    using out1(1) out2(1) by (simp add: signals_append)
  moreover have "mset (map snd sent) + mset (pending_tickets (disp s'))
      = mset (pending_tickets (disp s)) + mset (out1 @ out2)"
  proof -
    have "mset (map snd sent) + mset (pending_tickets (disp s'))
        = mset (map snd sent1) + (mset (map snd sent2) + mset (pending_tickets (disp s')))"
      by (simp add: run(3))
    also have "\<dots> = (mset (map snd sent1) + mset (pending_tickets (disp s1))) + mset out2"
      by (simp only: out2(2) add.assoc)
    also have "\<dots> = mset (pending_tickets (disp s)) + mset (out1 @ out2)"
      by (simp only: out1(2)) simp
    finally show ?thesis .
  qed
  ultimately show ?case
    using out1(3) out2(3) by blast
qed simp


text \<open>The registered dispatchers are those that are connected, and what is sent goes to one of them that
  is there and serves the road.\<close>

definition registers :: "history \<Rightarrow> dispatchers \<Rightarrow> bool" where
  "registers hs d \<longleftrightarrow> (\<forall>i roads c. (i, roads, c) \<in> set (registered d) \<longleftrightarrow> connected hs i roads c)"

lemma run_message_dispatchers:
  assumes "run_message oc order gone m s = Ok (sent, s')" and "registers hs (disp s)"
  shows "registers (hs @ [(gone, m)]) (disp s') \<and>
    (\<forall>(c, t) \<in> set sent. \<not> gone c \<and> (\<exists>i roads. connected (hs @ [(gone, m)]) i roads c \<and> road t \<in> set roads))"
proof -
  have regs: "registers (hs @ [(gone, m)]) (disp s')"
    and sent: "\<forall>(c, t) \<in> set sent. find_sender (road t) (registered (disp s')) = Some c \<and> \<not> gone c"
  proof -
    show "registers (hs @ [(gone, m)]) (disp s')"
      using assms
      by (cases m) (auto simp: add_dispatcher_def send_tickets_def remove_dispatcher_def registers_def
          connected_snoc split: outcome.splits dest!: send_pending_Ok)
    show "\<forall>(c, t) \<in> set sent. find_sender (road t) (registered (disp s')) = Some c \<and> \<not> gone c"
      using assms(1)
      by (cases m) (auto simp: add_dispatcher_def send_tickets_def split: outcome.splits dest!: send_pending_Ok bspec)
  qed
  have "\<not> gone c \<and> (\<exists>i roads. connected (hs @ [(gone, m)]) i roads c \<and> road t \<in> set roads)"
    if "(c, t) \<in> set sent" for c t
    using sent that find_sender_Some [of "road t" "registered (disp s')" c] regs unfolding registers_def by fast
  then show ?thesis
    using regs by blast
qed

lemma server_run_dispatchers:
  "server_run oc order ms s = Ok (sent, s') \<Longrightarrow> registers hs (disp s) \<Longrightarrow>
    registers (hs @ ms) (disp s') \<and>
    (\<forall>(c, t) \<in> set sent. \<exists>before gone m after. ms = before @ (gone, m) # after \<and> \<not> gone c \<and>
       (\<exists>i roads. connected (hs @ before @ [(gone, m)]) i roads c \<and> road t \<in> set roads))"
proof (induction ms arbitrary: hs s sent)
  case (Cons gm ms)
  obtain gone m where gm: "gm = (gone, m)"
    by (cases gm)
  obtain sent1 s1 sent2 where run: "run_message oc order gone m s = Ok (sent1, s1)"
    "server_run oc order ms s1 = Ok (sent2, s')" "sent = sent1 @ sent2"
    using Cons.prems gm by auto
  note one = run_message_dispatchers [OF run(1) Cons.prems(2)]
  note rest = Cons.IH [OF run(2), of "hs @ [(gone, m)]"]
  have "\<exists>before g m' after. gm # ms = before @ (g, m') # after \<and> \<not> g c \<and>
       (\<exists>i roads. connected (hs @ before @ [(g, m')]) i roads c \<and> road t \<in> set roads)"
    if ct: "(c, t) \<in> set sent" for c t
  proof (cases "(c, t) \<in> set sent1")
    case True
    then show ?thesis
      using one gm by (intro exI [of _ "[]"] exI [of _ gone] exI [of _ m] exI [of _ ms]) auto
  next
    case False
    then have "(c, t) \<in> set sent2"
      using ct run(3) by simp
    then obtain before g m' after where "ms = before @ (g, m') # after" "\<not> g c"
      "\<exists>i roads. connected ((hs @ [(gone, m)]) @ before @ [(g, m')]) i roads c \<and> road t \<in> set roads"
      using rest one by blast
    then show ?thesis
      using gm by (intro exI [of _ "gm # before"] exI [of _ g] exI [of _ m'] exI [of _ after]) auto
  qed
  then show ?case
    using rest one gm by auto
qed simp

lemma server_new_registers: "registers [] (disp server_new)"
  by (simp add: registers_def server_new_def dispatchers_new_def connected_Nil)

section \<open>The registry of cameras\<close>

text \<open>Cameras come and go; \<open>live\<close> are those whose guard exists, as road and limit.\<close>

datatype camera_op = Enter u16 u16 | Leave u16 u16

fun camera_do :: "camera_op \<Rightarrow> cameras \<times> (u16 \<times> u16) list \<Rightarrow> cameras \<times> (u16 \<times> u16) list" where
  "camera_do (Enter r l) (cs, live) =
     (let (ok, cs) = camera_guard_new r l cs in (cs, if ok then (r, l) # live else live))"
| "camera_do (Leave r l) (cs, live) =
     (if (r, l) \<in> set live then (camera_guard_drop r cs, remove1 (r, l) live) else (cs, live))"

definition on_road :: "u16 \<Rightarrow> (u16 \<times> u16) list \<Rightarrow> (u16 \<times> u16) list" where
  "on_road r live = filter (\<lambda>x. fst x = r) live"

definition entry_ok :: "u16 \<Rightarrow> (u16 \<times> nat) option \<Rightarrow> (u16 \<times> u16) list \<Rightarrow> bool" where
  "entry_ok r e xs \<longleftrightarrow>
     (case e of
        None \<Rightarrow> xs = []
      | Some (l, c) \<Rightarrow> 0 < c \<and> c = length xs \<and> (\<forall>x \<in> set xs. x = (r, l)))"

definition registry_inv :: "cameras \<times> (u16 \<times> u16) list \<Rightarrow> bool" where
  "registry_inv s \<longleftrightarrow> (\<forall>r. entry_ok r (fst s r) (on_road r (snd s)))"

lemma on_road_simps [simp]:
  "on_road r [] = []"
  "on_road r ((q, l) # live) = (if q = r then (q, l) # on_road r live else on_road r live)"
  "on_road r (remove1 (q, l) live) = (if q = r then remove1 (q, l) (on_road r live) else on_road r live)"
  by (auto simp: on_road_def filter_remove1)

lemma entry_ok_mem:
  assumes "(q, l) \<in> set xs" "entry_ok q e xs"
  shows "e = Some (l, length xs) \<and> 0 < length xs \<and> (\<forall>x \<in> set xs. x = (q, l))"
proof (cases e)
  case (Some lc)
  then have "\<forall>x \<in> set xs. x = (q, fst lc)" "snd lc = length xs"
    using assms(2) by (auto simp: entry_ok_def split: prod.splits)
  moreover from this have "fst lc = l"
    using assms(1) by fastforce
  ultimately have "lc = (l, length xs)" "\<forall>x \<in> set xs. x = (q, l)"
    by (simp_all add: prod_eq_iff)
  then show ?thesis
    using Some assms(1) by (auto intro: length_pos_if_in_set)
qed (use assms in \<open>simp add: entry_ok_def\<close>)

lemma entry_ok_counted:
  "length xs = c \<Longrightarrow> \<forall>x \<in> set xs. x = (q, l) \<Longrightarrow> entry_ok q (if c = 0 then None else Some (l, c)) xs"
  by (cases xs) (auto simp: entry_ok_def)

lemma camera_do_inv: "registry_inv s \<Longrightarrow> registry_inv (camera_do op s)"
proof -
  assume inv: "registry_inv s"
  obtain cs live where s: "s = (cs, live)"
    by (cases s)
  show ?thesis
  proof (cases op)
    case (Enter r l)
    have ok: "entry_ok q (cs q) (on_road q live)" for q
      using inv by (simp add: registry_inv_def s)
    show ?thesis
      unfolding registry_inv_def
    proof
      fix q
      show "entry_ok q (fst (camera_do op s) q) (on_road q (snd (camera_do op s)))"
        using ok [of q] ok [of r] Enter s
        by (cases "cs r"; cases "cs q") (auto simp: camera_guard_new_def entry_ok_def)
    qed
  next
    case (Leave r l)
    show ?thesis
    proof (cases "(r, l) \<in> set live")
      case True
      then have mem: "(r, l) \<in> set (on_road r live)"
        by (simp add: on_road_def)
      moreover have "entry_ok r (cs r) (on_road r live)"
        using inv by (simp add: registry_inv_def s)
      ultimately obtain c where c: "cs r = Some (l, c)" "0 < c" "c = length (on_road r live)"
        "\<forall>x \<in> set (on_road r live). x = (r, l)"
        using entry_ok_mem by blast
      show ?thesis
        unfolding registry_inv_def
      proof
        fix q
        have "entry_ok q (cs q) (on_road q live)"
          using inv by (simp add: registry_inv_def s)
        moreover have "entry_ok r (if c - 1 = 0 then None else Some (l, c - 1)) (remove1 (r, l) (on_road r live))"
        proof -
          have "length (remove1 (r, l) (on_road r live)) = c - 1"
            using c(3) mem by (simp only: length_remove1 if_True)
          moreover have "\<forall>x \<in> set (remove1 (r, l) (on_road r live)). x = (r, l)"
            using c(4) set_remove1_subset [of "(r, l)" "on_road r live"] by blast
          ultimately show ?thesis
            by (rule entry_ok_counted)
        qed
        ultimately show "entry_ok q (fst (camera_do op s) q) (on_road q (snd (camera_do op s)))"
          using Leave True s c(1) by (auto simp: camera_guard_drop_def)
      qed
    qed (use inv s Leave in simp)
  qed
qed

interpretation camera_registry:
  invariant_system "\<lambda>s. s = (Map.empty, [])" "\<lambda>s t. \<exists>op. t = camera_do op s" registry_inv
proof unfold_locales
  show "registry_inv s" if "s = (Map.empty, [])" for s :: "cameras \<times> (u16 \<times> u16) list"
    using that by (simp add: registry_inv_def entry_ok_def)
qed (blast intro: camera_do_inv)

lemma camera_fold_reach:
  "reach (\<lambda>s. s = (Map.empty, [])) (\<lambda>s t. \<exists>op. t = camera_do op s) (fold camera_do ops (Map.empty, []))"
proof (induction ops rule: rev_induct)
  case (snoc op ops)
  then show ?case
    by (auto intro: reach_step)
qed (simp add: reach_init)

section \<open>Properties\<close>

text \<open>C14: As long as the main loop has not failed, whatever dispatchers come, go and disappear: it sent
  every ticket that the controller issued exactly once, or keeps it; what it keeps is for roads that no
  connected dispatcher serves; and what it sent went, while handling some message, to the channel of a
  dispatcher that was connected then, serves the road of the ticket, and whose channel was not gone.\<close>

theorem tickets_dispatched_once:
  assumes "server_run oc order ms server_new = Ok (sent, s)"
  shows "\<exists>out. signals oc order (plates_seen ms) controller_new = Ok (out, ctl s) \<and>
    mset (map snd sent) + mset (pending_tickets (disp s)) = mset out \<and>
    (\<forall>t \<in> set (pending_tickets (disp s)). \<forall>i roads c. connected ms i roads c \<longrightarrow> road t \<notin> set roads) \<and>
    (\<forall>(c, t) \<in> set sent. \<exists>before gone m after. ms = before @ (gone, m) # after \<and> \<not> gone c \<and>
       (\<exists>i roads. connected (before @ [(gone, m)]) i roads c \<and> road t \<in> set roads))"
proof -
  obtain out where out: "signals oc order (plates_seen ms) controller_new = Ok (out, ctl s)"
    "mset (map snd sent) + mset (pending_tickets (disp s)) = mset out" "undeliverable (disp s)"
    using server_run_Ok [OF assms] by (auto simp: server_new_def dispatchers_new_def undeliverable_def)
  have d: "registers ms (disp s)" "\<forall>(c, t) \<in> set sent. \<exists>before gone m after. ms = before @ (gone, m) # after \<and> \<not> gone c \<and>
       (\<exists>i roads. connected (before @ [(gone, m)]) i roads c \<and> road t \<in> set roads)"
    using server_run_dispatchers [OF assms server_new_registers] by simp_all
  have "road t \<notin> set roads" if "t \<in> set (pending_tickets (disp s))" "connected ms i roads c" for t i roads c
  proof (rule find_sender_None)
    show "find_sender (road t) (registered (disp s)) = None"
      using out(3) that(1) by (simp add: undeliverable_def)
    show "(i, roads, c) \<in> set (registered (disp s))"
      using d(1) that(2) by (simp add: registers_def)
  qed
  then show ?thesis
    using out(1,2) d(2) by blast
qed

text \<open>The test session of the repository, with the dispatcher coming last.\<close>

lemma demo_server_run:
  "\<exists>s. server_run True id (map (\<lambda>ob. (\<lambda>_. False, PlateSeen ob)) demo_obs @ [(\<lambda>_. False, AddDispatcher 4 [123] 4)])
       server_new
     = Ok ([(4, \<lparr>plate = [85, 78], road = 123, mile1 = 8, timestamp1 = 0, mile2 = 9, timestamp2 = 45,
                 speed = 8000\<rparr>)], s)"
  by (simp add: server_new_def dispatchers_new_def send_tickets_def send_pending_tickets_def add_dispatcher_def
      demo_obs_def controller_new_def signal_def Let_def mul_w_def try_ticket_def speed_between_def
      car_observations_def abs_diff16_def abs_diff32_def make_ticket_def days_of_def day_range_def UNIX_DAY_def)

lemma tickets_dispatched_once_witness:
  "\<exists>sent s out. server_run True id
       (map (\<lambda>ob. (\<lambda>_. False, PlateSeen ob)) demo_obs @ [(\<lambda>_. False, AddDispatcher 4 [123] 4)]) server_new
         = Ok (sent, s) \<and> length sent = 1 \<and>
     mset (map snd sent) + mset (pending_tickets (disp s)) = mset out"
proof -
  obtain sent s where run: "server_run True id
       (map (\<lambda>ob. (\<lambda>_. False, PlateSeen ob)) demo_obs @ [(\<lambda>_. False, AddDispatcher 4 [123] 4)]) server_new
         = Ok (sent, s)" "length sent = 1"
    using demo_server_run by fastforce
  show ?thesis
    using tickets_dispatched_once [OF run(1)] run by blast
qed

text \<open>A dispatcher whose connection is gone but whose removal the main loop has not read yet
  takes the whole server down: the ticket for its road makes \<open>run\<close> return the error of the send, and
  the ticket, with all that were pending, is lost.\<close>

theorem gone_dispatcher_stops_server:
  "server_run True id
     (map (\<lambda>m. (\<lambda>ch. ch = 4, m)) (AddDispatcher 4 [123] 4 # map PlateSeen demo_obs @ [RemoveDispatcher 4])) server_new
   = Err (Send_error, [])"
  by (simp add: server_new_def dispatchers_new_def send_tickets_def send_pending_tickets_def add_dispatcher_def
      demo_obs_def controller_new_def signal_def Let_def mul_w_def try_ticket_def speed_between_def
      car_observations_def abs_diff16_def abs_diff32_def make_ticket_def days_of_def day_range_def UNIX_DAY_def)

text \<open>Through any sequence of cameras that come and go, the registry has an entry for a road
  exactly as long as it has cameras, the entry counts them, and all of them have its limit.\<close>

theorem camera_registry_consistent:
  "case fold camera_do ops (Map.empty, []) of
     (cs, live) \<Rightarrow>
       (case cs r of
          None \<Rightarrow> on_road r live = []
        | Some (l, c) \<Rightarrow> 0 < c \<and> on_road r live = replicate c (r, l))"
proof -
  obtain cs live where s: "fold camera_do ops (Map.empty, []) = (cs, live)"
    by (cases "fold camera_do ops (Map.empty, [])")
  have "registry_inv (cs, live)"
    using camera_registry.reach_inv [OF camera_fold_reach [of ops]] by (simp add: s)
  then have "entry_ok r (cs r) (on_road r live)"
    by (simp add: registry_inv_def)
  then show ?thesis
    using s by (cases "cs r") (auto simp: entry_ok_def intro!: replicate_eqI)
qed

text \<open>Before a client has said what it is, its heartbeat interval is multiplied in 32 bits: an
  interval of 42949673 deciseconds (about 50 days) makes a build with overflow checks panic and one
  without send a heartbeat every 4 milliseconds; a camera or dispatcher gets the right period.\<close>

theorem heartbeat_interval_overflows:
  "heartbeat_ms True Unknown 42949673 = Panic \<and>
   heartbeat_ms False Unknown 42949673 = Ok 4 \<and>
   heartbeat_ms oc (Camera cam) 42949673 = Ok 4294967300"
  by (simp add: heartbeat_ms_def mul_w_def)

end
