(* ===== verification/WasiCodec.thy ===== *)
theory WasiCodec
  imports Prelude "HOL-Library.Sublist"
begin

text \<open>
  Framing of the WASI port, \<open>wasi/crates/wasi-async/src/codec.rs\<close> and \<open>io.rs\<close>: the stream of items that
  a decoder finds in what is read (\<open>FramedRead\<close>), the sink that encodes items into what is written
  (\<open>FramedWrite\<close>), the decoder of lines and the decoder of chunks of a fixed size, and \<open>write_all\<close>.
  What a read or a write of the connection gives is an argument, one result after the other; an empty
  list of results is a connection that is not ready. \<open>StreamError\<close> is an enumeration of the WASI
  interface with \<open>Closed\<close> apart from every other failure.
\<close>

section \<open>The stream of a decoder\<close>

datatype stream_error = Closed | Last_operation_failed

datatype read_result = Data "byte list" | Read_error stream_error

datatype ('e, 'v) polled = Pending | Item "('e, 'v) outcome" | End

record 'd framed_read =
  decoder :: 'd
  buffer :: "byte list"
  eof :: bool

definition framed_read_new :: "'d \<Rightarrow> 'd framed_read" where
  "framed_read_new d = \<lparr>decoder = d, buffer = [], eof = False\<rparr>"

text \<open>A decoder takes an item from the front of the buffer, or says that it needs more. The default
  \<open>decode_eof\<close> makes an error of what is left over.\<close>

type_synonym ('d, 'v, 'e) decode = "'d \<Rightarrow> byte list \<Rightarrow> 'd \<times> byte list \<times> ('e, 'v option) outcome"

definition decode_eof :: "(stream_error \<Rightarrow> 'e) \<Rightarrow> ('d, 'v, 'e) decode \<Rightarrow> ('d, 'v, 'e) decode" where
  "decode_eof conv decode d src =
     (case decode d src of (d', src', r) \<Rightarrow> (d', src', if r = Ok None then Err (conv Closed) else r))"

definition handle_eof :: "(stream_error \<Rightarrow> 'e) \<Rightarrow> ('d, 'v, 'e) decode \<Rightarrow> 'd framed_read \<Rightarrow> ('e, 'v) polled \<times> 'd framed_read" where
  "handle_eof conv decode f =
     (if buffer f = [] then (End, f)
      else case decode_eof conv decode (decoder f) (buffer f) of
        (d, b, r) \<Rightarrow>
          (case r of
             Ok None \<Rightarrow> Item (Err (conv Closed))
           | Ok (Some v) \<Rightarrow> Item (Ok v)
           | Err e \<Rightarrow> Item (Err e)
           | Panic \<Rightarrow> Item Panic, f\<lparr>decoder := d, buffer := b\<rparr>))"

fun poll_next :: "(stream_error \<Rightarrow> 'e) \<Rightarrow> ('d, 'v, 'e) decode \<Rightarrow> read_result list \<Rightarrow> 'd framed_read \<Rightarrow>
    ('e, 'v) polled \<times> 'd framed_read \<times> read_result list" where
  "poll_next conv decode rs f =
     (if eof f then (case handle_eof conv decode f of (p, f) \<Rightarrow> (p, f, rs))
      else case decode (decoder f) (buffer f) of
        (d, b, r) \<Rightarrow>
          (let f = f\<lparr>decoder := d, buffer := b\<rparr>
           in case r of
             Ok (Some v) \<Rightarrow> (Item (Ok v), f, rs)
           | Err e \<Rightarrow> (Item (Err e), f, rs)
           | Panic \<Rightarrow> (Item Panic, f, rs)
           | Ok None \<Rightarrow>
               (case rs of
                  [] \<Rightarrow> (Pending, f, [])
                | Data bs # rs \<Rightarrow> poll_next conv decode rs (f\<lparr>buffer := buffer f @ bs\<rparr>)
                | Read_error Closed # rs \<Rightarrow> poll_next conv decode rs (f\<lparr>eof := True\<rparr>)
                | Read_error e # rs \<Rightarrow> (Item (Err (conv e)), f, rs))))"

declare poll_next.simps [simp del]

text \<open>The loop of the programs over a stream: the items up to the first poll that gives none.
  \<open>None\<close> is a loop that has not ended after that many polls.\<close>

fun items :: "(stream_error \<Rightarrow> 'e) \<Rightarrow> ('d, 'v, 'e) decode \<Rightarrow> nat \<Rightarrow> read_result list \<Rightarrow> 'd framed_read \<Rightarrow>
    ('v list \<times> ('e, 'v) polled) option" where
  "items conv decode 0 rs f = None"
| "items conv decode (Suc n) rs f =
     (case poll_next conv decode rs f of
        (Item (Ok v), f, rs) \<Rightarrow> map_option (\<lambda>(vs, p). (v # vs, p)) (items conv decode n rs f)
      | (p, f, rs) \<Rightarrow> Some ([], p))"

text \<open>\<open>while let Some(value) = read.next().await\<close> with the body as \<open>step\<close>, which goes on with a new state or
  leaves the loop; \<open>fin\<close> is what becomes of an error of the stream or of its end.\<close>

fun for_items :: "(stream_error \<Rightarrow> 'e) \<Rightarrow> ('d, 'v, 'e) decode \<Rightarrow> nat \<Rightarrow> ('v \<Rightarrow> 's \<Rightarrow> 's + 'r) \<Rightarrow> (('e, 'v) polled \<Rightarrow> 's \<Rightarrow> 'r) \<Rightarrow>
    read_result list \<Rightarrow> 'd framed_read \<Rightarrow> 's \<Rightarrow> 'r option" where
  "for_items conv decode 0 step fin rs f s = None"
| "for_items conv decode (Suc n) step fin rs f s =
     (case poll_next conv decode rs f of
        (Item (Ok v), f, rs) \<Rightarrow>
          (case step v s of Inl s \<Rightarrow> for_items conv decode n step fin rs f s | Inr r \<Rightarrow> Some r)
      | (Pending, f, rs) \<Rightarrow> None
      | (p, f, rs) \<Rightarrow> Some (fin p s))"

fun run_items :: "('v \<Rightarrow> 's \<Rightarrow> 's + 'r) \<Rightarrow> ('s \<Rightarrow> 'r) \<Rightarrow> 'v list \<Rightarrow> 's \<Rightarrow> 'r" where
  "run_items step fin [] s = fin s"
| "run_items step fin (v # vs) s = (case step v s of Inl s \<Rightarrow> run_items step fin vs s | Inr r \<Rightarrow> r)"

lemma for_items_run:
  "items conv decode n rs f = Some (vs, p) \<Longrightarrow> p \<noteq> Pending \<Longrightarrow> for_items conv decode n step fin rs f s = Some (run_items step (fin p) vs s)"
proof (induction conv decode n rs f arbitrary: vs s rule: items.induct)
  case (2 conv decode n rs f)
  obtain q f' rs' where poll: "poll_next conv decode rs f = (q, f', rs')"
    by (cases "poll_next conv decode rs f")
  show ?case
  proof (cases "\<exists>v. q = Item (Ok v)")
    case True
    then obtain v where v: "q = Item (Ok v)"
      by blast
    with 2(2) poll obtain ws where ws: "items conv decode n rs' f' = Some (ws, p)" "vs = v # ws"
      by auto
    from 2(1) [OF poll [symmetric] _ _ _ ws(1) 2(3)] v have "for_items conv decode n step fin rs' f' s = Some (run_items step (fin p) ws s)" for s
      by simp
    with v poll ws(2) show ?thesis
      by (simp split: sum.splits)
  next
    case False
    with 2(2,3) poll show ?thesis
      by (auto split: polled.splits outcome.splits)
  qed
qed simp

text \<open>How the sessions of the programs end: a connection that the peer has closed is no error.\<close>

fun session_end :: "(stream_error \<Rightarrow> 'e) \<Rightarrow> (stream_error, 'v) polled \<Rightarrow> ('e, unit) outcome" where
  "session_end conv (Item (Err e)) = (if e = Closed then Ok () else Err (conv e))"
| "session_end conv (Item Panic) = Panic"
| "session_end conv _ = Ok ()"

text \<open>What the last poll gives when the reads are used up or one failed and \<open>r\<close> is left over.\<close>

definition final :: "(stream_error \<Rightarrow> 'e) \<Rightarrow> stream_error option \<Rightarrow> byte list \<Rightarrow> ('e, 'v) polled" where
  "final conv e r = (case e of None \<Rightarrow> Pending | Some e \<Rightarrow> if e = Closed \<and> r = [] then End else Item (Err (conv e)))"

section \<open>What a decoder promises\<close>

text \<open>\<open>framed peel bs vs r\<close>: the items of \<open>bs\<close> are \<open>vs\<close> and the unfinished one at its end is \<open>r\<close>, when
  \<open>peel\<close> takes one item from the front.\<close>

inductive framed :: "(byte list \<Rightarrow> ('v \<times> byte list) option) \<Rightarrow> byte list \<Rightarrow> 'v list \<Rightarrow> byte list \<Rightarrow> bool" for peel where
  framed_end: "peel bs = None \<Longrightarrow> framed peel bs [] bs"
| framed_item: "peel bs = Some (v, rest) \<Longrightarrow> framed peel rest vs r \<Longrightarrow> framed peel bs (v # vs) r"

inductive_simps framed_Nil: "framed peel bs [] r"
inductive_simps framed_Cons: "framed peel bs (v # vs) r"

locale item_decoder =
  fixes decode :: "('d, 'v, 'e) decode" and peel :: "byte list \<Rightarrow> ('v \<times> byte list) option" and in_sync :: "'d \<Rightarrow> byte list \<Rightarrow> bool"
  assumes peel_append: "peel bs = Some (v, r) \<Longrightarrow> peel (bs @ cs) = Some (v, r @ cs)"
    and decode_item: "in_sync d bs \<Longrightarrow> peel bs = Some (v, r) \<Longrightarrow> \<exists>d'. decode d bs = (d', r, Ok (Some v)) \<and> in_sync d' r"
    and decode_none: "in_sync d bs \<Longrightarrow> peel bs = None \<Longrightarrow> \<exists>d'. decode d bs = (d', bs, Ok None) \<and> (\<forall>cs. in_sync d' (bs @ cs))"
begin

definition ready :: "'d framed_read \<Rightarrow> bool" where
  "ready f \<longleftrightarrow> \<not> eof f \<and> in_sync (decoder f) (buffer f)"

lemma peel_prefix: "peel (bs @ cs) = None \<Longrightarrow> peel bs = None"
  by (cases "peel bs") (auto simp: peel_append)

text \<open>An item is found with the read that completes it.\<close>

lemma poll_item:
  assumes "ready f" and "peel (buffer f @ concat cs) = Some (v, rest)"
  shows "\<exists>f' cs'. poll_next conv decode (map Data cs @ ts) f = (Item (Ok v), f', map Data cs' @ ts) \<and>
    ready f' \<and> buffer f' @ concat cs' = rest"
  using assms
proof (induction cs arbitrary: f)
  case Nil
  then obtain d where "decode (decoder f) (buffer f) = (d, rest, Ok (Some v))" "in_sync d rest"
    using decode_item [of "decoder f" "buffer f" v rest] by (auto simp: ready_def)
  with Nil(1) show ?case
    by (intro exI [of _ "f\<lparr>decoder := d, buffer := rest\<rparr>"] exI [of _ "[]"]) (simp add: poll_next.simps ready_def)
next
  case (Cons c cs)
  show ?case
  proof (cases "peel (buffer f)")
    case None
    then obtain d where d: "decode (decoder f) (buffer f) = (d, buffer f, Ok None)" "\<And>cs. in_sync d (buffer f @ cs)"
      using decode_none [of "decoder f" "buffer f"] Cons(2) by (auto simp: ready_def)
    let ?f = "f\<lparr>decoder := d, buffer := buffer f @ c\<rparr>"
    have "ready ?f"
      using Cons(2) d(2) by (simp add: ready_def)
    moreover have "poll_next conv decode (map Data (c # cs) @ ts) f = poll_next conv decode (map Data cs @ ts) ?f"
      using Cons(2) d(1) by (subst poll_next.simps) (simp add: ready_def)
    ultimately show ?thesis
      using Cons(1) [of ?f] Cons(3) by simp
  next
    case (Some a)
    with Cons(3) peel_append [of "buffer f"] obtain r where r: "peel (buffer f) = Some (v, r)" "rest = r @ concat (c # cs)"
      by (cases a) fastforce
    then obtain d where "decode (decoder f) (buffer f) = (d, r, Ok (Some v))" "in_sync d r"
      using decode_item [of "decoder f" "buffer f" v r] Cons(2) by (auto simp: ready_def)
    with Cons(2) r(2) show ?thesis
      by (intro exI [of _ "f\<lparr>decoder := d, buffer := r\<rparr>"] exI [of _ "c # cs"]) (simp add: poll_next.simps ready_def)
  qed
qed

text \<open>Without a complete item everything that can be read ends up in the buffer.\<close>

lemma poll_no_item:
  assumes "ready f" and "peel (buffer f @ concat cs) = None"
  shows "\<exists>f'. poll_next conv decode (map Data cs @ ts) f = poll_next conv decode ts f' \<and>
    ready f' \<and> buffer f' = buffer f @ concat cs"
  using assms
proof (induction cs arbitrary: f)
  case Nil
  then show ?case
    by auto
next
  case (Cons c cs)
  have "peel (buffer f) = None"
    using Cons(3) by (rule peel_prefix)
  then obtain d where d: "decode (decoder f) (buffer f) = (d, buffer f, Ok None)" "\<And>cs. in_sync d (buffer f @ cs)"
    using decode_none [of "decoder f" "buffer f"] Cons(2) by (auto simp: ready_def)
  let ?f = "f\<lparr>decoder := d, buffer := buffer f @ c\<rparr>"
  have "ready ?f"
    using Cons(2) d(2) by (simp add: ready_def)
  moreover have "poll_next conv decode (map Data (c # cs) @ ts) f = poll_next conv decode (map Data cs @ ts) ?f"
    using Cons(2) d(1) by (subst poll_next.simps) (simp add: ready_def)
  ultimately show ?case
    using Cons(1) [of ?f] Cons(3) by simp
qed

lemma poll_at_end:
  assumes "ready f" and "peel (buffer f) = None"
  shows "\<exists>f' rs'. poll_next conv decode (Read_error e # ts) f =
      (if e = Closed \<and> buffer f = [] then End else Item (Err (conv e)), f', rs')"
    and "\<exists>f'. poll_next conv decode [] f = (Pending, f', [])"
proof -
  obtain d where d: "decode (decoder f) (buffer f) = (d, buffer f, Ok None)" "\<And>cs. in_sync d (buffer f @ cs)"
    using decode_none [of "decoder f" "buffer f"] assms by (auto simp: ready_def)
  obtain d' where d': "decode d (buffer f) = (d', buffer f, Ok None)"
    using decode_none [of d "buffer f"] d(2) [of "[]"] assms(2) by auto
  show "\<exists>f'. poll_next conv decode [] f = (Pending, f', [])"
    using assms(1) d(1) by (simp add: poll_next.simps ready_def)
  show "\<exists>f' rs'. poll_next conv decode (Read_error e # ts) f =
      (if e = Closed \<and> buffer f = [] then End else Item (Err (conv e)), f', rs')"
    using assms(1) d(1) d' by (cases e) (simp_all add: poll_next.simps ready_def handle_eof_def decode_eof_def)
qed

text \<open>The items do not depend on how the bytes were cut into reads, and enough polls are one more than
  there are items.\<close>

theorem items_framed:
  assumes "framed peel (buffer f @ concat cs) vs r" and "ready f" and "length vs < n"
  shows "items conv decode n (map Data cs @ (case e of None \<Rightarrow> [] | Some e \<Rightarrow> [Read_error e])) f = Some (vs, final conv e r)"
  using assms
proof (induction vs arbitrary: f cs n)
  case Nil
  then obtain m where n: "n = Suc m"
    by (cases n) auto
  have r: "peel (buffer f @ concat cs) = None" "r = buffer f @ concat cs"
    using Nil(1) by (auto simp: framed_Nil)
  show ?case
  proof (cases e)
    case None
    obtain f' where f': "poll_next conv decode (map Data cs @ []) f = poll_next conv decode [] f'" "ready f'" "buffer f' = r"
      using poll_no_item [OF Nil(2) r(1), of conv "[]"] r(2) by auto
    with poll_at_end(2) [of f' conv] r show ?thesis
      by (auto simp: n None final_def)
  next
    case (Some e')
    obtain f' where f': "poll_next conv decode (map Data cs @ [Read_error e']) f = poll_next conv decode [Read_error e'] f'"
        "ready f'" "buffer f' = r"
      using poll_no_item [OF Nil(2) r(1), of conv "[Read_error e']"] r(2) by auto
    with poll_at_end(1) [of f' conv e' "[]"] r show ?thesis
      by (auto simp: n Some final_def)
  qed
next
  case (Cons v vs)
  then obtain m where n: "n = Suc m" "length vs < m"
    by (cases n) auto
  obtain rest where rest: "peel (buffer f @ concat cs) = Some (v, rest)" "framed peel rest vs r"
    using Cons(2) by (auto simp: framed_Cons)
  let ?ts = "case e of None \<Rightarrow> [] | Some e \<Rightarrow> [Read_error e]"
  obtain f' cs' where f': "poll_next conv decode (map Data cs @ ?ts) f = (Item (Ok v), f', map Data cs' @ ?ts)"
      "ready f'" "buffer f' @ concat cs' = rest"
    using poll_item [OF Cons(3) rest(1)] by blast
  show ?case
    using Cons(1) [of f' cs' m] f' rest(2) n by simp
qed

end


section \<open>Lines\<close>

text \<open>The state of \<open>LinesDecoder\<close> is \<open>from_index\<close>, where the search for the next end of a line goes on.\<close>

definition lines_decode :: "(nat, byte list, stream_error) decode" where
  "lines_decode from_index src =
     (case position (\<lambda>v. v = 10) (drop from_index src) of
        Some index \<Rightarrow> (0, drop (from_index + index + 1) src, Ok (Some (butlast (take (from_index + index + 1) src))))
      | None \<Rightarrow> (length src, src, Ok None))"

definition peel_line :: "byte list \<Rightarrow> (byte list \<times> byte list) option" where
  "peel_line bs = map_option (\<lambda>i. (take i bs, drop (Suc i) bs)) (position (\<lambda>v. v = 10) bs)"

definition searched :: "nat \<Rightarrow> byte list \<Rightarrow> bool" where
  "searched from_index src \<longleftrightarrow> 10 \<notin> set (take from_index src)"

lemma peel_line_Some: "peel_line bs = Some (v, r) \<longleftrightarrow> bs = v @ 10 # r \<and> 10 \<notin> set v"
proof
  assume "peel_line bs = Some (v, r)"
  then obtain i where i: "position (\<lambda>b. b = 10) bs = Some i" "v = take i bs" "r = drop (Suc i) bs"
    by (auto simp: peel_line_def)
  then have "i < length bs" "bs ! i = 10" "\<forall>j < i. bs ! j \<noteq> 10"
    by (simp_all add: position_Some)
  then show "bs = v @ 10 # r \<and> 10 \<notin> set v"
    using i(2,3) id_take_nth_drop [of i bs] by (auto simp: in_set_conv_nth)
next
  assume "bs = v @ 10 # r \<and> 10 \<notin> set v"
  then have "bs = v @ 10 # r" "position (\<lambda>b. b = 10) v = None"
    by (auto simp: position_None)
  then show "peel_line bs = Some (v, r)"
    by (simp add: peel_line_def position_append)
qed

lemma peel_line_None: "peel_line bs = None \<longleftrightarrow> 10 \<notin> set bs"
  by (auto simp: peel_line_def position_None)

lemma lines_decode_peel:
  assumes "searched k bs"
  shows "lines_decode k bs = (case peel_line bs of Some (v, r) \<Rightarrow> (0, r, Ok (Some v)) | None \<Rightarrow> (length bs, bs, Ok None))"
proof (cases "k \<le> length bs")
  case True
  then have "position (\<lambda>v. v = 10) bs = map_option ((+) k) (position (\<lambda>v. v = 10) (drop k bs))"
    using assms by (intro position_drop) (auto simp: searched_def)
  moreover have "k + i < length bs" if "position (\<lambda>v. v = 10) (drop k bs) = Some i" for i
    using that by (auto simp: position_Some)
  ultimately show ?thesis
    by (cases "position (\<lambda>v. v = 10) (drop k bs)") (simp_all add: lines_decode_def peel_line_def butlast_take)
next
  case False
  with assms have "peel_line bs = None"
    by (simp add: peel_line_None searched_def)
  with False show ?thesis
    by (simp add: lines_decode_def)
qed

interpretation lines: item_decoder lines_decode peel_line searched
proof
  show "\<exists>d'. lines_decode d bs = (d', r, Ok (Some v)) \<and> searched d' r" if "searched d bs" "peel_line bs = Some (v, r)" for d bs v r
    using that by (simp add: lines_decode_peel) (simp add: searched_def)
  show "\<exists>d'. lines_decode d bs = (d', bs, Ok None) \<and> (\<forall>cs. searched d' (bs @ cs))" if "searched d bs" "peel_line bs = None" for d bs
    using that by (simp add: lines_decode_peel) (simp add: searched_def peel_line_None)
qed (auto simp: peel_line_Some)

text \<open>Lines with their ends, and what follows the last one.\<close>

lemma framed_lines:
  "(\<And>l. l \<in> set ls \<Longrightarrow> 10 \<notin> set l) \<Longrightarrow> 10 \<notin> set tail \<Longrightarrow> framed peel_line (concat (map (\<lambda>l. l @ [10]) ls) @ tail) ls tail"
  by (induction ls) (auto intro!: framed_end framed_item simp: peel_line_Some peel_line_None)

section \<open>Chunks\<close>

definition chunks_decode :: "nat \<Rightarrow> (unit, byte list, stream_error) decode" where
  "chunks_decode SIZE d src =
     (if length src < SIZE then (d, src, Ok None) else (d, drop SIZE src, Ok (Some (take SIZE src))))"

definition peel_chunk :: "nat \<Rightarrow> byte list \<Rightarrow> (byte list \<times> byte list) option" where
  "peel_chunk k bs = (if length bs < k then None else Some (take k bs, drop k bs))"

interpretation chunks: item_decoder "chunks_decode k" "peel_chunk k" "\<lambda>_ _. True" for k
  by unfold_locales (auto simp: chunks_decode_def peel_chunk_def split: if_splits)

lemma framed_chunks:
  "(\<And>c. c \<in> set xs \<Longrightarrow> length c = k) \<Longrightarrow> length tail < k \<Longrightarrow> framed (peel_chunk k) (concat xs @ tail) xs tail"
  by (induction xs) (auto intro!: framed_end framed_item simp: peel_chunk_def)

section \<open>The sink of an encoder\<close>

datatype write_result = Wrote nat | Write_error stream_error

record framed_write =
  w_buffer :: "byte list"
  backpressure_boundary :: nat

definition INITIAL_CAPACITY :: nat where
  "INITIAL_CAPACITY = 1024 * 8"

definition framed_write_new :: framed_write where
  "framed_write_new = \<lparr>w_buffer = [], backpressure_boundary = INITIAL_CAPACITY\<rparr>"

datatype 'e sink_poll = Sink_pending | Sink_ready "('e, unit) outcome"

text \<open>\<open>poll_flush\<close> gives its result, the buffer, and the bytes that the connection took. A flush of the
  connection that is not ready counts as done. \<open>split_to\<close> panics beyond the end of the buffer.\<close>

fun sink_poll_flush :: "(stream_error \<Rightarrow> 'e) \<Rightarrow> write_result list \<Rightarrow> stream_error option \<Rightarrow> byte list \<Rightarrow> 'e sink_poll \<times> byte list \<times> byte list" where
  "sink_poll_flush conv ws flush b =
     (if b = [] then (Sink_ready (case flush of Some e \<Rightarrow> Err (conv e) | None \<Rightarrow> Ok ()), [], [])
      else case ws of
        [] \<Rightarrow> (Sink_pending, b, [])
      | Write_error e # ws \<Rightarrow> (Sink_ready (Err (conv e)), b, [])
      | Wrote n # ws \<Rightarrow>
          (if length b < n then (Sink_ready Panic, b, [])
           else case sink_poll_flush conv ws flush (drop n b) of (r, b', out) \<Rightarrow> (r, b', take n b @ out)))"

declare sink_poll_flush.simps [simp del]

datatype 'i sink_op = Poll_ready "write_result list" "stream_error option" | Start_send 'i | Poll_flush "write_result list" "stream_error option"

definition start_send :: "('i \<Rightarrow> byte list \<Rightarrow> byte list \<times> ('e, unit) outcome) \<Rightarrow> 'i \<Rightarrow> framed_write \<Rightarrow> framed_write \<times> ('e, unit) outcome" where
  "start_send encode i w = (case encode i (w_buffer w) of (b, r) \<Rightarrow> (w\<lparr>w_buffer := b\<rparr>, r))"

definition poll_ready :: "(stream_error \<Rightarrow> 'e) \<Rightarrow> write_result list \<Rightarrow> stream_error option \<Rightarrow> framed_write \<Rightarrow> 'e sink_poll \<times> byte list \<times> byte list" where
  "poll_ready conv ws flush w =
     (if backpressure_boundary w \<le> length (w_buffer w) then sink_poll_flush conv ws flush (w_buffer w)
      else (Sink_ready (Ok ()), w_buffer w, []))"

text \<open>An operation on the sink: what it answers, the sink, and what it put on the connection.\<close>

fun sink_do :: "(stream_error \<Rightarrow> 'e) \<Rightarrow> ('i \<Rightarrow> byte list \<Rightarrow> byte list \<times> ('e, unit) outcome) \<Rightarrow> 'i sink_op \<Rightarrow> framed_write \<Rightarrow>
    'e sink_poll \<times> framed_write \<times> byte list" where
  "sink_do conv encode (Poll_ready ws flush) w = (case poll_ready conv ws flush w of (r, b, out) \<Rightarrow> (r, w\<lparr>w_buffer := b\<rparr>, out))"
| "sink_do conv encode (Start_send i) w = (case start_send encode i w of (w, r) \<Rightarrow> (Sink_ready r, w, []))"
| "sink_do conv encode (Poll_flush ws flush) w = (case sink_poll_flush conv ws flush (w_buffer w) of (r, b, out) \<Rightarrow> (r, w\<lparr>w_buffer := b\<rparr>, out))"

fun sink_run :: "(stream_error \<Rightarrow> 'e) \<Rightarrow> ('i \<Rightarrow> byte list \<Rightarrow> byte list \<times> ('e, unit) outcome) \<Rightarrow> 'i sink_op list \<Rightarrow> framed_write \<Rightarrow>
    framed_write \<times> byte list" where
  "sink_run conv encode [] w = (w, [])"
| "sink_run conv encode (x # xs) w =
     (case sink_do conv encode x w of (_, w, out) \<Rightarrow> (case sink_run conv encode xs w of (w, out') \<Rightarrow> (w, out @ out')))"

fun sent_items :: "'i sink_op list \<Rightarrow> 'i list" where
  "sent_items [] = []"
| "sent_items (Start_send i # xs) = i # sent_items xs"
| "sent_items (_ # xs) = sent_items xs"

lemma sink_poll_flush_split: "sink_poll_flush conv ws flush b = (r, b', out) \<Longrightarrow> out @ b' = b \<and> (r = Sink_ready (Ok ()) \<longrightarrow> b' = [])"
proof (induction ws arbitrary: b r b' out)
  case Nil
  then show ?case
    by (auto simp: sink_poll_flush.simps split: if_splits)
next
  case (Cons w ws)
  show ?case
  proof (cases "b = []")
    case True
    with Cons(2) show ?thesis
      by (auto simp: sink_poll_flush.simps)
  next
    case False
    show ?thesis
    proof (cases w)
      case (Wrote n)
      show ?thesis
      proof (cases "length b < n")
        case True
        with Cons(2) False Wrote show ?thesis
          by (auto simp: sink_poll_flush.simps)
      next
        case small: False
        obtain r1 b1 out1 where rec: "sink_poll_flush conv ws flush (drop n b) = (r1, b1, out1)"
          by (cases "sink_poll_flush conv ws flush (drop n b)") auto
        with Cons(2) False Wrote small have "r = r1" "b' = b1" "out = take n b @ out1"
          by (simp_all add: sink_poll_flush.simps [of conv "Wrote n # ws"])
        with Cons(1) [OF rec] show ?thesis
          by (metis append_assoc append_take_drop_id)
      qed
    next
      case (Write_error e)
      with Cons(2) False show ?thesis
        by (auto simp: sink_poll_flush.simps)
    qed
  qed
qed

section \<open>\<open>write_all\<close>\<close>

fun write_all :: "write_result list \<Rightarrow> byte list \<Rightarrow> (stream_error, unit) outcome option \<times> byte list" where
  "write_all ws data =
     (if data = [] then (Some (Ok ()), [])
      else case ws of
        [] \<Rightarrow> (None, [])
      | Write_error e # ws \<Rightarrow> (Some (Err e), [])
      | Wrote len # ws \<Rightarrow>
          (if len = 0 then (Some Panic, [])
           else if len = length data then (Some (Ok ()), data)
           else if length data < len then (Some Panic, data)
           else case write_all ws (drop len data) of (r, out) \<Rightarrow> (r, take len data @ out)))"

declare write_all.simps [simp del]


lemma write_all_out: "write_all ws data = (r, out) \<Longrightarrow> prefix out data \<and> (r = Some (Ok ()) \<longrightarrow> out = data)"
proof (induction ws arbitrary: data r out)
  case Nil
  then show ?case
    by (auto simp: write_all.simps split: if_splits)
next
  case (Cons w ws)
  show ?case
  proof (cases "\<exists>n. w = Wrote n \<and> 0 < n \<and> n < length data")
    case True
    then obtain n where n: "w = Wrote n" "0 < n" "n < length data" "data \<noteq> []"
      by fastforce
    obtain r1 out1 where rec: "write_all ws (drop n data) = (r1, out1)"
      by (cases "write_all ws (drop n data)") auto
    with Cons(2) n have "r = r1" "out = take n data @ out1"
      by (auto simp: write_all.simps [of "Wrote n # ws"])
    with Cons(1) [OF rec] show ?thesis
      using same_prefix_prefix [of "take n data" out1 "drop n data"] by auto
  next
    case False
    with Cons(2) show ?thesis
      by (cases w) (auto simp: write_all.simps [of "_ # ws"] split: if_splits)
  qed
qed

section \<open>Properties\<close>

text \<open>C28: Whatever pieces the lines of a connection arrive in, the stream gives each line once, without its
  end; what follows the last end of a line is an error when the connection is closed, and nothing is
  lost when it was closed after a line.\<close>

theorem lines_framed:
  assumes "\<And>l. l \<in> set ls \<Longrightarrow> 10 \<notin> set l" and "10 \<notin> set tail"
    and "concat cs = concat (map (\<lambda>l. l @ [10]) ls) @ tail" and "length ls < n"
  shows "items id lines_decode n (map Data cs @ [Read_error Closed]) (framed_read_new 0) =
    Some (ls, if tail = [] then End else Item (Err Closed))"
proof -
  have f: "framed peel_line (buffer (framed_read_new 0) @ concat cs) ls tail"
    using framed_lines [of ls tail] assms(1-3) by (simp add: framed_read_new_def)
  have "lines.ready (framed_read_new 0)"
    by (simp add: lines.ready_def framed_read_new_def searched_def)
  from lines.items_framed [OF f this assms(4), of id "Some Closed"] show ?thesis
    by (simp add: final_def)
qed

theorem lines_framed_witness:
  "items id lines_decode 3 (map Data [[97], [10, 98, 98], [10, 99]] @ [Read_error Closed]) (framed_read_new 0) =
    Some ([[97], [98, 98]], Item (Err Closed))"
proof -
  have "10 \<notin> set l" if "l \<in> set [[97], [98, 98]]" for l :: "byte list"
    using that by auto
  from lines_framed [of "[[97], [98, 98]]" "[99]" "[[97], [10, 98, 98], [10, 99]]" 3, OF this] show ?thesis
    by simp
qed

text \<open>In any sequence of operations on a sink, whatever the connection takes of each write, the bytes
  on the connection followed by those in the buffer are the encodings of the items in the order they were
  sent, and a flush that succeeds leaves nothing in the buffer.\<close>

theorem sink_in_order:
  assumes "\<And>i b. encode i b = (b @ enc i, Ok ())" and "sink_run conv encode xs framed_write_new = (w, out)"
  shows "out @ w_buffer w = concat (map enc (sent_items xs)) \<and>
    (\<forall>ws flush w' out'. sink_do conv encode (Poll_flush ws flush) w = (Sink_ready (Ok ()), w', out') \<longrightarrow>
      out @ out' = concat (map enc (sent_items xs)))"
proof -
  have flushed: "out @ w_buffer w' = w_buffer w" if "sink_do conv encode x w = (r, w', out)" "sent_items [x] = []" for x w r w' out
    using that by (cases x) (auto simp: poll_ready_def dest!: sink_poll_flush_split split: prod.splits if_splits)
  have run: "out @ w_buffer w' = w_buffer w @ concat (map enc (sent_items xs))" if "sink_run conv encode xs w = (w', out)" for w w' out
    using that
  proof (induction xs arbitrary: w w' out)
    case (Cons x xs)
    obtain r w1 out1 where do: "sink_do conv encode x w = (r, w1, out1)"
      by (metis prod_cases3)
    obtain w2 out2 where run: "sink_run conv encode xs w1 = (w2, out2)"
      by fastforce
    have "out1 @ w_buffer w1 = w_buffer w @ concat (map enc (sent_items [x]))"
      using do flushed [OF do] assms(1) by (cases x) (auto simp: start_send_def)
    with Cons do run show ?case
      by (cases x) auto
  qed simp
  have all: "out @ w_buffer w = concat (map enc (sent_items xs))"
    using run [OF assms(2)] by (simp add: framed_write_new_def)
  moreover have "out' = w_buffer w" if "sink_do conv encode (Poll_flush ws flush) w = (Sink_ready (Ok ()), w', out')" for ws flush w' out'
    using that by (auto dest!: sink_poll_flush_split split: prod.splits)
  ultimately show ?thesis
    by blast
qed


definition demo_enc :: "nat \<Rightarrow> byte list \<Rightarrow> byte list \<times> (stream_error, unit) outcome" where
  "demo_enc i b = (b @ replicate i 7, Ok ())"

theorem sink_in_order_witness:
  "\<exists>w out. sink_run id demo_enc [Start_send 2, Poll_flush [Wrote 1] None, Start_send 1] framed_write_new = (w, out) \<and>
    out = [7] \<and> out @ w_buffer w = [7, 7, 7]"
proof -
  obtain w out where run: "sink_run id demo_enc [Start_send 2, Poll_flush [Wrote 1] None, Start_send 1] framed_write_new = (w, out)"
    by fastforce
  have "out = [7]"
    using run by (auto simp: start_send_def demo_enc_def framed_write_new_def sink_poll_flush.simps)
  moreover have "out @ w_buffer w = concat (map (\<lambda>i. replicate i 7) [2, 1])"
    using sink_in_order [OF demo_enc_def run] by simp
  ultimately show ?thesis
    using run by (simp add: numeral_2_eq_2)
qed

end
