(* ===== verification/WasiSpeed.thy ===== *)
theory WasiSpeed
  imports SpeedServer WasiCodec
begin

text \<open>
  The speed daemon of the WASI port, \<open>wasi/problems/p06-speed-daemon/src\<close>: the packets and their codec
  (\<open>wire.rs\<close>), what a client's handlers do with an item of their stream (\<open>clients.rs\<close> and \<open>clients/\<close>), and
  the program with its controller task and the clients that take turns (\<open>lib.rs\<close>). The controller,
  the dispatchers, the registry of cameras and the heartbeats are the same code as those of the other
  version; they are taken from \<open>SpeedController\<close> and \<open>SpeedServer\<close>. A panic ends the whole program.
\<close>

section \<open>Packets\<close>

datatype wire_packet =
    Error_packet rstring
  | Plate_packet rstring u32
  | Ticket_packet ticket
  | Want_heartbeat_packet u32
  | Heartbeat_packet
  | Camera_packet u16 u16 u16
  | Dispatcher_packet "u16 list"

fun packet_tag :: "wire_packet \<Rightarrow> byte" where
  "packet_tag (Error_packet _) = TAG_Error"
| "packet_tag (Plate_packet _ _) = TAG_Plate"
| "packet_tag (Ticket_packet _) = TAG_Ticket"
| "packet_tag (Want_heartbeat_packet _) = TAG_WantHeartbeat"
| "packet_tag Heartbeat_packet = TAG_Heartbeat"
| "packet_tag (Camera_packet _ _ _) = TAG_IAmCamera"
| "packet_tag (Dispatcher_packet _) = TAG_IAmDispatcher"

text \<open>The readers one after the other, as the macro \<open>some!\<close> chains them.\<close>

definition and_then :: "'a reader \<Rightarrow> ('a \<Rightarrow> 'b reader) \<Rightarrow> 'b reader" where
  "and_then g f bs = (case g bs of None \<Rightarrow> None | Some (x, r) \<Rightarrow> f x r)"

definition give :: "'a \<Rightarrow> 'a reader" where
  "give x bs = Some (x, bs)"

definition get_str_d :: "rstring reader" where
  "get_str_d = and_then rd_u8 (\<lambda>len. and_then (rd_exact (unat len)) (\<lambda>s. give (utf8_lossy s)))"

definition get_payload :: "byte \<Rightarrow> wire_packet reader option" where
  "get_payload tag =
     (if tag = TAG_Error then Some (and_then get_str_d (\<lambda>msg. give (Error_packet msg)))
      else if tag = TAG_Plate then
        Some (and_then get_str_d (\<lambda>p. and_then rd_u32 (\<lambda>t. give (Plate_packet p t))))
      else if tag = TAG_Ticket then
        Some (and_then get_str_d (\<lambda>p. and_then rd_u16 (\<lambda>r. and_then rd_u16 (\<lambda>m1. and_then rd_u32 (\<lambda>t1.
          and_then rd_u16 (\<lambda>m2. and_then rd_u32 (\<lambda>t2. and_then rd_u16 (\<lambda>s.
            give (Ticket_packet \<lparr>plate = p, road = r, mile1 = m1, timestamp1 = t1, mile2 = m2, timestamp2 = t2, speed = s\<rparr>)))))))))
      else if tag = TAG_WantHeartbeat then Some (and_then rd_u32 (\<lambda>i. give (Want_heartbeat_packet i)))
      else if tag = TAG_Heartbeat then Some (give Heartbeat_packet)
      else if tag = TAG_IAmCamera then
        Some (and_then rd_u16 (\<lambda>r. and_then rd_u16 (\<lambda>m. and_then rd_u16 (\<lambda>l. give (Camera_packet r m l)))))
      else if tag = TAG_IAmDispatcher then
        Some (and_then rd_u8 (\<lambda>len. and_then (rd_many rd_u16 (unat len)) (\<lambda>rs. give (Dispatcher_packet rs))))
      else None)"

datatype wire_error = Invalid_packet byte | Stream_broken

text \<open>\<open>PacketCodec::decode\<close>: the buffer after the call and its result.\<close>

definition packet_decode :: "byte list \<Rightarrow> byte list \<times> (wire_error, wire_packet option) outcome" where
  "packet_decode src =
     (case rd_u8 src of
        None \<Rightarrow> (src, Ok None)
      | Some (tag, data) \<Rightarrow>
          (case get_payload tag of
             None \<Rightarrow> (src, Err (Invalid_packet tag))
           | Some get \<Rightarrow>
               (case get data of
                  None \<Rightarrow> (src, Ok None)
                | Some (p, data) \<Rightarrow> (drop (length src - length data) src, Ok (Some p)))))"

text \<open>\<open>PacketCodec::encode\<close>: \<open>put_str_d\<close> asserts that a string has less than 256 bytes; the number of roads
  is truncated.\<close>

definition put_str_d :: "rstring \<Rightarrow> (wire_error, byte list) outcome" where
  "put_str_d msg = (if length msg < 256 then Ok (of_nat (length msg) # msg) else Panic)"

fun packet_out :: "wire_packet \<Rightarrow> (wire_error, byte list) outcome" where
  "packet_out (Error_packet msg) = bind_outcome (put_str_d msg) (\<lambda>m. Ok (TAG_Error # m))"
| "packet_out (Plate_packet p t) = bind_outcome (put_str_d p) (\<lambda>p. Ok (TAG_Plate # p @ to_be_u32 t))"
| "packet_out (Ticket_packet t) =
     bind_outcome (put_str_d (plate t)) (\<lambda>p.
       Ok (TAG_Ticket # p @ to_be_u16 (road t) @ to_be_u16 (mile1 t) @ to_be_u32 (timestamp1 t) @ to_be_u16 (mile2 t) @
           to_be_u32 (timestamp2 t) @ to_be_u16 (speed t)))"
| "packet_out (Want_heartbeat_packet i) = Ok (TAG_WantHeartbeat # to_be_u32 i)"
| "packet_out Heartbeat_packet = Ok [TAG_Heartbeat]"
| "packet_out (Camera_packet r m l) = Ok (TAG_IAmCamera # to_be_u16 r @ to_be_u16 m @ to_be_u16 l)"
| "packet_out (Dispatcher_packet rs) = Ok (TAG_IAmDispatcher # of_nat (length rs) # concat (map to_be_u16 rs))"

section \<open>The handlers of a client\<close>

text \<open>The period of a heartbeat is multiplied in 32 bits; a second request is an error.\<close>

definition set_heartbeat :: "bool \<Rightarrow> nat \<Rightarrow> u32 \<Rightarrow> heartbeat \<Rightarrow> (wire_error, heartbeat) outcome" where
  "set_heartbeat oc now interval hb =
     (if is_setted hb then Err (Invalid_packet TAG_WantHeartbeat)
      else bind_outcome (mul_w oc interval 100) (\<lambda>p. Ok (set_period now (unat p) hb)))"

datatype client_type = Camera_client u16 u16 u16 | Dispatcher_client "u16 list" | Unknown_client

definition identify :: "bool \<Rightarrow> nat \<Rightarrow> (wire_error, wire_packet) polled \<Rightarrow> heartbeat \<Rightarrow> (wire_error, client_type option \<times> heartbeat) outcome" where
  "identify oc now item hb =
     (case item of
        Pending \<Rightarrow> Ok (None, hb)
      | End \<Rightarrow> Ok (Some Unknown_client, hb)
      | Item (Err e) \<Rightarrow> Err e
      | Item Panic \<Rightarrow> Panic
      | Item (Ok p) \<Rightarrow>
          (case p of
             Camera_packet r m l \<Rightarrow> Ok (Some (Camera_client r m l), hb)
           | Dispatcher_packet rs \<Rightarrow> Ok (Some (Dispatcher_client rs), hb)
           | Want_heartbeat_packet i \<Rightarrow> bind_outcome (set_heartbeat oc now i hb) (\<lambda>hb. Ok (None, hb))
           | _ \<Rightarrow> Err (Invalid_packet (packet_tag p))))"

text \<open>The loops of a camera and of a dispatcher: whether they end well, and what a camera tells the controller.\<close>

definition camera_item :: "bool \<Rightarrow> nat \<Rightarrow> u16 \<Rightarrow> u16 \<Rightarrow> u16 \<Rightarrow> (wire_error, wire_packet) polled \<Rightarrow> heartbeat \<Rightarrow>
    (wire_error, bool \<times> heartbeat \<times> controller_message list) outcome" where
  "camera_item oc now r m l item hb =
     (case item of
        Pending \<Rightarrow> Ok (False, hb, [])
      | End \<Rightarrow> Ok (True, hb, [])
      | Item (Err e) \<Rightarrow> Err e
      | Item Panic \<Rightarrow> Panic
      | Item (Ok p) \<Rightarrow>
          (case p of
             Plate_packet s t \<Rightarrow>
               Ok (False, hb, [PlateSeen \<lparr>obs_road = r, obs_mile = m, obs_limit = l, obs_plate = s, obs_time = t\<rparr>])
           | Want_heartbeat_packet i \<Rightarrow> bind_outcome (set_heartbeat oc now i hb) (\<lambda>hb. Ok (False, hb, []))
           | _ \<Rightarrow> Err (Invalid_packet (packet_tag p))))"

definition dispatcher_item :: "bool \<Rightarrow> nat \<Rightarrow> (wire_error, wire_packet) polled \<Rightarrow> heartbeat \<Rightarrow> (wire_error, bool \<times> heartbeat) outcome" where
  "dispatcher_item oc now item hb =
     (case item of
        Pending \<Rightarrow> Ok (False, hb)
      | End \<Rightarrow> Ok (True, hb)
      | Item (Err e) \<Rightarrow> Err e
      | Item Panic \<Rightarrow> Panic
      | Item (Ok p) \<Rightarrow>
          (case p of
             Want_heartbeat_packet i \<Rightarrow> bind_outcome (set_heartbeat oc now i hb) (\<lambda>hb. Ok (False, hb))
           | _ \<Rightarrow> Err (Invalid_packet (packet_tag p))))"

text \<open>What a client is told when its handler fails: \<open>{:2x}\<close> fills with a space.\<close>

datatype failure = Bad_packet wire_error | Bad_camera

definition hex_char :: "nat \<Rightarrow> byte" where
  "hex_char d = of_nat (if d < 10 then 48 + d else 87 + d)"

definition hex2 :: "byte \<Rightarrow> rstring" where
  "hex2 b = [if unat b < 16 then 32 else hex_char (unat b div 16), hex_char (unat b mod 16)]"

fun failure_text :: "failure \<Rightarrow> rstring" where
  "failure_text (Bad_packet (Invalid_packet t)) = ascii ''wire error invalid message: 0x'' @ hex2 t"
| "failure_text (Bad_packet Stream_broken) = ascii ''wire error stream error''"
| "failure_text Bad_camera = ascii ''invalid camera''"

section \<open>The program\<close>

text \<open>A connection with what its handler has written, and the tickets in the channel of a dispatcher.\<close>

datatype conn_phase = Identifying | Camera_on u16 u16 u16 | Dispatching nat | Over

record conn =
  conn_phase :: conn_phase
  conn_beat :: heartbeat
  conn_tickets :: "ticket list"
  conn_out :: "byte list"

text \<open>\<open>channels\<close> gives the connection that holds the receiver of a dispatcher's channel.\<close>

record speed_world =
  srv :: server
  cams :: cameras
  mail :: "controller_message list"
  conns :: "conn list"
  channels :: "nat \<rightharpoonup> nat"
  next_dispatcher :: nat

definition world_new :: speed_world where
  "world_new = \<lparr>srv = server_new, cams = Map.empty, mail = [], conns = [], channels = Map.empty, next_dispatcher = 0\<rparr>"

definition conn_new :: "nat \<Rightarrow> conn" where
  "conn_new now = \<lparr>conn_phase = Identifying, conn_beat = heartbeat_new now None, conn_tickets = [], conn_out = []\<rparr>"

definition set_conn :: "nat \<Rightarrow> conn \<Rightarrow> speed_world \<Rightarrow> speed_world" where
  "set_conn i c w = w\<lparr>conns := (conns w)[i := c]\<rparr>"

text \<open>The end of a handler: its guard is dropped, a dispatcher's receiver with it, and the client is told of a
  failure.\<close>

definition drop_guard :: "conn_phase \<Rightarrow> speed_world \<Rightarrow> speed_world" where
  "drop_guard p w =
     (case p of
        Camera_on r m l \<Rightarrow> w\<lparr>cams := camera_guard_drop r (cams w)\<rparr>
      | Dispatching d \<Rightarrow> w\<lparr>mail := mail w @ [RemoveDispatcher d], channels := (channels w)(d := None)\<rparr>
      | _ \<Rightarrow> w)"

definition conn_end :: "nat \<Rightarrow> conn \<Rightarrow> failure option \<Rightarrow> speed_world \<Rightarrow> (wire_error, speed_world) outcome" where
  "conn_end i c fail w =
     bind_outcome (case fail of None \<Rightarrow> Ok [] | Some f \<Rightarrow> packet_out (Error_packet (failure_text f))) (\<lambda>bs.
       Ok (drop_guard (conn_phase c)
         (set_conn i (c\<lparr>conn_phase := Over, conn_tickets := [], conn_out := conn_out c @ bs\<rparr>) w)))"

definition conn_identified :: "nat \<Rightarrow> conn \<Rightarrow> client_type \<Rightarrow> speed_world \<Rightarrow> (wire_error, speed_world) outcome" where
  "conn_identified i c k w =
     (case k of
        Unknown_client \<Rightarrow> conn_end i c None w
      | Camera_client r m l \<Rightarrow>
          (case camera_guard_new r l (cams w) of
             (ok, cs) \<Rightarrow>
               (let w = w\<lparr>cams := cs\<rparr>
                in if ok then Ok (set_conn i (c\<lparr>conn_phase := Camera_on r m l\<rparr>) w)
                   else conn_end i c (Some Bad_camera) w))
      | Dispatcher_client rs \<Rightarrow>
          (let d = next_dispatcher w
           in Ok (set_conn i (c\<lparr>conn_phase := Dispatching d\<rparr>)
                (w\<lparr>mail := mail w @ [AddDispatcher d rs d], channels := (channels w)(d \<mapsto> i), next_dispatcher := Suc d\<rparr>))))"

text \<open>An item of the stream of a client.\<close>

definition conn_input :: "bool \<Rightarrow> nat \<Rightarrow> nat \<Rightarrow> conn \<Rightarrow> (wire_error, wire_packet) polled \<Rightarrow> speed_world \<Rightarrow> (wire_error, speed_world) outcome" where
  "conn_input oc now i c item w =
     (case conn_phase c of
        Identifying \<Rightarrow>
          (case identify oc now item (conn_beat c) of
             Ok (None, hb) \<Rightarrow> Ok (set_conn i (c\<lparr>conn_beat := hb\<rparr>) w)
           | Ok (Some k, hb) \<Rightarrow> conn_identified i (c\<lparr>conn_beat := hb\<rparr>) k w
           | Err e \<Rightarrow> conn_end i c (Some (Bad_packet e)) w
           | Panic \<Rightarrow> Panic)
      | Camera_on r m l \<Rightarrow>
          (case camera_item oc now r m l item (conn_beat c) of
             Ok (ended, hb, ms) \<Rightarrow>
               (let c = c\<lparr>conn_beat := hb\<rparr>; w = w\<lparr>mail := mail w @ ms\<rparr>
                in if ended then conn_end i c None w else Ok (set_conn i c w))
           | Err e \<Rightarrow> conn_end i c (Some (Bad_packet e)) w
           | Panic \<Rightarrow> Panic)
      | Dispatching d \<Rightarrow>
          (case dispatcher_item oc now item (conn_beat c) of
             Ok (ended, hb) \<Rightarrow>
               (let c = c\<lparr>conn_beat := hb\<rparr>
                in if ended then conn_end i c None w else Ok (set_conn i c w))
           | Err e \<Rightarrow> conn_end i c (Some (Bad_packet e)) w
           | Panic \<Rightarrow> Panic)
      | Over \<Rightarrow> Ok w)"

text \<open>A turn of the task of the controller: it \<open>unwrap\<close>s the result of the dispatchers.\<close>

fun deliver :: "(nat \<rightharpoonup> nat) \<Rightarrow> (nat \<times> ticket) list \<Rightarrow> conn list \<Rightarrow> conn list" where
  "deliver ch [] cs = cs"
| "deliver ch ((d, t) # sent) cs =
     (case ch d of
        Some i \<Rightarrow> deliver ch sent (cs[i := (cs ! i)\<lparr>conn_tickets := conn_tickets (cs ! i) @ [t]\<rparr>])
      | None \<Rightarrow> deliver ch sent cs)"

definition controller_turn :: "bool \<Rightarrow> order \<Rightarrow> controller_message \<Rightarrow> speed_world \<Rightarrow> (wire_error, speed_world) outcome" where
  "controller_turn oc order m w =
     (case run_message oc order (\<lambda>d. channels w d = None) m (srv w) of
        Ok (sent, s) \<Rightarrow> Ok (w\<lparr>srv := s, conns := deliver (channels w) sent (conns w)\<rparr>)
      | Err _ \<Rightarrow> Panic
      | Panic \<Rightarrow> Panic)"

datatype world_event =
    Accepted nat
  | Input nat "(wire_error, wire_packet) polled" nat
  | Beat_due nat nat
  | Forward nat
  | Controller_turn

text \<open>\<open>None\<close> is an event that cannot happen in the state.\<close>

fun world_do :: "bool \<Rightarrow> order \<Rightarrow> world_event \<Rightarrow> speed_world \<Rightarrow> (wire_error, speed_world) outcome option" where
  "world_do oc order (Accepted now) w = Some (Ok (w\<lparr>conns := conns w @ [conn_new now]\<rparr>))"
| "world_do oc order (Input i item now) w =
     (if i < length (conns w) \<and> conn_phase (conns w ! i) \<noteq> Over then Some (conn_input oc now i (conns w ! i) item w) else None)"
| "world_do oc order (Beat_due i now) w =
     (if i < length (conns w) \<and> conn_phase (conns w ! i) \<noteq> Over \<and> is_setted (conn_beat (conns w ! i)) then
        (let c = conns w ! i
         in case tick now (conn_beat c) of
              None \<Rightarrow> None
            | Some hb \<Rightarrow> Some (bind_outcome (packet_out Heartbeat_packet) (\<lambda>bs.
                Ok (set_conn i (c\<lparr>conn_beat := hb, conn_out := conn_out c @ bs\<rparr>) w))))
      else None)"
| "world_do oc order (Forward i) w =
     (if i < length (conns w) \<and> conn_phase (conns w ! i) \<noteq> Over then
        (let c = conns w ! i
         in case conn_tickets c of
              [] \<Rightarrow> None
            | t # ts \<Rightarrow> Some (bind_outcome (packet_out (Ticket_packet t)) (\<lambda>bs.
                Ok (set_conn i (c\<lparr>conn_tickets := ts, conn_out := conn_out c @ bs\<rparr>) w))))
      else None)"
| "world_do oc order Controller_turn w =
     (case mail w of [] \<Rightarrow> None | m # ms \<Rightarrow> Some (controller_turn oc order m (w\<lparr>mail := ms\<rparr>)))"

fun world_run :: "bool \<Rightarrow> order \<Rightarrow> world_event list \<Rightarrow> speed_world \<Rightarrow> (wire_error, speed_world) outcome option" where
  "world_run oc order [] w = Some (Ok w)"
| "world_run oc order (e # es) w =
     (case world_do oc order e w of
        Some (Ok w) \<Rightarrow> world_run oc order es w
      | r \<Rightarrow> r)"

section \<open>The codec\<close>

definition stable :: "'a reader \<Rightarrow> bool" where
  "stable g \<longleftrightarrow> (\<forall>bs x r t. g bs = Some (x, r) \<longrightarrow> g (bs @ t) = Some (x, r @ t) \<and> length r \<le> length bs)"

lemma stable_and_then: "stable g \<Longrightarrow> (\<And>x. stable (f x)) \<Longrightarrow> stable (and_then g f)"
  unfolding stable_def and_then_def by (fastforce split: option.splits prod.splits)

lemma stable_basic: "stable (give x)" "stable rd_u8" "stable rd_u16" "stable rd_u32" "stable (rd_exact n)"
  by (auto simp: stable_def give_def rd_u8_Some rd_u16_Some rd_u32_Some rd_exact_Some rd_exact_def to_be_u16_def to_be_u32_def from_to_be_u16 from_to_be_u32)

lemma stable_many: "stable g \<Longrightarrow> stable (rd_many g n)"
proof (induction n)
  case (Suc n)
  have "rd_many g (Suc n) = and_then g (\<lambda>x. and_then (rd_many g n) (\<lambda>xs. give (x # xs)))"
    by (rule ext) (auto simp: and_then_def give_def split: option.splits)
  with Suc show ?case
    by (simp add: stable_and_then stable_basic)
qed (simp add: stable_def)

lemma stable_payload: "get_payload tag = Some g \<Longrightarrow> stable g"
  unfolding get_payload_def get_str_d_def by (auto intro!: stable_and_then stable_basic stable_many split: if_splits)

lemma packet_decode_append:
  assumes "packet_decode bs = (r, Ok (Some p))"
  shows "packet_decode (bs @ t) = (r @ t, Ok (Some p))"
proof -
  obtain tag data where bs: "bs = tag # data"
    using assms by (cases bs) (auto simp: packet_decode_def)
  then obtain g data' where g: "get_payload tag = Some g" "g data = Some (p, data')" "r = drop (length bs - length data') bs"
    using assms by (auto simp: packet_decode_def split: option.splits)
  with stable_payload [OF g(1)] have "g (data @ t) = Some (p, data' @ t)" "length data' \<le> length data"
    by (auto simp: stable_def)
  with g bs show ?thesis
    by (simp add: packet_decode_def Suc_diff_le)
qed

text \<open>The strings of the program are UTF-8, as every \<open>String\<close> is; a dispatcher may have any number of roads.\<close>

definition strings_ok :: "wire_packet \<Rightarrow> bool" where
  "strings_ok p \<longleftrightarrow>
     (case p of
        Error_packet m \<Rightarrow> utf8_valid m
      | Plate_packet s _ \<Rightarrow> utf8_valid s
      | Ticket_packet t \<Rightarrow> utf8_valid (plate t)
      | _ \<Rightarrow> True)"

definition roads_fit :: "wire_packet \<Rightarrow> bool" where
  "roads_fit p \<longleftrightarrow> (case p of Dispatcher_packet rs \<Rightarrow> length rs < 256 | _ \<Rightarrow> True)"

definition wire_packet_ok :: "wire_packet \<Rightarrow> bool" where
  "wire_packet_ok p \<longleftrightarrow> strings_ok p \<and> roads_fit p"

lemmas wire_packet_ok_defs = wire_packet_ok_def strings_ok_def roads_fit_def

lemma put_str_Ok: "put_str_d s = Ok bs \<Longrightarrow> utf8_valid s \<Longrightarrow> get_str_d (bs @ rest) = Some (s, rest)"
  by (auto simp: put_str_d_def get_str_d_def and_then_def give_def rd_exact_def unat_of_nat_small utf8_lossy_valid split: if_splits)

lemmas tags = TAG_Error_def TAG_Plate_def TAG_Ticket_def TAG_WantHeartbeat_def TAG_Heartbeat_def TAG_IAmCamera_def TAG_IAmDispatcher_def

lemma packet_get_out:
  assumes "wire_packet_ok p" and "packet_out p = Ok bs"
  shows "packet_decode (bs @ rest) = (rest, Ok (Some p))"
proof -
  have "\<exists>g data. bs = packet_tag p # data \<and> get_payload (packet_tag p) = Some g \<and> g (data @ rest) = Some (p, rest)"
  proof (cases p)
    case (Error_packet m)
    with assms obtain s where "put_str_d m = Ok s" "bs = TAG_Error # s" "utf8_valid m"
      by (auto simp: wire_packet_ok_defs)
    with put_str_Ok show ?thesis
      by (simp add: Error_packet get_payload_def and_then_def give_def)
  next
    case (Plate_packet m t)
    with assms obtain s where s: "put_str_d m = Ok s" "bs = TAG_Plate # s @ to_be_u32 t" "utf8_valid m"
      by (auto simp: wire_packet_ok_defs)
    with put_str_Ok [OF s(1,3), of "to_be_u32 t @ rest"] show ?thesis
      by (simp add: Plate_packet get_payload_def tags and_then_def give_def wire_simps)
  next
    case (Ticket_packet t)
    with assms obtain s where s: "put_str_d (plate t) = Ok s" "utf8_valid (plate t)"
      "bs = TAG_Ticket # s @ to_be_u16 (road t) @ to_be_u16 (mile1 t) @ to_be_u32 (timestamp1 t) @ to_be_u16 (mile2 t) @
           to_be_u32 (timestamp2 t) @ to_be_u16 (speed t)"
      by (auto simp: wire_packet_ok_defs)
    with put_str_Ok [OF s(1,2)] show ?thesis
      by (simp add: Ticket_packet get_payload_def tags and_then_def give_def wire_simps)
  next
    case (Dispatcher_packet rs)
    with assms show ?thesis
      using u16_codec.many_put [of rs rest]
      by (auto simp: wire_packet_ok_defs get_payload_def tags and_then_def give_def unat_of_nat_small)
  qed (use assms in \<open>auto simp: get_payload_def tags and_then_def give_def wire_simps\<close>)
  then show ?thesis
    by (auto simp: packet_decode_def)
qed

text \<open>Of too many roads the decoder reads as many as the truncated number says.\<close>

lemma packet_get_roads:
  "packet_decode (TAG_IAmDispatcher # of_nat (length rs) # concat (map to_be_u16 rs) @ rest) =
     (concat (map to_be_u16 (drop (length rs mod 256) rs)) @ rest,
      Ok (Some (Dispatcher_packet (take (length rs mod 256) rs))))"
proof -
  let ?k = "length rs mod 256"
  have len: "unat (of_nat (length rs) :: u8) = ?k"
    by (simp add: unat_of_nat)
  have k: "length (take ?k rs) = ?k"
    by simp
  have split: "concat (map to_be_u16 rs) @ rest = concat (map to_be_u16 (take ?k rs)) @ (concat (map to_be_u16 (drop ?k rs)) @ rest)"
    by (metis append.assoc append_take_drop_id concat_append map_append)
  have "rd_many rd_u16 ?k (concat (map to_be_u16 rs) @ rest) = Some (take ?k rs, concat (map to_be_u16 (drop ?k rs)) @ rest)"
    unfolding split using u16_codec.many_put [of "take ?k rs" "concat (map to_be_u16 (drop ?k rs)) @ rest"] unfolding k by simp
  then have "rd_many rd_u16 ?k (concat (map to_be_u16 rs) @ rest) = Some (take ?k rs, concat (map to_be_u16 (drop ?k rs)) @ rest)"
    by simp
  moreover have "drop (length (a @ c) - length c) (a @ c) = c" for a c :: "byte list"
    by simp
  from this [of "TAG_IAmDispatcher # of_nat (length rs) # concat (map to_be_u16 (take ?k rs))"
      "concat (map to_be_u16 (drop ?k rs)) @ rest"]
  have "drop (length (TAG_IAmDispatcher # of_nat (length rs) # concat (map to_be_u16 rs) @ rest) -
      length (concat (map to_be_u16 (drop ?k rs)) @ rest)) (TAG_IAmDispatcher # of_nat (length rs) # concat (map to_be_u16 rs) @ rest) =
      concat (map to_be_u16 (drop ?k rs)) @ rest"
    unfolding split by simp
  ultimately show ?thesis
    by (simp add: packet_decode_def get_payload_def tags and_then_def give_def len)
qed

lemma packet_get_prefix:
  assumes "wire_packet_ok p" and "packet_out p = Ok bs" and "strict_prefix part bs"
  shows "packet_decode part = (part, Ok None)"
proof (cases part)
  case Nil
  then show ?thesis
    by (simp add: packet_decode_def)
next
  case (Cons tag data)
  obtain t where t: "bs = part @ t" "t \<noteq> []"
    using assms(3) by (auto simp: strict_prefix_def prefix_def)
  have full: "packet_decode (part @ t) = ([], Ok (Some p))"
    using packet_get_out [OF assms(1,2), of "[]"] t(1) by simp
  with Cons obtain g where g: "get_payload tag = Some g"
    by (auto simp: packet_decode_def split: option.splits)
  show ?thesis
  proof (cases "g data")
    case None
    with g Cons show ?thesis
      by (simp add: packet_decode_def)
  next
    case (Some q)
    with g Cons obtain r where "packet_decode part = (r, Ok (Some (fst q)))"
      by (cases q) (simp add: packet_decode_def)
    from packet_decode_append [OF this, of t] full t(2) show ?thesis
      by simp
  qed
qed

section \<open>What the program keeps\<close>

definition live_camera :: "conn \<Rightarrow> (u16 \<times> u16) list" where
  "live_camera c = (case conn_phase c of Camera_on r m l \<Rightarrow> [(r, l)] | _ \<Rightarrow> [])"

definition live_cameras :: "conn list \<Rightarrow> (u16 \<times> u16) list" where
  "live_cameras cs = concat (map live_camera cs)"

lemma live_cameras_update:
  assumes "i < length cs"
  shows "mset (live_cameras (cs[i := c])) + mset (live_camera (cs ! i)) = mset (live_cameras cs) + mset (live_camera c)"
proof -
  have "live_cameras cs = live_cameras (take i cs @ cs ! i # drop (Suc i) cs)"
    using id_take_nth_drop [OF assms] by simp
  also have "\<dots> = live_cameras (take i cs) @ live_camera (cs ! i) @ live_cameras (drop (Suc i) cs)"
    by (simp add: live_cameras_def)
  finally have "mset (live_cameras cs) = mset (live_cameras (take i cs)) + mset (live_camera (cs ! i)) + mset (live_cameras (drop (Suc i) cs))"
    by simp
  moreover have "live_cameras (cs[i := c]) = live_cameras (take i cs) @ live_camera c @ live_cameras (drop (Suc i) cs)"
    using assms by (simp add: upd_conv_take_nth_drop live_cameras_def)
  ultimately show ?thesis
    by simp
qed

lemma registry_mset: "registry_inv (cs, live) \<Longrightarrow> mset live = mset live' \<Longrightarrow> registry_inv (cs, live')"
proof -
  assume inv: "registry_inv (cs, live)" and eq: "mset live = mset live'"
  have same: "mset (on_road r live) = mset (on_road r live')" for r
    by (simp add: on_road_def eq)
  have len: "length (on_road r live) = length (on_road r live')" and set: "set (on_road r live) = set (on_road r live')" for r
    by (rule mset_eq_length [OF same], rule mset_eq_setD [OF same])
  have empty: "on_road r live = [] \<longleftrightarrow> on_road r live' = []" for r
    using len [of r] by auto
  have "entry_ok r e (on_road r live) = entry_ok r e (on_road r live')" for r e
    by (simp add: entry_ok_def len set empty split: option.splits)
  with inv show ?thesis
    by (simp add: registry_inv_def)
qed

lemma registry_enter:
  "registry_inv (cs, live) \<Longrightarrow> camera_guard_new r l cs = (ok, cs') \<Longrightarrow> registry_inv (cs', if ok then (r, l) # live else live)"
  using camera_do_inv [of "(cs, live)" "Enter r l"] by simp

lemma registry_leave:
  "registry_inv (cs, live) \<Longrightarrow> (r, l) \<in> set live \<Longrightarrow> registry_inv (camera_guard_drop r cs, remove1 (r, l) live)"
  using camera_do_inv [of "(cs, live)" "Leave r l"] by simp

text \<open>The dispatchers that are registered once all messages have been handled.\<close>

fun final_ids :: "controller_message list \<Rightarrow> nat set \<Rightarrow> nat set" where
  "final_ids [] D = D"
| "final_ids (AddDispatcher d rs s # ms) D = final_ids ms (insert d D)"
| "final_ids (RemoveDispatcher d # ms) D = final_ids ms (D - {d})"
| "final_ids (PlateSeen ob # ms) D = final_ids ms D"

lemma final_ids_append: "final_ids (ms @ ns) D = final_ids ns (final_ids ms D)"
  by (induction ms D rule: final_ids.induct) simp_all

lemma final_ids_keep: "\<forall>d. RemoveDispatcher d \<notin> set ms \<Longrightarrow> D \<subseteq> final_ids ms D"
  by (induction ms D rule: final_ids.induct) fastforce+

definition registered_ids :: "speed_world \<Rightarrow> nat set" where
  "registered_ids w = fst ` set (registered (disp (srv w)))"

definition world_inv :: "speed_world \<Rightarrow> bool" where
  "world_inv w \<longleftrightarrow>
     registry_inv (cams w, live_cameras (conns w)) \<and>
     final_ids (mail w) (registered_ids w) = dom (channels w) \<and>
     (\<forall>d i. channels w d = Some i \<longleftrightarrow> i < length (conns w) \<and> conn_phase (conns w ! i) = Dispatching d) \<and>
     (\<forall>d \<in> dom (channels w). d < next_dispatcher w) \<and>
     (\<forall>x \<in> set (registered (disp (srv w))). snd (snd x) = fst x) \<and>
     (\<forall>d rs s. AddDispatcher d rs s \<in> set (mail w) \<longrightarrow> s = d)"

lemma world_new_inv: "world_inv world_new"
  by (simp add: world_inv_def world_new_def registry_inv_def entry_ok_def live_cameras_def registered_ids_def server_new_def
      dispatchers_new_def)

text \<open>A connection whose phase stays.\<close>

lemma live_cameras_phases: "live_cameras cs = concat (map (\<lambda>p. case p of Camera_on r m l \<Rightarrow> [(r, l)] | _ \<Rightarrow> []) (map conn_phase cs))"
  unfolding live_cameras_def live_camera_def by (simp add: comp_def)

lemma same_phases_inv:
  assumes "world_inv w" and "map conn_phase cs = map conn_phase (conns w)"
  shows "world_inv (w\<lparr>conns := cs\<rparr>)"
proof -
  have len: "length cs = length (conns w)"
    using assms(2) map_eq_imp_length_eq by blast
  have phase: "conn_phase (cs ! i) = conn_phase (conns w ! i)" if "i < length cs" for i
    using assms(2) that len by (metis nth_map)
  have same: "(i < length cs \<and> conn_phase (cs ! i) = p) \<longleftrightarrow> (i < length (conns w) \<and> conn_phase (conns w ! i) = p)" for i p
    using phase len by (cases "i < length cs") simp_all
  have "live_cameras cs = live_cameras (conns w)"
    unfolding live_cameras_phases assms(2) ..
  with assms(1) show ?thesis
    by (simp add: world_inv_def registered_ids_def same)
qed

lemma set_conn_inv: "world_inv w \<Longrightarrow> i < length (conns w) \<Longrightarrow> conn_phase c = conn_phase (conns w ! i) \<Longrightarrow> world_inv (set_conn i c w)"
  unfolding set_conn_def by (rule same_phases_inv) (auto simp: map_update list_update_same_conv)

lemma deliver_phases: "map conn_phase (deliver ch sent cs) = map conn_phase cs"
proof (induction ch sent cs rule: deliver.induct)
  case (2 ch d t sent cs)
  have "map conn_phase (cs[i := (cs ! i)\<lparr>conn_tickets := x\<rparr>]) = map conn_phase cs" for i x
    by (cases "i < length cs") (simp_all add: map_update list_update_same_conv list_update_beyond)
  with 2 show ?case
    by (simp split: option.splits)
qed simp

lemma world_invD:
  assumes "world_inv w"
  shows "registry_inv (cams w, live_cameras (conns w))"
    "final_ids (mail w) (registered_ids w) = dom (channels w)"
    "channels w d = Some i \<longleftrightarrow> i < length (conns w) \<and> conn_phase (conns w ! i) = Dispatching d"
    "d \<in> dom (channels w) \<Longrightarrow> d < next_dispatcher w"
    "x \<in> set (registered (disp (srv w))) \<Longrightarrow> snd (snd x) = fst x"
    "AddDispatcher d rs s \<in> set (mail w) \<Longrightarrow> s = d"
  using assms unfolding world_inv_def by blast+

text \<open>The end of a handler, by the phase that it was in.\<close>

lemma drop_guard_inv:
  assumes inv: "world_inv w" and i: "i < length (conns w)" and c: "conn_phase c = Over"
  shows "world_inv (drop_guard (conn_phase (conns w ! i)) (set_conn i c w))"
proof -
  note update = live_cameras_update [OF i, of c]
  have over: "live_camera c = []"
    by (simp add: live_camera_def c)
  have chan: "j < length ((conns w)[i := c]) \<and> conn_phase ((conns w)[i := c] ! j) = Dispatching d \<longleftrightarrow>
      j \<noteq> i \<and> j < length (conns w) \<and> conn_phase (conns w ! j) = Dispatching d" for j d
    using i c by (cases "j = i") simp_all
  have plain: "world_inv (set_conn i c w)" if none: "live_camera (conns w ! i) = []" and no: "\<And>d. conn_phase (conns w ! i) \<noteq> Dispatching d"
  proof -
    have "registry_inv (cams w, live_cameras ((conns w)[i := c]))"
      using update over none registry_mset [OF world_invD(1) [OF inv]] by simp
    moreover have "channels w d = Some j \<longleftrightarrow> j \<noteq> i \<and> j < length (conns w) \<and> conn_phase (conns w ! j) = Dispatching d" for d j
      using world_invD(3) [OF inv, of d j] no by auto
    ultimately show ?thesis
      using inv chan by (simp add: set_conn_def world_inv_def registered_ids_def)
  qed
  show ?thesis
  proof (cases "conn_phase (conns w ! i)")
    case (Camera_on r m l)
    then have cam: "live_camera (conns w ! i) = [(r, l)]"
      by (simp add: live_camera_def)
    with update over have eq: "mset (live_cameras (conns w)) = add_mset (r, l) (mset (live_cameras ((conns w)[i := c])))"
      by simp
    then have "(r, l) \<in> set (live_cameras (conns w))"
      by (metis set_mset_mset union_single_eq_member)
    from registry_leave [OF world_invD(1) [OF inv] this]
    have "registry_inv (camera_guard_drop r (cams w), live_cameras ((conns w)[i := c]))"
      by (rule registry_mset) (simp add: eq)
    moreover have "channels w d = Some j \<longleftrightarrow> j \<noteq> i \<and> j < length (conns w) \<and> conn_phase (conns w ! j) = Dispatching d" for d j
      using world_invD(3) [OF inv, of d j] Camera_on by auto
    ultimately show ?thesis
      using inv chan by (simp add: Camera_on drop_guard_def set_conn_def world_inv_def registered_ids_def)
  next
    case (Dispatching e)
    then have "live_camera (conns w ! i) = []"
      by (simp add: live_camera_def)
    with update over have "registry_inv (cams w, live_cameras ((conns w)[i := c]))"
      using registry_mset [OF world_invD(1) [OF inv]] by simp
    moreover have e: "channels w e = Some i"
      using world_invD(3) [OF inv, of e i] i Dispatching by simp
    then have "((channels w)(e := None)) d = Some j \<longleftrightarrow> j \<noteq> i \<and> j < length (conns w) \<and> conn_phase (conns w ! j) = Dispatching d" for d j
      using world_invD(3) [OF inv, of d j] world_invD(3) [OF inv, of e j] Dispatching by (cases "d = e"; cases "j = i") auto
    moreover have "final_ids (mail w @ [RemoveDispatcher e]) (registered_ids w) = dom ((channels w)(e := None))"
      using world_invD(2) [OF inv] by (simp add: final_ids_append)
    ultimately show ?thesis
      using inv chan by (simp add: Dispatching drop_guard_def set_conn_def world_inv_def registered_ids_def)
  next
    case Identifying
    show ?thesis
      using plain by (simp add: Identifying drop_guard_def live_camera_def)
  next
    case Over
    show ?thesis
      using plain by (simp add: Over drop_guard_def live_camera_def)
  qed
qed

lemma length_ascii [simp]: "length (ascii s) = length s"
  by (simp add: ascii_def)

lemma failure_packet: "\<exists>bs. packet_out (Error_packet (failure_text f)) = Ok bs"
  by (cases f rule: failure_text.cases) (simp_all add: put_str_d_def hex2_def)

lemma conn_end_inv:
  assumes "world_inv w" and "i < length (conns w)" and "conn_phase c = conn_phase (conns w ! i)"
  shows "\<exists>w'. conn_end i c fail w = Ok w' \<and> world_inv w'"
proof -
  have "\<exists>bs. (case fail of None \<Rightarrow> Ok [] | Some f \<Rightarrow> packet_out (Error_packet (failure_text f))) = Ok bs"
    by (cases fail) (simp_all add: failure_packet del: packet_out.simps)
  then obtain bs where "(case fail of None \<Rightarrow> Ok [] | Some f \<Rightarrow> packet_out (Error_packet (failure_text f))) = Ok bs"
    by blast
  moreover have "world_inv (drop_guard (conn_phase (conns w ! i)) (set_conn i (c\<lparr>conn_phase := Over, conn_tickets := [], conn_out := conn_out c @ bs\<rparr>) w))"
    by (rule drop_guard_inv [OF assms(1,2)]) simp
  ultimately show ?thesis
    by (simp add: conn_end_def assms(3))
qed

lemma mail_plates_inv:
  assumes "world_inv w" and "\<forall>m \<in> set ms. \<exists>ob. m = PlateSeen ob"
  shows "world_inv (w\<lparr>mail := mail w @ ms\<rparr>)"
proof -
  have "final_ids ms D = D" for D
    using assms(2) by (induction ms) auto
  moreover have "AddDispatcher d rs s \<notin> set ms" for d rs s
    using assms(2) by auto
  ultimately show ?thesis
    using assms(1) by (simp add: world_inv_def registered_ids_def final_ids_append)
qed

lemma camera_enter_inv:
  assumes inv: "world_inv w" and i: "i < length (conns w)" and old: "conn_phase (conns w ! i) = Identifying"
    and guard: "camera_guard_new r l (cams w) = (ok, cs)" and c: "conn_phase c = (if ok then Camera_on r m l else Identifying)"
  shows "world_inv (set_conn i c (w\<lparr>cams := cs\<rparr>))"
proof -
  have "mset (live_cameras ((conns w)[i := c])) = mset (live_camera c) + mset (live_cameras (conns w))"
    using live_cameras_update [OF i, of c] old by (simp add: live_camera_def)
  also have "live_camera c = (if ok then [(r, l)] else [])"
    by (simp add: live_camera_def c)
  finally have "registry_inv (cs, live_cameras ((conns w)[i := c]))"
    by (intro registry_mset [OF registry_enter [OF world_invD(1) [OF inv] guard]]) simp
  moreover have "channels w d = Some j \<longleftrightarrow> j < length ((conns w)[i := c]) \<and> conn_phase ((conns w)[i := c] ! j) = Dispatching d" for d j
    using world_invD(3) [OF inv, of d j] i old c by (cases "j = i") simp_all
  ultimately show ?thesis
    using inv by (simp add: set_conn_def world_inv_def registered_ids_def)
qed

lemma dispatcher_enter_inv:
  assumes inv: "world_inv w" and i: "i < length (conns w)" and old: "conn_phase (conns w ! i) = Identifying"
    and d: "d = next_dispatcher w" and c: "conn_phase c = Dispatching d"
  shows "world_inv (set_conn i c (w\<lparr>mail := mail w @ [AddDispatcher d rs d], channels := (channels w)(d \<mapsto> i), next_dispatcher := Suc d\<rparr>))"
proof -
  have "mset (live_cameras ((conns w)[i := c])) = mset (live_cameras (conns w))"
    using live_cameras_update [OF i, of c] old c by (simp add: live_camera_def)
  then have "registry_inv (cams w, live_cameras ((conns w)[i := c]))"
    using registry_mset [OF world_invD(1) [OF inv]] by simp
  moreover have fresh: "channels w d = None"
    using world_invD(4) [OF inv, of d] d by auto
  then have no: "\<not> (j < length (conns w) \<and> conn_phase (conns w ! j) = Dispatching d)" for j
    using world_invD(3) [OF inv, of d j] by simp
  have "((channels w)(d \<mapsto> i)) e = Some j \<longleftrightarrow> j < length ((conns w)[i := c]) \<and> conn_phase ((conns w)[i := c] ! j) = Dispatching e" for e j
    using world_invD(3) [OF inv, of e j] no [of j] i old c by (cases "j = i"; cases "e = d") auto
  moreover have "\<forall>e \<in> dom ((channels w)(d \<mapsto> i)). e < Suc d"
    using world_invD(4) [OF inv] d by (auto simp: less_Suc_eq)
  moreover have "final_ids (mail w @ [AddDispatcher d rs d]) (registered_ids w) = dom ((channels w)(d \<mapsto> i))"
    using world_invD(2) [OF inv] by (simp add: final_ids_append)
  ultimately show ?thesis
    using inv by (simp add: set_conn_def world_inv_def registered_ids_def)
qed

lemma conn_identified_inv:
  assumes inv: "world_inv w" and i: "i < length (conns w)" and old: "conn_phase (conns w ! i) = Identifying" and c: "conn_phase c = Identifying"
  shows "\<exists>w'. conn_identified i c k w = Ok w' \<and> world_inv w'"
proof (cases k)
  case (Camera_client r m l)
  obtain ok cs where guard: "camera_guard_new r l (cams w) = (ok, cs)"
    by (cases "camera_guard_new r l (cams w)")
  show ?thesis
  proof (cases ok)
    case True
    with camera_enter_inv [OF inv i old guard, of "c\<lparr>conn_phase := Camera_on r m l\<rparr>" m] guard show ?thesis
      by (simp add: conn_identified_def Camera_client Let_def)
  next
    case False
    have "world_inv (set_conn i (conns w ! i) (w\<lparr>cams := cs\<rparr>))"
      by (rule camera_enter_inv [OF inv i old guard]) (simp add: old False)
    then have "world_inv (w\<lparr>cams := cs\<rparr>)"
      by (simp add: set_conn_def)
    from conn_end_inv [OF this, of i c "Some Bad_camera"] i old c guard False show ?thesis
      by (simp add: conn_identified_def Camera_client Let_def)
  qed
next
  case (Dispatcher_client rs)
  from dispatcher_enter_inv [OF inv i old refl, of "c\<lparr>conn_phase := Dispatching (next_dispatcher w)\<rparr>" rs] show ?thesis
    by (simp add: conn_identified_def Dispatcher_client Let_def)
next
  case Unknown_client
  with conn_end_inv [OF inv i, of c None] old c show ?thesis
    by (simp add: conn_identified_def)
qed

text \<open>A request for heartbeats panics only with overflow checks, on an interval that is too long.\<close>

definition beat_overflows :: "bool \<Rightarrow> (wire_error, wire_packet) polled \<Rightarrow> bool" where
  "beat_overflows oc item \<longleftrightarrow> oc \<and> (\<exists>n. item = Item (Ok (Want_heartbeat_packet n)) \<and> 2 ^ 32 \<le> unat n * 100)"

lemma set_heartbeat_panics: "set_heartbeat oc now n hb = Panic \<Longrightarrow> oc \<and> 2 ^ 32 \<le> unat n * 100"
  by (auto simp: set_heartbeat_def mul_w_def not_less split: if_splits)

lemma handlers_no_panic:
  assumes "item \<noteq> Item Panic"
  shows "identify oc now item hb = Panic \<Longrightarrow> beat_overflows oc item"
    "camera_item oc now r m l item hb = Panic \<Longrightarrow> beat_overflows oc item"
    "dispatcher_item oc now item hb = Panic \<Longrightarrow> beat_overflows oc item"
  using assms by (auto simp: identify_def camera_item_def dispatcher_item_def beat_overflows_def
      split: polled.splits outcome.splits wire_packet.splits simp: bind_outcome_Panic_iff dest!: set_heartbeat_panics)

lemma conn_input_inv:
  assumes inv: "world_inv w" and i: "i < length (conns w)" and item: "item \<noteq> Item Panic"
  shows "(\<exists>w'. conn_input oc now i (conns w ! i) item w = Ok w' \<and> world_inv w') \<or>
    conn_input oc now i (conns w ! i) item w = Panic \<and> beat_overflows oc item"
proof -
  let ?c = "conns w ! i"
  have fail: "\<exists>w'. conn_end i ?c fail w = Ok w' \<and> world_inv w'" for fail
    by (rule conn_end_inv [OF inv i refl])
  have beat: "world_inv (set_conn i (?c\<lparr>conn_beat := hb\<rparr>) w)" for hb
    by (rule set_conn_inv [OF inv i]) simp
  show ?thesis
  proof (cases "conn_phase ?c")
    case Identifying
    show ?thesis
    proof (cases "identify oc now item (conn_beat ?c)")
      case (Ok res)
      obtain k hb where res: "res = (k, hb)"
        by (cases res)
      from conn_identified_inv [OF inv i Identifying, of "?c\<lparr>conn_beat := hb\<rparr>"] Identifying beat [of hb] show ?thesis
        by (cases k) (simp_all add: conn_input_def Ok res)
    qed (use handlers_no_panic(1) [OF item] fail Identifying in \<open>simp_all add: conn_input_def\<close>)
  next
    case (Camera_on r m l)
    show ?thesis
    proof (cases "camera_item oc now r m l item (conn_beat ?c)")
      case (Ok res)
      obtain e hb ms where res: "res = (e, hb, ms)"
        by (cases res)
      have plates: "\<forall>x \<in> set ms. \<exists>ob. x = PlateSeen ob"
        using Ok res by (auto simp: camera_item_def split: polled.splits outcome.splits wire_packet.splits)
      let ?w = "w\<lparr>mail := mail w @ ms\<rparr>"
      have w: "world_inv ?w"
        by (rule mail_plates_inv [OF inv plates])
      have "\<exists>w'. conn_end i (?c\<lparr>conn_beat := hb\<rparr>) None ?w = Ok w' \<and> world_inv w'"
        by (rule conn_end_inv [OF w]) (simp_all add: i)
      moreover have "world_inv (set_conn i (?c\<lparr>conn_beat := hb\<rparr>) ?w)"
        by (rule set_conn_inv [OF w]) (simp_all add: i)
      ultimately show ?thesis
        using Camera_on by (simp add: conn_input_def Ok res Let_def)
    qed (use handlers_no_panic(2) [OF item] fail Camera_on in \<open>simp_all add: conn_input_def\<close>)
  next
    case (Dispatching d)
    show ?thesis
    proof (cases "dispatcher_item oc now item (conn_beat ?c)")
      case (Ok res)
      obtain e hb where res: "res = (e, hb)"
        by (cases res)
      have "\<exists>w'. conn_end i (?c\<lparr>conn_beat := hb\<rparr>) None w = Ok w' \<and> world_inv w'"
        by (rule conn_end_inv [OF inv i]) simp
      with Dispatching beat [of hb] show ?thesis
        by (simp add: conn_input_def Ok res Let_def)
    qed (use handlers_no_panic(3) [OF item] fail Dispatching in \<open>simp_all add: conn_input_def\<close>)
  next
    case Over
    with inv show ?thesis
      by (simp add: conn_input_def)
  qed
qed

text \<open>The controller and the dispatchers.\<close>

lemma bind_outcome_Err_iff: "bind_outcome m f = Err e \<longleftrightarrow> m = Err e \<or> (\<exists>x. m = Ok x \<and> f x = Err e)"
  by (cases m) auto

definition mile_overflows :: "observation \<Rightarrow> u16 \<times> u32 \<Rightarrow> bool" where
  "mile_overflows ob old \<longleftrightarrow> 2 ^ 32 \<le> nat \<bar>int (unat (obs_mile ob)) - int (unat (fst old))\<bar> * 360000"

text \<open>With overflow checks the limit of an observation, or the distance to an earlier one of the car on the
  road, can be too large.\<close>

definition signal_overflows :: "bool \<Rightarrow> order \<Rightarrow> observation \<Rightarrow> controller \<Rightarrow> bool" where
  "signal_overflows oc order ob c \<longleftrightarrow> oc \<and>
     (2 ^ 16 \<le> unat (obs_limit ob) * 100 \<or>
      (\<exists>old \<in> set (order (car_observations c (obs_plate ob, obs_road ob))). mile_overflows ob old))"

lemma speed_fits:
  assumes "oc \<longrightarrow> \<not> mile_overflows ob old"
  shows "\<exists>sp. speed_between oc (obs_mile ob) t (fst old) t' = Ok sp"
proof -
  let ?d = "abs_diff16 (obs_mile ob) (fst old)"
  have mul: "mul_w oc ?d 100 = (Ok (?d * 100) :: (unit, u32) outcome)" "mul_w oc (?d * 100) 3600 = (Ok (?d * 100 * 3600) :: (unit, u32) outcome)"
  proof -
    show one: "mul_w oc ?d 100 = (Ok (?d * 100) :: (unit, u32) outcome)"
      using assms by (cases oc) (auto simp: mul_w_def unat_abs_diff16 mile_overflows_def)
    show "mul_w oc (?d * 100) 3600 = (Ok (?d * 100 * 3600) :: (unit, u32) outcome)"
    proof (cases oc)
      case True
      then have d: "unat ?d * 360000 < 2 ^ 32"
        using assms by (simp add: unat_abs_diff16 mile_overflows_def)
      then have "unat (?d * 100) = unat ?d * 100"
        by (simp add: unat_mul_lem')
      with d show ?thesis
        by (intro mul_w_Ok) simp
    qed (simp add: mul_w_def)
  qed
  show ?thesis
    unfolding speed_between_def Let_def mul bind_outcome.simps by simp
qed

lemma signal_result: "(\<exists>ts c'. signal oc order ob c = Ok (ts, c')) \<or> signal oc order ob c = Panic \<and> signal_overflows oc order ob c"
proof (cases "signal_overflows oc order ob c")
  case True
  moreover have "signal oc order ob c \<noteq> Err e" for e
  proof -
    have "speed_between oc m t m' t' \<noteq> Err e" for m t m' t'
      by (auto simp: speed_between_def Let_def mul_w_def split: if_splits)
    then have "try_ticket oc limit ob old st \<noteq> Err e" for limit old st
      by (cases "speed_between oc (obs_mile ob) (obs_time ob) (fst old) (snd old)") (auto simp: try_ticket_def Let_def split: prod.split)
    then have loop: "signal_loop oc limit ob olds st \<noteq> Err e" for limit olds st
    proof (induction olds arbitrary: st)
      case (Cons old olds)
      show ?case
        using Cons by (cases "try_ticket oc limit ob old st") auto
    qed simp
    show ?thesis
      unfolding signal_def Let_def bind_outcome_Err_iff mul_w_def using loop by (auto simp: bind_outcome_Err_iff split: if_splits)
  qed
  ultimately show ?thesis
    by (cases "signal oc order ob c") auto
next
  case False
  let ?car = "car_observations c (obs_plate ob, obs_road ob)"
  have limit: "mul_w oc (obs_limit ob) 100 = (Ok (obs_limit ob * 100) :: (unit, u16) outcome)"
    using False by (cases oc) (auto simp: signal_overflows_def mul_w_def)
  have "\<exists>st'. try_ticket oc limit ob old st = Ok st'" if "old \<in> set (order ?car)" for limit old st
  proof -
    have "oc \<longrightarrow> \<not> mile_overflows ob old"
      using False that by (auto simp: signal_overflows_def)
    from speed_fits [OF this] obtain sp where "speed_between oc (obs_mile ob) (obs_time ob) (fst old) (snd old) = Ok sp"
      by (rule exE)
    then show ?thesis
      by (cases st) (simp add: try_ticket_def Let_def)
  qed
  then have "\<exists>st'. signal_loop oc limit ob olds st = Ok st'" if "set olds \<subseteq> set (order ?car)" for limit olds st
    using that
  proof (induction olds arbitrary: st)
    case (Cons old olds)
    then show ?case
      by (metis bind_outcome.simps(1) insert_subset list.simps(15) signal_loop.simps(2))
  qed simp
  then obtain tks out where "signal_loop oc (obs_limit ob * 100) ob (order ?car) (tickets c, []) = Ok (tks, out)"
    by (metis order_refl surj_pair)
  then show ?thesis
    by (simp add: signal_def limit Let_def)
qed

lemma find_sender_member: "find_sender r ds = Some s \<Longrightarrow> \<exists>x \<in> set ds. snd (snd x) = s"
  by (induction r ds rule: find_sender.induct) (auto split: if_splits)

lemma send_loop_present:
  "\<forall>x \<in> set ds. \<not> gone (snd (snd x)) \<Longrightarrow> \<exists>st'. send_loop gone ds ts st = Ok st'"
proof (induction ts arbitrary: st)
  case (Cons t ts)
  obtain sent kept where st: "st = (sent, kept)"
    by (cases st)
  from Cons show ?case
    using find_sender_member [of "road t" ds] by (auto simp: st split: option.splits)
qed simp

lemma send_pending_present:
  assumes "\<forall>x \<in> set (registered d). \<not> gone (snd (snd x))"
  shows "\<exists>sent d'. send_pending_tickets gone d = Ok (sent, d')"
proof -
  obtain sent kept where "send_loop gone (registered d) (pending_tickets d) ([], []) = Ok (sent, kept)"
    using send_loop_present [OF assms, of "pending_tickets d" "([], [])"] by (metis surj_pair)
  then show ?thesis
    by (simp add: send_pending_tickets_def)
qed

lemma run_message_present:
  assumes "\<forall>x \<in> set (registered (disp s)). \<not> gone (snd (snd x))" and "\<forall>d rs c. m = AddDispatcher d rs c \<longrightarrow> \<not> gone c"
  shows "(\<exists>res. run_message oc order gone m s = Ok res) \<or>
    (\<exists>ob. m = PlateSeen ob \<and> run_message oc order gone m s = Panic \<and> signal_overflows oc order ob (ctl s))"
proof (cases m)
  case (AddDispatcher d rs c)
  with assms have "\<forall>x \<in> set (registered ((disp s)\<lparr>registered := registered (disp s) @ [(d, rs, c)]\<rparr>)). \<not> gone (snd (snd x))"
    by auto
  from send_pending_present [OF this] show ?thesis
    by (auto simp: AddDispatcher add_dispatcher_def)
next
  case (PlateSeen ob)
  from signal_result [of oc order ob "ctl s"] show ?thesis
  proof (elim disjE exE conjE)
    fix ts c
    assume "signal oc order ob (ctl s) = Ok (ts, c)"
    moreover obtain sent d where "send_tickets gone ts (disp s) = Ok (sent, d)"
      using send_pending_present [of "(disp s)\<lparr>pending_tickets := pending_tickets (disp s) @ ts\<rparr>" gone] assms(1)
      by (auto simp: send_tickets_def)
    ultimately show ?thesis
      by (simp add: PlateSeen)
  qed (simp add: PlateSeen)
qed simp

lemma run_message_registered:
  assumes "run_message oc order gone m s = Ok (sent, s')"
  shows "registered (disp s') =
    (case m of
       AddDispatcher d rs c \<Rightarrow> registered (disp s) @ [(d, rs, c)]
     | RemoveDispatcher d \<Rightarrow> filter (\<lambda>(j, _, _). j \<noteq> d) (registered (disp s))
     | PlateSeen ob \<Rightarrow> registered (disp s))"
proof (cases m)
  case (AddDispatcher d rs c)
  with assms show ?thesis
    by (auto simp: add_dispatcher_def dest!: send_pending_Ok)
next
  case (RemoveDispatcher d)
  with assms show ?thesis
    by (auto simp: remove_dispatcher_def)
next
  case (PlateSeen ob)
  with assms obtain ts c d where "send_tickets gone ts (disp s) = Ok (sent, d)" "s' = s\<lparr>ctl := c, disp := d\<rparr>"
    by (auto split: outcome.splits)
  with PlateSeen show ?thesis
    by (auto simp: send_tickets_def dest!: send_pending_Ok)
qed

lemma filter_ids: "fst ` set (filter (\<lambda>(j, _, _). j \<noteq> d) xs) = fst ` set xs - {d}"
  by force

lemma controller_turn_inv:
  assumes inv: "world_inv w" and mail: "mail w = m # ms" and turn: "controller_turn oc order m (w\<lparr>mail := ms\<rparr>) = Ok w'"
  shows "world_inv w'"
proof -
  obtain sent s where run: "run_message oc order (\<lambda>d. channels w d = None) m (srv w) = Ok (sent, s)"
    and w': "w' = w\<lparr>mail := ms, srv := s, conns := deliver (channels w) sent (conns w)\<rparr>"
    using turn by (auto simp: controller_turn_def split: outcome.splits)
  note reg = run_message_registered [OF run]
  have ids: "final_ids ms (fst ` set (registered (disp s))) = dom (channels w)"
    using world_invD(2) [OF inv] unfolding mail registered_ids_def reg
    by (cases m) (simp_all add: filter_ids del: set_filter)
  have "m = AddDispatcher d rs c \<Longrightarrow> c = d" for d rs c
    using world_invD(6) [OF inv, of d rs c] mail by simp
  then have "\<forall>x \<in> set (registered (disp s)). snd (snd x) = fst x"
    using world_invD(5) [OF inv] unfolding reg by (cases m) auto
  with inv ids have "world_inv (w\<lparr>mail := ms, srv := s\<rparr>)"
    by (auto simp: world_inv_def registered_ids_def mail)
  from same_phases_inv [OF this, of "deliver (channels w) sent (conns w)"] show ?thesis
    by (simp add: w' deliver_phases)
qed

lemma controller_turn_ok:
  assumes inv: "world_inv w" and mail: "mail w = m # ms" and quiet: "\<forall>d. RemoveDispatcher d \<notin> set (mail w)"
  shows "(\<exists>w'. controller_turn oc order m (w\<lparr>mail := ms\<rparr>) = Ok w') \<or>
    (\<exists>ob. m = PlateSeen ob \<and> signal_overflows oc order ob (ctl (srv w)))"
proof -
  let ?gone = "\<lambda>d. channels w d = None"
  have sub: "registered_ids w \<subseteq> dom (channels w)"
    using final_ids_keep [OF quiet] world_invD(2) [OF inv] by blast
  have "\<not> ?gone (snd (snd x))" if x: "x \<in> set (registered (disp (srv w)))" for x
  proof -
    have "fst x \<in> registered_ids w"
      using x by (simp add: registered_ids_def)
    with sub world_invD(5) [OF inv x] show ?thesis
      by auto
  qed
  moreover have "\<not> ?gone c" if m: "m = AddDispatcher d rs c" for d rs c
  proof -
    have "c = d"
      using world_invD(6) [OF inv, of d rs c] m mail by simp
    moreover have "insert d (registered_ids w) \<subseteq> final_ids ms (insert d (registered_ids w))"
      by (rule final_ids_keep) (use quiet mail in simp)
    ultimately show ?thesis
      using world_invD(2) [OF inv] m mail by auto
  qed
  ultimately have "(\<exists>res. run_message oc order ?gone m (srv w) = Ok res) \<or>
      (\<exists>ob. m = PlateSeen ob \<and> signal_overflows oc order ob (ctl (srv w)))"
    using run_message_present [of "srv w" ?gone m oc order] by blast
  then show ?thesis
    by (auto simp: controller_turn_def)
qed

section \<open>Runs\<close>

text \<open>The decoder does not panic, so that no item of a stream is a panic.\<close>

lemma packet_decode_no_panic: "snd (packet_decode src) \<noteq> Panic"
  by (simp add: packet_decode_def split: option.splits prod.splits)

fun clean :: "world_event \<Rightarrow> bool" where
  "clean (Input i item now) \<longleftrightarrow> item \<noteq> Item Panic"
| "clean _ \<longleftrightarrow> True"

lemma tick_inv:
  assumes "world_inv w" and "i < length (conns w)" and "conn_phase c = conn_phase (conns w ! i)"
  shows "world_inv (set_conn i c w)"
  by (rule set_conn_inv [OF assms])

text \<open>How an event can end the program.\<close>

definition fatal :: "bool \<Rightarrow> order \<Rightarrow> world_event \<Rightarrow> speed_world \<Rightarrow> bool" where
  "fatal oc order e w \<longleftrightarrow>
     (e = Controller_turn \<and> (\<exists>d. RemoveDispatcher d \<in> set (mail w))) \<or>
     (\<exists>i t ts. e = Forward i \<and> i < length (conns w) \<and> conn_tickets (conns w ! i) = t # ts \<and> 256 \<le> length (plate t)) \<or>
     (\<exists>i item now. e = Input i item now \<and> beat_overflows oc item) \<or>
     (\<exists>ob ms. e = Controller_turn \<and> mail w = PlateSeen ob # ms \<and> signal_overflows oc order ob (ctl (srv w)))"

lemma world_do_cases:
  assumes inv: "world_inv w" and e: "clean e" and step: "world_do oc order e w = Some r"
  shows "(\<exists>w'. r = Ok w' \<and> world_inv w') \<or> r = Panic \<and> fatal oc order e w"
proof (cases e)
  case (Accepted now)
  have "world_inv (w\<lparr>conns := conns w @ [conn_new now]\<rparr>)"
  proof -
    have "live_cameras (conns w @ [conn_new now]) = live_cameras (conns w)"
      by (simp add: live_cameras_def live_camera_def conn_new_def)
    moreover have "channels w d = Some i \<longleftrightarrow> i < length (conns w @ [conn_new now]) \<and> conn_phase ((conns w @ [conn_new now]) ! i) = Dispatching d" for d i
      using world_invD(3) [OF inv, of d i] by (cases "i = length (conns w)") (auto simp: nth_append conn_new_def less_Suc_eq)
    ultimately show ?thesis
      using inv by (simp add: world_inv_def registered_ids_def)
  qed
  with step show ?thesis
    by (auto simp: Accepted)
next
  case (Input i item now)
  with step e have "i < length (conns w)" "item \<noteq> Item Panic" "r = conn_input oc now i (conns w ! i) item w"
    by (auto split: if_splits)
  with conn_input_inv [OF inv] Input show ?thesis
    unfolding fatal_def by blast
next
  case (Beat_due i now)
  with step obtain hb where i: "i < length (conns w)"
    "r = Ok (set_conn i ((conns w ! i)\<lparr>conn_beat := hb, conn_out := conn_out (conns w ! i) @ [TAG_Heartbeat]\<rparr>) w)"
    by (auto simp: Let_def split: if_splits option.splits)
  with set_conn_inv [OF inv i(1)] show ?thesis
    by auto
next
  case (Forward i)
  with step obtain t ts where i: "i < length (conns w)" "conn_tickets (conns w ! i) = t # ts"
    "r = bind_outcome (packet_out (Ticket_packet t)) (\<lambda>bs. Ok (set_conn i ((conns w ! i)\<lparr>conn_tickets := ts, conn_out := conn_out (conns w ! i) @ bs\<rparr>) w))"
    by (auto simp: Let_def split: if_splits list.splits)
  show ?thesis
  proof (cases "length (plate t) < 256")
    case True
    then have "\<exists>bs. packet_out (Ticket_packet t) = Ok bs"
      by (simp add: put_str_d_def)
    with i set_conn_inv [OF inv i(1)] show ?thesis
      by auto
  next
    case False
    then have "packet_out (Ticket_packet t) = Panic"
      by (simp add: put_str_d_def)
    with i Forward False show ?thesis
      by (auto simp: fatal_def)
  qed
next
  case Controller_turn
  then obtain m ms where m: "mail w = m # ms" "r = controller_turn oc order m (w\<lparr>mail := ms\<rparr>)"
    using step by (auto split: list.splits)
  show ?thesis
  proof (cases r)
    case (Ok w')
    then have "controller_turn oc order m (w\<lparr>mail := ms\<rparr>) = Ok w'"
      using m(2) by simp
    from controller_turn_inv [OF inv m(1) this] Ok show ?thesis
      by blast
  next
    case (Err x)
    then show ?thesis
      using m(2) by (auto simp: controller_turn_def split: outcome.splits)
  next
    case Panic
    then have "\<not> (\<exists>w'. controller_turn oc order m (w\<lparr>mail := ms\<rparr>) = Ok w')"
      using m(2) by simp
    then have "fatal oc order e w"
      using controller_turn_ok [OF inv m(1), of oc order] m(1) Controller_turn unfolding fatal_def by blast
    with Panic show ?thesis
      by simp
  qed
qed

lemma world_run_inv: "world_inv w \<Longrightarrow> list_all clean es \<Longrightarrow> world_run oc order es w = Some (Ok w') \<Longrightarrow> world_inv w'"
proof (induction es arbitrary: w)
  case (Cons e es)
  then obtain w1 where w1: "world_do oc order e w = Some (Ok w1)" "world_run oc order es w1 = Some (Ok w')"
    by (auto split: option.splits outcome.splits)
  with world_do_cases [of w e oc order "Ok w1"] Cons(2,3) have "world_inv w1"
    by auto
  with Cons(1,3) w1(2) show ?case
    by simp
qed simp

section \<open>Properties\<close>

text \<open>C39: A packet that the encoder accepts, whose strings are UTF-8, and which, if it is that of a dispatcher,
  has fewer than 256 roads, is read back as it was written, whatever follows it, and of a part of it the
  decoder takes nothing. The encoder accepts dispatchers with more roads too, and of those the decoder reads
  the first ones only, as many as the length modulo 256 says, and takes the others for what follows.\<close>

theorem wasi_packets:
  assumes "strings_ok p" and "packet_out p = Ok bs"
  shows "if roads_fit p
    then packet_decode (bs @ rest) = (rest, Ok (Some p)) \<and> (\<forall>part. strict_prefix part bs \<longrightarrow> packet_decode part = (part, Ok None))
    else \<exists>rs k. p = Dispatcher_packet rs \<and> 256 \<le> length rs \<and> k = length rs mod 256 \<and>
      packet_decode (bs @ rest) = (concat (map to_be_u16 (drop k rs)) @ rest, Ok (Some (Dispatcher_packet (take k rs))))"
proof (cases "roads_fit p")
  case True
  with assms(1) have "wire_packet_ok p"
    by (simp add: wire_packet_ok_def)
  with packet_get_out [OF this assms(2)] packet_get_prefix [OF this assms(2)] True show ?thesis
    by simp
next
  case False
  then obtain rs where rs: "p = Dispatcher_packet rs" "256 \<le> length rs"
    by (cases p) (auto simp: roads_fit_def)
  with assms(2) have "bs = TAG_IAmDispatcher # of_nat (length rs) # concat (map to_be_u16 rs)"
    by simp
  with packet_get_roads [of rs rest] rs False show ?thesis
    by simp
qed

lemma wasi_packets_witness:
  "packet_decode [64, 0, 0, 0, 10, 65] = ([65], Ok (Some (Want_heartbeat_packet 10))) \<and>
   packet_decode [64, 0, 0] = ([64, 0, 0], Ok None)"
proof -
  have "strings_ok (Want_heartbeat_packet 10)" "roads_fit (Want_heartbeat_packet 10)" "packet_out (Want_heartbeat_packet 10) = Ok [64, 0, 0, 0, 10]"
    by (simp_all add: strings_ok_def roads_fit_def tags to_be_u32_def)
  note packet = wasi_packets [OF this(1,3), of "[65]", unfolded if_P [OF this(2)]]
  have "strict_prefix [64, 0, 0 :: byte] [64, 0, 0, 0, 10]"
    by simp
  with packet show ?thesis
    by simp
qed

text \<open>C40: In every order of events the registry counts the live cameras of each road, and whenever the mailbox
  of the controller is empty, the registered dispatchers are those that are connected. As long as the streams
  give what the decoder can give, packets and errors but no panic, the program dies in
  two ways only in a build without overflow checks: the controller handles a message while the removal of a
  dispatcher waits behind it, or a ticket with a plate of more than 255 bytes is sent. With overflow checks
  there are two more: a client asks for heartbeats at an interval of which 100 times overflow 32 bits, or
  the controller handles an observation whose limit in hundredths overflows 16 bits or whose distance to an
  earlier one of the car on the road overflows 32 bits in the computation of the speed.\<close>

theorem wasi_speed_world:
  assumes "list_all clean es" and "world_run oc order es world_new = Some (Ok w)"
    and "clean e" and "world_do oc order e w = Some r"
  shows "registry_inv (cams w, live_cameras (conns w)) \<and>
    (mail w = [] \<longrightarrow> registered_ids w = {d. \<exists>c \<in> set (conns w). conn_phase c = Dispatching d}) \<and>
    ((\<exists>w'. r = Ok w') \<or>
      (r = Panic \<and>
       ((e = Controller_turn \<and> (\<exists>d. RemoveDispatcher d \<in> set (mail w))) \<or>
        (\<exists>i t ts. e = Forward i \<and> i < length (conns w) \<and> conn_tickets (conns w ! i) = t # ts \<and> 256 \<le> length (plate t)) \<or>
        (\<exists>i n now. oc \<and> e = Input i (Item (Ok (Want_heartbeat_packet n))) now \<and> 2 ^ 32 \<le> unat n * 100) \<or>
        (\<exists>ob ms. oc \<and> e = Controller_turn \<and> mail w = PlateSeen ob # ms \<and>
           (2 ^ 16 \<le> unat (obs_limit ob) * 100 \<or>
            (\<exists>old \<in> set (order (car_observations (ctl (srv w)) (obs_plate ob, obs_road ob))).
               2 ^ 32 \<le> nat \<bar>int (unat (obs_mile ob)) - int (unat (fst old))\<bar> * 360000))))))"
proof -
  have inv: "world_inv w"
    by (rule world_run_inv [OF world_new_inv assms(1,2)])
  have "d \<in> dom (channels w) \<longleftrightarrow> (\<exists>c \<in> set (conns w). conn_phase c = Dispatching d)" for d
    using world_invD(3) [OF inv, of d] by (auto simp: domIff dest: nth_mem) (metis in_set_conv_nth)
  with world_invD(2) [OF inv] have ids: "mail w = [] \<longrightarrow> registered_ids w = {d. \<exists>c \<in> set (conns w). conn_phase c = Dispatching d}"
    by auto
  have "(\<exists>w'. r = Ok w') \<or> r = Panic \<and> fatal oc order e w"
    using world_do_cases [OF inv assms(3,4)] by blast
  with world_invD(1) [OF inv] ids show ?thesis
    unfolding fatal_def beat_overflows_def signal_overflows_def mile_overflows_def by blast
qed

text \<open>Both happen. A dispatcher that leaves while a plate waits for the controller: the controller sends a ticket
  into a channel without receiver and \<open>unwrap\<close>s the error.\<close>

definition demo_events :: "world_event list" where
  "demo_events =
     [Accepted 0, Input 0 (Item (Ok (Dispatcher_packet [1]))) 0, Controller_turn,
      Accepted 0, Input 1 (Item (Ok (Camera_packet 1 0 10))) 0, Input 1 (Item (Ok (Plate_packet [65] 0))) 0, Controller_turn,
      Accepted 0, Input 2 (Item (Ok (Camera_packet 1 100 10))) 0, Input 2 (Item (Ok (Plate_packet [65] 3600))) 0,
      Input 0 End 0]"


lemmas world_eval = demo_events_def world_new_def conn_new_def conn_input_def identify_def conn_identified_def camera_item_def
  dispatcher_item_def conn_end_def drop_guard_def set_conn_def controller_turn_def camera_guard_new_def add_dispatcher_def
  send_pending_tickets_def send_tickets_def server_new_def dispatchers_new_def heartbeat_new_def signal_def controller_new_def
  car_observations_def mul_w_def speed_between_def abs_diff16_def abs_diff32_def try_ticket_def make_ticket_def days_of_def day_range_def
  UNIX_DAY_def

lemma departed_dispatcher_panics: "\<exists>w. world_run False (\<lambda>xs. xs) demo_events world_new = Some (Ok w) \<and>
    mail w = [PlateSeen \<lparr>obs_road = 1, obs_mile = 100, obs_limit = 10, obs_plate = [65], obs_time = 3600\<rparr>, RemoveDispatcher 0] \<and>
    world_do False (\<lambda>xs. xs) Controller_turn w = Some Panic"
  by (simp add: world_eval Let_def)

text \<open>A plate of 86 bytes that are not UTF-8 is one of 258 bytes once it has been read.\<close>

lemma broken_plate_panics:
  assumes "86 \<le> n" and "n < 256" and "packet_decode (TAG_Plate # of_nat n # replicate n 255 @ to_be_u32 ts) = ([], Ok (Some (Plate_packet p ts)))"
    and "plate t = p"
  shows "packet_out (Ticket_packet t) = Panic"
proof -
  have "rd_u32 (to_be_u32 ts) = Some (ts, [])"
    by (simp add: rd_u32_Some)
  with assms(1-3) have "p = concat (replicate n [239, 191, 189])"
    by (simp add: packet_decode_def get_payload_def get_str_d_def and_then_def give_def tags rd_exact_def
        unat_of_nat_small utf8_lossy_replicate)
  then have "length p = 3 * n"
    by (simp add: length_concat sum_list_replicate)
  with assms(1,4) show ?thesis
    by (simp add: put_str_d_def)
qed

lemma wasi_speed_world_witness:
  "\<exists>w. world_run False (\<lambda>xs. xs) demo_events world_new = Some (Ok w) \<and>
     world_do False (\<lambda>xs. xs) Controller_turn w = Some Panic \<and>
     registry_inv (cams w, live_cameras (conns w)) \<and> (\<exists>d. RemoveDispatcher d \<in> set (mail w))"
proof -
  obtain w where w: "world_run False (\<lambda>xs. xs) demo_events world_new = Some (Ok w)"
    "world_do False (\<lambda>xs. xs) Controller_turn w = Some Panic"
    using departed_dispatcher_panics by blast
  have "list_all clean demo_events" "clean Controller_turn"
    by (simp_all add: demo_events_def)
  from wasi_speed_world [OF this(1) w(1) this(2) w(2)] w show ?thesis
    by blast
qed

end
