(* ===== verification/WasiTcp.thy ===== *)
theory WasiTcp
  imports WasiCodec
begin

text \<open>
  The halves of a TCP connection, \<open>wasi/crates/wasi-async/src/net/tcp.rs\<close>. The host answers are arguments:
  what each \<open>read\<close> of the input stream gives (\<open>Data []\<close> when nothing has arrived, and again when the list is
  used up), whether a pollable is ready when it is asked, what \<open>check_write\<close> allows, and whether a write
  succeeds. A \<open>usize\<close> has 32 bits.
\<close>

section \<open>Reading\<close>

fun host_read :: "read_result list \<Rightarrow> read_result \<times> read_result list" where
  "host_read [] = (Data [], [])"
| "host_read (r # rs) = (r, rs)"

text \<open>One poll of the future of \<open>ReadHalf::read\<close>, which is at its beginning or waits inside \<open>wait_for\<close>. The
  poll gives a result or \<open>None\<close> for pending, and whether the future waits.\<close>

function read_half_poll :: "nat \<Rightarrow> bool \<Rightarrow> read_result list \<Rightarrow> bool list \<Rightarrow>
    (stream_error, byte list) outcome option \<times> bool \<times> read_result list \<times> bool list" where
  "read_half_poll len False rs ys =
     (case host_read rs of
        (Read_error e, rs) \<Rightarrow> (Some (Err e), False, rs, ys)
      | (Data bs, rs) \<Rightarrow> if bs \<noteq> [] then (Some (Ok bs), False, rs, ys) else read_half_poll len True rs ys)"
| "read_half_poll len True rs [] = (None, True, rs, [])"
| "read_half_poll len True rs (False # ys) = (None, True, rs, ys)"
| "read_half_poll len True rs (True # ys) =
     (case host_read rs of
        (Read_error e, rs) \<Rightarrow> (Some (Err e), False, rs, ys)
      | (Data bs, rs) \<Rightarrow> if bs = [] \<and> len = 0 then (Some (Ok bs), False, rs, ys) else read_half_poll len False rs ys)"
  by pat_completeness auto
termination
  by (relation "measure (\<lambda>(_, waiting, _, ys). 2 * length ys + (if waiting then 0 else 1))") auto

text \<open>\<open>OwnedReadHalf::read\<close> has another condition after the wait.\<close>

function owned_read_half_poll :: "nat \<Rightarrow> bool \<Rightarrow> read_result list \<Rightarrow> bool list \<Rightarrow>
    (stream_error, byte list) outcome option \<times> bool \<times> read_result list \<times> bool list" where
  "owned_read_half_poll len False rs ys =
     (case host_read rs of
        (Read_error e, rs) \<Rightarrow> (Some (Err e), False, rs, ys)
      | (Data bs, rs) \<Rightarrow> if bs \<noteq> [] then (Some (Ok bs), False, rs, ys) else owned_read_half_poll len True rs ys)"
| "owned_read_half_poll len True rs [] = (None, True, rs, [])"
| "owned_read_half_poll len True rs (False # ys) = (None, True, rs, ys)"
| "owned_read_half_poll len True rs (True # ys) =
     (case host_read rs of
        (Read_error e, rs) \<Rightarrow> (Some (Err e), False, rs, ys)
      | (Data bs, rs) \<Rightarrow> if bs = [] \<or> len = 0 then (Some (Ok bs), False, rs, ys) else owned_read_half_poll len False rs ys)"
  by pat_completeness auto
termination
  by (relation "measure (\<lambda>(_, waiting, _, ys). 2 * length ys + (if waiting then 0 else 1))") auto

section \<open>Writing\<close>

text \<open>The loop over \<open>check_write\<close>: its first answer that is not zero.\<close>

datatype check_result = Allowed nat | Check_error stream_error

fun check_write :: "check_result list \<Rightarrow> (stream_error, nat) outcome option" where
  "check_write [] = None"
| "check_write (Check_error e # cs) = Some (Err e)"
| "check_write (Allowed n # cs) = (if 0 < n then Some (Ok n) else check_write cs)"

text \<open>A write with the answers of the host to it: the result and what the host was given.\<close>

record host_write =
  checks :: "check_result list"
  written :: "stream_error option"

definition host_write_all :: "host_write \<Rightarrow> byte list \<Rightarrow> nat \<Rightarrow> (stream_error, nat) outcome \<times> byte list" where
  "host_write_all h data n =
     (let len = min (length data) (n mod 2 ^ 32)
      in case written h of
           Some e \<Rightarrow> (Err e, [])
         | None \<Rightarrow> (Ok len, take len data))"

definition owned_half_write :: "host_write \<Rightarrow> byte list \<Rightarrow> (stream_error, nat) outcome option \<times> byte list" where
  "owned_half_write h data =
     (case check_write (checks h) of
        None \<Rightarrow> (None, [])
      | Some (Ok n) \<Rightarrow> (case host_write_all h data n of (r, out) \<Rightarrow> (Some r, out))
      | Some (Err e) \<Rightarrow> (Some (Err e), [])
      | Some Panic \<Rightarrow> (Some Panic, []))"

definition half_write :: "host_write \<Rightarrow> byte list \<Rightarrow> (stream_error, nat) outcome option \<times> byte list" where
  "half_write h data = (if data = [] then (Some (Ok 0), []) else owned_half_write h data)"

definition half_flush :: "stream_error option \<Rightarrow> check_result list \<Rightarrow> (stream_error, unit) outcome option" where
  "half_flush flushed cs =
     (case flushed of
        Some e \<Rightarrow> Some (Err e)
      | None \<Rightarrow> map_option (\<lambda>r. bind_outcome r (\<lambda>_. Ok ())) (check_write cs))"

text \<open>\<open>splice\<close>: it waits until something may be written, then until the host has moved something.\<close>

fun splice_loop :: "check_result list \<Rightarrow> (stream_error, nat) outcome option" where
  "splice_loop [] = None"
| "splice_loop (Check_error e # ss) = Some (Err e)"
| "splice_loop (Allowed n # ss) = (if 0 < n then Some (Ok n) else splice_loop ss)"

definition half_splice :: "nat \<Rightarrow> check_result list \<Rightarrow> check_result list \<Rightarrow> (stream_error, nat) outcome option" where
  "half_splice len cs ss =
     (if len = 0 then Some (Ok 0)
      else case check_write cs of
        None \<Rightarrow> None
      | Some r \<Rightarrow> (case r of Ok _ \<Rightarrow> splice_loop ss | Err e \<Rightarrow> Some (Err e) | Panic \<Rightarrow> Some Panic))"

text \<open>\<open>write_all\<close> over a half, one element of the list for each call of \<open>write\<close>.\<close>

fun half_write_all :: "host_write list \<Rightarrow> byte list \<Rightarrow> (stream_error, unit) outcome option \<times> byte list" where
  "half_write_all [] data = (if data = [] then Some (Ok ()) else None, [])"
| "half_write_all (h # hs) data =
     (if data = [] then (Some (Ok ()), [])
      else case half_write h data of
        (None, out) \<Rightarrow> (None, out)
      | (Some (Err e), out) \<Rightarrow> (Some (Err e), out)
      | (Some Panic, out) \<Rightarrow> (Some Panic, out)
      | (Some (Ok len), out) \<Rightarrow>
          (if len = 0 then (Some Panic, out)
           else if len = length data then (Some (Ok ()), out)
           else if length data < len then (Some Panic, out)
           else (case half_write_all hs (drop len data) of (r, out') \<Rightarrow> (r, out @ out'))))"

section \<open>Lemmas\<close>

text \<open>A permit that is not zero, but is when it is cut to 32 bits.\<close>

definition truncated_to_zero :: "host_write \<Rightarrow> bool" where
  "truncated_to_zero h \<longleftrightarrow> (\<exists>n. Allowed n \<in> set (checks h) \<and> 0 < n \<and> n mod 2 ^ 32 = 0)"

lemma check_write_Ok: "check_write cs = Some (Ok n) \<Longrightarrow> 0 < n \<and> Allowed n \<in> set cs"
  by (induction cs rule: check_write.induct) (auto split: if_splits)

lemma check_write_no_panic: "check_write cs \<noteq> Some Panic"
  by (induction cs rule: check_write.induct) auto

lemma half_write_cases:
  assumes "data \<noteq> []" and "half_write h data = (r, out)"
  shows "(\<exists>len. r = Some (Ok len) \<and> (len = 0 \<longrightarrow> truncated_to_zero h) \<and> len \<le> length data \<and> out = take len data) \<or>
    (out = [] \<and> (r = None \<or> (\<exists>e. r = Some (Err e))))"
proof (cases "check_write (checks h)")
  case None
  with assms show ?thesis
    by (simp add: half_write_def owned_half_write_def)
next
  case (Some c)
  show ?thesis
  proof (cases c)
    case (Ok n)
    with Some check_write_Ok [of "checks h" n] have n: "n mod 2 ^ 32 = 0 \<Longrightarrow> truncated_to_zero h"
      by (auto simp: truncated_to_zero_def)
    with assms Some Ok show ?thesis
      by (auto simp: half_write_def owned_half_write_def host_write_all_def Let_def min_def split: option.splits if_splits)
  next
    case (Err e)
    with Some assms show ?thesis
      by (auto simp: half_write_def owned_half_write_def)
  next
    case Panic
    with Some check_write_no_panic [of "checks h"] show ?thesis
      by simp
  qed
qed

section \<open>Properties\<close>

text \<open>C36: Whatever the host answers, \<open>write_all\<close> over a TCP connection gives the host a beginning of the data,
  and all of it, once and in order, when the call succeeds; and it panics only if the host permits a number
  of bytes that is not zero but a multiple of \<open>2 ^ 32\<close>.\<close>

theorem tcp_write_all:
  assumes "half_write_all hs data = (r, out)"
  shows "prefix out data \<and> (r = Some (Ok ()) \<longrightarrow> out = data) \<and>
    (r = Some Panic \<longrightarrow> (\<exists>h \<in> set hs. \<exists>n. Allowed n \<in> set (checks h) \<and> 0 < n \<and> n mod 2 ^ 32 = 0))"
  using assms
proof (induction hs arbitrary: data r out)
  case Nil
  then show ?case
    by (auto split: if_splits)
next
  case (Cons h hs)
  show ?case
  proof (cases "data = []")
    case True
    with Cons(2) show ?thesis
      by auto
  next
    case False
    obtain r1 out1 where first: "half_write h data = (r1, out1)"
      by (cases "half_write h data")
    from half_write_cases [OF False first] consider
      len where "r1 = Some (Ok len)" "0 < len" "len \<le> length data" "out1 = take len data"
      | "r1 = Some (Ok 0)" "out1 = []" "truncated_to_zero h"
      | "out1 = []" "r1 = None" | e where "out1 = []" "r1 = Some (Err e)"
      by fastforce
    then show ?thesis
    proof cases
      case 1
      obtain r2 out2 where rest: "half_write_all hs (drop len data) = (r2, out2)"
        by (cases "half_write_all hs (drop len data)")
      from Cons(1) [OF rest] have IH: "prefix out2 (drop len data)" "r2 = Some (Ok ()) \<longrightarrow> out2 = drop len data"
        "r2 = Some Panic \<longrightarrow> (\<exists>h \<in> set hs. \<exists>n. Allowed n \<in> set (checks h) \<and> 0 < n \<and> n mod 2 ^ 32 = 0)"
        by blast+
      show ?thesis
      proof (cases "len = length data")
        case True
        with 1 False Cons(2) first show ?thesis
          by auto
      next
        case neq: False
        with 1 False Cons(2) first rest have "r = r2" "out = take len data @ out2"
          by auto
        with IH show ?thesis
          using same_prefix_prefix [of "take len data" out2 "drop len data"] by auto
      qed
    qed (use False Cons(2) first in \<open>auto simp: truncated_to_zero_def\<close>)
  qed
qed

theorem tcp_write_all_witness:
  "half_write_all [\<lparr>checks = [Allowed 0, Allowed 2], written = None\<rparr>, \<lparr>checks = [Allowed 7], written = None\<rparr>] [1, 2, 3] = (Some (Ok ()), [1, 2, 3])
   \<and> prefix [1, 2, 3] [1 :: byte, 2, 3]"
proof -
  have run: "half_write_all [\<lparr>checks = [Allowed 0, Allowed 2], written = None\<rparr>, \<lparr>checks = [Allowed 7], written = None\<rparr>] [1, 2, 3] = (Some (Ok ()), [1, 2, 3])"
    by (simp add: half_write_def owned_half_write_def host_write_all_def Let_def)
  with tcp_write_all [OF run] show ?thesis
    by blast
qed

text \<open>Such a permit does make it panic: the call of \<open>write\<close> writes nothing.\<close>

lemma permit_of_4_GiB_panics: "half_write_all [\<lparr>checks = [Allowed (2 ^ 32)], written = None\<rparr>] [1] = (Some Panic, [])"
  by (simp add: half_write_def owned_half_write_def host_write_all_def Let_def)

text \<open>Bytes that arrive between the first read and the question whether the pollable is ready are lost: the
  second read takes them from the host and the loop begins again.\<close>

lemma read_loses_bytes:
  assumes "bs \<noteq> []" and "cs \<noteq> []" and "0 < len"
  shows "read_half_poll len False (Data [] # Data bs # Data cs # rs) (True # ys) = (Some (Ok cs), False, rs, ys)"
    "owned_read_half_poll len False (Data [] # Data bs # Data cs # rs) (True # ys) = (Some (Ok cs), False, rs, ys)"
  using assms by simp_all

text \<open>As long as no pollable is ready right after an empty read, each read of a half that is polled afresh
  gives exactly what the host has.\<close>

lemma fresh_read:
  "read_half_poll len False (Data bs # rs) (False # ys) = (if bs = [] then (None, True, rs, ys) else (Some (Ok bs), False, rs, False # ys))"
  by simp

end
