(* ===== verification/Text.thy ===== *)
theory Text
  imports Utf8
begin

text \<open>
  Text as the programs of the repository read and write it: decimal numerals, the characters and
  words of a Rust string, its lines, and the parser of \<open>usize\<close>.
\<close>

section \<open>The decimal representation\<close>

fun dec :: "nat \<Rightarrow> byte list" where
  "dec n = (if n < 10 then [48 + of_nat n] else dec (n div 10) @ [48 + of_nat (n mod 10)])"

declare dec.simps [simp del]

text \<open>The value of a sequence of digits after the digits that stand for \<open>a\<close>.\<close>

definition dval :: "nat \<Rightarrow> byte list \<Rightarrow> nat" where
  "dval a ds = foldl (\<lambda>a d. a * 10 + unat (d - 48)) a ds"

lemma dval_simps [simp]:
  "dval a [] = a"
  "dval a (d # ds) = dval (a * 10 + unat (d - 48)) ds"
  "dval a (ds @ es) = dval (dval a ds) es"
  by (simp_all add: dval_def)

lemma unat_digit: "d < 10 \<Longrightarrow> unat (48 + of_nat d :: byte) = 48 + d"
  by (simp add: unat_word_ariths unat_of_nat)

lemma digit_byte: "d < 10 \<Longrightarrow> unat (of_nat d :: byte) = d"
  by (simp add: unat_of_nat)

lemma is_ascii_digit_digit: "d < 10 \<Longrightarrow> is_ascii_digit (48 + of_nat d)"
  by (simp add: is_ascii_digit_def word_le_nat_alt unat_digit)

lemma dec_nonempty [simp]: "dec n \<noteq> []" "0 < length (dec n)"
  by (subst dec.simps; simp)+

lemma dec_digits: "d \<in> set (dec n) \<Longrightarrow> is_ascii_digit d"
proof (induction n rule: dec.induct)
  case (1 n)
  then show ?case
    by (subst (asm) (2) dec.simps) (auto simp: is_ascii_digit_digit split: if_splits)
qed

lemma dval_dec: "dval 0 (dec n) = n"
proof (induction n rule: dec.induct)
  case (1 n)
  then show ?case
    by (subst dec.simps) (auto simp: digit_byte)
qed

lemma length_dec: "n < 10 ^ k \<Longrightarrow> 0 < k \<Longrightarrow> length (dec n) \<le> k"
proof (induction k arbitrary: n)
  case (Suc k)
  show ?case
  proof (cases "n < 10")
    case False
    then have "0 < k"
      using Suc.prems(1) by (cases k) auto
    moreover have "n div 10 < 10 ^ k"
      using Suc.prems(1) by (simp add: less_mult_imp_div_less mult.commute)
    ultimately show ?thesis
      using Suc.IH [of "n div 10"] False by (subst dec.simps) simp
  qed (subst dec.simps, simp)
qed simp

lemma length_dec_u32: "length (dec (unat (v :: u32))) \<le> 10"
  using unsigned_less [of v, where ?'a = nat] by (intro length_dec) auto

lemma dval_mono: "a \<le> dval a ds"
proof (induction ds arbitrary: a)
  case (Cons d ds)
  show ?case
    using Cons [of "a * 10 + unat (d - 48)"] by simp
qed simp

section \<open>Splitting\<close>

text \<open>\<open>slice::split\<close> and \<open>str::split\<close>: the pieces between the elements that satisfy the predicate.\<close>

fun split_by :: "('a \<Rightarrow> bool) \<Rightarrow> 'a list \<Rightarrow> 'a list list" where
  "split_by p [] = [[]]"
| "split_by p (x # xs) =
     (if p x then [] # split_by p xs
      else (x # hd (split_by p xs)) # tl (split_by p xs))"

lemma split_by_nonempty [simp]: "split_by p xs \<noteq> []"
  by (cases xs) auto

lemma split_by_map: "split_by p (map f xs) = map (map f) (split_by (p \<circ> f) xs)"
  by (induction xs) (auto simp: hd_map map_tl)

lemma split_by_none: "\<forall>x \<in> set xs. \<not> p x \<Longrightarrow> split_by p xs = [xs]"
  by (induction xs) auto

lemma split_by_append:
  "\<forall>x \<in> set xs. \<not> p x \<Longrightarrow> p s \<Longrightarrow> split_by p (xs @ s # ys) = xs # split_by p ys"
  by (induction xs) auto

lemma split_by_set: "set (concat (split_by p xs)) = {x \<in> set xs. \<not> p x}"
proof (induction xs)
  case (Cons x xs)
  have "set (hd (split_by p xs)) \<union> set (concat (tl (split_by p xs))) = set (concat (split_by p xs))"
    by (cases "split_by p xs") (simp_all add: split_by_nonempty)
  with Cons show ?case
    by (auto simp del: set_concat)
qed simp

lemma split_by_pieces: "w \<in> set (split_by p xs) \<Longrightarrow> x \<in> set w \<Longrightarrow> x \<in> set xs \<and> \<not> p x"
  using split_by_set [of p xs] by auto

section \<open>Characters and words\<close>

text \<open>The characters of a well-formed string.\<close>

function utf8_chars :: "byte list \<Rightarrow> byte list list" where
  "utf8_chars bs =
     (case utf8_char bs of None \<Rightarrow> [] | Some n \<Rightarrow> take n bs # utf8_chars (drop n bs))"
  by pat_completeness auto
termination
  by (relation "measure length") (auto dest: utf8_char_bounds)

declare utf8_chars.simps [simp del]

text \<open>\<open>char::is_whitespace\<close>: the characters with the Unicode property White_Space, by their UTF-8 bytes.\<close>

definition is_whitespace :: "byte list \<Rightarrow> bool" where
  "is_whitespace c \<longleftrightarrow>
     c \<in> set [[9], [10], [11], [12], [13], [32], [194, 133], [194, 160], [225, 154, 128],
       [226, 128, 128], [226, 128, 129], [226, 128, 130], [226, 128, 131], [226, 128, 132],
       [226, 128, 133], [226, 128, 134], [226, 128, 135], [226, 128, 136], [226, 128, 137],
       [226, 128, 138], [226, 128, 168], [226, 128, 169], [226, 128, 175], [226, 129, 159],
       [227, 128, 128]]"

text \<open>\<open>str::trim\<close> and \<open>str::split_whitespace\<close>.\<close>

definition trim_end :: "byte list list \<Rightarrow> byte list list" where
  "trim_end cs = rev (dropWhile is_whitespace (rev cs))"

definition trim :: "rstring \<Rightarrow> rstring" where
  "trim s = concat (trim_end (dropWhile is_whitespace (utf8_chars s)))"

definition split_whitespace :: "rstring \<Rightarrow> rstring list" where
  "split_whitespace s = filter (\<lambda>w. w \<noteq> []) (map concat (split_by is_whitespace (utf8_chars s)))"

lemma utf8_chars_Nil [simp]: "utf8_chars [] = []"
  by (subst utf8_chars.simps) simp

lemma utf8_chars_ascii: "list_all is_ascii xs \<Longrightarrow> utf8_chars xs = map (\<lambda>b. [b]) xs"
proof (induction xs)
  case (Cons x xs)
  then show ?case
    by (subst utf8_chars.simps) (simp add: is_ascii_def)
qed simp

definition is_word :: "rstring \<Rightarrow> bool" where
  "is_word w \<longleftrightarrow> w \<noteq> [] \<and> list_all is_ascii_graphic w"

lemma graphic_ascii: "is_ascii_graphic b \<Longrightarrow> is_ascii b"
  by (simp add: is_ascii_graphic_def is_ascii_def word_le_nat_alt word_less_nat_alt)

lemma graphic_not_whitespace: "is_ascii_graphic b \<Longrightarrow> \<not> is_whitespace [b]"
  by (auto simp: is_ascii_graphic_def is_whitespace_def)

lemma digit_graphic: "is_ascii_digit b \<Longrightarrow> is_ascii_graphic b"
  by (simp add: is_ascii_graphic_def is_ascii_digit_def word_le_nat_alt)

lemma concat_singletons [simp]: "concat (map (\<lambda>b. [b]) xs) = xs"
  by (induction xs) auto

text \<open>A line of words with a space between any two is split into its words.\<close>

fun unwords :: "rstring list \<Rightarrow> rstring" where
  "unwords [] = []"
| "unwords [w] = w"
| "unwords (w # v # ws) = w @ 32 # unwords (v # ws)"

lemma unwords_ascii: "list_all is_word ws \<Longrightarrow> list_all is_ascii (unwords ws)"
  by (induction ws rule: unwords.induct)
    (auto simp: is_word_def list_all_iff graphic_ascii is_ascii_def [of 32])

lemma split_whitespace_ascii:
  "list_all is_ascii s \<Longrightarrow> split_whitespace s = filter (\<lambda>w. w \<noteq> []) (split_by (\<lambda>b. is_whitespace [b]) s)"
  by (simp add: split_whitespace_def utf8_chars_ascii split_by_map comp_def)

lemma split_by_unwords:
  "list_all is_word ws \<Longrightarrow> ws \<noteq> [] \<Longrightarrow> split_by (\<lambda>b. is_whitespace [b]) (unwords ws) = ws"
proof (induction ws rule: unwords.induct)
  case (2 w)
  then show ?case
    by (simp add: split_by_none is_word_def list_all_iff graphic_not_whitespace)
next
  case (3 w v ws)
  then have "\<forall>b \<in> set w. \<not> is_whitespace [b]"
    by (simp add: is_word_def list_all_iff graphic_not_whitespace)
  with 3 show ?case
    by (simp add: split_by_append is_whitespace_def [of "[32]"])
qed simp

lemma split_whitespace_unwords: "list_all is_word ws \<Longrightarrow> split_whitespace (unwords ws) = ws"
proof (cases "ws = []")
  case False
  assume "list_all is_word ws"
  moreover from this have "filter (\<lambda>w. w \<noteq> []) ws = ws"
    by (auto simp: is_word_def list_all_iff filter_id_conv)
  ultimately show ?thesis
    using False by (simp add: split_whitespace_ascii unwords_ascii split_by_unwords)
qed (simp add: split_whitespace_def)

lemma unwords_ends:
  "list_all is_word ws \<Longrightarrow> ws \<noteq> [] \<Longrightarrow>
     unwords ws \<noteq> [] \<and> is_ascii_graphic (hd (unwords ws)) \<and> is_ascii_graphic (last (unwords ws))"
  by (induction ws rule: unwords.induct) (auto simp: is_word_def list_all_iff hd_append)

lemma trim_line:
  assumes "list_all is_ascii s" "s \<noteq> []" "is_ascii_graphic (hd s)" "is_ascii_graphic (last s)"
  shows "trim (s @ [10]) = s" and "trim s = s"
proof -
  have front: "dropWhile is_whitespace (map (\<lambda>b. [b]) (s @ t)) = map (\<lambda>b. [b]) (s @ t)" for t
    using assms(2,3) by (cases s) (simp_all add: graphic_not_whitespace)
  have "dropWhile is_whitespace (rev (map (\<lambda>b. [b]) s)) = rev (map (\<lambda>b. [b]) s)"
    using assms(2,4) by (cases s rule: rev_cases) (simp_all add: graphic_not_whitespace)
  with assms(1) front [of "[10]"] front [of "[]"] show "trim (s @ [10]) = s" and "trim s = s"
    by (simp_all add: trim_def trim_end_def utf8_chars_ascii is_ascii_def [of 10] is_whitespace_def [of "[10]"])
qed

lemma words_of_line:
  "list_all is_word ws \<Longrightarrow> ws \<noteq> [] \<Longrightarrow> split_whitespace (trim (unwords ws @ [10])) = ws"
  using unwords_ends [of ws] by (simp add: trim_line unwords_ascii split_whitespace_unwords)

section \<open>Lines\<close>

text \<open>
  \<open>AsyncBufReadExt::read_line\<close> on what the peer sends until it closes the connection: the bytes up
  to and with the first line feed, or all of them; \<open>None\<close> if they are not UTF-8 (an error of the
  reader). At the end of the input the line is empty.
\<close>

definition line_bytes :: "byte list \<Rightarrow> byte list" where
  "line_bytes bs = (case position ((=) 10) bs of None \<Rightarrow> bs | Some i \<Rightarrow> take (i + 1) bs)"

definition read_line :: "byte list \<Rightarrow> (rstring \<times> byte list) option" where
  "read_line bs =
     (let l = line_bytes bs in if utf8_valid l then Some (l, drop (length l) bs) else None)"

lemma read_line_Some: "read_line bs = Some (l, r) \<Longrightarrow> bs = l @ r \<and> (l = [] \<longrightarrow> bs = [])"
  by (auto simp: read_line_def line_bytes_def Let_def min_def split: if_splits option.splits)

lemma read_line_line:
  "list_all is_ascii l \<Longrightarrow> 10 \<notin> set l \<Longrightarrow> read_line (l @ 10 # r) = Some (l @ [10], r)"
proof -
  assume l: "list_all is_ascii l" "10 \<notin> set l"
  then have "position ((=) 10) l = None"
    by (auto simp: position_None)
  then have "position ((=) 10) (l @ 10 # r) = Some (length l)"
    by (simp add: position_append)
  moreover have "utf8_valid (l @ [10])"
    using l by (simp add: utf8_valid_ascii is_ascii_def [of 10])
  ultimately show ?thesis
    by (simp add: read_line_def line_bytes_def)
qed

lemma read_line_unwords:
  "list_all is_word ws \<Longrightarrow> read_line (unwords ws @ 10 # r) = Some (unwords ws @ [10], r)"
proof -
  assume ws: "list_all is_word ws"
  then have "10 \<notin> set (unwords ws)"
    by (induction ws rule: unwords.induct) (auto simp: is_word_def list_all_iff is_ascii_graphic_def)
  with ws show ?thesis
    by (simp add: read_line_line unwords_ascii)
qed

section \<open>Reading up to a newline\<close>

text \<open>\<open>read_until\<close> gives the bytes up to and with the next newline, or what is left before the end.\<close>

fun read_until :: "byte list \<Rightarrow> byte list \<times> byte list" where
  "read_until [] = ([], [])"
| "read_until (b # bs) = (if b = 10 then ([b], bs) else (case read_until bs of (l, r) \<Rightarrow> (b # l, r)))"

lemma read_until_append: "fst (read_until bs) @ snd (read_until bs) = bs"
  by (induction bs) (auto split: prod.splits)

lemma read_until_line: "10 \<notin> set l \<Longrightarrow> read_until (l @ 10 # r) = (l @ [10], r)"
  by (induction l) auto

lemma read_until_shorter: "bs \<noteq> [] \<Longrightarrow> length (snd (read_until bs)) < length bs"
proof (induction bs)
  case (Cons b bs)
  then show ?case
    by (cases "bs = []") (auto split: prod.splits intro: less_SucI)
qed simp

lemma read_until_rest: "(l, r) = read_until bs \<Longrightarrow> l \<noteq> [] \<Longrightarrow> length r < length bs"
proof (cases "bs = []")
  case False
  moreover assume "(l, r) = read_until bs" "l \<noteq> []"
  ultimately show ?thesis
    using read_until_shorter [of bs] by (metis prod.sel(2))
qed simp

text \<open>The buffers that the reads of a whole input end with.\<close>

function buffers :: "byte list \<Rightarrow> byte list list" where
  "buffers bs = (if 10 \<in> set bs then fst (read_until bs) # buffers (snd (read_until bs)) else [bs])"
  by auto
termination
  by (relation "measure length") (auto intro!: read_until_shorter)

declare buffers.simps [simp del]

lemma buffers_line: "10 \<notin> set l \<Longrightarrow> buffers (l @ 10 # r) = (l @ [10]) # buffers r"
  by (subst buffers.simps) (simp add: read_until_line)

lemma buffers_end: "10 \<notin> set l \<Longrightarrow> buffers l = [l]"
  by (subst buffers.simps) simp

definition lines_bytes :: "byte list list \<Rightarrow> byte list \<Rightarrow> byte list" where
  "lines_bytes ls tail = concat (map (\<lambda>l. l @ [10]) ls) @ tail"

lemma buffers_lines:
  "list_all (\<lambda>l. 10 \<notin> set l) ls \<Longrightarrow> 10 \<notin> set tail \<Longrightarrow> buffers (lines_bytes ls tail) = map (\<lambda>l. l @ [10]) ls @ [tail]"
  by (induction ls) (simp_all add: lines_bytes_def buffers_line buffers_end)

section \<open>Parsing a number\<close>

text \<open>\<open>str::parse::<usize>\<close> on a 64-bit machine: an optional plus sign, then at least one digit.\<close>

definition parse_usize :: "rstring \<Rightarrow> nat option" where
  "parse_usize s =
     (let ds = (case s of b # bs \<Rightarrow> if b = 43 then bs else s | [] \<Rightarrow> s) in
      if ds \<noteq> [] \<and> list_all is_ascii_digit ds \<and> dval 0 ds < 2 ^ 64 then Some (dval 0 ds) else None)"

lemma parse_usize_dec: "n < 2 ^ 64 \<Longrightarrow> parse_usize (dec n) = Some n"
proof -
  assume n: "n < 2 ^ 64"
  obtain b bs where b: "dec n = b # bs"
    using dec_nonempty(1) by (meson neq_Nil_conv)
  moreover from b have "b \<noteq> 43"
    using dec_digits [of b n] by (auto simp: is_ascii_digit_def)
  moreover have "list_all is_ascii_digit (dec n)"
    by (simp add: list_all_iff dec_digits)
  ultimately show ?thesis
    using n dval_dec [of n] by (simp add: parse_usize_def)
qed

lemma is_word_dec: "is_word (dec n)"
  by (auto simp: is_word_def list_all_iff intro: digit_graphic dec_digits)

text \<open>\<open>str::eq_ignore_ascii_case\<close>.\<close>

definition to_ascii_lowercase :: "byte \<Rightarrow> byte" where
  "to_ascii_lowercase b = (if 65 \<le> b \<and> b \<le> 90 then b + 32 else b)"

definition eq_ignore_ascii_case :: "rstring \<Rightarrow> rstring \<Rightarrow> bool" where
  "eq_ignore_ascii_case s t \<longleftrightarrow> map to_ascii_lowercase s = map to_ascii_lowercase t"

end
