(* ===== verification/WasiNet.thy ===== *)
theory WasiNet
  imports WasiTcp Text
begin

text \<open>
  Addresses, listening, connecting and shutting down in the WASI port, \<open>wasi/crates/wasi-async/src/net.rs\<close>,
  \<open>net/tcp.rs\<close> and the beginning of \<open>net/udp.rs\<close>, and its clocks, \<open>time.rs\<close>. What the host answers is an argument.
  A call that may have to wait gives \<open>None\<close> when the answers end before it has a result.
\<close>

section \<open>Addresses\<close>

datatype error_code = Would_block | Invalid_argument | Name_unresolvable | Other_code nat

datatype ip_address = Ipv4 "byte \<times> byte \<times> byte \<times> byte" | Ipv6 "u16 list"

datatype socket_address = Ipv4_socket "byte \<times> byte \<times> byte \<times> byte" u16 | Ipv6_socket "u16 list" u16

datatype ip_address_family = Family_ipv4 | Family_ipv6

fun ip_family :: "socket_address \<Rightarrow> ip_address_family" where
  "ip_family (Ipv4_socket _ _) = Family_ipv4"
| "ip_family (Ipv6_socket _ _) = Family_ipv6"

fun local_port :: "socket_address \<Rightarrow> u16" where
  "local_port (Ipv4_socket _ port) = port"
| "local_port (Ipv6_socket _ port) = port"

text \<open>\<open>str::split_once\<close> at a byte, and \<open>str::parse::<u16>\<close>.\<close>

fun split_once :: "byte \<Rightarrow> rstring \<Rightarrow> (rstring \<times> rstring) option" where
  "split_once b [] = None"
| "split_once b (c # s) =
     (if c = b then Some ([], s) else map_option (\<lambda>(l, r). (c # l, r)) (split_once b s))"

definition parse_u16 :: "rstring \<Rightarrow> u16 option" where
  "parse_u16 s =
     (let ds = (case s of b # bs \<Rightarrow> if b = 43 then bs else s | [] \<Rightarrow> s)
      in if ds \<noteq> [] \<and> list_all is_ascii_digit ds \<and> dval 0 ds < 2 ^ 16 then Some (of_nat (dval 0 ds)) else None)"

text \<open>The answers of \<open>resolve_next_address\<close>, each after a wait when the one before was \<open>Would_block\<close>.\<close>

fun resolve_loop :: "(error_code + ip_address option) list \<Rightarrow> u16 \<Rightarrow> (error_code, socket_address) outcome option" where
  "resolve_loop [] port = None"
| "resolve_loop (Inl Would_block # as) port = resolve_loop as port"
| "resolve_loop (Inl e # as) port = Some (Err e)"
| "resolve_loop (Inr (Some (Ipv4 a)) # as) port = Some (Ok (Ipv4_socket a port))"
| "resolve_loop (Inr (Some (Ipv6 _)) # as) port = resolve_loop as port"
| "resolve_loop (Inr None # as) port = Some (Err Name_unresolvable)"

datatype address = Socket_address socket_address | Named rstring

type_synonym resolver = "rstring \<Rightarrow> error_code + (error_code + ip_address option) list"

fun to_socket_addr :: "resolver \<Rightarrow> address \<Rightarrow> (error_code, socket_address) outcome option" where
  "to_socket_addr resolve (Socket_address a) = Some (Ok a)"
| "to_socket_addr resolve (Named s) =
     (case split_once 58 s of
        None \<Rightarrow> Some (Err Invalid_argument)
      | Some (host, port) \<Rightarrow>
          (case parse_u16 port of
             None \<Rightarrow> Some (Err Invalid_argument)
           | Some p \<Rightarrow>
               (case resolve host of
                  Inl e \<Rightarrow> Some (Err e)
                | Inr as \<Rightarrow> resolve_loop as p)))"

section \<open>Sockets\<close>

text \<open>\<open>finish_bind\<close> and \<open>finish_listen\<close> are called until they do not block; the question mark after a call of the host.\<close>

fun finish_loop :: "error_code option list \<Rightarrow> (error_code, unit) outcome option" where
  "finish_loop [] = None"
| "finish_loop (Some Would_block # as) = finish_loop as"
| "finish_loop (Some e # as) = Some (Err e)"
| "finish_loop (None # as) = Some (Ok ())"

fun next_call :: "('e, 'a) outcome option \<Rightarrow> ('a \<Rightarrow> ('e, 'b) outcome option) \<Rightarrow> ('e, 'b) outcome option" where
  "next_call None f = None"
| "next_call (Some (Ok x)) f = f x"
| "next_call (Some (Err e)) f = Some (Err e)"
| "next_call (Some Panic) f = Some Panic"

fun host_call :: "error_code option \<Rightarrow> (error_code, unit) outcome option" where
  "host_call None = Some (Ok ())"
| "host_call (Some e) = Some (Err e)"

record socket_host =
  resolve :: resolver
  create :: "ip_address_family \<Rightarrow> error_code option"
  start_bind :: "socket_address \<Rightarrow> error_code option"
  finish_bind :: "error_code option list"
  start_listen :: "error_code option"
  finish_listen :: "error_code option list"
  start_connect :: "socket_address \<Rightarrow> error_code option"
  finish_connect :: "bool \<times> error_code option"
  stream_to :: "socket_address option \<Rightarrow> error_code option"

text \<open>The address that a listener, a connection and a UDP socket is at.\<close>

definition tcp_bind :: "socket_host \<Rightarrow> address \<Rightarrow> (error_code, socket_address) outcome option" where
  "tcp_bind h a =
     next_call (to_socket_addr (resolve h) a) (\<lambda>sa.
     next_call (host_call (create h (ip_family sa))) (\<lambda>_.
     next_call (host_call (start_bind h sa)) (\<lambda>_.
     next_call (finish_loop (finish_bind h)) (\<lambda>_.
     next_call (host_call (start_listen h)) (\<lambda>_.
     next_call (finish_loop (finish_listen h)) (\<lambda>_.
       Some (Ok sa)))))))"

text \<open>\<open>connect\<close> waits once and asks once: \<open>finish_connect\<close> has whether the pollable gets ready and the answer.\<close>

definition tcp_connect :: "socket_host \<Rightarrow> address \<Rightarrow> (error_code, socket_address) outcome option" where
  "tcp_connect h a =
     next_call (to_socket_addr (resolve h) a) (\<lambda>sa.
     next_call (host_call (create h (ip_family sa))) (\<lambda>_.
     next_call (host_call (start_connect h sa)) (\<lambda>_.
     next_call (if fst (finish_connect h) then host_call (snd (finish_connect h)) else None) (\<lambda>_.
       Some (Ok sa)))))"

definition udp_bind :: "socket_host \<Rightarrow> address \<Rightarrow> (error_code, socket_address) outcome option" where
  "udp_bind h a =
     next_call (to_socket_addr (resolve h) a) (\<lambda>sa.
     next_call (host_call (create h (ip_family sa))) (\<lambda>_.
     next_call (host_call (start_bind h sa)) (\<lambda>_.
     next_call (finish_loop (finish_bind h)) (\<lambda>_.
     next_call (host_call (stream_to h None)) (\<lambda>_.
       Some (Ok sa))))))"

text \<open>\<open>accept\<close>, and a poll of \<open>into_stream\<close>: nothing before the pollable is ready, then the answers of
  \<open>accept\<close> and \<open>remote_address\<close>.\<close>

definition accept_answer :: "error_code + 'c \<Rightarrow> error_code + socket_address \<Rightarrow> (error_code, 'c \<times> socket_address) outcome" where
  "accept_answer accepted remote =
     (case accepted of
        Inl e \<Rightarrow> Err e
      | Inr c \<Rightarrow> (case remote of Inl e \<Rightarrow> Err e | Inr a \<Rightarrow> Ok (c, a)))"

definition tcp_accept :: "bool \<Rightarrow> error_code + 'c \<Rightarrow> error_code + socket_address \<Rightarrow> (error_code, 'c \<times> socket_address) outcome option" where
  "tcp_accept is_ready accepted remote = (if is_ready then Some (accept_answer accepted remote) else None)"

section \<open>The life of a connection\<close>

text \<open>A \<open>TcpStream\<close>, or what is left of its halves after \<open>into_split\<close>, and the calls of \<open>shutdown\<close>. The halves of
  \<open>split\<close> are borrowed: of them only \<open>close\<close> shuts something down.\<close>

datatype shutdown_type = Shut_receive | Shut_send | Shut_both

datatype tcp_ends = Whole | Halves bool bool

record tcp_connection =
  ends :: tcp_ends
  shutdowns :: "shutdown_type list"

definition tcp_connection_new :: tcp_connection where
  "tcp_connection_new = \<lparr>ends = Whole, shutdowns = []\<rparr>"

datatype connection_op = Into_split | Close_stream | Drop_stream | Drop_read | Drop_write | Close_write

fun tcp_connection_do :: "connection_op \<Rightarrow> tcp_connection \<Rightarrow> tcp_connection option" where
  "tcp_connection_do Into_split c = (case ends c of Whole \<Rightarrow> Some (c\<lparr>ends := Halves True True\<rparr>) | _ \<Rightarrow> None)"
| "tcp_connection_do Close_stream c =
     (case ends c of
        Whole \<Rightarrow> Some \<lparr>ends = Halves False False, shutdowns = shutdowns c @ [Shut_both, Shut_both]\<rparr>
      | _ \<Rightarrow> None)"
| "tcp_connection_do Drop_stream c =
     (case ends c of Whole \<Rightarrow> Some \<lparr>ends = Halves False False, shutdowns = shutdowns c @ [Shut_both]\<rparr> | _ \<Rightarrow> None)"
| "tcp_connection_do Drop_read c =
     (case ends c of Halves True w \<Rightarrow> Some \<lparr>ends = Halves False w, shutdowns = shutdowns c @ [Shut_receive]\<rparr> | _ \<Rightarrow> None)"
| "tcp_connection_do Drop_write c =
     (case ends c of Halves r True \<Rightarrow> Some \<lparr>ends = Halves r False, shutdowns = shutdowns c @ [Shut_send]\<rparr> | _ \<Rightarrow> None)"
| "tcp_connection_do Close_write c =
     (case ends c of
        Halves _ False \<Rightarrow> None
      | _ \<Rightarrow> Some (c\<lparr>shutdowns := shutdowns c @ [Shut_send]\<rparr>))"

section \<open>Clocks\<close>

text \<open>An instant counts nanoseconds in 64 bits. \<open>Duration::as_nanos\<close> has 128 and is truncated.\<close>

definition instant_add :: "bool \<Rightarrow> u64 \<Rightarrow> nat \<Rightarrow> (unit, u64) outcome" where
  "instant_add oc i nanos = add_w oc i (of_nat nanos)"

record interval =
  current :: u64
  period :: nat

definition interval_at :: "u64 \<Rightarrow> nat \<Rightarrow> (unit, interval) outcome" where
  "interval_at start p = (if p = 0 then Panic else Ok \<lparr>current = start, period = p\<rparr>)"

text \<open>A poll of \<open>tick\<close> at a time of the monotonic clock; a tick that is dropped leaves the interval as it is.\<close>

definition interval_tick :: "bool \<Rightarrow> u64 \<Rightarrow> interval \<Rightarrow> (unit, interval) outcome option" where
  "interval_tick oc now iv =
     (if current iv \<le> now then Some (bind_outcome (instant_add oc (current iv) (period iv)) (\<lambda>c. Ok (iv\<lparr>current := c\<rparr>)))
      else None)"

text \<open>A poll of \<open>timeout\<close>: the race polls the clock or the future first, which is up to the library.\<close>

datatype 'a timed = In_time 'a | Elapsed

definition timeout_poll :: "bool \<Rightarrow> bool \<Rightarrow> 'a option \<Rightarrow> 'a timed option" where
  "timeout_poll clock_first expired done_now =
     (if clock_first then (if expired then Some Elapsed else map_option In_time done_now)
      else (case done_now of Some x \<Rightarrow> Some (In_time x) | None \<Rightarrow> if expired then Some Elapsed else None))"

section \<open>Lemmas\<close>

text \<open>The resolver's first IPv4 address is taken; IPv6 addresses and waits before it are passed over.\<close>

definition passed_over :: "error_code + ip_address option \<Rightarrow> bool" where
  "passed_over a \<longleftrightarrow> a = Inl Would_block \<or> (\<exists>x. a = Inr (Some (Ipv6 x)))"

lemma resolve_loop_skip: "list_all passed_over as \<Longrightarrow> resolve_loop (as @ bs) port = resolve_loop bs port"
  by (induction as) (auto simp: passed_over_def)

lemma resolve_loop_Ok:
  "resolve_loop as port = Some (Ok sa) \<longleftrightarrow>
     (\<exists>pre a post. as = pre @ Inr (Some (Ipv4 a)) # post \<and> list_all passed_over pre \<and> sa = Ipv4_socket a port)"
proof
  show "resolve_loop as port = Some (Ok sa) \<Longrightarrow>
    \<exists>pre a post. as = pre @ Inr (Some (Ipv4 a)) # post \<and> list_all passed_over pre \<and> sa = Ipv4_socket a port"
  proof (induction as port rule: resolve_loop.induct)
    case (2 as port)
    then obtain pre a post where pre: "as = pre @ Inr (Some (Ipv4 a)) # post" "list_all passed_over pre" "sa = Ipv4_socket a port"
      by auto
    have "passed_over (Inl Would_block)"
      by (simp add: passed_over_def)
    with pre have "Inl Would_block # as = (Inl Would_block # pre) @ Inr (Some (Ipv4 a)) # post" "list_all passed_over (Inl Would_block # pre)"
      by simp_all
    with pre(3) show ?case
      by blast
  next
    case (4 a as port)
    then have "Inr (Some (Ipv4 a)) # as = [] @ Inr (Some (Ipv4 a)) # as" "sa = Ipv4_socket a port"
      by simp_all
    then show ?case
      using list.pred_inject(1) by blast
  next
    case (5 x as port)
    then obtain pre a post where pre: "as = pre @ Inr (Some (Ipv4 a)) # post" "list_all passed_over pre" "sa = Ipv4_socket a port"
      by auto
    have "passed_over (Inr (Some (Ipv6 x)))"
      by (simp add: passed_over_def)
    with pre have "Inr (Some (Ipv6 x)) # as = (Inr (Some (Ipv6 x)) # pre) @ Inr (Some (Ipv4 a)) # post"
      "list_all passed_over (Inr (Some (Ipv6 x)) # pre)"
      by simp_all
    with pre(3) show ?case
      by blast
  qed auto
qed (auto simp: resolve_loop_skip)

lemma split_once_append: "b \<notin> set l \<Longrightarrow> split_once b (l @ b # r) = Some (l, r)"
  by (induction l) auto

lemma split_once_Some: "split_once b s = Some (l, r) \<longleftrightarrow> s = l @ b # r \<and> b \<notin> set l"
proof
  show "split_once b s = Some (l, r) \<Longrightarrow> s = l @ b # r \<and> b \<notin> set l"
    by (induction s arbitrary: l) (auto split: if_splits)
qed (simp add: split_once_append)

lemma parse_u16_dec: "n < 2 ^ 16 \<Longrightarrow> parse_u16 (dec n) = Some (of_nat n)"
proof -
  assume n: "n < 2 ^ 16"
  obtain b bs where b: "dec n = b # bs"
    using dec_nonempty(1) by (meson neq_Nil_conv)
  moreover from b have "b \<noteq> 43"
    using dec_digits [of b n] by (auto simp: is_ascii_digit_def)
  moreover have "list_all is_ascii_digit (dec n)"
    by (simp add: list_all_iff dec_digits)
  ultimately show ?thesis
    using n dval_dec [of n] by (simp add: parse_u16_def)
qed

lemma parse_u16_digits: "parse_u16 s = Some p \<Longrightarrow> b \<in> set s \<Longrightarrow> is_ascii_digit b \<or> b = 43"
  by (auto simp: parse_u16_def Let_def list_all_iff split: list.splits if_splits)

text \<open>An IPv6 address in text, which has colons of its own, is no address.\<close>

lemma ipv6_text_rejected:
  assumes "58 \<in> set r"
  shows "to_socket_addr res (Named (l @ 58 # r)) = Some (Err Invalid_argument)"
proof (cases "split_once 58 (l @ 58 # r)")
  case (Some q)
  obtain l' r' where q: "q = (l', r')"
    by (cases q)
  with Some have eq: "l @ 58 # r = l' @ 58 # r'" "58 \<notin> set l'"
    by (simp_all add: split_once_Some)
  have "58 \<in> set r'"
  proof (rule ccontr)
    assume "58 \<notin> set r'"
    with eq(2) have "count_list (l' @ 58 # r') 58 = 1"
      by (simp add: count_notin)
    moreover have "2 \<le> count_list (l @ 58 # r) 58"
      using assms count_list_0_iff [of r 58] by (simp add: Suc_le_eq)
    ultimately show False
      using eq(1) by simp
  qed
  then have "parse_u16 r' = None"
    using parse_u16_digits [of r' _ 58] by (cases "parse_u16 r'") (auto simp: is_ascii_digit_def)
  with Some q show ?thesis
    by simp
qed simp

lemma named_address:
  assumes "58 \<notin> set host" and "n < 2 ^ 16"
  shows "to_socket_addr res (Named (host @ 58 # dec n)) =
    (case res host of Inl e \<Rightarrow> Some (Err e) | Inr as \<Rightarrow> resolve_loop as (of_nat n))"
  using assms by (simp add: split_once_append parse_u16_dec)

text \<open>A chain of calls has a result when each call has.\<close>

lemma next_call_Ok: "next_call r f = Some (Ok y) \<longleftrightarrow> (\<exists>x. r = Some (Ok x) \<and> f x = Some (Ok y))"
  by (cases "(r, f)" rule: next_call.cases) auto

lemma host_call_Ok: "host_call r = Some (Ok x) \<longleftrightarrow> r = None"
  by (cases r) auto

lemma finish_loop_Ok: "finish_loop as = Some (Ok x) \<longleftrightarrow> (\<exists>n post. as = replicate n (Some Would_block) @ None # post)"
proof
  show "finish_loop as = Some (Ok x) \<Longrightarrow> \<exists>n post. as = replicate n (Some Would_block) @ None # post"
  proof (induction as rule: finish_loop.induct)
    case (2 as)
    then obtain n post where "as = replicate n (Some Would_block) @ None # post"
      by auto
    then show ?case
      by (intro exI [of _ "Suc n"] exI [of _ post]) simp
  next
    case (4 as)
    show ?case
      by (intro exI [of _ 0] exI [of _ as]) simp
  qed auto
next
  assume "\<exists>n post. as = replicate n (Some Would_block) @ None # post"
  then obtain n post where "as = replicate n (Some Would_block) @ None # post"
    by blast
  then show "finish_loop as = Some (Ok x)"
    by (induction n arbitrary: as) auto
qed

theorem tcp_bind_iff:
  assumes "58 \<notin> set host" and "n < 2 ^ 16" and "resolve h host = Inr as"
  shows "tcp_bind h (Named (host @ 58 # dec n)) = Some (Ok sa) \<longleftrightarrow>
    (\<exists>pre a post. as = pre @ Inr (Some (Ipv4 a)) # post \<and> list_all passed_over pre \<and> sa = Ipv4_socket a (of_nat n)) \<and>
    create h (ip_family sa) = None \<and> start_bind h sa = None \<and> finish_loop (finish_bind h) = Some (Ok ()) \<and>
    start_listen h = None \<and> finish_loop (finish_listen h) = Some (Ok ())"
  unfolding tcp_bind_def next_call_Ok host_call_Ok named_address [OF assms(1,2)] assms(3) by (auto simp: resolve_loop_Ok)

text \<open>When nothing is left of a connection both its directions were shut down, and while its reading half lives
  nobody shuts that direction down.\<close>

definition receive_shut :: "shutdown_type list \<Rightarrow> bool" where
  "receive_shut ss \<longleftrightarrow> Shut_receive \<in> set ss \<or> Shut_both \<in> set ss"

definition send_shut :: "shutdown_type list \<Rightarrow> bool" where
  "send_shut ss \<longleftrightarrow> Shut_send \<in> set ss \<or> Shut_both \<in> set ss"

definition tcp_connection_ok :: "tcp_connection \<Rightarrow> bool" where
  "tcp_connection_ok c \<longleftrightarrow>
     (case ends c of
        Whole \<Rightarrow> \<not> receive_shut (shutdowns c)
      | Halves r w \<Rightarrow> (r \<longleftrightarrow> \<not> receive_shut (shutdowns c)) \<and> (\<not> w \<longrightarrow> send_shut (shutdowns c)))"

interpretation connection: invariant_system "\<lambda>c. c = tcp_connection_new" "\<lambda>c d. \<exists>op. tcp_connection_do op c = Some d" tcp_connection_ok
proof
  show "tcp_connection_ok c" if "c = tcp_connection_new" for c
    by (simp add: that tcp_connection_new_def tcp_connection_ok_def receive_shut_def)
next
  fix c d
  assume "\<exists>op. tcp_connection_do op c = Some d" and ok: "tcp_connection_ok c"
  then obtain op where "tcp_connection_do op c = Some d"
    by blast
  with ok show "tcp_connection_ok d"
    by (cases op) (auto simp: tcp_connection_ok_def receive_shut_def send_shut_def split: tcp_ends.splits bool.splits)
qed

lemma connection_shut_down:
  assumes "reach (\<lambda>c. c = tcp_connection_new) (\<lambda>c d. \<exists>op. tcp_connection_do op c = Some d) c"
  shows "ends c = Halves False False \<Longrightarrow> receive_shut (shutdowns c) \<and> send_shut (shutdowns c)"
    and "ends c = Whole \<or> (\<exists>w. ends c = Halves True w) \<Longrightarrow> \<not> receive_shut (shutdowns c)"
  using connection.reach_inv [OF assms] by (auto simp: tcp_connection_ok_def)

text \<open>The times at which the ticks of an interval completed.\<close>

fun interval_run :: "bool \<Rightarrow> u64 list \<Rightarrow> interval \<Rightarrow> (unit, interval) outcome option" where
  "interval_run oc [] iv = Some (Ok iv)"
| "interval_run oc (now # nows) iv =
     (case interval_tick oc now iv of
        Some (Ok iv) \<Rightarrow> interval_run oc nows iv
      | r \<Rightarrow> r)"

lemma instant_add_small:
  assumes "unat i + p < 2 ^ 64"
  shows "\<exists>j. instant_add oc i p = Ok j \<and> unat j = unat i + p"
proof -
  have p: "unat (of_nat p :: u64) = p"
    using assms by (simp add: unat_of_nat_small)
  then have "unat (i + of_nat p) = unat i + p"
    using assms by (simp add: unat_add_lem')
  then show ?thesis
    using assms p by (simp add: instant_add_def add_w_def)
qed

lemma interval_tick_exact:
  assumes "unat (current iv) + period iv < 2 ^ 64" and "interval_tick oc now iv = Some r"
  shows "\<exists>iv'. r = Ok iv' \<and> period iv' = period iv \<and> unat (current iv') = unat (current iv) + period iv \<and> unat (current iv) \<le> unat now"
  using instant_add_small [OF assms(1), of oc] assms(2) by (auto simp: interval_tick_def word_le_nat_alt split: if_splits)

lemma interval_exact:
  "unat (current iv) + length nows * period iv < 2 ^ 64 \<Longrightarrow> interval_run oc nows iv = Some r \<Longrightarrow>
    (\<exists>iv'. r = Ok iv' \<and> period iv' = period iv \<and> unat (current iv') = unat (current iv) + length nows * period iv) \<and>
    (\<forall>i < length nows. unat (current iv) + i * period iv \<le> unat (nows ! i))"
proof (induction nows arbitrary: iv)
  case (Cons now nows)
  then obtain q where q: "interval_tick oc now iv = Some q"
    by (cases "interval_tick oc now iv") auto
  moreover have "unat (current iv) + period iv < 2 ^ 64"
    using Cons.prems(1) by simp
  ultimately obtain iv' where iv': "q = Ok iv'" "period iv' = period iv" "unat (current iv') = unat (current iv) + period iv"
    "unat (current iv) \<le> unat now"
    using interval_tick_exact by blast
  have "unat (current iv') + length nows * period iv' < 2 ^ 64" "interval_run oc nows iv' = Some r"
    using Cons.prems q iv' by simp_all
  note IH = Cons.IH [OF this]
  have "unat (current iv) + i * period iv \<le> unat ((now # nows) ! i)" if "i < length (now # nows)" for i
    using that iv' IH by (cases i) (auto simp: algebra_simps)
  moreover have "\<exists>iv'. r = Ok iv' \<and> period iv' = period iv \<and> unat (current iv') = unat (current iv) + length (now # nows) * period iv"
    using IH iv' by (auto simp: algebra_simps)
  ultimately show ?case
    by blast
qed auto

text \<open>A period of a multiple of \<open>2 ^ 64\<close> nanoseconds passes the assertion, and the interval stands still.\<close>

lemma interval_stands_still:
  assumes "0 < k" and "interval_at start (k * 2 ^ 64) = Ok iv" and "start \<le> now"
  shows "interval_tick oc now iv = Some (Ok iv)"
proof -
  have "(of_nat (k * 2 ^ 64) :: u64) = 0"
    unfolding word_of_nat_eq_0_iff by simp
  moreover have start: "unat start < 18446744073709551616"
    by (rule order_less_le_trans [OF unsigned_less]) simp
  moreover have iv: "iv = \<lparr>current = start, period = k * 2 ^ 64\<rparr>"
    using assms(2) by (auto simp: interval_at_def split: if_splits)
  ultimately show ?thesis
    using assms(3) start by (simp add: interval_tick_def instant_add_def add_w_def)
qed

lemma timeout_poll_iff:
  "timeout_poll f expired d = Some (In_time x) \<longleftrightarrow> d = Some x \<and> (f \<longrightarrow> \<not> expired)"
  "timeout_poll f expired d = Some Elapsed \<longleftrightarrow> expired \<and> (d = None \<or> f)"
  "timeout_poll f expired d = None \<longleftrightarrow> \<not> expired \<and> d = None"
  by (auto simp: timeout_poll_def split: option.splits)

end
