(* ===== verification/WasiHeartbeat.thy ===== *)
theory WasiHeartbeat
  imports SpeedServer WasiNet
begin

text \<open>
  The heartbeat of the WASI speed daemon, \<open>wasi/problems/p06-speed-daemon/src/clients/heartbeat.rs\<close>, on the clocks
  of \<open>WasiNet\<close>. It implements the heartbeat of \<open>SpeedServer\<close>, whose times are numbers without a bound, as
  long as the clock of 64 bits does not end; \<open>WasiSpeed\<close> uses the latter. Times are nanoseconds.
\<close>

record wasi_heartbeat =
  beat_interval :: "interval option"
  beat_period :: "nat option"

definition wasi_heartbeat_new :: wasi_heartbeat where
  "wasi_heartbeat_new = \<lparr>beat_interval = None, beat_period = None\<rparr>"

definition wasi_set_period :: "bool \<Rightarrow> u64 \<Rightarrow> nat \<Rightarrow> wasi_heartbeat \<Rightarrow> (unit, wasi_heartbeat) outcome" where
  "wasi_set_period oc now p h =
     (if p = 0 then Ok (h\<lparr>beat_period := Some p, beat_interval := None\<rparr>)
      else bind_outcome (instant_add oc now p) (\<lambda>start.
        bind_outcome (interval_at start p) (\<lambda>iv.
          Ok (h\<lparr>beat_period := Some p, beat_interval := Some iv\<rparr>))))"

text \<open>A poll of \<open>tick\<close>; without an interval it is pending for ever.\<close>

definition wasi_beat_tick :: "bool \<Rightarrow> u64 \<Rightarrow> wasi_heartbeat \<Rightarrow> (unit, wasi_heartbeat) outcome option" where
  "wasi_beat_tick oc now h =
     (case beat_interval h of
        None \<Rightarrow> None
      | Some iv \<Rightarrow> map_option (\<lambda>r. bind_outcome r (\<lambda>iv. Ok (h\<lparr>beat_interval := Some iv\<rparr>))) (interval_tick oc now iv))"

definition wasi_is_setted :: "wasi_heartbeat \<Rightarrow> bool" where
  "wasi_is_setted h = (beat_period h \<noteq> None)"

section \<open>The refinement\<close>

definition beat_view :: "wasi_heartbeat \<Rightarrow> heartbeat" where
  "beat_view h =
     \<lparr>hb_interval = map_option (\<lambda>iv. (unat (current iv), period iv)) (beat_interval h), hb_period = beat_period h\<rparr>"

lemma beat_view_new: "beat_view wasi_heartbeat_new = heartbeat_new now None"
  by (simp add: beat_view_def wasi_heartbeat_new_def heartbeat_new_def)

lemma beat_view_setted: "is_setted (beat_view h) \<longleftrightarrow> wasi_is_setted h"
  by (simp add: beat_view_def is_setted_def wasi_is_setted_def)

lemma wasi_set_period_view:
  assumes "unat now + p < 2 ^ 64"
  shows "\<exists>h'. wasi_set_period oc now p h = Ok h' \<and> beat_view h' = set_period (unat now) p (beat_view h)"
proof (cases "p = 0")
  case False
  obtain j where "instant_add oc now p = Ok j" "unat j = unat now + p"
    using instant_add_small [OF assms] by blast
  with False show ?thesis
    by (simp add: wasi_set_period_def interval_at_def beat_view_def set_period_def)
qed (simp add: wasi_set_period_def beat_view_def set_period_def)

lemma wasi_beat_tick_view:
  assumes "\<And>iv. beat_interval h = Some iv \<Longrightarrow> unat (current iv) + period iv < 2 ^ 64"
  shows "(tick (unat now) (beat_view h) = None \<and> wasi_beat_tick oc now h = None) \<or>
    (\<exists>h'. wasi_beat_tick oc now h = Some (Ok h') \<and> tick (unat now) (beat_view h) = Some (beat_view h'))"
proof (cases "beat_interval h")
  case (Some iv)
  show ?thesis
  proof (cases "current iv \<le> now")
    case True
    obtain j where "instant_add oc (current iv) (period iv) = Ok j" "unat j = unat (current iv) + period iv"
      using instant_add_small [OF assms [OF Some]] by blast
    with Some True show ?thesis
      by (simp add: wasi_beat_tick_def interval_tick_def tick_def beat_view_def word_le_nat_alt)
  next
    case False
    with Some show ?thesis
      by (simp add: wasi_beat_tick_def interval_tick_def tick_def beat_view_def word_le_nat_alt)
  qed
qed (simp add: wasi_beat_tick_def tick_def beat_view_def)

end
