(* ===== verification/WasiReactor.thy ===== *)
theory WasiReactor
  imports Prelude "HOL-Library.Multiset"
begin

text \<open>
  The runtime of the WASI port, \<open>wasi/crates/wasi-async-runtime/src\<close>: the poller (\<open>poller.rs\<close>), the reactor
  with its tasks, wakers and joins (\<open>reactor.rs\<close>) and \<open>block_on\<close> (\<open>lib.rs\<close>). The futures are a parameter:
  polling one gives what is left of it, the calls that it made of the reactor, in order, and the new state
  of everything else, the world. The crate \<open>slab\<close> is the parameter \<open>vacant\<close>, the key that the next insert
  takes, and the host's \<open>poll\<close> is the parameter \<open>host_poll\<close>. The number of the next task is unbounded here:
  the code counts the spawned tasks in a \<open>usize\<close>, of 32 bits on this platform, so that what follows is about
  runs with fewer than \<open>2 ^ 32\<close> spawned tasks.
\<close>

section \<open>The poller\<close>

type_synonym 'p slab = "'p option list"

definition live :: "'p slab \<Rightarrow> nat set" where
  "live m = {k. k < length m \<and> m ! k \<noteq> None}"

definition vacant_ok :: "('p slab \<Rightarrow> nat) \<Rightarrow> bool" where
  "vacant_ok vacant \<longleftrightarrow> (\<forall>m. vacant m \<le> length m \<and> vacant m \<notin> live m)"

definition poller_insert :: "('p slab \<Rightarrow> nat) \<Rightarrow> 'p \<Rightarrow> 'p slab \<Rightarrow> nat \<times> 'p slab" where
  "poller_insert vacant p m =
     (let k = vacant m in (k, if k < length m then m[k := Some p] else m @ [Some p]))"

definition poller_get :: "nat \<Rightarrow> 'p slab \<Rightarrow> 'p option" where
  "poller_get k m = (if k < length m then m ! k else None)"

definition poller_remove :: "nat \<Rightarrow> 'p slab \<Rightarrow> 'p slab" where
  "poller_remove k m = m[k := None]"

text \<open>\<open>Poller::block_until\<close>: the keys of the targets that the host says are ready. An index that is out of
  range would panic.\<close>

definition poller_indexes :: "'p slab \<Rightarrow> nat list" where
  "poller_indexes m = filter (\<lambda>k. m ! k \<noteq> None) [0 ..< length m]"

definition poller_block_until :: "('w \<Rightarrow> 'p list \<Rightarrow> nat list \<times> 'w) \<Rightarrow> 'w \<Rightarrow> 'p slab \<Rightarrow> (unit, nat list \<times> 'w) outcome" where
  "poller_block_until host_poll w m =
     (let indexes = poller_indexes m; targets = map (\<lambda>k. the (m ! k)) indexes;
          (ready, w) = if targets = [] then ([], w) else host_poll w targets
      in if list_all (\<lambda>i. i < length indexes) ready then Ok (map (\<lambda>i. indexes ! i) ready, w) else Panic)"

section \<open>The reactor\<close>

text \<open>A waker sets the flag of the main future or of a task.\<close>

datatype waker = Main_waker | Task_waker nat

record ('f, 'p) reactor =
  next_id :: nat
  main_ready :: bool
  flags :: "nat \<Rightarrow> bool"
  targets :: "'p slab"
  wakers :: "nat \<rightharpoonup> waker"
  tasks :: "(nat \<times> 'f) list"
  complete :: "nat \<rightharpoonup> waker option"

definition reactor_new :: "('f, 'p) reactor" where
  "reactor_new = \<lparr>next_id = 0, main_ready = True, flags = (\<lambda>_. False), targets = [], wakers = Map.empty, tasks = [],
     complete = Map.empty\<rparr>"

fun wake :: "waker \<Rightarrow> ('f, 'p) reactor \<Rightarrow> ('f, 'p) reactor" where
  "wake Main_waker r = r\<lparr>main_ready := True\<rparr>"
| "wake (Task_waker i) r = r\<lparr>flags := (flags r)(i := True)\<rparr>"

text \<open>\<open>wait_for\<close> is a future with a pollable that it has not registered yet, or the key of one that it has.\<close>

datatype 'p wait = Fresh 'p | Registered nat

fun wait_register :: "('p slab \<Rightarrow> nat) \<Rightarrow> 'p wait \<Rightarrow> ('f, 'p) reactor \<Rightarrow> nat \<times> ('f, 'p) reactor" where
  "wait_register vacant (Fresh p) r = (case poller_insert vacant p (targets r) of (k, m) \<Rightarrow> (k, r\<lparr>targets := m\<rparr>))"
| "wait_register vacant (Registered k) r = (k, r)"

definition wait_poll :: "('p slab \<Rightarrow> nat) \<Rightarrow> ('p \<Rightarrow> bool) \<Rightarrow> waker \<Rightarrow> 'p wait \<Rightarrow> ('f, 'p) reactor \<Rightarrow>
    (unit, 'p wait option \<times> ('f, 'p) reactor) outcome" where
  "wait_poll vacant is_ready wk wt r =
     (case wait_register vacant wt r of
        (key, r) \<Rightarrow>
          (let r = r\<lparr>wakers := (wakers r)(key \<mapsto> wk)\<rparr>
           in case poller_get key (targets r) of
                None \<Rightarrow> Panic
              | Some p \<Rightarrow>
                  if is_ready p
                  then Ok (None, r\<lparr>targets := poller_remove key (targets r), wakers := (wakers r)(key := None)\<rparr>)
                  else Ok (Some (Registered key), r)))"

definition spawn :: "'f \<Rightarrow> ('f, 'p) reactor \<Rightarrow> nat \<times> ('f, 'p) reactor" where
  "spawn f r =
     (next_id r, r\<lparr>next_id := Suc (next_id r), flags := (flags r)(next_id r := True), tasks := tasks r @ [(next_id r, f)]\<rparr>)"

text \<open>One poll of a \<open>JoinHandle\<close>, ready or not.\<close>

definition join_poll :: "waker \<Rightarrow> nat \<Rightarrow> ('f, 'p) reactor \<Rightarrow> bool \<times> ('f, 'p) reactor" where
  "join_poll wk i r =
     (if complete r i \<noteq> None then (True, r) else (False, r\<lparr>complete := (complete r)(i \<mapsto> Some wk)\<rparr>))"

text \<open>The calls that a future makes when it is polled with a waker.\<close>

datatype ('f, 'p) call = Wait_call "'p wait" "'p \<Rightarrow> bool" | Spawn_call 'f | Join_call nat | Wake_call waker

fun call_do :: "('p slab \<Rightarrow> nat) \<Rightarrow> waker \<Rightarrow> ('f, 'p) call \<Rightarrow> ('f, 'p) reactor \<Rightarrow> (unit, ('f, 'p) reactor) outcome" where
  "call_do vacant wk (Wait_call wt is_ready) r = bind_outcome (wait_poll vacant is_ready wk wt r) (\<lambda>(_, r). Ok r)"
| "call_do vacant wk (Spawn_call f) r = Ok (snd (spawn f r))"
| "call_do vacant wk (Join_call i) r = Ok (snd (join_poll wk i r))"
| "call_do vacant wk (Wake_call wk') r = Ok (wake wk' r)"

fun calls_do :: "('p slab \<Rightarrow> nat) \<Rightarrow> waker \<Rightarrow> ('f, 'p) call list \<Rightarrow> ('f, 'p) reactor \<Rightarrow> (unit, ('f, 'p) reactor) outcome" where
  "calls_do vacant wk [] r = Ok r"
| "calls_do vacant wk (c # cs) r = bind_outcome (call_do vacant wk c r) (calls_do vacant wk cs)"

type_synonym ('f, 'p, 'w) futures = "waker \<Rightarrow> 'f \<Rightarrow> ('f, 'p) reactor \<Rightarrow> 'w \<Rightarrow> 'f option \<times> ('f, 'p) call list \<times> 'w"

definition poll_future :: "('p slab \<Rightarrow> nat) \<Rightarrow> ('f, 'p, 'w) futures \<Rightarrow> waker \<Rightarrow> 'f \<Rightarrow> ('f, 'p) reactor \<Rightarrow> 'w \<Rightarrow>
    (unit, 'f option \<times> ('f, 'p) reactor \<times> 'w) outcome" where
  "poll_future vacant poll wk f r w =
     (case poll wk f r w of
        (left, calls, w) \<Rightarrow> bind_outcome (calls_do vacant wk calls r) (\<lambda>r. Ok (left, r, w)))"

text \<open>One pass of the inner loop of \<open>block_until\<close>: the tasks in the order in which they are popped, the
  pending ones and the identifiers of the completed ones so far.\<close>

fun poll_tasks :: "('p slab \<Rightarrow> nat) \<Rightarrow> ('f, 'p, 'w) futures \<Rightarrow> (nat \<times> 'f) list \<Rightarrow> (nat \<times> 'f) list \<Rightarrow> nat list \<Rightarrow>
    ('f, 'p) reactor \<Rightarrow> 'w \<Rightarrow> (unit, (nat \<times> 'f) list \<times> nat list \<times> ('f, 'p) reactor \<times> 'w) outcome" where
  "poll_tasks vacant poll [] pending ended r w = Ok (pending, ended, r, w)"
| "poll_tasks vacant poll ((i, f) # ts) pending ended r w =
     (if flags r i then
        bind_outcome (poll_future vacant poll (Task_waker i) f (r\<lparr>flags := (flags r)(i := False)\<rparr>) w) (\<lambda>(left, r, w).
          case left of
            Some f \<Rightarrow> poll_tasks vacant poll ts (pending @ [(i, f)]) ended r w
          | None \<Rightarrow> poll_tasks vacant poll ts pending (ended @ [i]) r w)
      else poll_tasks vacant poll ts (pending @ [(i, f)]) ended r w)"

text \<open>The passes go on until no pending task is ready. \<open>None\<close>: there were more than \<open>n\<close> of them.\<close>

fun poll_passes :: "nat \<Rightarrow> ('p slab \<Rightarrow> nat) \<Rightarrow> ('f, 'p, 'w) futures \<Rightarrow> (nat \<times> 'f) list \<Rightarrow> nat list \<Rightarrow>
    ('f, 'p) reactor \<Rightarrow> 'w \<Rightarrow> (unit, (nat \<times> 'f) list \<times> nat list \<times> ('f, 'p) reactor \<times> 'w) outcome option" where
  "poll_passes 0 vacant poll ts ended r w = None"
| "poll_passes (Suc n) vacant poll ts ended r w =
     (case poll_tasks vacant poll (rev ts) [] ended r w of
        Ok (pending, ended, r, w) \<Rightarrow>
          (if list_all (\<lambda>(i, f). \<not> flags r i) pending then Some (Ok (pending, ended, r, w))
           else poll_passes n vacant poll pending ended r w)
      | Err e \<Rightarrow> Some (Err e)
      | Panic \<Rightarrow> Some Panic)"

text \<open>A task that has completed wakes who joined it, or leaves word for who will.\<close>

definition task_ended :: "nat \<Rightarrow> ('f, 'p) reactor \<Rightarrow> ('f, 'p) reactor" where
  "task_ended i r =
     (case complete r i of
        Some (Some wk) \<Rightarrow> wake wk (r\<lparr>complete := (complete r)(i \<mapsto> None)\<rparr>)
      | Some None \<Rightarrow> r
      | None \<Rightarrow> r\<lparr>complete := (complete r)(i \<mapsto> None)\<rparr>)"

fun wake_keys :: "nat list \<Rightarrow> ('f, 'p) reactor \<Rightarrow> (unit, ('f, 'p) reactor) outcome" where
  "wake_keys [] r = Ok r"
| "wake_keys (k # ks) r = (case wakers r k of Some wk \<Rightarrow> wake_keys ks (wake wk r) | None \<Rightarrow> Panic)"

definition reactor_sleep :: "('w \<Rightarrow> 'p list \<Rightarrow> nat list \<times> 'w) \<Rightarrow> ('f, 'p) reactor \<Rightarrow> 'w \<Rightarrow> (unit, ('f, 'p) reactor \<times> 'w) outcome" where
  "reactor_sleep host_poll r w =
     (if main_ready r then Ok (r, w)
      else bind_outcome (poller_block_until host_poll w (targets r)) (\<lambda>(keys, w).
        bind_outcome (wake_keys keys r) (\<lambda>r. Ok (r, w))))"

definition block_until :: "nat \<Rightarrow> ('p slab \<Rightarrow> nat) \<Rightarrow> ('f, 'p, 'w) futures \<Rightarrow> ('w \<Rightarrow> 'p list \<Rightarrow> nat list \<times> 'w) \<Rightarrow>
    ('f, 'p) reactor \<Rightarrow> 'w \<Rightarrow> (unit, ('f, 'p) reactor \<times> 'w) outcome option" where
  "block_until n vacant poll host_poll r w =
     map_option (\<lambda>res. bind_outcome res (\<lambda>(pending, ended, r, w).
       reactor_sleep host_poll (fold task_ended ended (r\<lparr>tasks := tasks r @ pending\<rparr>)) w))
     (poll_passes n vacant poll (tasks r) [] (r\<lparr>tasks := []\<rparr>) w)"

text \<open>\<open>block_on\<close> for at most \<open>n\<close> polls of the main future, each followed by at most \<open>n\<close> passes over the tasks:
  the main future with the reactor and the world as they are then, or the end of the program.\<close>

fun block_on :: "nat \<Rightarrow> nat \<Rightarrow> ('p slab \<Rightarrow> nat) \<Rightarrow> ('f, 'p, 'w) futures \<Rightarrow> ('w \<Rightarrow> 'p list \<Rightarrow> nat list \<times> 'w) \<Rightarrow>
    'f \<Rightarrow> ('f, 'p) reactor \<Rightarrow> 'w \<Rightarrow> (unit, 'f option \<times> ('f, 'p) reactor \<times> 'w) outcome option" where
  "block_on 0 m vacant poll host_poll main r w = Some (Ok (Some main, r, w))"
| "block_on (Suc n) m vacant poll host_poll main r w =
     (case poll_future vacant poll Main_waker main (r\<lparr>main_ready := False\<rparr>) w of
        Ok (None, r, w) \<Rightarrow> Some (Ok (None, r, w))
      | Ok (Some main, r, w) \<Rightarrow>
          (case block_until m vacant poll host_poll r w of
             None \<Rightarrow> None
           | Some (Ok (r, w)) \<Rightarrow> block_on n m vacant poll host_poll main r w
           | Some (Err e) \<Rightarrow> Some (Err e)
           | Some Panic \<Rightarrow> Some Panic)
      | Err e \<Rightarrow> Some (Err e)
      | Panic \<Rightarrow> Some Panic)"

section \<open>Who owns a key\<close>

text \<open>\<open>waits\<close> gives the keys of the waits that are registered inside a future. A future polls no wait but its
  own, and a future that is spawned has none registered yet.\<close>

fun legal_call :: "('p slab \<Rightarrow> nat) \<Rightarrow> ('f \<Rightarrow> nat set) \<Rightarrow> ('f, 'p) call \<Rightarrow> ('f, 'p) reactor \<Rightarrow> nat set \<Rightarrow> nat set option" where
  "legal_call vacant waits (Wait_call (Fresh p) is_ready) r W =
     Some (if is_ready p then W else insert (vacant (targets r)) W)"
| "legal_call vacant waits (Wait_call (Registered k) is_ready) r W =
     (if k \<in> W then Some (if is_ready (the (poller_get k (targets r))) then W - {k} else W) else None)"
| "legal_call vacant waits (Spawn_call f) r W = (if waits f = {} then Some W else None)"
| "legal_call vacant waits (Join_call i) r W = Some W"
| "legal_call vacant waits (Wake_call wk) r W = Some W"

fun legal_calls :: "('p slab \<Rightarrow> nat) \<Rightarrow> ('f \<Rightarrow> nat set) \<Rightarrow> waker \<Rightarrow> ('f, 'p) call list \<Rightarrow> ('f, 'p) reactor \<Rightarrow> nat set \<Rightarrow> nat set option" where
  "legal_calls vacant waits wk [] r W = Some W"
| "legal_calls vacant waits wk (c # cs) r W =
     (case (legal_call vacant waits c r W, call_do vacant wk c r) of
        (Some W, Ok r) \<Rightarrow> legal_calls vacant waits wk cs r W
      | _ \<Rightarrow> None)"

definition futures_ok :: "('p slab \<Rightarrow> nat) \<Rightarrow> ('f \<Rightarrow> nat set) \<Rightarrow> ('f, 'p, 'w) futures \<Rightarrow> bool" where
  "futures_ok vacant waits poll \<longleftrightarrow>
     (\<forall>wk f r w left calls w'. poll wk f r w = (left, calls, w') \<longrightarrow> waits f \<subseteq> live (targets r) \<longrightarrow>
       (\<exists>W. legal_calls vacant waits wk calls r (waits f) = Some W \<and> (\<forall>f'. left = Some f' \<longrightarrow> waits f' \<subseteq> W)))"

definition host_ok :: "('w \<Rightarrow> 'p list \<Rightarrow> nat list \<times> 'w) \<Rightarrow> bool" where
  "host_ok host_poll \<longleftrightarrow> (\<forall>w ts. \<forall>i \<in> set (fst (host_poll w ts)). i < length ts)"

definition shares :: "nat \<Rightarrow> nat set list \<Rightarrow> nat" where
  "shares k Ss = sum_list (map (\<lambda>S. of_bool (k \<in> S)) Ss)"

definition owned :: "nat set list \<Rightarrow> ('f, 'p) reactor \<Rightarrow> bool" where
  "owned Ss r \<longleftrightarrow> (\<forall>k. shares k Ss \<le> 1) \<and> (\<forall>S \<in> set Ss. S \<subseteq> live (targets r)) \<and> dom (wakers r) = live (targets r)"

lemma shares_simps [simp]:
  "shares k [] = 0"
  "shares k (S # Ss) = of_bool (k \<in> S) + shares k Ss"
  "shares k (Ss @ Ts) = shares k Ss + shares k Ts"
  by (simp_all add: shares_def)

lemma shares_zero: "shares k Ss = 0 \<longleftrightarrow> (\<forall>S \<in> set Ss. k \<notin> S)"
  by (induction Ss) auto

lemma shares_mset: "mset Ss = mset Ts \<Longrightarrow> shares k Ss = shares k Ts"
  unfolding shares_def by (metis mset_map sum_mset_sum_list)

lemma shares_owned_mset: "mset Ss = mset Ts \<Longrightarrow> owned Ss r = owned Ts r"
  using shares_mset [of Ss Ts] mset_eq_setD [of Ss Ts] by (simp add: owned_def)

lemma shares_shrink: "owned (S # Ss) r \<Longrightarrow> S' \<subseteq> S \<Longrightarrow> owned (S' # Ss) r"
proof -
  assume o: "owned (S # Ss) r" and sub: "S' \<subseteq> S"
  have "shares k (S' # Ss) \<le> shares k (S # Ss)" for k
    using sub by auto
  with o sub show ?thesis
    unfolding owned_def by (metis dual_order.trans list.set_intros(1) set_ConsD list.set_intros(2))
qed

lemma live_insert:
  assumes "vacant_ok vacant" and "poller_insert vacant p m = (k, m')"
  shows "k \<notin> live m" "live m' = insert k (live m)" "poller_get k m' = Some p"
proof -
  have k: "k = vacant m" "vacant m \<le> length m" "vacant m \<notin> live m" "m' = (if k < length m then m[k := Some p] else m @ [Some p])"
    using assms by (auto simp: vacant_ok_def poller_insert_def Let_def)
  show "k \<notin> live m" "live m' = insert k (live m)" "poller_get k m' = Some p"
    using k by (auto simp: live_def poller_get_def nth_append nth_list_update split: if_splits)
qed

lemma live_remove: "live (poller_remove k m) = live m - {k}"
proof (rule set_eqI)
  fix x
  show "x \<in> live (poller_remove k m) \<longleftrightarrow> x \<in> live m - {k}"
    by (cases "x = k"; cases "k < length m") (auto simp: live_def poller_remove_def)
qed

lemma poller_get_live: "k \<in> live m \<longleftrightarrow> poller_get k m \<noteq> None"
  by (simp add: live_def poller_get_def)

text \<open>What the calls of a future leave of the rest: it may spawn tasks and join some.\<close>

definition grown :: "('f \<Rightarrow> nat set) \<Rightarrow> ('f, 'p) reactor \<Rightarrow> ('f, 'p) reactor \<Rightarrow> bool" where
  "grown waits r r' \<longleftrightarrow>
     (\<exists>new. tasks r' = tasks r @ new \<and> next_id r \<le> next_id r' \<and> map fst new = [next_id r ..< next_id r'] \<and> (\<forall>t \<in> set new. waits (snd t) = {})) \<and>
     (\<forall>i. complete r' i = Some None \<longleftrightarrow> complete r i = Some None)"

lemma grown_refl [simp]: "tasks r' = tasks r \<Longrightarrow> next_id r' = next_id r \<Longrightarrow> complete r' = complete r \<Longrightarrow> grown waits r r'"
  by (simp add: grown_def)

lemma grown_trans:
  assumes "grown waits r r'" and "grown waits r' r''"
  shows "grown waits r r''"
proof -
  obtain new new' where "tasks r' = tasks r @ new" "next_id r \<le> next_id r'" "map fst new = [next_id r ..< next_id r']"
    "\<forall>t \<in> set new. waits (snd t) = {}" "tasks r'' = tasks r' @ new'" "next_id r' \<le> next_id r''"
    "map fst new' = [next_id r' ..< next_id r'']" "\<forall>t \<in> set new'. waits (snd t) = {}"
    using assms by (auto simp: grown_def)
  then have "tasks r'' = tasks r @ (new @ new') \<and> next_id r \<le> next_id r'' \<and> map fst (new @ new') = [next_id r ..< next_id r''] \<and>
      (\<forall>t \<in> set (new @ new'). waits (snd t) = {})"
    using upt_add_eq_append [of "next_id r" "next_id r'" "next_id r'' - next_id r'"] by auto
  moreover have "\<forall>i. complete r'' i = Some None \<longleftrightarrow> complete r i = Some None"
    using assms by (auto simp: grown_def)
  ultimately show ?thesis
    unfolding grown_def by blast
qed

lemma wait_poll_owned:
  assumes "owned (W # Ss) r" and "vacant_ok vacant" and "legal_call vacant waits (Wait_call wt is_ready) r W = Some W'"
  shows "\<exists>left r'. wait_poll vacant is_ready wk wt r = Ok (left, r') \<and> owned (W' # Ss) r' \<and>
    tasks r' = tasks r \<and> next_id r' = next_id r \<and> complete r' = complete r"
proof (cases wt)
  case (Fresh p)
  obtain k m where ins: "poller_insert vacant p (targets r) = (k, m)"
    by (cases "poller_insert vacant p (targets r)")
  note key = live_insert [OF assms(2) ins]
  have k: "vacant (targets r) = k"
    using ins by (simp add: poller_insert_def Let_def)
  have fresh: "shares k (W # Ss) = 0"
    using assms(1) key(1) by (subst shares_zero) (auto simp: owned_def)
  show ?thesis
  proof (cases "is_ready p")
    case True
    then show ?thesis
      using assms(1,3) key by (auto simp: wait_poll_def Fresh ins Let_def owned_def live_remove)
  next
    case False
    have "shares k' (insert k W # Ss) \<le> 1" for k'
    proof (cases "k' = k")
      case True
      with fresh show ?thesis
        by (auto simp: of_bool_def split: if_splits)
    next
      case False
      with assms(1) show ?thesis
        by (simp add: owned_def)
    qed
    then have "\<forall>k'. shares k' (insert k W # Ss) \<le> 1"
      by blast
    moreover have "(\<forall>S \<in> set (insert k W # Ss). S \<subseteq> live m) \<and> dom ((wakers r)(k \<mapsto> wk)) = live m"
      using assms(1) key(2) by (auto simp: owned_def)
    ultimately have "owned (insert k W # Ss) (r\<lparr>targets := m, wakers := (wakers r)(k \<mapsto> wk)\<rparr>)"
      unfolding owned_def by simp
    then show ?thesis
      using assms(3) key(3) False by (auto simp: wait_poll_def Fresh ins Let_def k)
  qed
next
  case (Registered k)
  with assms(3) have k: "k \<in> W" "W' = (if is_ready (the (poller_get k (targets r))) then W - {k} else W)"
    by (auto split: if_splits)
  with assms(1) have live: "k \<in> live (targets r)"
    by (auto simp: owned_def)
  then obtain p where p: "poller_get k (targets r) = Some p"
    by (auto simp: poller_get_live)
  have others: "\<forall>S \<in> set Ss. k \<notin> S"
    using assms(1) k(1) shares_zero [of k Ss] by (auto simp: owned_def dest: spec [of _ k])
  show ?thesis
  proof (cases "is_ready p")
    case True
    have "owned ((W - {k}) # Ss) r"
      by (rule shares_shrink [OF assms(1)]) auto
    then show ?thesis
      using others live True p k(2) by (fastforce simp: wait_poll_def Registered Let_def owned_def live_remove)
  next
    case False
    then show ?thesis
      using assms(1) live p k(2) by (auto simp: wait_poll_def Registered Let_def owned_def)
  qed
qed

lemma call_owned:
  assumes "owned (W # Ss) r" and "vacant_ok vacant" and "legal_call vacant waits c r W = Some W'"
  shows "\<exists>r'. call_do vacant wk c r = Ok r' \<and> owned (W' # Ss) r' \<and> grown waits r r'"
proof (cases c)
  case (Wait_call wt is_ready)
  with wait_poll_owned [OF assms(1,2), of waits wt is_ready W' wk] assms(3) show ?thesis
    by fastforce
next
  case (Spawn_call f)
  with assms(3) have "waits f = {}" "W' = W"
    by (auto split: if_splits)
  then show ?thesis
    using assms(1) by (auto simp: Spawn_call spawn_def owned_def grown_def)
next
  case (Join_call i)
  then show ?thesis
    using assms(1,3) by (auto simp: join_poll_def owned_def grown_def)
next
  case (Wake_call wk')
  then show ?thesis
    using assms(1,3) by (cases wk') (auto simp: owned_def)
qed

lemma calls_owned:
  assumes "owned (W # Ss) r" and "vacant_ok vacant" and "legal_calls vacant waits wk cs r W = Some W'"
  shows "\<exists>r'. calls_do vacant wk cs r = Ok r' \<and> owned (W' # Ss) r' \<and> grown waits r r'"
  using assms
proof (induction cs arbitrary: r W)
  case (Cons c cs)
  from Cons(4) obtain V where V: "legal_call vacant waits c r W = Some V"
    by (auto split: option.splits)
  from call_owned [OF Cons(2) assms(2) V, of wk] obtain r1 where
    r1: "call_do vacant wk c r = Ok r1" "owned (V # Ss) r1" "grown waits r r1"
    by blast
  with Cons(4) V have "legal_calls vacant waits wk cs r1 V = Some W'"
    by simp
  from Cons(1) [OF r1(2) assms(2) this] r1 grown_trans [OF r1(3)] show ?case
    by auto
qed simp

definition left_waits :: "('f \<Rightarrow> nat set) \<Rightarrow> 'f option \<Rightarrow> nat set" where
  "left_waits waits left = (case left of Some f \<Rightarrow> waits f | None \<Rightarrow> {})"

lemma poll_future_owned:
  assumes "owned (waits f # Ss) r" and "vacant_ok vacant" and "futures_ok vacant waits poll"
  shows "\<exists>left r' w'. poll_future vacant poll wk f r w = Ok (left, r', w') \<and> owned (left_waits waits left # Ss) r' \<and> grown waits r r'"
proof -
  obtain left calls w' where poll: "poll wk f r w = (left, calls, w')"
    by (cases "poll wk f r w")
  have "waits f \<subseteq> live (targets r)"
    using assms(1) by (simp add: owned_def)
  with assms(3) poll obtain W where W: "legal_calls vacant waits wk calls r (waits f) = Some W" "\<forall>f'. left = Some f' \<longrightarrow> waits f' \<subseteq> W"
    unfolding futures_ok_def by blast
  from calls_owned [OF assms(1,2) W(1)] obtain r' where
    r': "calls_do vacant wk calls r = Ok r'" "owned (W # Ss) r'" "grown waits r r'"
    by blast
  have "owned (left_waits waits left # Ss) r'"
    by (rule shares_shrink [OF r'(2)]) (use W(2) in \<open>auto simp: left_waits_def split: option.splits\<close>)
  with r' poll show ?thesis
    by (simp add: poll_future_def)
qed

section \<open>No task is lost\<close>

text \<open>Every identifier that was given out is that of one task that is kept, or of one that has completed.\<close>

definition ids_ok :: "nat list \<Rightarrow> ('f, 'p) reactor \<Rightarrow> bool" where
  "ids_ok ids r \<longleftrightarrow> distinct ids \<and> set ids \<inter> {i. complete r i = Some None} = {} \<and>
     set ids \<union> {i. complete r i = Some None} = {..< next_id r}"

lemma ids_mset: "mset ids = mset ids' \<Longrightarrow> ids_ok ids r = ids_ok ids' r"
  using mset_eq_setD [of ids ids'] mset_eq_imp_distinct_iff [of ids ids'] by (simp add: ids_ok_def)

lemma ids_grown:
  assumes "ids_ok (xs @ map fst (tasks r) @ ys) r" and "grown waits r r'"
  shows "ids_ok (xs @ map fst (tasks r') @ ys) r'"
proof -
  obtain new where new: "tasks r' = tasks r @ new" "next_id r \<le> next_id r'" "map fst new = [next_id r ..< next_id r']"
    using assms(2) by (auto simp: grown_def)
  have same: "{i. complete r' i = Some None} = {i. complete r i = Some None}"
    using assms(2) by (auto simp: grown_def)
  let ?ids = "xs @ map fst (tasks r) @ ys"
  have set: "fst ` set new = {next_id r ..< next_id r'}"
    by (metis new(3) list.set_map set_upt)
  have below: "set ?ids \<subseteq> {..< next_id r}" "{i. complete r i = Some None} \<subseteq> {..< next_id r}"
    using assms(1) by (auto simp: ids_ok_def)
  have "mset (xs @ map fst (tasks r') @ ys) = mset (?ids @ map fst new)"
    by (simp add: new(1))
  moreover have "ids_ok (?ids @ map fst new) r'"
    unfolding ids_ok_def same
  proof (intro conjI)
    show "distinct (?ids @ map fst new)"
      using assms(1) below(1) new(3) by (auto simp: ids_ok_def)
    show "set (?ids @ map fst new) \<inter> {i. complete r i = Some None} = {}"
      using assms(1) below(2) set by (auto simp: ids_ok_def)
    have "set (?ids @ map fst new) \<union> {i. complete r i = Some None} = {..< next_id r} \<union> {next_id r ..< next_id r'}"
      using assms(1) set by (auto simp: ids_ok_def)
    then show "set (?ids @ map fst new) \<union> {i. complete r i = Some None} = {..< next_id r'}"
      using new(2) by auto
  qed
  ultimately show ?thesis
    using ids_mset by blast
qed

text \<open>What holds between two polls of tasks: \<open>M\<close> are the waits of the main future, \<open>ts\<close> the tasks in the hands of
  \<open>block_until\<close> and \<open>ended\<close> those that completed in it.\<close>

definition held :: "('f \<Rightarrow> nat set) \<Rightarrow> nat set \<Rightarrow> (nat \<times> 'f) list \<Rightarrow> nat list \<Rightarrow> ('f, 'p) reactor \<Rightarrow> bool" where
  "held waits M ts ended r \<longleftrightarrow>
     owned (M # map (\<lambda>t. waits (snd t)) ts) r \<and> (\<forall>t \<in> set (tasks r). waits (snd t) = {}) \<and>
     ids_ok (map fst ts @ map fst (tasks r) @ ended) r"

lemma held_mset: "mset ts = mset ts' \<Longrightarrow> held waits M ts ended r = held waits M ts' ended r"
proof -
  assume ts: "mset ts = mset ts'"
  then have "mset (M # map (\<lambda>t. waits (snd t)) ts) = mset (M # map (\<lambda>t. waits (snd t)) ts')"
    "mset (map fst ts @ map fst (tasks r) @ ended) = mset (map fst ts' @ map fst (tasks r) @ ended)"
    by simp_all
  from shares_owned_mset [OF this(1), of r] ids_mset [OF this(2), of r] show ?thesis
    by (simp add: held_def)
qed

lemma held_poll:
  assumes "held waits M ((i, f) # ts) ended r" and "vacant_ok vacant" and "futures_ok vacant waits poll"
  shows "\<exists>left r' w'. poll_future vacant poll wk f (r\<lparr>flags := fs\<rparr>) w = Ok (left, r', w') \<and>
    held waits M (case left of Some f' \<Rightarrow> (i, f') # ts | None \<Rightarrow> ts) (case left of Some _ \<Rightarrow> ended | None \<Rightarrow> ended @ [i]) r'"
proof -
  let ?r = "r\<lparr>flags := fs\<rparr>" and ?Ss = "map (\<lambda>t. waits (snd t)) ts"
  have "owned (M # waits f # ?Ss) r"
    using assms(1) by (simp add: held_def)
  then have "owned (waits f # M # ?Ss) ?r"
    using shares_owned_mset [of "M # waits f # ?Ss" "waits f # M # ?Ss" r] by (simp add: owned_def)
  from poll_future_owned [OF this assms(2,3)] obtain left r' w' where
    poll: "poll_future vacant poll wk f ?r w = Ok (left, r', w')" "owned (left_waits waits left # M # ?Ss) r'" "grown waits ?r r'"
    by blast
  have fresh: "\<forall>t \<in> set (tasks r'). waits (snd t) = {}"
  proof -
    obtain new where "tasks r' = tasks r @ new" "\<forall>t \<in> set new. waits (snd t) = {}"
      using poll(3) by (auto simp: grown_def)
    with assms(1) show ?thesis
      by (simp add: held_def ball_Un)
  qed
  have "ids_ok (map fst ((i, f) # ts) @ map fst (tasks ?r) @ ended) ?r"
    using assms(1) by (simp add: held_def ids_ok_def)
  from ids_grown [OF this poll(3)] have ids: "ids_ok (i # map fst ts @ map fst (tasks r') @ ended) r'"
    by simp
  show ?thesis
  proof (cases left)
    case None
    have "owned (M # ?Ss) r'"
      using poll(2) None by (auto simp: owned_def left_waits_def)
    moreover have "ids_ok (map fst ts @ map fst (tasks r') @ ended @ [i]) r'"
      using ids ids_mset [of "i # map fst ts @ map fst (tasks r') @ ended" "map fst ts @ map fst (tasks r') @ ended @ [i]" r'] by simp
    ultimately show ?thesis
      using poll(1) fresh None by (auto simp: held_def)
  next
    case (Some f')
    have "owned (M # waits f' # ?Ss) r'"
      using poll(2) Some shares_owned_mset [of "waits f' # M # ?Ss" "M # waits f' # ?Ss" r'] by (simp add: left_waits_def)
    then show ?thesis
      using poll(1) fresh ids Some by (auto simp: held_def)
  qed
qed

lemma held_poll_tasks:
  assumes "held waits M (ts @ pending) ended r" and "vacant_ok vacant" and "futures_ok vacant waits poll"
  shows "\<exists>pending' ended' r' w'. poll_tasks vacant poll ts pending ended r w = Ok (pending', ended', r', w') \<and>
    held waits M pending' ended' r'"
  using assms(1)
proof (induction ts arbitrary: pending ended r w)
  case (Cons t ts)
  obtain i f where t: "t = (i, f)"
    by (cases t)
  show ?case
  proof (cases "flags r i")
    case False
    have "held waits M (ts @ pending @ [(i, f)]) ended r"
      using Cons(2) held_mset [of "t # ts @ pending" "ts @ pending @ [(i, f)]" waits M ended r] by (simp add: t)
    from Cons(1) [OF this] False show ?thesis
      by (simp add: t)
  next
    case True
    from Cons(2) have "held waits M ((i, f) # ts @ pending) ended r"
      by (simp add: t)
    from held_poll [OF this assms(2,3), of "Task_waker i" "(flags r)(i := False)" w] obtain left r' w' where
      poll: "poll_future vacant poll (Task_waker i) f (r\<lparr>flags := (flags r)(i := False)\<rparr>) w = Ok (left, r', w')"
      "held waits M (case left of Some f' \<Rightarrow> (i, f') # ts @ pending | None \<Rightarrow> ts @ pending) (case left of Some _ \<Rightarrow> ended | None \<Rightarrow> ended @ [i]) r'"
      by blast
    show ?thesis
    proof (cases left)
      case None
      with poll Cons(1) [of pending "ended @ [i]" r' w'] True show ?thesis
        by (simp add: t)
    next
      case (Some f')
      with poll(2) held_mset [of "(i, f') # ts @ pending" "ts @ pending @ [(i, f')]" waits M ended r']
      have "held waits M (ts @ pending @ [(i, f')]) ended r'"
        by simp
      from Cons(1) [OF this, of w'] poll(1) Some True show ?thesis
        by (simp add: t)
    qed
  qed
qed simp

lemma held_poll_passes:
  assumes "held waits M ts ended r" and "vacant_ok vacant" and "futures_ok vacant waits poll"
    and "poll_passes n vacant poll ts ended r w = Some res"
  shows "\<exists>pending' ended' r' w'. res = Ok (pending', ended', r', w') \<and> held waits M pending' ended' r' \<and>
    list_all (\<lambda>(i, f). \<not> flags r' i) pending'"
  using assms(1,4)
proof (induction n arbitrary: ts ended r w)
  case (Suc n)
  have "held waits M (rev ts @ []) ended r"
    using Suc(2) held_mset [of ts "rev ts" waits M ended r] by simp
  from held_poll_tasks [OF this assms(2,3), of w] obtain pending' ended' r' w' where
    pass: "poll_tasks vacant poll (rev ts) [] ended r w = Ok (pending', ended', r', w')" "held waits M pending' ended' r'"
    by auto
  show ?case
  proof (cases "list_all (\<lambda>(i, f). \<not> flags r' i) pending'")
    case True
    with Suc(3) pass(1) have "res = Ok (pending', ended', r', w')"
      by simp
    with pass(2) True show ?thesis
      by blast
  next
    case False
    with pass Suc(3) Suc(1) [OF pass(2)] show ?thesis
      by simp
  qed
qed simp

text \<open>The end of \<open>block_until\<close>.\<close>

definition settled :: "('f \<Rightarrow> nat set) \<Rightarrow> nat set \<Rightarrow> ('f, 'p) reactor \<Rightarrow> bool" where
  "settled waits M r \<longleftrightarrow> owned (M # map (\<lambda>t. waits (snd t)) (tasks r)) r \<and> ids_ok (map fst (tasks r)) r"

lemma wake_same [simp]: "tasks (wake wk r) = tasks r" "targets (wake wk r) = targets r" "wakers (wake wk r) = wakers r"
  "complete (wake wk r) = complete r" "next_id (wake wk r) = next_id r"
  by (cases wk; simp)+

lemma task_ended_same [simp]: "tasks (task_ended i r) = tasks r" "targets (task_ended i r) = targets r" "wakers (task_ended i r) = wakers r"
  "next_id (task_ended i r) = next_id r" "complete (task_ended i r) = (complete r)(i \<mapsto> None)"
  by (auto simp: task_ended_def split: option.splits)

lemma ended_same: "tasks (fold task_ended is r) = tasks r" "targets (fold task_ended is r) = targets r" "wakers (fold task_ended is r) = wakers r"
  by (induction "is" arbitrary: r) simp_all

lemma ids_ended: "ids_ok (xs @ ended) r \<Longrightarrow> ids_ok xs (fold task_ended ended r)"
proof (induction ended arbitrary: r)
  case (Cons i ended)
  have "ids_ok (xs @ ended) (task_ended i r)"
    using Cons(2) by (auto simp: ids_ok_def)
  with Cons(1) show ?case
    by simp
qed simp

lemma wake_keys_live:
  "set ks \<subseteq> dom (wakers r) \<Longrightarrow> \<exists>r'. wake_keys ks r = Ok r' \<and> tasks r' = tasks r \<and> targets r' = targets r \<and> wakers r' = wakers r \<and>
    complete r' = complete r \<and> next_id r' = next_id r"
proof (induction ks arbitrary: r)
  case (Cons k ks)
  then obtain wk where "wakers r k = Some wk"
    by auto
  with Cons(1) [of "wake wk r"] Cons(2) show ?case
    by auto
qed simp

lemma settled_same:
  "settled waits M r \<Longrightarrow> tasks r' = tasks r \<Longrightarrow> targets r' = targets r \<Longrightarrow> wakers r' = wakers r \<Longrightarrow> complete r' = complete r \<Longrightarrow>
    next_id r' = next_id r \<Longrightarrow> settled waits M r'"
  by (simp add: settled_def owned_def ids_ok_def)

lemma poller_indexes_live: "set (poller_indexes m) = live m"
  by (auto simp: poller_indexes_def live_def)

lemma sleep_settled:
  assumes "settled waits M r" and "host_ok host_poll"
  shows "\<exists>r' w'. reactor_sleep host_poll r w = Ok (r', w') \<and> settled waits M r'"
proof (cases "main_ready r")
  case True
  with assms(1) show ?thesis
    by (simp add: reactor_sleep_def)
next
  case False
  let ?ix = "poller_indexes (targets r)" and ?ts = "map (\<lambda>k. the (targets r ! k)) (poller_indexes (targets r))"
  obtain ready w' where poll: "(if ?ts = [] then ([], w) else host_poll w ?ts) = (ready, w')"
    by (cases "if ?ts = [] then ([], w) else host_poll w ?ts")
  have "i < length ?ts" if i: "i \<in> set ready" for i
  proof (cases "?ts = []")
    case True
    with poll i show ?thesis
      by simp
  next
    case False
    with poll have "ready = fst (host_poll w ?ts)"
      by simp
    with assms(2) i show ?thesis
      unfolding host_ok_def by blast
  qed
  then have "list_all (\<lambda>i. i < length ?ix) ready"
    by (simp add: list_all_iff)
  with poll have keys: "poller_block_until host_poll w (targets r) = Ok (map (\<lambda>i. ?ix ! i) ready, w')"
    by (simp add: poller_block_until_def Let_def)
  have "set (map (\<lambda>i. ?ix ! i) ready) \<subseteq> set ?ix"
    using \<open>list_all _ ready\<close> by (auto simp: list_all_iff)
  then have "set (map (\<lambda>i. ?ix ! i) ready) \<subseteq> dom (wakers r)"
    using assms(1) by (simp add: poller_indexes_live settled_def owned_def)
  from wake_keys_live [OF this] obtain r' where r': "wake_keys (map (\<lambda>i. ?ix ! i) ready) r = Ok r'" "tasks r' = tasks r"
    "targets r' = targets r" "wakers r' = wakers r" "complete r' = complete r" "next_id r' = next_id r"
    by blast
  with settled_same [OF assms(1) r'(2-)] keys False show ?thesis
    by (simp add: reactor_sleep_def)
qed

lemma shares_more:
  "\<forall>t \<in> set new. waits (snd t) = {} \<Longrightarrow> owned (M # map (\<lambda>t. waits (snd t)) ts) r \<Longrightarrow> owned (M # map (\<lambda>t. waits (snd t)) (new @ ts)) r"
proof (induction new)
  case (Cons t new)
  then have IH: "owned (M # map (\<lambda>t. waits (snd t)) (new @ ts)) r" and t: "waits (snd t) = {}"
    by simp_all
  then have "owned ({} # M # map (\<lambda>t. waits (snd t)) (new @ ts)) r"
    by (simp add: owned_def)
  then show ?case
    using shares_owned_mset [of "{} # M # map (\<lambda>t. waits (snd t)) (new @ ts)" "M # map (\<lambda>t. waits (snd t)) ((t # new) @ ts)" r] t
    by simp
qed simp

lemma block_until_settled:
  assumes "settled waits M r" and "vacant_ok vacant" and "futures_ok vacant waits poll" and "host_ok host_poll"
    and "block_until n vacant poll host_poll r w = Some res"
  shows "\<exists>r' w'. res = Ok (r', w') \<and> settled waits M r'"
proof -
  have "held waits M (tasks r) [] (r\<lparr>tasks := []\<rparr>)"
    using assms(1) by (simp add: settled_def held_def owned_def ids_ok_def)
  moreover obtain pres where pres: "poll_passes n vacant poll (tasks r) [] (r\<lparr>tasks := []\<rparr>) w = Some pres"
    using assms(5) by (auto simp: block_until_def)
  ultimately obtain pending ended r' w' where passes: "pres = Ok (pending, ended, r', w')" "held waits M pending ended r'"
    using held_poll_passes [OF _ assms(2,3)] by blast
  let ?r = "fold task_ended ended (r'\<lparr>tasks := tasks r' @ pending\<rparr>)"
  have "owned (M # map (\<lambda>t. waits (snd t)) (tasks r' @ pending)) r'"
    using passes(2) shares_more [of "tasks r'" waits M pending r'] by (simp add: held_def)
  moreover have "ids_ok (map fst (tasks r' @ pending)) ?r"
  proof (rule ids_ended)
    have "mset (map fst (tasks r' @ pending) @ ended) = mset (map fst pending @ map fst (tasks r') @ ended)"
      by simp
    moreover have "ids_ok (map fst pending @ map fst (tasks r') @ ended) r'"
      using passes(2) by (simp add: held_def)
    ultimately have "ids_ok (map fst (tasks r' @ pending) @ ended) r'"
      using ids_mset by blast
    then show "ids_ok (map fst (tasks r' @ pending) @ ended) (r'\<lparr>tasks := tasks r' @ pending\<rparr>)"
      by (simp add: ids_ok_def)
  qed
  ultimately have "settled waits M ?r"
    by (simp add: settled_def ended_same owned_def)
  from sleep_settled [OF this assms(4), of w'] assms(5) pres passes(1) show ?thesis
    by (auto simp: block_until_def)
qed

lemma block_on_settled:
  assumes "vacant_ok vacant" and "futures_ok vacant waits poll" and "host_ok host_poll"
  shows "settled waits (waits main) r \<Longrightarrow> block_on n m vacant poll host_poll main r w = Some res \<Longrightarrow>
    \<exists>left r' w' M. res = Ok (left, r', w') \<and> settled waits M r'"
proof (induction n arbitrary: main r w)
  case (Suc n)
  have "owned (waits main # map (\<lambda>t. waits (snd t)) (tasks r)) (r\<lparr>main_ready := False\<rparr>)"
    using Suc(2) by (simp add: settled_def owned_def)
  from poll_future_owned [OF this assms(1,2), of Main_waker w] obtain left r1 w1 where
    poll: "poll_future vacant poll Main_waker main (r\<lparr>main_ready := False\<rparr>) w = Ok (left, r1, w1)"
    "owned (left_waits waits left # map (\<lambda>t. waits (snd t)) (tasks r)) r1" "grown waits (r\<lparr>main_ready := False\<rparr>) r1"
    by blast
  have "settled waits (left_waits waits left) r1"
  proof -
    obtain new where new: "tasks r1 = tasks r @ new" "\<forall>t \<in> set new. waits (snd t) = {}"
      using poll(3) by (auto simp: grown_def)
    have "owned (left_waits waits left # map (\<lambda>t. waits (snd t)) (new @ tasks r)) r1"
      using poll(2) shares_more [OF new(2)] by blast
    then have "owned (left_waits waits left # map (\<lambda>t. waits (snd t)) (tasks r1)) r1"
      using shares_owned_mset [of "left_waits waits left # map (\<lambda>t. waits (snd t)) (new @ tasks r)" "left_waits waits left # map (\<lambda>t. waits (snd t)) (tasks r1)" r1]
      by (simp add: new(1))
    moreover have "ids_ok ([] @ map fst (tasks (r\<lparr>main_ready := False\<rparr>)) @ []) (r\<lparr>main_ready := False\<rparr>)"
      using Suc(2) by (simp add: settled_def ids_ok_def)
    from ids_grown [OF this poll(3)] have "ids_ok (map fst (tasks r1)) r1"
      by simp
    ultimately show ?thesis
      by (simp add: settled_def)
  qed
  note after = this
  show ?case
  proof (cases left)
    case None
    with Suc(3) poll(1) after show ?thesis
      by auto
  next
    case (Some main')
    with after have "settled waits (waits main') r1"
      by (simp add: left_waits_def)
    note block = block_until_settled [OF this assms(1-3)]
    show ?thesis
    proof (cases "block_until m vacant poll host_poll r1 w1")
      case None
      with Suc(3) poll(1) Some show ?thesis
        by simp
    next
      case (Some bres)
      from block [OF this] obtain r2 w2 where "bres = Ok (r2, w2)" "settled waits (waits main') r2"
        by blast
      with Suc(1) Suc(3) poll(1) Some \<open>left = Some main'\<close> show ?thesis
        by simp
    qed
  qed
qed auto

section \<open>Properties\<close>

text \<open>C38: As long as every future polls only its own waits, the runtime never panics, neither on a key that is not
  in the poller nor on one without waker; and every task that was spawned is kept, once, or has completed.\<close>

theorem reactor_safe:
  assumes "vacant_ok vacant" and "futures_ok vacant waits poll" and "host_ok host_poll" and "waits main = {}"
    and "block_on n m vacant poll host_poll main reactor_new w = Some res"
  shows "\<exists>left r w'. res = Ok (left, r, w') \<and>
    (\<forall>i < next_id r. (complete r i = Some None) \<noteq> (i \<in> fst ` set (tasks r))) \<and> distinct (map fst (tasks r))"
proof -
  have "settled waits (waits main) reactor_new"
    by (simp add: settled_def owned_def ids_ok_def reactor_new_def assms(4) live_def)
  then obtain left r w' M where r: "res = Ok (left, r, w')" "settled waits M r"
    using block_on_settled [OF assms(1-3) _ assms(5)] by blast
  then have "ids_ok (map fst (tasks r)) r"
    by (simp add: settled_def)
  then have ids: "set (map fst (tasks r)) \<inter> {i. complete r i = Some None} = {}"
    "set (map fst (tasks r)) \<union> {i. complete r i = Some None} = {..< next_id r}" "distinct (map fst (tasks r))"
    unfolding ids_ok_def by blast+
  have "(complete r i = Some None) \<noteq> (i \<in> fst ` set (tasks r))" if i: "i < next_id r" for i
  proof -
    have "i \<in> set (map fst (tasks r)) \<union> {i. complete r i = Some None}"
      unfolding ids(2) using i by simp
    moreover have "i \<notin> set (map fst (tasks r)) \<inter> {i. complete r i = Some None}"
      unfolding ids(1) by simp
    ultimately show ?thesis
      by auto
  qed
  then show ?thesis
    by (intro exI [of _ left] exI [of _ r] exI [of _ w'] conjI allI impI) (simp_all only: r(1) ids(3) list.set_map [symmetric] not_False_eq_True)
qed

text \<open>A main future that waits once and spawns a task that ends at once.\<close>

datatype demo_future = Start | Waiting nat | Child

definition demo_vacant :: "unit slab \<Rightarrow> nat" where
  "demo_vacant m = length (takeWhile (\<lambda>x. x \<noteq> None) m)"

fun demo_waits :: "demo_future \<Rightarrow> nat set" where
  "demo_waits (Waiting k) = {k}"
| "demo_waits _ = {}"

fun demo_poll :: "(demo_future, unit, unit) futures" where
  "demo_poll wk Start r w =
     (Some (Waiting (demo_vacant (targets r))), [Wait_call (Fresh ()) (\<lambda>_. False), Spawn_call Child], w)"
| "demo_poll wk (Waiting k) r w = (None, [Wait_call (Registered k) (\<lambda>_. True)], w)"
| "demo_poll wk Child r w = (None, [], w)"

definition demo_host :: "unit \<Rightarrow> unit list \<Rightarrow> nat list \<times> unit" where
  "demo_host w ts = (if ts = [] then [] else [0], w)"

lemma demo_vacant_ok: "vacant_ok demo_vacant"
  unfolding vacant_ok_def demo_vacant_def live_def by (auto simp: length_takeWhile_le dest: nth_length_takeWhile)

lemma demo_futures_ok: "futures_ok demo_vacant demo_waits demo_poll"
  unfolding futures_ok_def
proof (intro allI impI)
  fix wk f r and w :: unit and left calls w'
  assume poll: "demo_poll wk f r w = (left, calls, w')" and own: "demo_waits f \<subseteq> live (targets (r :: (demo_future, unit) reactor))"
  show "\<exists>W. legal_calls demo_vacant demo_waits wk calls r (demo_waits f) = Some W \<and> (\<forall>f'. left = Some f' \<longrightarrow> demo_waits f' \<subseteq> W)"
  proof (cases f)
    case Start
    obtain k m where ins: "poller_insert demo_vacant () (targets r) = (k, m)"
      by (cases "poller_insert demo_vacant () (targets r)")
    from live_insert(3) [OF demo_vacant_ok ins] poll ins show ?thesis
      by (auto simp: Start wait_poll_def Let_def)
  next
    case (Waiting k)
    with own have "poller_get k (targets r) \<noteq> None"
      by (simp add: poller_get_live)
    then show ?thesis
      using poll by (auto simp: Waiting wait_poll_def Let_def)
  qed (use poll in auto)
qed

theorem reactor_safe_witness:
  "\<exists>r. block_on 2 2 demo_vacant demo_poll demo_host Start reactor_new () = Some (Ok (None, r, ())) \<and> complete r 0 = Some None"
proof -
  have "\<exists>r. block_on 2 2 demo_vacant demo_poll demo_host Start reactor_new () = Some (Ok (None, r, ())) \<and> tasks r = [] \<and> next_id r = 1"
    by (simp add: numeral_2_eq_2 poll_future_def reactor_new_def wait_poll_def demo_vacant_def poller_insert_def poller_get_def
        spawn_def block_until_def task_ended_def reactor_sleep_def poller_block_until_def poller_indexes_def demo_host_def
        poller_remove_def Let_def)
  then obtain r where r: "block_on 2 2 demo_vacant demo_poll demo_host Start reactor_new () = Some (Ok (None, r, ()))"
    "tasks r = []" "next_id r = 1"
    by blast
  moreover have "host_ok demo_host"
    by (simp add: host_ok_def demo_host_def)
  ultimately have "\<exists>left r' w'. Ok (None, r, ()) = (Ok (left, r', w') :: (unit, demo_future option \<times> (demo_future, unit) reactor \<times> unit) outcome) \<and>
      (\<forall>i < next_id r'. (complete r' i = Some None) \<noteq> (i \<in> fst ` set (tasks r'))) \<and> distinct (map fst (tasks r'))"
    using reactor_safe [OF demo_vacant_ok demo_futures_ok, of demo_host Start 2 2 "()" "Ok (None, r, ())"] by simp
  with r show ?thesis
    by auto
qed

text \<open>A join handle that is polled a second time says that its task has ended, whether it has or not: its own
  waker is what it finds.\<close>

lemma join_twice: "complete r i = None \<Longrightarrow> join_poll wk i r = (False, r') \<Longrightarrow> fst (join_poll wk' i r')"
  by (auto simp: join_poll_def)

text \<open>A task that is spawned by another task is not polled before the runtime sleeps: here the first task spawns
  a second one, the host is asked to wait for a pollable, and the second one is ready all the time.\<close>

lemma spawned_task_waits:
  fixes poll :: "(bool, unit, nat) futures"
  assumes "poll = (\<lambda>wk f r w. (None, if f then [Spawn_call False] else [], w))"
    and "host_poll = (\<lambda>w ts. ([0], Suc w))"
    and "r = reactor_new\<lparr>main_ready := False, next_id := 1, flags := (\<lambda>i. i = 0), tasks := [(0, True)], targets := [Some ()], wakers := [0 \<mapsto> Main_waker]\<rparr>"
  shows "\<exists>r'. block_until 2 vacant poll host_poll r 0 = Some (Ok (r', 1)) \<and> tasks r' = [(1, False)] \<and> flags r' 1"
  by (simp add: assms numeral_2_eq_2 reactor_new_def block_until_def poll_future_def spawn_def task_ended_def reactor_sleep_def
      poller_block_until_def poller_indexes_def Let_def)

end
