(* ===== verification/PrimeTime.thy ===== *)
theory PrimeTime
  imports WasiTcp Text
begin

text \<open>
  The echo, \<open>rust/p00-smoke-test/src/lib.rs\<close> and \<open>wasi/problems/p00-smoke-test/src/lib.rs\<close>, and the
  primality server, \<open>rust/p01-prime-time/src/lib.rs\<close> and \<open>wasi/problems/p01-prime-time/src/lib.rs\<close>. The crates
  \<open>serde_json\<close> and \<open>primes\<close> are parameters: the parser of a request gives its method and its number,
  \<open>as_u64\<close> reads a number that is a \<open>u64\<close>, \<open>is_prime\<close> and the writer of a response are functions. What the
  protocol asks for is written down apart from the handlers, and both are proved to give it.
\<close>

section \<open>Echo\<close>

text \<open>The results of the reads into the buffer of 1024 bytes, with whether what was read could be written
  back; an empty read is the end of the input. \<open>None\<close>: the session waits for the next read.\<close>

datatype echo_read = Read_bytes "byte list" bool | Read_failed

fun echo :: "echo_read list \<Rightarrow> byte list \<times> (unit, unit) outcome option" where
  "echo [] = ([], None)"
| "echo (Read_failed # rs) = ([], Some (Err ()))"
| "echo (Read_bytes bs ok # rs) =
     (if bs = [] then ([], Some (Ok ()))
      else if ok then (case echo rs of (out, r) \<Rightarrow> (bs @ out, r))
      else ([], Some (Err ())))"

text \<open>The version for WASI moves the bytes inside the host: each \<open>splice\<close> gives how many, and a \<open>flush\<close>
  follows. A failure that says that the connection is closed is a good end.\<close>

record splice_answers =
  splice_checks :: "check_result list"
  splices :: "check_result list"
  flushed :: "stream_error option"
  flush_checks :: "check_result list"

fun wasi_echo :: "splice_answers list \<Rightarrow> (stream_error, unit) outcome option" where
  "wasi_echo [] = None"
| "wasi_echo (a # as) =
     (case half_splice 1024 (splice_checks a) (splices a) of
        None \<Rightarrow> None
      | Some (Ok n) \<Rightarrow>
          (if 0 < n then
             (case half_flush (flushed a) (flush_checks a) of
                None \<Rightarrow> None
              | Some (Ok _) \<Rightarrow> wasi_echo as
              | Some (Err e) \<Rightarrow> Some (if e = Closed then Ok () else Err e)
              | Some Panic \<Rightarrow> Some Panic)
           else Some (Ok ()))
      | Some (Err e) \<Rightarrow> Some (if e = Closed then Ok () else Err e)
      | Some Panic \<Rightarrow> Some Panic)"

section \<open>Primes\<close>

record 'n json =
  parse_request :: "byte list \<Rightarrow> (rstring \<times> 'n) option"
  as_u64 :: "'n \<Rightarrow> nat option"
  is_prime :: "nat \<Rightarrow> bool"
  response_bytes :: "bool \<Rightarrow> byte list"

definition METHOD :: rstring where
  "METHOD = ascii ''isPrime''"

definition MALFORMED :: rstring where
  "MALFORMED = ascii ''MALFORMED''"

definition check :: "'n json \<Rightarrow> byte list \<Rightarrow> (rstring, bool) outcome" where
  "check J bytes =
     (case parse_request J bytes of
        None \<Rightarrow> Err MALFORMED
      | Some (meth, number) \<Rightarrow>
          (if meth = METHOD then
             (case as_u64 J number of Some n \<Rightarrow> Ok (is_prime J n) | None \<Rightarrow> Ok False)
           else Err MALFORMED))"

text \<open>A session over the whole input: what it sends before it shuts down its half.\<close>

function prime_handler :: "'n json \<Rightarrow> byte list \<Rightarrow> byte list" where
  "prime_handler J input =
     (case read_until input of
        (line, rest) \<Rightarrow>
          (if line = [] then []
           else
             (case check J (if last line = 10 then butlast line else line) of
                Ok p \<Rightarrow> response_bytes J p @ [10] @ prime_handler J rest
              | Err e \<Rightarrow> e
              | Panic \<Rightarrow> [])))"
  by auto
termination
  by (relation "measure (\<lambda>(_, input). length input)") (auto dest: read_until_rest)

declare prime_handler.simps [simp del]

text \<open>The version for WASI: the body of its loop, with what was sent.\<close>

fun prime_step :: "'n json \<Rightarrow> byte list \<Rightarrow> byte list \<Rightarrow> byte list + (byte list \<times> (stream_error, unit) outcome)" where
  "prime_step J value out =
     (case check J value of
        Ok p \<Rightarrow> Inl (out @ response_bytes J p @ [10])
      | Err e \<Rightarrow> Inr (out @ e @ [10], Ok ())
      | Panic \<Rightarrow> Inr (out, Panic))"

definition wasi_prime_run :: "'n json \<Rightarrow> nat \<Rightarrow> read_result list \<Rightarrow> (byte list \<times> (stream_error, unit) outcome) option" where
  "wasi_prime_run J n rs =
     for_items id lines_decode n (prime_step J) (\<lambda>p out. (out, session_end id p)) rs (framed_read_new 0) []"

section \<open>What is asked for\<close>

text \<open>A request is well-formed if it can be parsed and has the method of the protocol. It asks for whether its
  number is a prime; a number that is no \<open>u64\<close> is none. \<open>eol\<close> is what a version sends after the word for a
  malformed request, which ends the session.\<close>

definition well_formed :: "'n json \<Rightarrow> byte list \<Rightarrow> bool" where
  "well_formed J l \<longleftrightarrow> (\<exists>number. parse_request J l = Some (METHOD, number))"

definition asks_for_prime :: "'n json \<Rightarrow> byte list \<Rightarrow> bool" where
  "asks_for_prime J l \<longleftrightarrow> (\<exists>number n. parse_request J l = Some (METHOD, number) \<and> as_u64 J number = Some n \<and> is_prime J n)"

fun prime_replies :: "'n json \<Rightarrow> byte list \<Rightarrow> byte list list \<Rightarrow> byte list" where
  "prime_replies J eol [] = []"
| "prime_replies J eol (l # ls) =
     (if well_formed J l then response_bytes J (asks_for_prime J l) @ [10] @ prime_replies J eol ls
      else MALFORMED @ eol)"

lemma check_spec: "check J l = (if well_formed J l then Ok (asks_for_prime J l) else Err MALFORMED)"
  by (auto simp: check_def well_formed_def asks_for_prime_def split: option.splits prod.splits)

lemma prime_handler_line:
  "10 \<notin> set l \<Longrightarrow> prime_handler J (l @ 10 # rest) =
    (if well_formed J l then response_bytes J (asks_for_prime J l) @ [10] @ prime_handler J rest else MALFORMED)"
  by (subst prime_handler.simps) (simp add: read_until_line check_spec)

lemma read_until_tail: "10 \<notin> set l \<Longrightarrow> read_until l = (l, [])"
  by (induction l) auto

lemma prime_handler_end: "prime_handler J [] = []"
  by (subst prime_handler.simps) simp

lemma prime_handler_tail:
  "10 \<notin> set l \<Longrightarrow> prime_handler J l = prime_replies J [] (if l = [] then [] else [l])"
  by (subst prime_handler.simps) (auto simp: read_until_tail check_spec prime_handler_end dest: last_in_set)

lemma prime_handler_lines:
  assumes "list_all (\<lambda>l. 10 \<notin> set l) ls" and "10 \<notin> set tail"
  shows "prime_handler J (lines_bytes ls tail) = prime_replies J [] (ls @ (if tail = [] then [] else [tail]))"
  using assms(1)
proof (induction ls)
  case Nil
  show ?case
    using prime_handler_tail [OF assms(2), of J] by (simp add: lines_bytes_def)
next
  case (Cons l ls)
  then show ?case
    using prime_handler_line [of l J "lines_bytes ls tail"] by (simp add: lines_bytes_def)
qed

lemma prime_items:
  "run_items (prime_step J) (\<lambda>out. (out, Ok ())) ls out = (out @ prime_replies J [10] ls, Ok ())"
  by (induction ls arbitrary: out) (simp_all add: check_spec)

section \<open>Properties\<close>

text \<open>Whatever the cuts of the reads, the echo of a connection that ends is what was sent.\<close>

lemma echo_all: "list_all (\<lambda>r. \<exists>bs. r = Read_bytes bs True \<and> bs \<noteq> []) rs \<Longrightarrow>
    echo (rs @ [Read_bytes [] True]) = (concat (map (\<lambda>r. case r of Read_bytes bs _ \<Rightarrow> bs | Read_failed \<Rightarrow> []) rs), Some (Ok ()))"
  by (induction rs) auto

text \<open>C37: Every line of a session gets, in order, one line that says whether its number is a prime, until the
  first malformed one: it gets the word for it, and the session ends without reading on. This includes what
  comes after the last newline, if anything does. The version for WASI sends the same, however the lines are
  cut into reads, but for a newline after the word, and for what comes after the last newline, which it drops.\<close>

theorem prime_answers:
  assumes "list_all (\<lambda>l. 10 \<notin> set l) ls" and "10 \<notin> set tail" and "concat cs = lines_bytes ls tail" and "length ls < n"
  shows "prime_handler J (concat cs) = prime_replies J [] (ls @ (if tail = [] then [] else [tail])) \<and>
    wasi_prime_run J n (map Data cs @ [Read_error Closed]) = Some (prime_replies J [10] ls, Ok ())"
proof
  show "prime_handler J (concat cs) = prime_replies J [] (ls @ (if tail = [] then [] else [tail]))"
    unfolding assms(3) by (rule prime_handler_lines [OF assms(1,2)])
  have "framed peel_line (buffer (framed_read_new 0) @ concat cs) ls tail"
    using framed_lines [of ls tail] assms(1-3) by (auto simp: framed_read_new_def lines_bytes_def list_all_iff)
  from lines.items_framed [OF this, of n id "Some Closed"] assms(4)
  have items: "items id lines_decode n (map Data cs @ [Read_error Closed]) (framed_read_new 0) =
      Some (ls, if tail = [] then End else Item (Err Closed))"
    by (simp add: lines.ready_def framed_read_new_def final_def searched_def)
  show "wasi_prime_run J n (map Data cs @ [Read_error Closed]) = Some (prime_replies J [10] ls, Ok ())"
    using for_items_run [OF items, where step = "prime_step J" and s = "[]" and fin = "\<lambda>p out. (out, session_end id p)"]
      prime_items [of J ls "[]"]
    by (simp add: wasi_prime_run_def split: if_splits)
qed

definition demo_json :: "nat json" where
  "demo_json = \<lparr>parse_request = (\<lambda>bs. if bs = [] then None else Some (METHOD, length bs)), as_u64 = Some, is_prime = (\<lambda>n. n = 2),
     response_bytes = (\<lambda>p. if p then [116] else [102])\<rparr>"

theorem prime_answers_witness:
  "prime_handler demo_json (concat [[50, 50, 10], [51, 10, 10, 52]]) = [116, 10, 102, 10] @ MALFORMED \<and>
    wasi_prime_run demo_json 4 (map Data [[50, 50, 10], [51, 10, 10, 52]] @ [Read_error Closed]) =
      Some ([116, 10, 102, 10] @ MALFORMED @ [10], Ok ())"
proof -
  have "well_formed demo_json [50, 50]" "well_formed demo_json [51]" "\<not> well_formed demo_json []"
    "asks_for_prime demo_json [50, 50]" "\<not> asks_for_prime demo_json [51]"
    by (simp_all add: well_formed_def asks_for_prime_def demo_json_def)
  moreover have "response_bytes demo_json True = [116]" "response_bytes demo_json False = [102]"
    by (simp_all add: demo_json_def)
  ultimately show ?thesis
    using prime_answers [of "[[50, 50], [51], []]" "[52]" "[[50, 50, 10], [51, 10, 10, 52]]" 4 demo_json]
    by (simp add: lines_bytes_def)
qed

end
