(* ===== verification/Database.thy ===== *)
theory Database
  imports Prelude "HOL-Library.Sublist"
begin

text \<open>
  The key-value store over UDP, \<open>rust/p04-unusual-database-program/src/lib.rs\<close> and
  \<open>wasi/problems/p04-unusual-database-program/src/lib.rs\<close>, with the socket of the latter,
  \<open>wasi/crates/wasi-async/src/net/udp.rs\<close>. A \<open>HashMap\<close> is a partial map. What the host's datagram
  streams give is an argument: \<open>receive(1)\<close> gives a list of at most one datagram or an error,
  \<open>check_send\<close> a number, \<open>send\<close> the number of datagrams it took.
\<close>

section \<open>The store\<close>

type_synonym store = "byte list \<rightharpoonup> byte list"

definition version_key :: "byte list" where
  "version_key = ascii ''version''"

definition version_reply :: "byte list" where
  "version_reply = ascii ''version=unusual-database-program 1.0.0''"

text \<open>One turn of the loop: the new store and the reply. After \<open>iter.position\<close> the iterator stands behind
  the equals sign.\<close>

definition db_packet :: "store \<Rightarrow> byte list \<Rightarrow> store \<times> byte list option" where
  "db_packet store packet =
     (case position (\<lambda>c. c = 61) packet of
        Some pos \<Rightarrow>
          (let key = take pos packet
           in if key \<noteq> version_key then (store(key \<mapsto> drop (Suc pos) packet), None) else (store, None))
      | None \<Rightarrow>
          if packet = version_key then (store, Some version_reply)
          else (case store packet of
                  Some v \<Rightarrow> (store, Some (packet @ [61] @ v))
                | None \<Rightarrow> (store, None)))"

text \<open>The loop over the datagrams of the socket. A receive that fails ends it, and so does a reply that
  cannot be sent; the second component of the result is the error. \<open>recv_from\<close> cuts a datagram to the
  length of the buffer.\<close>

datatype ('a, 'e) db_receive = Datagram "byte list" 'a "'e option" | Receive_error 'e

fun db_loop :: "(byte list \<Rightarrow> byte list) \<Rightarrow> ('a, 'e) db_receive list \<Rightarrow> store \<Rightarrow> (byte list \<times> 'a) list \<times> 'e option" where
  "db_loop trunc [] store = ([], None)"
| "db_loop trunc (Receive_error e # es) store = ([], Some e)"
| "db_loop trunc (Datagram bs addr sent # es) store =
     (case db_packet store (trunc bs) of
        (store', None) \<Rightarrow> db_loop trunc es store'
      | (store', Some reply) \<Rightarrow>
          (case sent of
             Some e \<Rightarrow> ([], Some e)
           | None \<Rightarrow> (case db_loop trunc es store' of (out, r) \<Rightarrow> ((reply, addr) # out, r))))"

text \<open>What the protocol promises of a request.\<close>

fun short :: "('a, 'e) db_receive \<Rightarrow> bool" where
  "short (Datagram bs _ _) \<longleftrightarrow> length bs < 1000"
| "short (Receive_error _) \<longleftrightarrow> True"

definition BUFFER :: nat where
  "BUFFER = 1024"

definition db_run :: "('a, 'e) db_receive list \<Rightarrow> (byte list \<times> 'a) list \<times> 'e option" where
  "db_run es = db_loop (take BUFFER) es Map.empty"

definition wasi_db_run :: "('a, 'e) db_receive list \<Rightarrow> (byte list \<times> 'a) list \<times> 'e option" where
  "wasi_db_run es = db_loop (\<lambda>bs. bs) es Map.empty"

section \<open>The sockets of the WASI port\<close>

datatype udp_state = Uninitialized | Bound | Connected

datatype 'h receive_result = Got "byte list" 'h | Empty | Receive_failed

text \<open>\<open>recv_from\<close>: the results of the calls of \<open>receive(1)\<close>, with a wait after each that is empty. \<open>None\<close>
  is a socket that still waits.\<close>

datatype udp_error = Invalid_state | Host_error

fun udp_recv_from :: "udp_state \<Rightarrow> 'h receive_result list \<Rightarrow> ((udp_error, byte list \<times> 'h) outcome \<times> 'h receive_result list) option" where
  "udp_recv_from Uninitialized rs = Some (Err Invalid_state, rs)"
| "udp_recv_from _ [] = None"
| "udp_recv_from _ (Receive_failed # rs) = Some (Err Host_error, rs)"
| "udp_recv_from _ (Got bs h # rs) = Some (Ok (bs, h), rs)"
| "udp_recv_from st (Empty # rs) = udp_recv_from st rs"

text \<open>\<open>send_to\<close> and \<open>send\<close>: the results of \<open>check_send\<close>, then the result of \<open>send\<close>, where \<open>None\<close> is a failure of
  the host.\<close>

fun check_send_loop :: "nat option list \<Rightarrow> (udp_error, unit) outcome option" where
  "check_send_loop [] = None"
| "check_send_loop (None # cs) = Some (Err Host_error)"
| "check_send_loop (Some n # cs) = (if n = 0 then check_send_loop cs else Some (Ok ()))"

definition udp_send_with :: "nat option list \<Rightarrow> nat option \<Rightarrow> byte list \<Rightarrow> (udp_error, nat) outcome option" where
  "udp_send_with checks sent data =
     map_option (\<lambda>r. bind_outcome r (\<lambda>_.
       case sent of
         None \<Rightarrow> Err Host_error
       | Some n \<Rightarrow> if n = 0 then Err Invalid_state else Ok (length data))) (check_send_loop checks)"

definition udp_send_to :: "udp_state \<Rightarrow> nat option list \<Rightarrow> nat option \<Rightarrow> byte list \<Rightarrow> (udp_error, nat) outcome option" where
  "udp_send_to st checks sent data =
     (if st = Uninitialized then Some (Err Invalid_state) else udp_send_with checks sent data)"

definition udp_send :: "udp_state \<Rightarrow> nat option list \<Rightarrow> nat option \<Rightarrow> byte list \<Rightarrow> (udp_error, nat) outcome option" where
  "udp_send st checks sent data =
     (if st = Connected then udp_send_with checks sent data else Some (Err Invalid_state))"

definition udp_recv :: "udp_state \<Rightarrow> 'h receive_result list \<Rightarrow> ((udp_error, byte list) outcome \<times> 'h receive_result list) option" where
  "udp_recv st rs = map_option (\<lambda>(r, rs). (bind_outcome r (\<lambda>(bs, _). Ok bs), rs)) (udp_recv_from st rs)"

text \<open>\<open>connect\<close> once the address is resolved: the old streams go before the new ones come, and a failure
  of the host leaves the socket without any.\<close>

definition udp_connect :: "bool \<Rightarrow> udp_state \<times> (udp_error, unit) outcome" where
  "udp_connect host_ok = (if host_ok then (Connected, Ok ()) else (Uninitialized, Err Host_error))"

section \<open>What the store remembers\<close>

lemma position_eq: "61 \<notin> set k \<Longrightarrow> position (\<lambda>c. c = 61) (k @ 61 # v) = Some (length k)"
  by (induction k) auto

lemma position_none: "position (\<lambda>c. c = (61 :: byte)) bs = None \<longleftrightarrow> 61 \<notin> set bs"
  by (induction bs) auto

lemma split_at_eq: "61 \<in> set bs \<Longrightarrow> \<exists>k v. bs = k @ 61 # v \<and> 61 \<notin> set (k :: byte list)"
  by (metis split_list_first)

lemma db_packet_insert:
  "61 \<notin> set k \<Longrightarrow> db_packet store (k @ 61 # v) = (if k = version_key then store else store(k \<mapsto> v), None)"
  by (simp add: db_packet_def position_eq Let_def)

lemma db_packet_query:
  "61 \<notin> set p \<Longrightarrow> db_packet store p =
    (store, if p = version_key then Some version_reply else map_option (\<lambda>v. p @ [61] @ v) (store p))"
  using position_none [of p] by (auto simp: db_packet_def split: option.splits)

text \<open>The reply to a packet after a history of packets, the latest of them first: a request is answered with
  the latest packet that gave its key a value.\<close>

definition db_reply :: "byte list list \<Rightarrow> byte list \<Rightarrow> byte list option" where
  "db_reply history p =
     (if 61 \<in> set p then None
      else if p = version_key then Some version_reply
      else find (\<lambda>q. prefix (p @ [61]) q) history)"

definition remembers :: "byte list list \<Rightarrow> store \<Rightarrow> bool" where
  "remembers history store \<longleftrightarrow>
     (\<forall>k. 61 \<notin> set k \<longrightarrow> k \<noteq> version_key \<longrightarrow> map_option (\<lambda>v. k @ [61] @ v) (store k) = find (\<lambda>q. prefix (k @ [61]) q) history)"

lemma prefix_key:
  assumes "61 \<notin> set k" and "61 \<notin> set k'"
  shows "prefix (k @ [61 :: byte]) (k' @ 61 # v) \<longleftrightarrow> k = k'"
proof
  assume "prefix (k @ [61]) (k' @ 61 # v)"
  then obtain w where w: "k' @ 61 # v = k @ 61 # w"
    by (auto simp: prefix_def)
  from position_eq [OF assms(2), of v] position_eq [OF assms(1), of w] have "length k' = length k"
    by (simp add: w)
  with w show "k = k'"
    by simp
qed auto

lemma db_packet_remembers:
  assumes "remembers history store"
  shows "remembers (p # history) (fst (db_packet store p)) \<and> snd (db_packet store p) = db_reply history p"
proof (cases "61 \<in> set p")
  case True
  then obtain k v where kv: "p = k @ 61 # v" "61 \<notin> set k"
    using split_at_eq by blast
  have "remembers (p # history) (if k = version_key then store else store(k \<mapsto> v))"
    unfolding remembers_def
  proof (intro allI impI)
    fix k' :: "byte list"
    assume k': "61 \<notin> set k'" "k' \<noteq> version_key"
    with assms have "map_option (\<lambda>v. k' @ [61] @ v) (store k') = find (\<lambda>q. prefix (k' @ [61]) q) history"
      by (simp add: remembers_def)
    with k' kv prefix_key [OF k'(1) kv(2), of v]
    show "map_option (\<lambda>v. k' @ [61] @ v) ((if k = version_key then store else store(k \<mapsto> v)) k') =
        find (\<lambda>q. prefix (k' @ [61]) q) (p # history)"
      by auto
  qed
  with kv True show ?thesis
    by (simp add: db_packet_insert db_reply_def)
next
  case False
  then have "\<And>k. \<not> prefix (k @ [61]) p"
    by (auto simp: prefix_def)
  with False assms show ?thesis
    by (auto simp: db_packet_query db_reply_def remembers_def)
qed

text \<open>The replies that the loop sends when nothing fails.\<close>

fun db_replies :: "byte list list \<Rightarrow> (byte list \<times> 'a) list \<Rightarrow> (byte list \<times> 'a) list" where
  "db_replies history [] = []"
| "db_replies history ((p, addr) # ps) =
     (case db_reply history p of
        Some r \<Rightarrow> (r, addr) # db_replies (p # history) ps
      | None \<Rightarrow> db_replies (p # history) ps)"

lemma db_loop_replies:
  "remembers history store \<Longrightarrow>
    db_loop trunc (map (\<lambda>(p, addr). Datagram p addr None) ps) store =
      (db_replies history (map (\<lambda>(p, addr). (trunc p, addr)) ps), None)"
proof (induction ps arbitrary: history store)
  case (Cons a ps)
  obtain p addr where a: "a = (p, addr)"
    by (cases a)
  obtain store' reply where step: "db_packet store (trunc p) = (store', reply)"
    by (cases "db_packet store (trunc p)")
  with db_packet_remembers [OF Cons(2), of "trunc p"]
  have "remembers (trunc p # history) store'" "db_reply history (trunc p) = reply"
    by auto
  with Cons(1) [OF this(1)] step show ?case
    by (cases reply) (simp_all add: a)
qed simp

lemma remembers_empty: "remembers [] Map.empty"
  by (simp add: remembers_def)

lemma db_reply_short:
  assumes "\<forall>q \<in> set history. length q < n" and "40 \<le> n"
  shows "db_reply history p = Some r \<Longrightarrow> length r < n"
  using assms by (auto simp: db_reply_def version_reply_def ascii_def find_Some_iff split: if_splits)

lemma db_loop_same:
  assumes "list_all short es"
  shows "db_loop (take BUFFER) es store = db_loop (\<lambda>bs. bs) es store"
  using assms
proof (induction es arbitrary: store)
  case (Cons e es)
  then have same: "db_loop (take BUFFER) es store' = db_loop (\<lambda>bs. bs) es store'" for store'
    by simp
  show ?case
  proof (cases e)
    case (Datagram bs addr sent)
    with Cons(2) have "take BUFFER bs = bs"
      by (simp add: BUFFER_def)
    with Datagram same show ?thesis
      by (simp split: prod.splits option.splits)
  qed simp
qed simp

lemma db_loop_short:
  assumes "list_all short es"
    and "remembers history store" and "\<forall>q \<in> set history. length q < 1000"
    and "r \<in> fst ` set (fst (db_loop (\<lambda>bs. bs) es store))"
  shows "length r < 1000"
  using assms
proof (induction es arbitrary: history store)
  case (Cons e es)
  show ?case
  proof (cases e)
    case (Datagram bs addr sent)
    obtain store' reply where step: "db_packet store bs = (store', reply)"
      by (cases "db_packet store bs")
    with db_packet_remembers [OF Cons(3), of bs] have next_state: "remembers (bs # history) store'" "db_reply history bs = reply"
      by auto
    have "\<forall>q \<in> set (bs # history). length q < 1000"
      using Cons(2,4) Datagram by simp
    from Cons(1) [OF _ next_state(1) this] Cons(2) have rest: "r \<in> fst ` set (fst (db_loop (\<lambda>bs. bs) es store')) \<Longrightarrow> length r < 1000"
      by simp
    have "reply = Some r \<Longrightarrow> length r < 1000"
      using db_reply_short [OF Cons(4), of bs r] next_state(2) by simp
    with rest Cons(5) step show ?thesis
      by (cases reply; cases sent) (auto simp: Datagram split: prod.splits)
  qed (use Cons(5) in simp)
qed simp

section \<open>Properties\<close>

text \<open>C33: Every request is answered, to its sender, with the latest packet that gave its key a value, and with
  the version for the version; an insert, also one of the version, and a request for an unknown key are
  not answered. The store sees the first 1024 bytes of each datagram.\<close>

theorem database_latest:
  "db_run (map (\<lambda>(p, addr). Datagram p addr None) ps) = (db_replies [] (map (\<lambda>(p, addr). (take 1024 p, addr)) ps), None)"
  unfolding db_run_def BUFFER_def by (rule db_loop_replies [OF remembers_empty])

text \<open>As long as all datagrams are shorter than 1000 bytes the version for WASI does the same, errors
  included, and all replies are shorter than 1000 bytes.\<close>

theorem wasi_database_same:
  assumes "list_all short es"
  shows "wasi_db_run es = db_run es \<and> list_all (\<lambda>(r, addr). length r < 1000) (fst (wasi_db_run es))"
proof -
  have "db_run es = wasi_db_run es"
    by (simp add: wasi_db_run_def db_run_def db_loop_same [OF assms])
  moreover have "length r < 1000" if r: "(r, addr) \<in> set (fst (wasi_db_run es))" for r addr
    using db_loop_short [OF assms remembers_empty, of r] r by (force simp: wasi_db_run_def)
  ultimately show ?thesis
    by (auto simp: list_all_iff)
qed

theorem wasi_database_same_witness:
  "wasi_db_run [Datagram [102, 61, 98, 61] (1 :: nat) None, Datagram [102] 2 None, Receive_error ()] = ([([102, 61, 98, 61], 2)], Some ())"
proof -
  have "db_run [Datagram [102, 61, 98, 61] (1 :: nat) None, Datagram [102] 2 None, Receive_error ()] = ([([102, 61, 98, 61], 2)], Some ())"
    by (simp add: db_run_def BUFFER_def db_packet_def Let_def version_key_def ascii_def)
  with wasi_database_same [of "[Datagram [102, 61, 98, 61] (1 :: nat) None, Datagram [102] 2 None, Receive_error ()]"] show ?thesis
    by simp
qed

end
