(* ===== verification/MobProxy.thy ===== *)
theory MobProxy
  imports WasiCodec Text
begin

text \<open>
  The chat proxy, \<open>rust/p05-mob-in-the-middle/src/lib.rs\<close> and \<open>wasi/problems/p05-mob-in-the-middle/src/lib.rs\<close>:
  the rewriting of a message and the two directions of a session. \<open>alnum\<close> stands for the table of
  \<open>char::is_alphanumeric\<close>; it is given the UTF-8 bytes of a character.
\<close>

section \<open>The rewriting\<close>

definition BOGUSCOIN :: rstring where
  "BOGUSCOIN = ascii ''7YWHMfk9JZe0LM0g1ZauHuiSxhI''"

definition split_ascii_whitespace :: "rstring \<Rightarrow> rstring list" where
  "split_ascii_whitespace s = filter (\<lambda>w. w \<noteq> []) (split_by is_ascii_whitespace s)"

definition rewrite :: "(byte list \<Rightarrow> bool) \<Rightarrow> rstring \<Rightarrow> rstring \<Rightarrow> rstring" where
  "rewrite alnum boguscoin word =
     (if take 1 word = [55] \<and> 26 \<le> length word \<and> length word \<le> 35 \<and> list_all alnum (utf8_chars word)
      then boguscoin else word)"

definition join_word :: "rstring \<Rightarrow> rstring \<Rightarrow> rstring" where
  "join_word s word = (if s = [] then word else s @ [32] @ word)"

definition transform :: "(byte list \<Rightarrow> bool) \<Rightarrow> rstring \<Rightarrow> byte list \<Rightarrow> rstring" where
  "transform alnum boguscoin message =
     foldl join_word [] (map (rewrite alnum boguscoin) (split_ascii_whitespace (utf8_lossy message)))"

section \<open>A session\<close>

text \<open>A direction of the proxy, by the peer it reads from: what the other peer was sent, whether that half
  was shut down, and the flag that ends the direction.\<close>

datatype peer = Client | Chat

record proxy =
  sent_to :: "peer \<Rightarrow> byte list"
  shut :: "peer \<Rightarrow> bool"
  done_from :: "peer \<Rightarrow> bool"

definition proxy_new :: proxy where
  "proxy_new = \<lparr>sent_to = (\<lambda>_. []), shut = (\<lambda>_. False), done_from = (\<lambda>_. False)\<rparr>"

fun other :: "peer \<Rightarrow> peer" where
  "other Client = Chat"
| "other Chat = Client"

definition send :: "peer \<Rightarrow> byte list \<Rightarrow> proxy \<Rightarrow> proxy" where
  "send p bs s = s\<lparr>sent_to := (sent_to s)(p := sent_to s p @ bs)\<rparr>"

definition shut_down :: "peer \<Rightarrow> proxy \<Rightarrow> proxy" where
  "shut_down p s = s\<lparr>shut := (shut s)(p := True)\<rparr>"

text \<open>A branch of the \<open>select!\<close>: the buffer with which the read from a peer ended, or its failure; the flag
  says whether the writes of the branch succeed. \<open>Stopped\<close> is a session that has returned, with the state it
  left; the drop of the streams that follows is not part of it.\<close>

datatype proxy_session = Running proxy | Stopped "(unit, unit) outcome" proxy

datatype proxy_event = Read peer "byte list option" bool

definition settle :: "proxy \<Rightarrow> proxy_session" where
  "settle s = (if done_from s Client \<and> done_from s Chat then Stopped (Ok ()) s else Running s)"

fun proxy_do :: "(byte list \<Rightarrow> bool) \<Rightarrow> rstring \<Rightarrow> proxy_event \<Rightarrow> proxy_session \<Rightarrow> proxy_session" where
  "proxy_do alnum boguscoin (Read p buf ok) (Running s) =
     (if done_from s p then Running s
      else
        (case buf of
           Some b \<Rightarrow>
             if b \<noteq> [] \<and> last b = 10 then
               (if ok then Running (send (other p) (transform alnum boguscoin b @ [10]) s) else Stopped (Err ()) s)
             else (let s = s\<lparr>done_from := (done_from s)(p := True)\<rparr>
                   in if ok then settle (shut_down (other p) s) else Stopped (Err ()) s)
         | None \<Rightarrow> (let s = s\<lparr>done_from := (done_from s)(p := True)\<rparr>
                   in if ok then settle (shut_down (other p) s) else Stopped (Err ()) s)))"
| "proxy_do alnum boguscoin e (Stopped r s) = Stopped r s"

definition proxy_run :: "(byte list \<Rightarrow> bool) \<Rightarrow> rstring \<Rightarrow> proxy_event list \<Rightarrow> proxy_session" where
  "proxy_run alnum boguscoin es = fold (proxy_do alnum boguscoin) es (Running proxy_new)"

section \<open>The version for WASI\<close>

text \<open>A branch of the race: an item of the stream of lines of a peer, an error of it, or its end; when the
  chat server ends its stream this version shuts down its own half towards the chat server.\<close>

datatype wasi_proxy_event = Next peer "(unit, byte list) polled" bool

fun wasi_proxy_do :: "(byte list \<Rightarrow> bool) \<Rightarrow> rstring \<Rightarrow> wasi_proxy_event \<Rightarrow> proxy_session \<Rightarrow> proxy_session" where
  "wasi_proxy_do alnum boguscoin (Next p item ok) (Running s) =
     (if done_from s p then Running s
      else
        (case item of
           Pending \<Rightarrow> Running s
         | Item (Ok line) \<Rightarrow>
             if ok then Running (send (other p) (transform alnum boguscoin line @ [10]) s) else Stopped (Err ()) s
         | Item _ \<Rightarrow> Stopped (Err ()) s
         | End \<Rightarrow> settle (shut_down Chat (s\<lparr>done_from := (done_from s)(p := True)\<rparr>))))"
| "wasi_proxy_do alnum boguscoin e (Stopped r s) = Stopped r s"

definition wasi_proxy_run :: "(byte list \<Rightarrow> bool) \<Rightarrow> rstring \<Rightarrow> wasi_proxy_event list \<Rightarrow> proxy_session" where
  "wasi_proxy_run alnum boguscoin es = fold (wasi_proxy_do alnum boguscoin) es (Running proxy_new)"

section \<open>Words\<close>

lemma foldl_join: "s \<noteq> [] \<Longrightarrow> foldl join_word s ws = s @ concat (map (\<lambda>w. 32 # w) ws)"
  by (induction ws arbitrary: s) (auto simp: join_word_def)

lemma unwords_concat: "unwords (w # ws) = w @ concat (map (\<lambda>w. 32 # w) ws)"
  by (induction ws arbitrary: w) auto

lemma foldl_join_unwords: "[] \<notin> set ws \<Longrightarrow> foldl join_word [] ws = unwords ws"
  by (cases ws) (auto simp: foldl_join unwords_concat join_word_def simp del: unwords.simps(3))

lemma rewrite_nonempty: "w \<noteq> [] \<Longrightarrow> boguscoin \<noteq> [] \<Longrightarrow> rewrite alnum boguscoin w \<noteq> []"
  by (simp add: rewrite_def)

lemma transform_unwords:
  assumes "boguscoin \<noteq> []"
  shows "transform alnum boguscoin m = unwords (map (rewrite alnum boguscoin) (split_ascii_whitespace (utf8_lossy m)))"
  unfolding transform_def
  by (rule foldl_join_unwords) (auto simp: split_ascii_whitespace_def rewrite_nonempty [OF _ assms] dest: sym)

definition plain_word :: "rstring \<Rightarrow> bool" where
  "plain_word w \<longleftrightarrow> w \<noteq> [] \<and> list_all (\<lambda>b. \<not> is_ascii_whitespace b) w"

lemma split_plain_words:
  assumes "list_all plain_word ws" and "ws \<noteq> []"
  shows "split_by is_ascii_whitespace (unwords ws @ rest) = butlast ws @ split_by is_ascii_whitespace (last ws @ rest)"
  using assms
proof (induction ws rule: unwords.induct)
  case (3 w v ws)
  then have "\<forall>b \<in> set w. \<not> is_ascii_whitespace b"
    by (simp add: plain_word_def list_all_iff)
  with 3 show ?case
    by (simp add: split_by_append is_ascii_whitespace_def [of 32])
qed simp_all

lemma words_of_plain_line:
  assumes "list_all plain_word ws" and "eol = [10] \<or> eol = [13, 10] \<or> eol = []"
  shows "split_ascii_whitespace (unwords ws @ eol) = ws"
proof (cases "ws = []")
  case True
  then show ?thesis
    using assms(2) by (auto simp: split_ascii_whitespace_def is_ascii_whitespace_def)
next
  case False
  with assms(1) have last: "plain_word (last ws)" and nonempty: "filter (\<lambda>w. w \<noteq> []) (butlast ws) = butlast ws"
    by (auto simp: list_all_iff plain_word_def filter_id_conv dest: in_set_butlastD)
  have "\<forall>b \<in> set (last ws). \<not> is_ascii_whitespace b"
    using last by (simp add: plain_word_def list_all_iff)
  then have "split_by is_ascii_whitespace (last ws @ eol) = last ws # (if eol = [] then [] else map (\<lambda>_. []) eol)"
    using assms(2) by (auto simp: split_by_none split_by_append is_ascii_whitespace_def [of 10] is_ascii_whitespace_def [of 13])
  moreover have "last ws \<noteq> []"
    using last by (simp add: plain_word_def)
  ultimately show ?thesis
    using split_plain_words [OF assms(1) False, of eol] nonempty False
    by (simp add: split_ascii_whitespace_def filter_empty_conv)
qed

section \<open>Directions\<close>

text \<open>A direction that has read some lines, and perhaps the end.\<close>

definition forwarded :: "(byte list \<Rightarrow> bool) \<Rightarrow> rstring \<Rightarrow> byte list list \<Rightarrow> byte list" where
  "forwarded alnum boguscoin ls = concat (map (\<lambda>l. transform alnum boguscoin (l @ [10]) @ [10]) ls)"

definition reads :: "peer \<Rightarrow> byte list list \<Rightarrow> byte list \<Rightarrow> proxy_event list" where
  "reads p ls tail = map (\<lambda>b. Read p (Some b) True) (map (\<lambda>l. l @ [10]) ls @ [tail])"

definition direction :: "(byte list \<Rightarrow> bool) \<Rightarrow> rstring \<Rightarrow> peer \<Rightarrow> byte list \<Rightarrow> proxy_event list \<Rightarrow> proxy \<Rightarrow> bool" where
  "direction alnum boguscoin p out es s \<longleftrightarrow>
     (if es = [] then done_from s p \<and> shut s (other p) \<and> sent_to s (other p) = out
      else \<not> done_from s p \<and> \<not> shut s (other p) \<and>
        (\<exists>ls tail. es = reads p ls tail \<and> 10 \<notin> set tail \<and> sent_to s (other p) @ forwarded alnum boguscoin ls = out))"

fun from_peer :: "peer \<Rightarrow> proxy_event \<Rightarrow> bool" where
  "from_peer p (Read q _ _) \<longleftrightarrow> q = p"

lemma other_eq [simp]: "other p = other q \<longleftrightarrow> p = q" "other p \<noteq> p" "p \<noteq> other p"
  by (cases p; cases q; simp)+

lemma from_some: "from_peer Client e \<or> from_peer Chat e"
proof (cases e)
  case (Read q b ok)
  then show ?thesis
    by (cases q) simp_all
qed

lemma not_from: "filter (from_peer Client) es = [] \<Longrightarrow> filter (from_peer Chat) es = [] \<Longrightarrow> es = []"
proof (cases es)
  case (Cons e es')
  moreover assume "filter (from_peer Client) es = []" "filter (from_peer Chat) es = []"
  ultimately show ?thesis
    using from_some [of e] by (simp split: if_splits)
qed simp

lemma direction_done: "direction alnum boguscoin p out es s \<Longrightarrow> done_from s p \<Longrightarrow> es = []"
  by (simp add: direction_def split: if_splits)

lemma directions_end:
  assumes "\<And>p. direction alnum boguscoin p (out p) (filter (from_peer p) es) s"
    and "\<not> (done_from s Client \<and> done_from s Chat)"
  shows "\<exists>s'. fold (proxy_do alnum boguscoin) es (Running s) = Stopped (Ok ()) s' \<and> (\<forall>p. direction alnum boguscoin p (out p) [] s')"
  using assms
proof (induction es arbitrary: s)
  case Nil
  then show ?case
    by (simp add: direction_def)
next
  case (Cons e es)
  obtain q b ok where e: "e = Read q b ok"
    by (cases e)
  let ?rest = "filter (from_peer q) es"
  have others: "direction alnum boguscoin p (out p) (filter (from_peer p) es) s" if "p \<noteq> q" for p
    using Cons(2) [of p] that by (simp add: e)
  have "direction alnum boguscoin q (out q) (e # ?rest) s"
    using Cons(2) [of q] by (simp add: e)
  then obtain ls tail where q: "\<not> done_from s q" "\<not> shut s (other q)" "e # ?rest = reads q ls tail" "10 \<notin> set tail"
    "sent_to s (other q) @ forwarded alnum boguscoin ls = out q"
    by (auto simp: direction_def)
  show ?case
  proof (cases ls)
    case Nil
    with q(3) have tail: "e = Read q (Some tail) True" "?rest = []"
      by (simp_all add: reads_def)
    have not_line: "\<not> (tail \<noteq> [] \<and> last tail = 10)"
      using q(4) last_in_set by metis
    let ?s = "shut_down (other q) (s\<lparr>done_from := (done_from s)(q := True)\<rparr>)"
    have step: "proxy_do alnum boguscoin e (Running s) = settle ?s"
      using q(1) not_line unfolding tail by (simp only: proxy_do.simps Let_def option.simps if_False if_True simp_thms)
    have "direction alnum boguscoin q (out q) [] ?s"
      using q(5) Nil by (simp add: direction_def shut_down_def forwarded_def)
    then have all: "direction alnum boguscoin p (out p) (filter (from_peer p) es) ?s" for p
      using others [of p] tail(2) by (cases "p = q") (auto simp: direction_def shut_down_def)
    show ?thesis
    proof (cases "done_from ?s Client \<and> done_from ?s Chat")
      case True
      then have "done_from ?s p" for p
        by (cases p) auto
      with direction_done [OF all] have "filter (from_peer p) es = []" for p
        by blast
      then have "es = []"
        using not_from by blast
      with True step all show ?thesis
        by (simp add: settle_def)
    next
      case False
      with Cons(1) [OF all] step show ?thesis
        by (simp add: settle_def)
    qed
  next
    case (Cons l ls')
    with q(3) have line: "e = Read q (Some (l @ [10])) True" "?rest = reads q ls' tail"
      by (simp_all add: reads_def)
    let ?s = "send (other q) (transform alnum boguscoin (l @ [10]) @ [10]) s"
    have step: "proxy_do alnum boguscoin e (Running s) = Running ?s"
      using q(1) by (simp add: line)
    have "direction alnum boguscoin q (out q) ?rest ?s"
    proof -
      have "reads q ls' tail \<noteq> []"
        by (simp add: reads_def)
      with q Cons show ?thesis
        by (auto simp: line(2) direction_def send_def forwarded_def)
    qed
    then have "direction alnum boguscoin p (out p) (filter (from_peer p) es) ?s" for p
      using others [of p] by (cases "p = q") (auto simp: direction_def send_def)
    from Cons.IH [OF this] Cons.prems(2) step show ?thesis
      by (simp add: send_def)
  qed
qed

section \<open>Properties\<close>

text \<open>C34: A message of valid UTF-8 that consists of words with one space between any two: a word is replaced
  by the address of the proxy, which is not empty, exactly if it starts with 7, has 26 to 35 bytes and only
  alphanumeric characters; all other words stay as they are, and so do the spaces. The end of the line is
  dropped.\<close>

theorem mob_words:
  assumes "list_all plain_word ws" and "utf8_valid (unwords ws @ eol)" and "eol = [10] \<or> eol = [13, 10] \<or> eol = []"
    and "boguscoin \<noteq> []"
  shows "transform alnum boguscoin (unwords ws @ eol) =
    unwords (map (\<lambda>w. if hd w = 55 \<and> length w \<in> {26..35} \<and> (\<forall>c \<in> set (utf8_chars w). alnum c) then boguscoin else w) ws)"
proof -
  have "rewrite alnum boguscoin w =
      (if hd w = 55 \<and> length w \<in> {26..35} \<and> (\<forall>c \<in> set (utf8_chars w). alnum c) then boguscoin else w)" if "w \<in> set ws" for w
    using assms(1) that by (cases w) (auto simp: rewrite_def list_all_iff plain_word_def)
  then have "map (rewrite alnum boguscoin) ws =
      map (\<lambda>w. if hd w = 55 \<and> length w \<in> {26..35} \<and> (\<forall>c \<in> set (utf8_chars w). alnum c) then boguscoin else w) ws"
    by simp
  then show ?thesis
    unfolding transform_unwords [OF assms(4)] by (simp add: utf8_lossy_valid [OF assms(2)] words_of_plain_line [OF assms(1,3)] del: map_eq_conv)
qed

theorem mob_words_witness:
  "transform (list_all is_ascii_alphanumeric) BOGUSCOIN (unwords [ascii ''pay'', ascii ''7F1u3wSD5RbOHQmupo9nx4TnhQ''] @ [10]) =
    unwords [ascii ''pay'', BOGUSCOIN]"
proof -
  let ?ws = "[ascii ''pay'', ascii ''7F1u3wSD5RbOHQmupo9nx4TnhQ'']"
  have valid: "utf8_valid (unwords ?ws @ [10])"
    by (simp add: ascii_def utf8_valid.simps)
  have plain: "list_all plain_word ?ws"
    by (simp add: ascii_def plain_word_def is_ascii_whitespace_def)
  have "hd (ascii ''pay'') \<noteq> 55" "hd (ascii ''7F1u3wSD5RbOHQmupo9nx4TnhQ'') = 55" "length (ascii ''7F1u3wSD5RbOHQmupo9nx4TnhQ'') \<in> {26..35}"
    "\<forall>c \<in> set (utf8_chars (ascii ''7F1u3wSD5RbOHQmupo9nx4TnhQ'')). list_all is_ascii_alphanumeric c"
    by (simp_all add: utf8_chars_ascii ascii_def is_ascii_def is_ascii_alphanumeric_def is_ascii_digit_def)
  moreover have "BOGUSCOIN \<noteq> []"
    by (simp add: BOGUSCOIN_def ascii_def)
  ultimately show ?thesis
    using mob_words [OF plain valid, of BOGUSCOIN "list_all is_ascii_alphanumeric"] by simp
qed

text \<open>C35: Whatever the order in which the two peers are read, every complete line of each is sent to the other
  once, rewritten and in order, a line without end is dropped, and the session ends when both peers have
  ended, with both halves shut down.\<close>

theorem mob_forwards:
  assumes "\<forall>p. input p = lines_bytes (ls p) (tail p) \<and> list_all (\<lambda>l. 10 \<notin> set l) (ls p) \<and> 10 \<notin> set (tail p)"
    and "\<forall>p. filter (from_peer p) es = map (\<lambda>b. Read p (Some b) True) (buffers (input p))"
  shows "\<exists>s. proxy_run alnum boguscoin es = Stopped (Ok ()) s \<and>
    (\<forall>p. sent_to s (other p) = forwarded alnum boguscoin (ls p) \<and> shut s (other p))"
proof -
  have "filter (from_peer p) es = reads p (ls p) (tail p)" for p
    using assms by (simp add: buffers_lines reads_def)
  then have "direction alnum boguscoin p (forwarded alnum boguscoin (ls p)) (filter (from_peer p) es) proxy_new" for p
    using assms(1) by (auto simp: direction_def proxy_new_def reads_def)
  from directions_end [of alnum boguscoin "\<lambda>p. forwarded alnum boguscoin (ls p)", OF this] show ?thesis
    by (auto simp: proxy_run_def proxy_new_def direction_def)
qed

definition demo_input :: "peer \<Rightarrow> byte list" where
  "demo_input p = (case p of Client \<Rightarrow> ascii ''hi'' @ [10] | Chat \<Rightarrow> ascii ''x'')"

lemma demo_transform: "transform alnum BOGUSCOIN (ascii ''hi'' @ [10]) = ascii ''hi''"
  by (simp add: transform_def utf8_lossy_valid ascii_def utf8_valid.simps split_ascii_whitespace_def is_ascii_whitespace_def
      rewrite_def join_word_def)

theorem mob_forwards_witness:
  "\<exists>s. proxy_run (list_all is_ascii_alphanumeric) BOGUSCOIN [Read Chat (Some (ascii ''x'')) True, Read Client (Some (ascii ''hi'' @ [10])) True, Read Client (Some []) True] =
      Stopped (Ok ()) s \<and> sent_to s Chat = ascii ''hi'' @ [10] \<and> sent_to s Client = []"
proof -
  let ?es = "[Read Chat (Some (ascii ''x'')) True, Read Client (Some (ascii ''hi'' @ [10])) True, Read Client (Some []) True]"
  let ?ls = "\<lambda>p. case p of Client \<Rightarrow> [ascii ''hi''] | Chat \<Rightarrow> []"
  let ?tail = "\<lambda>p. case p of Client \<Rightarrow> [] | Chat \<Rightarrow> ascii ''x''"
  have "buffers (demo_input Client) = [ascii ''hi'' @ [10], []]" "buffers (demo_input Chat) = [ascii ''x'']"
    by (simp_all add: demo_input_def ascii_def buffers.simps)
  then have events: "filter (from_peer p) ?es = map (\<lambda>b. Read p (Some b) True) (buffers (demo_input p))" for p
    by (cases p) simp_all
  have input: "demo_input p = lines_bytes (?ls p) (?tail p) \<and> list_all (\<lambda>l. 10 \<notin> set l) (?ls p) \<and> 10 \<notin> set (?tail p)" for p
    by (cases p) (simp_all add: demo_input_def lines_bytes_def ascii_def)
  obtain s where s: "proxy_run (list_all is_ascii_alphanumeric) BOGUSCOIN ?es = Stopped (Ok ()) s"
    "\<forall>p. sent_to s (other p) = forwarded (list_all is_ascii_alphanumeric) BOGUSCOIN (?ls p) \<and> shut s (other p)"
    using mob_forwards [of demo_input ?ls ?tail ?es "list_all is_ascii_alphanumeric" BOGUSCOIN] input events by blast
  from s(2) have "sent_to s Chat = forwarded (list_all is_ascii_alphanumeric) BOGUSCOIN (?ls Client)" "sent_to s Client = forwarded (list_all is_ascii_alphanumeric) BOGUSCOIN (?ls Chat)"
    by (metis other.simps)+
  with s(1) show ?thesis
    by (simp add: forwarded_def demo_transform)
qed

text \<open>White space between words is not kept: the rewriting makes one space of it.\<close>

lemma mob_spaces_collapse: "transform alnum BOGUSCOIN (ascii ''a   b'') = ascii ''a b''"
proof -
  have "utf8_lossy (ascii ''a   b'') = ascii ''a   b''"
    by (rule utf8_lossy_valid) (simp add: ascii_def utf8_valid.simps)
  then show ?thesis
    by (simp add: transform_def split_ascii_whitespace_def ascii_def is_ascii_whitespace_def rewrite_def join_word_def)
qed

text \<open>The version for WASI does not tell the client that the chat server has ended; it shuts down its half
  towards the chat server and goes on reading from the client.\<close>

lemma wasi_chat_end:
  "wasi_proxy_run alnum boguscoin [Next Chat End True] =
    Running \<lparr>sent_to = (\<lambda>_. []), shut = (\<lambda>p. p = Chat), done_from = (\<lambda>p. p = Chat)\<rparr>"
  by (simp add: wasi_proxy_run_def proxy_new_def shut_down_def settle_def fun_upd_def)

end
