(* ===== verification/Means.thy ===== *)
theory Means
  imports WasiCodec "HOL-Library.Signed_Division"
begin

text \<open>
  The price server, \<open>rust/p02-means-to-an-end/src/lib.rs\<close> and \<open>wasi/problems/p02-means-to-an-end/src/lib.rs\<close>.
  An \<open>i32\<close> or \<open>i64\<close> is an integer in its range; the additions on \<open>i64\<close> wrap or panic as \<open>oc\<close>
  says (overflow checks off or on) and integer division truncates. A \<open>BTreeMap\<close> is the list of its
  entries in the order of their keys.
\<close>

section \<open>Signed integers\<close>

definition fits_i32 :: "int \<Rightarrow> bool" where
  "fits_i32 x \<longleftrightarrow> - (2 ^ 31) \<le> x \<and> x < 2 ^ 31"

definition i32_from_be_bytes :: "byte list \<Rightarrow> int" where
  "i32_from_be_bytes bs = sint (from_be_u32 (bs ! 0) (bs ! 1) (bs ! 2) (bs ! 3))"

definition i32_to_be_bytes :: "int \<Rightarrow> byte list" where
  "i32_to_be_bytes x = to_be_u32 (word_of_int x)"

definition add_i64 :: "bool \<Rightarrow> int \<Rightarrow> int \<Rightarrow> ('e, int) outcome" where
  "add_i64 oc a b =
     (if - (2 ^ 63) \<le> a + b \<and> a + b < 2 ^ 63 then Ok (a + b)
      else if oc then Panic else Ok ((a + b + 2 ^ 63) mod 2 ^ 64 - 2 ^ 63))"

section \<open>The prices\<close>

type_synonym prices = "(int \<times> int) list"

fun btree_insert :: "int \<Rightarrow> int \<Rightarrow> prices \<Rightarrow> prices" where
  "btree_insert k v [] = [(k, v)]"
| "btree_insert k v ((k', v') # m) =
     (if k < k' then (k, v) # (k', v') # m else if k = k' then (k, v) # m else (k', v') # btree_insert k v m)"

definition btree_range :: "int \<Rightarrow> int \<Rightarrow> prices \<Rightarrow> prices" where
  "btree_range lo hi m = filter (\<lambda>(k, _). lo \<le> k \<and> k \<le> hi) m"

datatype means_error = Unexpected_eof | Mean_out_of_range | Message_invalid | Stream_failed stream_error

text \<open>The loop over the range, with its two counters.\<close>

fun sum_loop :: "bool \<Rightarrow> int \<Rightarrow> int \<Rightarrow> prices \<Rightarrow> (means_error, int \<times> int) outcome" where
  "sum_loop oc count subtotal [] = Ok (count, subtotal)"
| "sum_loop oc count subtotal ((_, value) # m) =
     bind_outcome (add_i64 oc count 1) (\<lambda>count.
     bind_outcome (add_i64 oc subtotal value) (\<lambda>subtotal. sum_loop oc count subtotal m))"

definition query :: "bool \<Rightarrow> prices \<Rightarrow> int \<Rightarrow> int \<Rightarrow> (means_error, int) outcome" where
  "query oc m mintime maxtime =
     bind_outcome (sum_loop oc 0 0 (btree_range mintime maxtime m)) (\<lambda>(count, subtotal).
       let mean = if 0 < count then subtotal sdiv count else 0
       in if fits_i32 mean then Ok mean else Err Mean_out_of_range)"

section \<open>A session\<close>

text \<open>\<open>read_exact\<close> takes nine bytes or fails. A session gives what it writes and how it ends.\<close>

function means_handler :: "bool \<Rightarrow> prices \<Rightarrow> byte list \<Rightarrow> byte list \<times> (means_error, unit) outcome" where
  "means_handler oc m input =
     (if length input < 9 then ([], Err Unexpected_eof)
      else
        (let command = take 9 input; rest = drop 9 input;
             a = i32_from_be_bytes (take 4 (drop 1 command)); b = i32_from_be_bytes (drop 5 command)
         in if command ! 0 = 73 then means_handler oc (btree_insert a b m) rest
            else if command ! 0 = 81 then
              (if a \<le> b then
                 (case query oc m a b of
                    Ok mean \<Rightarrow> (case means_handler oc m rest of (out, r) \<Rightarrow> (i32_to_be_bytes mean @ out, r))
                  | Err e \<Rightarrow> ([], Err e)
                  | Panic \<Rightarrow> ([], Panic))
               else (case means_handler oc m rest of (out, r) \<Rightarrow> (i32_to_be_bytes 0 @ out, r)))
            else ([], Ok ())))"
  by auto
termination
  by (relation "measure (\<lambda>(_, _, input). length input)") auto

declare means_handler.simps [simp del]

section \<open>The version for WASI\<close>

datatype message = Insert int int | Query int int

definition parse_chunk :: "byte list \<Rightarrow> (means_error, message) outcome" where
  "parse_chunk chunk =
     (let a = i32_from_be_bytes (take 4 (drop 1 chunk)); b = i32_from_be_bytes (drop 5 chunk)
      in if chunk ! 0 = 73 then Ok (Insert a b)
         else if chunk ! 0 = 81 then Ok (Query a b)
         else Err Message_invalid)"

fun i32_encode :: "int \<Rightarrow> byte list \<Rightarrow> byte list" where
  "i32_encode item dst = dst @ i32_to_be_bytes item"

text \<open>The body of the loop over the chunks, with the prices and what was sent.\<close>

fun means_step :: "bool \<Rightarrow> byte list \<Rightarrow> prices \<times> byte list \<Rightarrow> (prices \<times> byte list) + (byte list \<times> (means_error, unit) outcome)" where
  "means_step oc chunk (m, out) =
     (case parse_chunk chunk of
        Ok (Insert timestamp price) \<Rightarrow> Inl (btree_insert timestamp price m, out)
      | Ok (Query mintime maxtime) \<Rightarrow>
          (if mintime \<le> maxtime then
             (case query oc m mintime maxtime of
                Ok mean \<Rightarrow> Inl (m, i32_encode mean out)
              | Err e \<Rightarrow> Inr (out, Err e)
              | Panic \<Rightarrow> Inr (out, Panic))
           else Inl (m, i32_encode 0 out))
      | Err e \<Rightarrow> Inr (out, Err e)
      | Panic \<Rightarrow> Inr (out, Panic))"

text \<open>\<open>run\<close> for at most \<open>n\<close> polls of the stream; \<open>None\<close>: the connection is still open and the session waits.\<close>

definition wasi_means_run :: "bool \<Rightarrow> nat \<Rightarrow> read_result list \<Rightarrow> (byte list \<times> (means_error, unit) outcome) option" where
  "wasi_means_run oc n rs =
     for_items id (chunks_decode 9) n (means_step oc) (\<lambda>p (m, out). (out, session_end Stream_failed p)) rs (framed_read_new ()) ([], [])"

section \<open>The map behind the list\<close>

definition prices_ok :: "prices \<Rightarrow> bool" where
  "prices_ok m \<longleftrightarrow> sorted_wrt (<) (map fst m) \<and> (\<forall>(k, v) \<in> set m. fits_i32 k \<and> fits_i32 v)"

lemma map_of_btree_insert: "map_of (btree_insert k v m) = (map_of m)(k \<mapsto> v)"
  by (induction m) (auto simp: fun_eq_iff)


lemma set_btree_insert: "set (btree_insert k v m) \<subseteq> insert (k, v) (set m)"
  by (induction m) (auto split: if_splits)

lemma fst_btree_insert: "fst ` set (btree_insert k v m) = insert k (fst ` set m)"
  by (simp add: map_of_btree_insert flip: dom_map_of_conv_image_fst)

lemma sorted_btree_insert: "sorted_wrt (<) (map fst m) \<Longrightarrow> sorted_wrt (<) (map fst (btree_insert k v m))"
proof (induction m)
  case (Cons p m)
  obtain k' v' where p: "p = (k', v')"
    by (cases p)
  show ?case
    using Cons by (auto simp: p fst_btree_insert)
qed simp

lemma prices_ok_insert: "prices_ok m \<Longrightarrow> fits_i32 k \<Longrightarrow> fits_i32 v \<Longrightarrow> prices_ok (btree_insert k v m)"
  using set_btree_insert [of k v m] sorted_btree_insert [of m k v] by (fastforce simp: prices_ok_def)

text \<open>There are at most \<open>2^32\<close> keys, so that no sum of prices leaves the range of \<open>i64\<close>.\<close>

lemma prices_length:
  assumes "prices_ok m"
  shows "length m \<le> 2 ^ 32"
proof -
  have "distinct (map fst m)"
    using assms by (simp add: prices_ok_def strict_sorted_iff)
  then have "length m = card (fst ` set m)"
    using distinct_card [of "map fst m"] by simp
  also have "\<dots> \<le> card {- (2 ^ 31) ..< (2 ^ 31 :: int)}"
    using assms by (intro card_mono) (auto simp: prices_ok_def fits_i32_def)
  finally show ?thesis
    by simp
qed

lemma prices_ok_filter: "prices_ok m \<Longrightarrow> prices_ok (filter P m)"
  by (auto simp: prices_ok_def sorted_wrt_map sorted_wrt_filter)

lemma sum_bounds:
  assumes "\<forall>(k, v) \<in> set m. fits_i32 v"
  shows "- (2 ^ 31) * int (length m) \<le> sum_list (map snd m)" "sum_list (map snd m) \<le> (2 ^ 31 - 1) * int (length m)"
  using assms by (induction m) (auto simp: fits_i32_def algebra_simps)

lemma sum_loop_exact:
  assumes "\<forall>(k, v) \<in> set m. fits_i32 v" and "c + length m \<le> 2 ^ 32"
    and "- (2 ^ 31) * int c \<le> subtotal" and "subtotal \<le> (2 ^ 31 - 1) * int c"
  shows "sum_loop oc (int c) subtotal m = Ok (int (c + length m), subtotal + sum_list (map snd m))"
  using assms
proof (induction m arbitrary: c subtotal)
  case (Cons p m)
  obtain k v where p: "p = (k, v)"
    by (cases p)
  have v: "- (2 ^ 31) \<le> v" "v \<le> 2 ^ 31 - 1"
    using Cons(2) by (auto simp: p fits_i32_def)
  have bounds: "- (2 ^ 31) * int (Suc c) \<le> subtotal + v" "subtotal + v \<le> (2 ^ 31 - 1) * int (Suc c)"
    using Cons(4,5) v by (simp_all add: algebra_simps)
  have "int (Suc c) \<le> 2 ^ 32"
    using Cons(3) by simp
  with bounds have "- (2 ^ 63) \<le> subtotal + v" "subtotal + v < 2 ^ 63" "int c + 1 < 2 ^ 63"
    by simp_all
  then have "add_i64 oc (int c) 1 = (Ok (int (Suc c)) :: (means_error, int) outcome)"
    "add_i64 oc subtotal v = (Ok (subtotal + v) :: (means_error, int) outcome)"
    by (simp_all add: add_i64_def)
  with Cons(1) [of "Suc c" "subtotal + v"] Cons(2,3) bounds show ?case
    by (simp add: p algebra_simps)
qed simp

text \<open>The mean is truncated and lies between the prices.\<close>

lemma mean_fits:
  assumes "\<forall>(k, v) \<in> set m. fits_i32 v" and "m \<noteq> []"
  shows "fits_i32 (sum_list (map snd m) sdiv int (length m))"
proof -
  let ?s = "sum_list (map snd m)" and ?n = "int (length m)"
  have n: "0 < ?n"
    using assms(2) by simp
  have s: "- (2 ^ 31) * ?n \<le> ?s" "?s \<le> (2 ^ 31 - 1) * ?n"
    using sum_bounds [OF assms(1)] .
  show ?thesis
  proof (cases "0 \<le> ?s")
    case True
    then have "?s sdiv ?n = ?s div ?n"
      using n by (simp add: signed_divide_int_def sgn_if)
    moreover have "?s div ?n \<le> 2 ^ 31 - 1"
      using zdiv_mono1 [OF s(2) n] n by simp
    moreover have "0 \<le> ?s div ?n"
      using True n by (simp add: pos_imp_zdiv_nonneg_iff)
    ultimately show ?thesis
      by (simp add: fits_i32_def)
  next
    case False
    then have "?s sdiv ?n = - (- ?s div ?n)"
      using n by (simp add: signed_divide_int_def sgn_if)
    moreover have "- ?s div ?n \<le> 2 ^ 31"
      using zdiv_mono1 [of "- ?s" "2 ^ 31 * ?n" ?n] s(1) n by simp
    moreover have "0 \<le> - ?s div ?n"
      using False n by (simp add: pos_imp_zdiv_nonneg_iff)
    ultimately show ?thesis
      by (simp add: fits_i32_def)
  qed
qed

text \<open>What a query is answered, over the map.\<close>

definition mean_of :: "(int \<rightharpoonup> int) \<Rightarrow> int \<Rightarrow> int \<Rightarrow> int" where
  "mean_of m lo hi =
     (let K = {k \<in> dom m. lo \<le> k \<and> k \<le> hi}
      in if K = {} then 0 else (\<Sum>k \<in> K. the (m k)) sdiv int (card K))"

lemma sum_list_map_of:
  assumes "distinct (map fst xs)"
  shows "sum_list (map snd xs) = (\<Sum>k \<in> fst ` set xs. the (map_of xs k))"
  using assms
proof (induction xs)
  case (Cons p xs)
  obtain k v where p: "p = (k, v)"
    by (cases p)
  have "(\<Sum>k' \<in> fst ` set xs. the (map_of (p # xs) k')) = (\<Sum>k' \<in> fst ` set xs. the (map_of xs k'))"
    using Cons(2) by (intro sum.cong) (auto simp: p)
  with Cons show ?case
    by (simp add: p)
qed simp

lemma query_exact:
  assumes "prices_ok m"
  shows "query oc m lo hi = Ok (mean_of (map_of m) lo hi)"
proof -
  let ?r = "btree_range lo hi m"
  have ok: "prices_ok ?r"
    unfolding btree_range_def by (rule prices_ok_filter [OF assms])
  have distinct: "distinct (map fst m)" "distinct (map fst ?r)"
    using assms ok by (simp_all add: prices_ok_def strict_sorted_iff)
  have vals: "\<forall>(k, v) \<in> set ?r. fits_i32 v"
    using ok by (auto simp: prices_ok_def)
  define K where "K = {k \<in> dom (map_of m). lo \<le> k \<and> k \<le> hi}"
  have keys: "fst ` set ?r = K"
    by (force simp: K_def btree_range_def dom_map_of_conv_image_fst)
  have "map_of ?r k = map_of m k" if k: "k \<in> fst ` set ?r" for k
  proof -
    obtain v where "(k, v) \<in> set ?r" "(k, v) \<in> set m"
      using k by (auto simp: btree_range_def)
    with distinct show ?thesis
      by simp
  qed
  then have total: "sum_list (map snd ?r) = (\<Sum>k \<in> K. the (map_of m k))"
    unfolding sum_list_map_of [OF distinct(2)] keys [symmetric] by (intro sum.cong) auto
  have card: "length ?r = card K"
    unfolding keys [symmetric] using distinct_card [OF distinct(2)] by simp
  have loop: "sum_loop oc 0 0 ?r = Ok (int (card K), \<Sum>k \<in> K. the (map_of m k))"
    using sum_loop_exact [OF vals, of 0 0 oc] prices_length [OF ok] by (simp add: total card)
  show ?thesis
  proof (cases "K = {}")
    case True
    then show ?thesis
      using loop by (simp add: query_def mean_of_def Let_def K_def [symmetric] fits_i32_def)
  next
    case False
    with keys have "?r \<noteq> []"
      by auto
    with mean_fits [OF vals] card have "fits_i32 ((\<Sum>k \<in> K. the (map_of m k)) sdiv int (card K))"
      by (simp add: total)
    moreover have "0 < card K"
      using \<open>?r \<noteq> []\<close> card by (metis length_greater_0_conv)
    ultimately show ?thesis
      using loop False by (simp add: query_def mean_of_def Let_def K_def [symmetric])
  qed
qed

section \<open>Sessions\<close>

fun message_bytes :: "message \<Rightarrow> byte list" where
  "message_bytes (Insert t p) = 73 # i32_to_be_bytes t @ i32_to_be_bytes p"
| "message_bytes (Query lo hi) = 81 # i32_to_be_bytes lo @ i32_to_be_bytes hi"

fun message_ok :: "message \<Rightarrow> bool" where
  "message_ok (Insert t p) \<longleftrightarrow> fits_i32 t \<and> fits_i32 p"
| "message_ok (Query lo hi) \<longleftrightarrow> fits_i32 lo \<and> fits_i32 hi"

text \<open>The answers to a list of messages over a map of prices.\<close>

fun answers :: "(int \<rightharpoonup> int) \<Rightarrow> message list \<Rightarrow> int list" where
  "answers m [] = []"
| "answers m (Insert t p # ms) = answers (m(t \<mapsto> p)) ms"
| "answers m (Query lo hi # ms) = (if lo \<le> hi then mean_of m lo hi else 0) # answers m ms"

lemma i32_roundtrip: "fits_i32 x \<Longrightarrow> i32_from_be_bytes (i32_to_be_bytes x) = x"
  by (simp add: i32_from_be_bytes_def i32_to_be_bytes_def to_be_u32_def from_to_be_u32 fits_i32_def sint_sbintrunc' signed_take_bit_int_eq_self)

lemma length_i32 [simp]: "length (i32_to_be_bytes x) = 4"
  by (simp add: i32_to_be_bytes_def)

lemma length_message [simp]: "length (message_bytes a) = 9"
  by (cases a) (simp_all add: i32_to_be_bytes_def)

lemma means_handler_messages:
  assumes "prices_ok m" and "list_all message_ok ms" and "length tail < 9"
  shows "means_handler oc m (concat (map message_bytes ms) @ tail) =
    (concat (map i32_to_be_bytes (answers (map_of m) ms)), Err Unexpected_eof)"
  using assms
proof (induction ms arbitrary: m)
  case Nil
  then show ?case
    by (simp add: means_handler.simps)
next
  case (Cons a ms)
  show ?case
  proof (cases a)
    case (Insert t p)
    with Cons(3) have fits: "fits_i32 t" "fits_i32 p"
      by simp_all
    from Cons(1) [OF prices_ok_insert [OF Cons(2) fits]] Cons(3,4) show ?thesis
      by (subst means_handler.simps)
        (simp add: Insert i32_roundtrip [OF fits(1)] i32_roundtrip [OF fits(2)] Let_def map_of_btree_insert del: fun_upd_apply)
  next
    case (Query lo hi)
    with Cons(3) have fits: "fits_i32 lo" "fits_i32 hi"
      by simp_all
    from Cons(1) [OF Cons(2)] Cons(3,4) show ?thesis
      by (subst means_handler.simps)
        (simp add: Query i32_roundtrip [OF fits(1)] i32_roundtrip [OF fits(2)] Let_def query_exact [OF Cons(2)])
  qed
qed

lemma parse_message: "message_ok a \<Longrightarrow> parse_chunk (message_bytes a) = Ok a"
  by (cases a) (simp_all add: parse_chunk_def Let_def i32_roundtrip)

lemma wasi_loop_messages:
  "prices_ok m \<Longrightarrow> list_all message_ok ms \<Longrightarrow>
    run_items (means_step oc) (\<lambda>(m, out). (out, r)) (map message_bytes ms) (m, out) =
      (out @ concat (map i32_to_be_bytes (answers (map_of m) ms)), r)"
proof (induction ms arbitrary: m out)
  case (Cons a ms)
  then have "parse_chunk (message_bytes a) = Ok a"
    by (simp add: parse_message)
  with Cons show ?case
    by (cases a) (simp_all add: prices_ok_insert map_of_btree_insert query_exact del: message_bytes.simps)
qed simp

section \<open>Properties\<close>

text \<open>C32: With or without overflow checks a session of well-formed messages never fails for an arithmetic
  reason: each query is answered with the truncated mean of the latest prices in its range, and with zero
  for an empty or inverted range; the session ends when the client does.\<close>

theorem means_answered:
  assumes "list_all message_ok ms" and "length tail < 9"
  shows "means_handler oc [] (concat (map message_bytes ms) @ tail) =
    (concat (map i32_to_be_bytes (answers Map.empty ms)), Err Unexpected_eof)"
  using means_handler_messages [of "[]" ms tail oc] assms by (simp add: prices_ok_def)

theorem means_answered_witness:
  "means_handler True [] (concat (map message_bytes [Insert 12345 101, Insert 12346 (- 102), Query 12288 16384]) @ [81]) =
    (i32_to_be_bytes 0, Err Unexpected_eof)"
proof -
  let ?m = "[12345 \<mapsto> 101, 12346 \<mapsto> - 102] :: int \<rightharpoonup> int"
  have keys: "{k \<in> dom ?m. 12288 \<le> k \<and> k \<le> 16384} = {12345, 12346}"
    by auto
  have "mean_of ?m 12288 16384 = 0"
    unfolding mean_of_def keys by (simp add: Let_def signed_divide_int_def)
  then have "answers Map.empty [Insert 12345 101, Insert 12346 (- 102), Query 12288 16384] = [0]"
    by simp
  with means_answered [of "[Insert 12345 101, Insert 12346 (- 102), Query 12288 16384]" "[81]" True] show ?thesis
    by (simp add: fits_i32_def)
qed

text \<open>The version for WASI gives the same answers however the connection cuts the messages, and ends well
  where the other one reports the end of the input as an error.\<close>

theorem wasi_means_same:
  assumes "list_all message_ok ms" and "length tail < 9" and "concat cs = concat (map message_bytes ms) @ tail" and "length ms < n"
  shows "wasi_means_run oc n (map Data cs @ [Read_error Closed]) = Some (fst (means_handler oc [] (concat cs)), Ok ())"
proof -
  have "framed (peel_chunk 9) (buffer (framed_read_new ()) @ concat cs) (map message_bytes ms) tail"
  proof -
    have length: "\<And>c. c \<in> set (map message_bytes ms) \<Longrightarrow> length c = 9"
      by auto
    from framed_chunks [of "map message_bytes ms" 9 tail, OF length assms(2)] show ?thesis
      by (simp add: framed_read_new_def assms(3))
  qed
  from chunks.items_framed [OF this, of n id "Some Closed"] assms(4)
  have "items id (chunks_decode 9) n (map Data cs @ [Read_error Closed]) (framed_read_new ()) =
      Some (map message_bytes ms, if tail = [] then End else Item (Err Closed))"
    by (simp add: chunks.ready_def framed_read_new_def final_def)
  then have "wasi_means_run oc n (map Data cs @ [Read_error Closed]) =
      Some (run_items (means_step oc) (\<lambda>(m, out). (out, Ok ())) (map message_bytes ms) ([], []))"
    using for_items_run [where step = "means_step oc" and s = "([], [])"] by (cases "tail = []") (fastforce simp: wasi_means_run_def)+
  moreover have "run_items (means_step oc) (\<lambda>(m, out). (out, Ok ())) (map message_bytes ms) ([], []) =
      (concat (map i32_to_be_bytes (answers Map.empty ms)), Ok ())"
    using wasi_loop_messages [of "[]" ms] assms(1) by (simp add: prices_ok_def)
  moreover have "fst (means_handler oc [] (concat cs)) = concat (map i32_to_be_bytes (answers Map.empty ms))"
    using means_handler_messages [of "[]" ms tail oc, OF _ assms(1,2)] by (simp add: assms(3) prices_ok_def)
  ultimately show ?thesis
    by simp
qed


lemma demo_answers: "fst (means_handler True [] ([73] @ i32_to_be_bytes 1 @ i32_to_be_bytes 5 @ [81] @ i32_to_be_bytes 0 @ i32_to_be_bytes 2)) = i32_to_be_bytes 5"
proof -
  have keys: "{k \<in> dom [1 \<mapsto> 5 :: int]. 0 \<le> k \<and> k \<le> (2 :: int)} = {1}"
    by auto
  have "mean_of [1 \<mapsto> 5] 0 2 = 5"
    unfolding mean_of_def keys by (simp add: Let_def signed_divide_int_def)
  with means_handler_messages [of "[]" "[Insert 1 5, Query 0 2]" "[]" True] show ?thesis
    by (simp add: prices_ok_def fits_i32_def)
qed

theorem wasi_means_same_witness:
  "wasi_means_run True 3 (map Data [[73] @ i32_to_be_bytes 1, i32_to_be_bytes 5 @ [81] @ i32_to_be_bytes 0, i32_to_be_bytes 2] @ [Read_error Closed]) =
    Some (i32_to_be_bytes 5, Ok ())"
proof -
  let ?cs = "[[73] @ i32_to_be_bytes 1, i32_to_be_bytes 5 @ [81] @ i32_to_be_bytes 0, i32_to_be_bytes 2]"
  have "list_all message_ok [Insert 1 5, Query 0 2]" "concat ?cs = concat (map message_bytes [Insert 1 5, Query 0 2]) @ []"
    by (simp_all add: fits_i32_def)
  from wasi_means_same [OF this(1) _ this(2), of 3 True] have "wasi_means_run True 3 (map Data ?cs @ [Read_error Closed]) =
      Some (fst (means_handler True [] (concat ?cs)), Ok ())"
    by simp
  with demo_answers show ?thesis
    by simp
qed

end
