(* ===== verification/BudgetChat.thy ===== *)
theory BudgetChat
  imports Text
begin

text \<open>
  The chat server, \<open>rust/p03-budget-chat/src/lib.rs\<close>: the task that keeps the room and the task of each
  client, which send each other messages over unbounded channels. An event is a new connection, the
  server taking its next message, a turn of a client's task, or bytes from a client; every order of
  events is a run. Which characters are alphanumeric is a table of the standard library, here the
  predicate \<open>alnum\<close> on the bytes of a character, and the order in which a \<open>HashMap\<close> is gone through
  is the argument \<open>order\<close>. The numbers of the clients, a \<open>usize\<close> that counts connections, are unbounded here.
\<close>

section \<open>Messages\<close>

datatype client_message =
    SetUsername nat rstring
  | Joined nat
  | Chat_message nat rstring
  | Disconnect nat

datatype server_message =
    Welcome
  | UsernameAccepted
  | UsernameInvalid
  | AnnounceUser rstring
  | Users "rstring list"
  | User_message rstring rstring
  | Disconnected rstring

fun sender_of :: "client_message \<Rightarrow> nat" where
  "sender_of (SetUsername i _) = i"
| "sender_of (Joined i) = i"
| "sender_of (Chat_message i _) = i"
| "sender_of (Disconnect i) = i"

section \<open>Clients\<close>

text \<open>The typestate of \<open>Client\<close>, with the two waits of \<open>joining\<close> apart. In \<open>Closing\<close> the client and
  with it its receiver is dropped and \<open>Disconnect\<close> is not sent yet; \<open>Done\<close> has sent it; \<open>Dead\<close> has
  panicked and never sends it.\<close>

datatype client_phase = WaitingWelcome | Joining | Naming | Entering | Chatting | Closing | Done | Dead

record task =
  t_phase :: client_phase
  t_mail :: "server_message list"
  t_written :: "byte list"

definition receiver_alive :: "task \<Rightarrow> bool" where
  "receiver_alive t \<longleftrightarrow> t_phase t \<notin> {Closing, Done, Dead}"

fun join_names :: "rstring list \<Rightarrow> rstring" where
  "join_names [] = []"
| "join_names (u # us) = [32] @ u @ concat (map (\<lambda>u. ascii '', '' @ u) us)"

definition users_line :: "rstring list \<Rightarrow> rstring" where
  "users_line us = ascii ''* The room contains:'' @ join_names us @ [10]"

text \<open>A turn of a task that has a message: its next phase and what it writes, or \<open>None\<close> where the code
  has \<open>unreachable!\<close>.\<close>

fun on_mail :: "client_phase \<Rightarrow> server_message \<Rightarrow> (client_phase \<times> byte list) option" where
  "on_mail WaitingWelcome Welcome = Some (Joining, ascii ''Welcome to budgetchat! What shall I call you?'' @ [10])"
| "on_mail Naming UsernameAccepted = Some (Entering, [])"
| "on_mail Naming UsernameInvalid = Some (Closing, ascii ''Invalid username'' @ [10])"
| "on_mail Entering (Users us) = Some (Chatting, users_line us)"
| "on_mail Chatting (AnnounceUser u) = Some (Chatting, ascii ''* '' @ u @ ascii '' has entered the room'' @ [10])"
| "on_mail Chatting (User_message u m) = Some (Chatting, ascii ''['' @ u @ ascii ''] '' @ m @ [10])"
| "on_mail Chatting (Disconnected u) = Some (Chatting, ascii ''* '' @ u @ ascii '' has left the room'' @ [10])"
| "on_mail _ _ = None"

section \<open>The room\<close>

type_synonym clients = "nat \<rightharpoonup> rstring option"
type_synonym tasks = "nat \<rightharpoonup> task"

definition is_username_valid :: "(byte list \<Rightarrow> bool) \<Rightarrow> (clients \<Rightarrow> nat list) \<Rightarrow> clients \<Rightarrow> rstring \<Rightarrow> bool" where
  "is_username_valid alnum order cs username \<longleftrightarrow>
     username \<noteq> [] \<and> list_all alnum (utf8_chars username) \<and>
     list_all (\<lambda>i. case cs i of Some (Some other) \<Rightarrow> other \<noteq> username | _ \<Rightarrow> True) (order cs)"

text \<open>\<open>sender.send(..)?\<close> for one recipient after the other: it fails when a receiver is gone.\<close>

fun send_all :: "(nat \<times> server_message) list \<Rightarrow> tasks \<Rightarrow> tasks \<times> bool" where
  "send_all [] ts = (ts, True)"
| "send_all ((i, m) # ms) ts =
     (case ts i of
        Some t \<Rightarrow>
          (if receiver_alive t then send_all ms (ts(i \<mapsto> t\<lparr>t_mail := t_mail t @ [m]\<rparr>)) else (ts, False))
      | None \<Rightarrow> (ts, False))"

definition others :: "(clients \<Rightarrow> nat list) \<Rightarrow> clients \<Rightarrow> nat \<Rightarrow> (nat \<times> rstring) list" where
  "others order cs i = List.map_filter (\<lambda>j. case cs j of Some (Some u) \<Rightarrow> if j \<noteq> i then Some (j, u) else None | _ \<Rightarrow> None) (order cs)"

text \<open>One message of a client: the table, the tasks, and whether the loop goes on (\<open>Ok\<close>), \<open>run\<close> returns an
  error, or panics.\<close>

definition sent :: "clients \<Rightarrow> tasks \<times> bool \<Rightarrow> clients \<times> tasks \<times> (unit, unit) outcome" where
  "sent cs r = (cs, fst r, if snd r then Ok () else Err ())"

fun chat_serve :: "(byte list \<Rightarrow> bool) \<Rightarrow> (clients \<Rightarrow> nat list) \<Rightarrow> client_message \<Rightarrow> clients \<Rightarrow> tasks \<Rightarrow>
    clients \<times> tasks \<times> (unit, unit) outcome" where
  "chat_serve alnum order (SetUsername i username) cs ts =
     (if is_username_valid alnum order cs username then
        (case cs i of
           Some None \<Rightarrow> sent (cs(i \<mapsto> Some username)) (send_all [(i, UsernameAccepted)] ts)
         | _ \<Rightarrow> (cs, ts, Panic))
      else
        (case cs i of
           Some _ \<Rightarrow> sent cs (send_all [(i, UsernameInvalid)] ts)
         | None \<Rightarrow> (cs, ts, Panic)))"
| "chat_serve alnum order (Joined i) cs ts =
     (case cs i of
        Some (Some user) \<Rightarrow>
          (let os = others order cs i
           in sent cs (send_all (map (\<lambda>(j, _). (j, AnnounceUser user)) os @ [(i, Users (map snd os))]) ts))
      | Some None \<Rightarrow> (cs, ts, Ok ())
      | None \<Rightarrow> (cs, ts, Panic))"
| "chat_serve alnum order (Chat_message i m) cs ts =
     (case cs i of
        Some (Some user) \<Rightarrow> sent cs (send_all (map (\<lambda>(j, _). (j, User_message user m)) (others order cs i)) ts)
      | Some None \<Rightarrow> (cs, ts, Ok ())
      | None \<Rightarrow> (cs, ts, Panic))"
| "chat_serve alnum order (Disconnect i) cs ts =
     (case cs i of
        Some (Some user) \<Rightarrow>
          (case send_all (map (\<lambda>(j, _). (j, Disconnected user)) (others order cs i)) ts of
             (ts, True) \<Rightarrow> (cs(i := None), ts, Ok ())
           | (ts, False) \<Rightarrow> (cs, ts, Err ()))
      | Some None \<Rightarrow> (cs(i := None), ts, Ok ())
      | None \<Rightarrow> (cs, ts, Ok ()))"

section \<open>Runs\<close>

record chat =
  last_id :: nat
  clients :: clients
  inbox :: "client_message list"
  tasks :: tasks
  status :: "(unit, unit) outcome"

definition chat_new :: chat where
  "chat_new = \<lparr>last_id = 0, clients = Map.empty, inbox = [], tasks = Map.empty, status = Ok ()\<rparr>"

text \<open>\<open>Accept_failed\<close>: \<open>accept\<close> fails, and \<open>run\<close> returns the error. \<open>Mail i ok\<close>: the task of client \<open>i\<close> takes its next message, and \<open>ok\<close> says whether what it writes
  reaches the connection. \<open>Line i bs\<close>: a line arrives, without its end; \<open>Eof i\<close>: the connection ends or fails.\<close>

datatype chat_event = Accept | Accept_failed | Serve | Mail nat bool | Line nat "byte list" | Eof nat | Close nat

definition set_task :: "nat \<Rightarrow> task \<Rightarrow> chat \<Rightarrow> chat" where
  "set_task i t s = s\<lparr>tasks := (tasks s)(i \<mapsto> t)\<rparr>"

definition tell :: "client_message \<Rightarrow> chat \<Rightarrow> chat" where
  "tell m s = s\<lparr>inbox := inbox s @ [m]\<rparr>"

definition chat_mail :: "nat \<Rightarrow> bool \<Rightarrow> task \<Rightarrow> chat \<Rightarrow> chat option" where
  "chat_mail i ok t s =
     (if \<not> receiver_alive t \<or> t_phase t = Joining then None
      else case t_mail t of
        [] \<Rightarrow> None
      | m # ms \<Rightarrow>
          Some (case on_mail (t_phase t) m of
             None \<Rightarrow> set_task i (t\<lparr>t_mail := ms, t_phase := Dead\<rparr>) s
           | Some (p, bs) \<Rightarrow>
               (if bs \<noteq> [] \<and> \<not> ok then set_task i (t\<lparr>t_mail := ms, t_phase := Closing\<rparr>) s
                else
                  (let s = set_task i (t\<lparr>t_mail := ms, t_phase := p, t_written := t_written t @ bs\<rparr>) s
                   in if p = Entering then tell (Joined i) s else s))))"

definition chat_line :: "nat \<Rightarrow> byte list \<Rightarrow> task \<Rightarrow> chat \<Rightarrow> chat option" where
  "chat_line i bs t s =
     (if t_phase t = Joining then Some (tell (SetUsername i (utf8_lossy bs)) (set_task i (t\<lparr>t_phase := Naming\<rparr>) s))
      else if t_phase t = Chatting then Some (tell (Chat_message i (utf8_lossy bs)) s)
      else None)"

text \<open>What \<open>run\<close> does with the result of \<open>accept\<close>: whether it is a connection.\<close>

fun chat_accept :: "bool \<Rightarrow> chat \<Rightarrow> chat" where
  "chat_accept True s =
     (let i = last_id s + 1
      in s\<lparr>last_id := i, clients := (clients s)(i \<mapsto> None),
           tasks := (tasks s)(i \<mapsto> \<lparr>t_phase = WaitingWelcome, t_mail = [Welcome], t_written = []\<rparr>)\<rparr>)"
| "chat_accept False s = s\<lparr>status := Err ()\<rparr>"

fun chat_do :: "(byte list \<Rightarrow> bool) \<Rightarrow> (clients \<Rightarrow> nat list) \<Rightarrow> chat_event \<Rightarrow> chat \<Rightarrow> chat option" where
  "chat_do alnum order Accept s = Some (chat_accept True s)"
| "chat_do alnum order Accept_failed s = Some (chat_accept False s)"
| "chat_do alnum order Serve s =
     (case inbox s of
        [] \<Rightarrow> None
      | m # ms \<Rightarrow>
          (case chat_serve alnum order m (clients s) (tasks s) of
             (cs, ts, r) \<Rightarrow> Some (s\<lparr>clients := cs, tasks := ts, inbox := ms, status := r\<rparr>)))"
| "chat_do alnum order (Mail i ok) s = Option.bind (tasks s i) (\<lambda>t. chat_mail i ok t s)"
| "chat_do alnum order (Line i bs) s = Option.bind (tasks s i) (\<lambda>t. if 10 \<in> set bs then None else chat_line i bs t s)"
| "chat_do alnum order (Eof i) s =
     Option.bind (tasks s i) (\<lambda>t.
       if t_phase t \<in> {Joining, Chatting} then Some (set_task i (t\<lparr>t_phase := Closing\<rparr>) s) else None)"
| "chat_do alnum order (Close i) s =
     Option.bind (tasks s i) (\<lambda>t.
       if t_phase t = Closing then Some (tell (Disconnect i) (set_task i (t\<lparr>t_phase := Done\<rparr>) s)) else None)"

text \<open>A run ends with \<open>run\<close>.\<close>

fun chat_run :: "(byte list \<Rightarrow> bool) \<Rightarrow> (clients \<Rightarrow> nat list) \<Rightarrow> chat_event list \<Rightarrow> chat \<Rightarrow> chat option" where
  "chat_run alnum order [] s = Some s"
| "chat_run alnum order (e # es) s =
     (if status s = Ok () then Option.bind (chat_do alnum order e s) (chat_run alnum order es) else None)"

section \<open>What a client has sent and the room has not read\<close>

definition order_ok :: "(clients \<Rightarrow> nat list) \<Rightarrow> bool" where
  "order_ok order \<longleftrightarrow> (\<forall>cs. finite (dom cs) \<longrightarrow> set (order cs) = dom cs \<and> distinct (order cs))"

definition pending :: "nat \<Rightarrow> chat \<Rightarrow> client_message list" where
  "pending i s = filter (\<lambda>m. sender_of m = i) (inbox s)"

fun names :: "client_message \<Rightarrow> bool" where
  "names (SetUsername _ _) = True"
| "names _ = False"

text \<open>A name comes first and once, while the client has none; the farewell comes last and once, and is on
  its way if and only if the client is done and still in the table.\<close>

definition farewell_ok :: "nat \<Rightarrow> bool \<Rightarrow> client_message list \<Rightarrow> bool" where
  "farewell_ok i leaving q \<longleftrightarrow>
     (if leaving then \<exists>q'. q = q' @ [Disconnect i] \<and> Disconnect i \<notin> set q' else Disconnect i \<notin> set q)"

definition name_ok :: "rstring option option \<Rightarrow> client_message list \<Rightarrow> bool" where
  "name_ok c q \<longleftrightarrow> (case q of [] \<Rightarrow> True | m # ms \<Rightarrow> (names m \<longrightarrow> c = Some None) \<and> (\<forall>n \<in> set ms. \<not> names n))"

definition client_ok :: "nat \<Rightarrow> client_phase \<Rightarrow> rstring option option \<Rightarrow> client_message list \<Rightarrow> bool" where
  "client_ok i p c q \<longleftrightarrow>
     (c = None \<longrightarrow> p = Done \<and> q = []) \<and>
     (p = WaitingWelcome \<or> p = Joining \<longrightarrow> q = [] \<and> c = Some None) \<and>
     name_ok c q \<and> farewell_ok i (p = Done \<and> c \<noteq> None) q"

definition room_ok :: "chat \<Rightarrow> bool" where
  "room_ok s \<longleftrightarrow>
     finite (dom (clients s)) \<and> dom (clients s) \<subseteq> dom (tasks s) \<and> (\<forall>i \<in> dom (tasks s). i \<le> last_id s) \<and>
     sender_of ` set (inbox s) \<subseteq> dom (tasks s) \<and>
     (\<forall>i t. tasks s i = Some t \<longrightarrow> client_ok i (t_phase t) (clients s i) (pending i s))"

definition names_ok :: "(byte list \<Rightarrow> bool) \<Rightarrow> clients \<Rightarrow> bool" where
  "names_ok alnum cs \<longleftrightarrow>
     (\<forall>i j u. cs i = Some (Some u) \<longrightarrow> cs j = Some (Some u) \<longrightarrow> i = j) \<and>
     (\<forall>i u. cs i = Some (Some u) \<longrightarrow> u \<noteq> [] \<and> list_all alnum (utf8_chars u))"

definition chat_ok :: "(byte list \<Rightarrow> bool) \<Rightarrow> chat \<Rightarrow> bool" where
  "chat_ok alnum s \<longleftrightarrow> status s \<noteq> Panic \<and> (status s = Ok () \<longrightarrow> room_ok s \<and> names_ok alnum (clients s))"

text \<open>Sending puts messages into mailboxes and changes nothing else.\<close>

definition mailed :: "nat \<Rightarrow> (nat \<times> server_message) list \<Rightarrow> task \<Rightarrow> task" where
  "mailed i ms t = t\<lparr>t_mail := t_mail t @ map snd (filter (\<lambda>(j, _). j = i) ms)\<rparr>"

lemma mailed_simps [simp]: "t_phase (mailed i ms t) = t_phase t" "t_written (mailed i ms t) = t_written t"
  by (simp_all add: mailed_def)

lemma send_all_phase: "map_option t_phase (fst (send_all ms ts) i) = map_option t_phase (ts i)"
proof (induction ms ts rule: send_all.induct)
  case (2 j m ms ts)
  show ?case
  proof (cases "\<exists>t. ts j = Some t \<and> receiver_alive t")
    case True
    then obtain t where t: "ts j = Some t" "receiver_alive t"
      by blast
    with 2(1) [OF t] show ?thesis
      by (cases "i = j") (simp_all add: fun_upd_def)
  qed (auto split: option.splits)
qed simp

text \<open>What the room keeps of the tasks and the table while it serves a client.\<close>

definition same_phases :: "tasks \<Rightarrow> tasks \<Rightarrow> bool" where
  "same_phases ts ts' \<longleftrightarrow> (\<forall>i. map_option t_phase (ts' i) = map_option t_phase (ts i))"

lemma same_phasesD: "same_phases ts ts' \<Longrightarrow> dom ts' = dom ts" "same_phases ts ts' \<Longrightarrow> ts' i = Some t' \<Longrightarrow> \<exists>t. ts i = Some t \<and> t_phase t' = t_phase t"
proof -
  assume same: "same_phases ts ts'"
  have "ts' i = None \<longleftrightarrow> ts i = None" for i
    using same None_eq_map_option_iff [of t_phase] unfolding same_phases_def by metis
  then show "dom ts' = dom ts"
    by (auto simp: dom_def)
  show "\<exists>t. ts i = Some t \<and> t_phase t' = t_phase t" if "ts' i = Some t'"
    using same that unfolding same_phases_def by (cases "ts i") (auto dest: spec [of _ i])
qed

lemma serve_frame:
  assumes "chat_serve alnum order m cs ts = (cs', ts', r)"
  shows "same_phases ts ts'" "i \<noteq> sender_of m \<Longrightarrow> cs' i = cs i"
proof -
  have fst: "same_phases ts (fst (send_all ms ts))" for ms
    by (simp add: same_phases_def send_all_phase)
  have refl: "same_phases ts ts"
    by (simp add: same_phases_def)
  have "same_phases ts (fst (snd (chat_serve alnum order m cs ts)))"
  proof (cases m)
    case (Disconnect j)
    have "same_phases ts ts1" if "send_all ms ts = (ts1, b)" for ms ts1 b
      using fst [of ms] that by simp
    then show ?thesis
      unfolding Disconnect by (auto simp: refl split: option.split prod.split bool.split)
  qed (auto simp: sent_def Let_def fst refl simp del: send_all.simps split: option.split)
  with assms show "same_phases ts ts'"
    by simp
  show "cs' i = cs i" if "i \<noteq> sender_of m"
    using assms that by (cases m) (auto simp: sent_def Let_def split: option.splits if_splits prod.splits bool.splits)
qed

lemma pending_tell: "pending i (tell m s) = pending i s @ (if sender_of m = i then [m] else [])"
  by (simp add: pending_def tell_def)

lemma pending_simps [simp]: "pending i (set_task j t s) = pending i s" "pending i (s\<lparr>tasks := ts\<rparr>) = pending i s"
  "pending i (s\<lparr>clients := cs\<rparr>) = pending i s"
  by (simp_all add: pending_def set_task_def)

text \<open>A task that goes on: what it tells the room comes after what it told before.\<close>

lemma name_ok_simps [simp]: "name_ok c []" "name_ok c (m # ms) \<longleftrightarrow> (names m \<longrightarrow> c = Some None) \<and> (\<forall>n \<in> set ms. \<not> names n)"
  by (simp_all add: name_ok_def)

lemma farewell_ok_simps [simp]:
  "farewell_ok i False q \<longleftrightarrow> Disconnect i \<notin> set q" "\<not> farewell_ok i True []"
  "farewell_ok i True (m # q) \<longleftrightarrow> (if q = [] then m = Disconnect i else m \<noteq> Disconnect i \<and> farewell_ok i True q)"
  "farewell_ok i True (q @ [m]) \<longleftrightarrow> m = Disconnect i \<and> Disconnect i \<notin> set q"
  by (auto simp: farewell_ok_def Cons_eq_append_conv)

lemma client_ok_phase:
  "client_ok i p c q \<Longrightarrow> p \<noteq> Done \<Longrightarrow> p' \<notin> {WaitingWelcome, Joining, Done} \<Longrightarrow> client_ok i p' c q"
  by (auto simp: client_ok_def)

lemma client_ok_tell:
  "client_ok i p c q \<Longrightarrow> p \<notin> {WaitingWelcome, Joining, Done} \<Longrightarrow> \<not> names m \<Longrightarrow> m \<noteq> Disconnect i \<Longrightarrow> client_ok i p c (q @ [m])"
proof -
  assume *: "client_ok i p c q" "p \<notin> {WaitingWelcome, Joining, Done}" "\<not> names m" "m \<noteq> Disconnect i"
  then have leaving: "(p = Done \<and> c \<noteq> None) = False"
    by blast
  have "c \<noteq> None" "name_ok c q" "Disconnect i \<notin> set q"
    using * unfolding client_ok_def leaving farewell_ok_simps by blast+
  moreover from this(2) *(3) have "name_ok c (q @ [m])"
    by (cases q) auto
  moreover have "Disconnect i \<notin> set (q @ [m])"
    using \<open>Disconnect i \<notin> set q\<close> *(4) by auto
  ultimately show ?thesis
    using *(2) unfolding client_ok_def leaving farewell_ok_simps by blast
qed

lemma client_ok_name: "client_ok i Joining c q \<Longrightarrow> client_ok i Naming c (q @ [SetUsername i u])"
  by (auto simp: client_ok_def)

lemma client_ok_done: "client_ok i Closing c q \<Longrightarrow> client_ok i Done c (q @ [Disconnect i])"
  by (cases q; cases c) (auto simp: client_ok_def)

text \<open>The room reads a message of a client.\<close>

lemma serve_client:
  assumes "client_ok i p (cs i) (m # q)" and "sender_of m = i" and "chat_serve alnum order m cs ts = (cs', ts', r)"
  shows "r \<noteq> Panic" "r = Ok () \<Longrightarrow> client_ok i p (cs' i) q"
proof -
  have c: "cs i \<noteq> None" "names m \<longrightarrow> cs i = Some None" "\<forall>n \<in> set q. \<not> names n"
    "farewell_ok i (p = Done) (m # q)" "p \<noteq> WaitingWelcome" "p \<noteq> Joining"
    using assms(1) by (auto simp: client_ok_def)
  have name: "name_ok d q" for d
    using c(3) by (cases q) auto
  show "r \<noteq> Panic"
    using assms(2,3) c(1,2) by (cases m) (auto simp: sent_def Let_def split: option.splits if_splits prod.splits bool.splits)
  assume r: "r = Ok ()"
  show "client_ok i p (cs' i) q"
  proof (cases "m = Disconnect i")
    case True
    with c(4) have "q = []" "p = Done"
      by (cases "p = Done"; cases "q = []"; simp)+
    moreover have "cs' i = None"
      using assms(3) r c(1) unfolding True by (auto split: option.splits prod.splits bool.splits)
    ultimately show ?thesis
      by (simp add: client_ok_def)
  next
    case False
    with c(4) have "farewell_ok i (p = Done) q"
      by (cases "p = Done"; cases "q = []"; simp)
    moreover have "cs' i \<noteq> None"
      using False assms(2,3) c(1) by (cases m) (auto simp: sent_def Let_def split: option.splits if_splits prod.splits)
    ultimately show ?thesis
      using name c(5,6) by (simp add: client_ok_def del: not_None_eq)
  qed
qed

lemma room_okD:
  assumes "room_ok s" and "tasks s i = Some t"
  shows "client_ok i (t_phase t) (clients s i) (pending i s)" "i \<le> last_id s"
  using assms unfolding room_ok_def by blast+

text \<open>A task changes and perhaps tells the room something.\<close>

lemma room_ok_task:
  assumes "room_ok s" and "tasks s i = Some t" and "client_ok i (t_phase t') (clients s i) (pending i s)"
  shows "room_ok (set_task i t' s)"
  using assms unfolding room_ok_def by (auto simp: set_task_def pending_def split: if_splits)

lemma room_ok_tell:
  assumes "room_ok s" and "tasks s i = Some t" and "client_ok i (t_phase t') (clients s i) (pending i s @ [m])" and "sender_of m = i"
  shows "room_ok (tell m (set_task i t' s))"
  using assms unfolding room_ok_def
  by (auto simp: set_task_def tell_def pending_def split: if_splits)

lemma names_ok_set:
  assumes "names_ok alnum cs" and "order_ok order" and "finite (dom cs)" and "is_username_valid alnum order cs u"
  shows "names_ok alnum (cs(i \<mapsto> Some u))"
proof -
  have "set (order cs) = dom cs"
    using assms(2,3) by (simp add: order_ok_def)
  then have "u \<noteq> []" "list_all alnum (utf8_chars u)" "\<And>j. cs j \<noteq> Some (Some u)"
    using assms(4) by (auto simp: is_username_valid_def list_all_iff split: option.splits)
  with assms(1) show ?thesis
    unfolding names_ok_def by auto
qed

lemma names_ok_drop: "names_ok alnum cs \<Longrightarrow> names_ok alnum (cs(i := None))"
  unfolding names_ok_def by auto

lemma serve_names:
  assumes "chat_serve alnum order m cs ts = (cs', ts', r)" and "names_ok alnum cs" and "order_ok order" and "finite (dom cs)"
  shows "names_ok alnum cs'"
proof (cases "\<exists>i u. m = SetUsername i u \<and> is_username_valid alnum order cs u \<and> cs i = Some None")
  case True
  then obtain i u where m: "m = SetUsername i u" "is_username_valid alnum order cs u" "cs i = Some None"
    by blast
  with assms(1) have cs': "cs' = cs(i \<mapsto> Some u)"
    by (simp add: sent_def del: send_all.simps)
  show ?thesis
    unfolding cs' by (rule names_ok_set [OF assms(2-4) m(2)])
next
  case False
  with assms(1) have "cs' = cs \<or> (\<exists>i. cs' = cs(i := None))"
    by (cases m) (auto simp: sent_def Let_def split: option.splits if_splits prod.splits bool.splits)
  with names_ok_drop [OF assms(2)] assms(2) show ?thesis
    by blast
qed

lemma serve_ok:
  assumes "chat_ok alnum s" and "status s = Ok ()" and "order_ok order" and "chat_do alnum order Serve s = Some s'"
  shows "chat_ok alnum s'"
proof -
  obtain m ms where m: "status s = Ok ()" "inbox s = m # ms"
    using assms(2,4) by (auto split: list.splits)
  with assms(1) have room: "room_ok s" and names: "names_ok alnum (clients s)"
    by (simp_all add: chat_ok_def)
  obtain cs ts r where chat_serve: "chat_serve alnum order m (clients s) (tasks s) = (cs, ts, r)"
    by (cases "chat_serve alnum order m (clients s) (tasks s)")
  with assms(4) m have s': "s' = s\<lparr>clients := cs, tasks := ts, inbox := ms, status := r\<rparr>"
    by simp
  note frame = serve_frame [OF chat_serve]
  let ?i = "sender_of m"
  obtain t where t: "tasks s ?i = Some t"
    using room m(2) unfolding room_ok_def by auto
  have head: "pending ?i s = m # pending ?i s'"
    using m(2) by (simp add: pending_def s')
  have client: "client_ok ?i (t_phase t) (clients s ?i) (m # pending ?i s')"
    using room_okD(1) [OF room t] by (simp add: head)
  have "r \<noteq> Panic"
    by (rule serve_client(1) [OF client refl chat_serve])
  moreover have "room_ok s'" if "r = Ok ()"
    unfolding room_ok_def
  proof (intro conjI allI impI)
    show "finite (dom (clients s'))"
    proof (rule finite_subset)
      show "dom (clients s') \<subseteq> insert ?i (dom (clients s))"
        using frame(2) by (auto simp: s')
      show "finite (insert ?i (dom (clients s)))"
        using room by (simp add: room_ok_def)
    qed
    show "dom (clients s') \<subseteq> dom (tasks s')"
    proof
      fix j
      assume j: "j \<in> dom (clients s')"
      have "j \<in> dom (tasks s)"
      proof (cases "j = ?i")
        case True
        with t show ?thesis
          by blast
      next
        case False
        with j frame(2) have "j \<in> dom (clients s)"
          by (auto simp: s')
        with room show ?thesis
          unfolding room_ok_def by blast
      qed
      then show "j \<in> dom (tasks s')"
        using same_phasesD(1) [OF frame(1)] by (simp add: s')
    qed
    show "\<forall>i \<in> dom (tasks s'). i \<le> last_id s'"
      using room same_phasesD(1) [OF frame(1)] by (simp add: s' room_ok_def)
    show "sender_of ` set (inbox s') \<subseteq> dom (tasks s')"
      using room m(2) same_phasesD(1) [OF frame(1)] by (simp add: s' room_ok_def)
    fix i t'
    assume t': "tasks s' i = Some t'"
    then obtain u where u: "tasks s i = Some u" "t_phase t' = t_phase u"
      using same_phasesD(2) [OF frame(1), of i t'] by (auto simp: s')
    show "client_ok i (t_phase t') (clients s' i) (pending i s')"
    proof (cases "i = ?i")
      case True
      with u t serve_client(2) [OF client refl chat_serve that] show ?thesis
        by (simp add: s')
    next
      case False
      then have "pending i s' = pending i s" "clients s' i = clients s i"
        using m(2) frame(2) by (simp_all add: pending_def s')
      with room_okD(1) [OF room u(1)] u(2) show ?thesis
        by simp
    qed
  qed
  moreover have "names_ok alnum (clients s')"
    using serve_names [OF chat_serve names assms(3)] room by (simp add: s' room_ok_def)
  ultimately show ?thesis
    by (simp add: chat_ok_def s')
qed

lemma chat_mail_ok:
  assumes "room_ok s" and "tasks s i = Some t" and "chat_mail i ok t s = Some s'"
  shows "room_ok s'"
proof -
  obtain m ms where m: "t_mail t = m # ms" "receiver_alive t" "t_phase t \<noteq> Joining"
    using assms(3) by (auto simp: chat_mail_def split: if_splits list.splits)
  then have alive: "t_phase t \<noteq> Done" "t_phase t \<noteq> Closing"
    by (auto simp: receiver_alive_def)
  note client = room_okD(1) [OF assms(1,2)]
  have move: "room_ok (set_task i t' s)" if "t_phase t' \<notin> {WaitingWelcome, Joining, Done}" for t'
    by (rule room_ok_task [OF assms(1,2) client_ok_phase [OF client alive(1) that]])
  show ?thesis
  proof (cases "on_mail (t_phase t) m")
    case None
    with assms(3) m move [of "t\<lparr>t_mail := ms, t_phase := Dead\<rparr>"] show ?thesis
      by (simp add: chat_mail_def)
  next
    case (Some r)
    then obtain p bs where r: "on_mail (t_phase t) m = Some (p, bs)"
      by (cases r) auto
    let ?t = "t\<lparr>t_mail := ms, t_phase := p, t_written := t_written t @ bs\<rparr>"
    consider "s' = set_task i (t\<lparr>t_mail := ms, t_phase := Closing\<rparr>) s" | "p \<noteq> Entering" "s' = set_task i ?t s"
      | "p = Entering" "s' = tell (Joined i) (set_task i ?t s)"
      using assms(3) m r by (cases "p = Entering") (auto simp: chat_mail_def Let_def split: if_splits)
    then show ?thesis
    proof cases
      case 1
      with move [of "t\<lparr>t_mail := ms, t_phase := Closing\<rparr>"] show ?thesis
        by simp
    next
      case 2
      show ?thesis
      proof (cases "p = Joining")
        case True
        with r have "t_phase t = WaitingWelcome"
          by (cases "t_phase t"; cases m) auto
        with client have "client_ok i p (clients s i) (pending i s)"
          by (simp add: True client_ok_def)
        with 2 room_ok_task [OF assms(1,2), of ?t] show ?thesis
          by simp
      next
        case False
        moreover have "p \<noteq> WaitingWelcome" "p \<noteq> Done"
          using r by (cases "t_phase t"; cases m; auto)+
        ultimately show ?thesis
          using 2 move [of ?t] by simp
      qed
    next
      case 3
      with r have "t_phase t = Naming"
        by (cases "t_phase t"; cases m) auto
      with client have "client_ok i Entering (clients s i) (pending i s @ [Joined i])"
        using client_ok_tell [OF client_ok_phase [of i Naming _ _ Entering], of "clients s i" "pending i s" "Joined i"] by simp
      with 3 room_ok_tell [OF assms(1,2), of ?t] show ?thesis
        by simp
    qed
  qed
qed

lemma chat_line_ok:
  assumes "room_ok s" and "tasks s i = Some t" and "chat_line i bs t s = Some s'"
  shows "room_ok s'"
proof (cases "t_phase t = Joining")
  case True
  have "room_ok (tell (SetUsername i (utf8_lossy bs)) (set_task i (t\<lparr>t_phase := Naming\<rparr>) s))"
  proof (rule room_ok_tell [OF assms(1,2)])
    have "client_ok i Joining (clients s i) (pending i s)"
      using room_okD(1) [OF assms(1,2)] True by simp
    from client_ok_name [OF this] show "client_ok i (t_phase (t\<lparr>t_phase := Naming\<rparr>)) (clients s i) (pending i s @ [SetUsername i (utf8_lossy bs)])"
      by simp
  qed simp
  with True assms(3) show ?thesis
    by (simp add: chat_line_def)
next
  case False
  with assms(3) have chatting: "t_phase t = Chatting" "s' = tell (Chat_message i (utf8_lossy bs)) s"
    by (auto simp: chat_line_def split: if_splits)
  have "room_ok (tell (Chat_message i (utf8_lossy bs)) (set_task i t s))"
  proof (rule room_ok_tell [OF assms(1,2)])
    show "client_ok i (t_phase t) (clients s i) (pending i s @ [Chat_message i (utf8_lossy bs)])"
      using chatting(1) by (intro client_ok_tell [OF room_okD(1) [OF assms(1,2)]]) simp_all
  qed simp
  moreover have "set_task i t s = s"
    using assms(2) by (simp add: set_task_def fun_upd_idem)
  ultimately show ?thesis
    by (simp add: chatting(2))
qed

lemma pending_fresh:
  assumes "sender_of ` set (inbox s) \<subseteq> dom (tasks s)" and "i \<notin> dom (tasks s)"
  shows "pending i s = []"
  unfolding pending_def filter_empty_conv
proof (intro ballI notI)
  fix m
  assume m: "m \<in> set (inbox s)" "sender_of m = i"
  from m(1) assms(1) have "sender_of m \<in> dom (tasks s)"
    by (meson image_eqI subsetD)
  with m(2) assms(2) show False
    by simp
qed

lemma accept_ok:
  assumes "room_ok s" and "chat_do alnum order Accept s = Some s'"
  shows "room_ok s'"
proof -
  let ?i = "last_id s + 1"
  have le: "\<forall>i \<in> dom (tasks s). i \<le> last_id s" and inbox: "sender_of ` set (inbox s) \<subseteq> dom (tasks s)"
    using assms(1) by (simp_all add: room_ok_def)
  have fresh: "?i \<notin> dom (tasks s)"
    using le by (metis Suc_eq_plus1 Suc_n_not_le_n)
  have pending: "pending ?i s = []"
    by (rule pending_fresh [OF inbox fresh])
  have s': "s' = s\<lparr>last_id := ?i, clients := (clients s)(?i \<mapsto> None),
      tasks := (tasks s)(?i \<mapsto> \<lparr>t_phase = WaitingWelcome, t_mail = [Welcome], t_written = []\<rparr>)\<rparr>"
    using assms(2) by (simp add: Let_def)
  have "client_ok i (t_phase t) (clients s' i) (pending i s')" if "tasks s' i = Some t" for i t
  proof (cases "i = ?i")
    case True
    with that pending show ?thesis
      by (auto simp: s' pending_def client_ok_def)
  next
    case False
    with that room_okD(1) [OF assms(1), of i t] show ?thesis
      by (simp add: s' pending_def)
  qed
  moreover have "finite (dom (clients s'))" "dom (clients s') \<subseteq> dom (tasks s')" "sender_of ` set (inbox s') \<subseteq> dom (tasks s')"
    using assms(1) by (auto simp: s' room_ok_def)
  moreover have "\<forall>i \<in> dom (tasks s'). i \<le> last_id s'"
    using le by (auto simp: s' intro: le_SucI)
  ultimately show ?thesis
    by (simp add: room_ok_def)
qed

lemma chat_do_ok:
  assumes "chat_ok alnum s" and "status s = Ok ()" and "order_ok order" and "chat_do alnum order e s = Some s'"
  shows "chat_ok alnum s'"
proof (cases "e = Serve \<or> e = Accept_failed")
  case True
  then show ?thesis
  proof
    assume "e = Serve"
    with assms show ?thesis
      using serve_ok by blast
  next
    assume "e = Accept_failed"
    with assms(4) show ?thesis
      by (auto simp: chat_ok_def)
  qed
next
  case False
  have frame: "status s' = status s" "names_ok alnum (clients s) \<Longrightarrow> names_ok alnum (clients s')"
    using assms(4) False
    by (cases e; auto simp: chat_mail_def chat_line_def set_task_def tell_def Let_def names_ok_def
        split: if_splits list.splits option.splits bind_splits)+
  have "room_ok s'" if room: "room_ok s"
  proof (cases e)
    case Accept
    with room assms(4) show ?thesis
      using accept_ok by blast
  next
    case (Mail i ok)
    with room assms(4) show ?thesis
      using chat_mail_ok by (auto split: bind_splits)
  next
    case (Line i bs)
    with room assms(4) show ?thesis
      using chat_line_ok by (auto split: bind_splits if_splits)
  next
    case (Eof i)
    with assms(4) obtain t where t: "tasks s i = Some t" "t_phase t = Joining \<or> t_phase t = Chatting" "s' = set_task i (t\<lparr>t_phase := Closing\<rparr>) s"
      by (auto split: bind_splits if_splits)
    show ?thesis
      unfolding t(3) using t(2) client_ok_phase [OF room_okD(1) [OF room t(1)], of Closing]
      by (intro room_ok_task [OF room t(1)]) auto
  next
    case (Close i)
    with assms(4) obtain t where t: "tasks s i = Some t" "t_phase t = Closing" "s' = tell (Disconnect i) (set_task i (t\<lparr>t_phase := Done\<rparr>) s)"
      by (auto split: bind_splits if_splits)
    show ?thesis
      unfolding t(3) using client_ok_done room_okD(1) [OF room t(1)] t(2)
      by (intro room_ok_tell [OF room t(1)]) simp_all
  qed (use False in simp_all)
  with assms(1) frame show ?thesis
    by (simp add: chat_ok_def)
qed

lemma chat_run_ok:
  "chat_run alnum order es s = Some s' \<Longrightarrow> chat_ok alnum s \<Longrightarrow> order_ok order \<Longrightarrow> chat_ok alnum s'"
  by (induction es arbitrary: s) (auto split: bind_splits if_splits intro: chat_do_ok)

lemma chat_ok_new: "chat_ok alnum chat_new"
  by (simp add: chat_ok_def chat_new_def room_ok_def names_ok_def)

section \<open>Runs on concrete input\<close>

text \<open>A \<open>HashMap\<close> that happens to hold its keys in order, and the alphanumeric ASCII characters.\<close>

definition by_id :: "clients \<Rightarrow> nat list" where
  "by_id cs = sorted_list_of_set (dom cs)"

definition ascii_alnum :: "byte list \<Rightarrow> bool" where
  "ascii_alnum c \<longleftrightarrow> (case c of [b] \<Rightarrow> 48 \<le> b \<and> b \<le> 57 \<or> 65 \<le> b \<and> b \<le> 90 \<or> 97 \<le> b \<and> b \<le> 122 | _ \<Rightarrow> False)"

lemma order_ok_by_id: "order_ok by_id"
  by (simp add: order_ok_def by_id_def)

lemma by_id_eq: "dom cs = set xs \<Longrightarrow> sorted xs \<Longrightarrow> distinct xs \<Longrightarrow> by_id cs = xs"
  by (simp add: by_id_def sorted_list_of_set.idem_if_sorted_distinct)

lemma by_id_small:
  "by_id Map.empty = []" "by_id [1 \<mapsto> c] = [1]" "by_id [Suc 0 \<mapsto> c] = [1]" "by_id [1 \<mapsto> c, 2 \<mapsto> d] = [1, 2]" "by_id [Suc 0 \<mapsto> c, 2 \<mapsto> d] = [1, 2]"
  by (rule by_id_eq; auto)+

text \<open>A client joins with a name.\<close>

definition join_events :: "nat \<Rightarrow> byte list \<Rightarrow> chat_event list" where
  "join_events i u = [Accept, Mail i True, Line i u, Serve, Mail i True, Serve, Mail i True]"

lemma ascii_text: "utf8_lossy [97] = [97]" "utf8_lossy [98] = [98]" "utf8_chars [97] = [[97]]" "utf8_chars [98] = [[98]]"
  by code_simp+

lemmas chat_eval = numeral_2_eq_2 [symmetric] chat_new_def set_task_def tell_def chat_mail_def chat_line_def join_events_def
  receiver_alive_def Let_def by_id_small is_username_valid_def others_def List.map_filter_def sent_def ascii_text ascii_alnum_def

section \<open>Properties\<close>

text \<open>C26: However connections, lines, ends of connections and the turns of the tasks are ordered, the server
  does not panic, and while it runs every name in the room is the name of one client only and is a
  nonempty string of alphanumeric characters.\<close>

theorem chat_names:
  assumes "order_ok order" and "chat_run alnum order es chat_new = Some s"
  shows "status s \<noteq> Panic \<and>
    (status s = Ok () \<longrightarrow>
      (\<forall>i j u. clients s i = Some (Some u) \<and> clients s j = Some (Some u) \<longrightarrow> i = j) \<and>
      (\<forall>i u. clients s i = Some (Some u) \<longrightarrow> u \<noteq> [] \<and> list_all alnum (utf8_chars u)))"
  using chat_run_ok [OF assms(2) chat_ok_new assms(1)] unfolding chat_ok_def names_ok_def by blast

lemma two_joined:
  "map_option (\<lambda>s. (status s, clients s)) (chat_run ascii_alnum by_id (join_events 1 [97] @ join_events 2 [98]) chat_new) =
    Some (Ok (), [1 \<mapsto> Some [97], 2 \<mapsto> Some [98]])"
  by (simp add: chat_eval)

theorem chat_names_witness:
  "\<exists>s. chat_run ascii_alnum by_id (join_events 1 [97] @ join_events 2 [98]) chat_new = Some s \<and>
    clients s 2 = Some (Some [98]) \<and> (\<forall>i j u. clients s i = Some (Some u) \<and> clients s j = Some (Some u) \<longrightarrow> i = j)"
proof -
  obtain s where s: "chat_run ascii_alnum by_id (join_events 1 [97] @ join_events 2 [98]) chat_new = Some s"
    "status s = Ok ()" "clients s = [1 \<mapsto> Some [97], 2 \<mapsto> Some [98]]"
    using two_joined by (auto simp: map_option_eq_Some)
  have "clients s 2 = Some (Some [98])"
    by (simp add: s(3))
  with chat_names [OF order_ok_by_id s(1)] s(1,2) show ?thesis
    by blast
qed

text \<open>Sending stops at the first receiver that is gone.\<close>

definition reachable :: "tasks \<Rightarrow> nat \<Rightarrow> bool" where
  "reachable ts j \<longleftrightarrow> (\<exists>t. ts j = Some t \<and> receiver_alive t)"

lemma send_all_takeWhile:
  "send_all ms ts = (ts', b) \<Longrightarrow>
     (\<forall>i. ts' i = map_option (mailed i (takeWhile (\<lambda>(j, _). reachable ts j) ms)) (ts i)) \<and>
     b = list_all (\<lambda>(j, _). reachable ts j) ms"
proof (induction ms ts arbitrary: ts' b rule: send_all.induct)
  case (1 ts)
  have "map_option (mailed i []) x = x" for i x
    by (cases x) (simp_all add: mailed_def)
  with 1 show ?case
    by simp
next
  case (2 j m ms ts)
  show ?case
  proof (cases "reachable ts j")
    case True
    then obtain t where t: "ts j = Some t" "receiver_alive t"
      by (auto simp: reachable_def)
    let ?ts = "ts(j \<mapsto> t\<lparr>t_mail := t_mail t @ [m]\<rparr>)"
    have same: "reachable ?ts = reachable ts"
      using t by (auto simp: reachable_def receiver_alive_def fun_eq_iff)
    have "send_all ms ?ts = (ts', b)"
      using 2(2) t by simp
    from 2(1) [OF t this] show ?thesis
      unfolding same using True t by (auto simp: mailed_def map_option_case split: option.split)
  next
    case False
    have "map_option (mailed i []) x = x" for i x
      by (cases x) (simp_all add: mailed_def)
    with False 2(2) show ?thesis
      by (auto simp: reachable_def split: option.splits if_splits)
  qed
qed

lemma others_recipients:
  assumes "order_ok order" and "finite (dom cs)"
  shows "distinct (map fst (others order cs i))" "set (map fst (others order cs i)) = {j. j \<noteq> i \<and> (\<exists>v. cs j = Some (Some v))}"
proof -
  let ?g = "\<lambda>k. case cs k of Some (Some u) \<Rightarrow> if k \<noteq> i then Some (k, u) else None | _ \<Rightarrow> None"
  have fst: "map fst (List.map_filter ?g xs) = filter (\<lambda>k. k \<noteq> i \<and> (\<exists>v. cs k = Some (Some v))) xs" for xs
    by (induction xs) (auto simp: map_filter_simps split: option.splits)
  have "set (order cs) = dom cs" "distinct (order cs)"
    using assms by (simp_all add: order_ok_def)
  then show "distinct (map fst (others order cs i))" "set (map fst (others order cs i)) = {j. j \<noteq> i \<and> (\<exists>v. cs j = Some (Some v))}"
    unfolding others_def fst by auto
qed

lemma mailed_to_all:
  "t_mail (mailed j (map (\<lambda>k. (k, m)) ks) t) = t_mail t @ (if j \<in> set ks then [m] else [])" if "distinct ks"
  using that by (induction ks) (auto simp: mailed_def)

text \<open>C27: When the server takes a chat message of a client that has a name, it goes through the other clients
  that have a name, each once, and each gets the message once, under the sender's name, until the first whose
  receiver is gone: then \<open>run\<close> ends with an error, and that client and those after it get nothing. If none is
  gone, all of them get it and the server goes on. No one else gets anything.\<close>

theorem chat_message_reaches_others:
  assumes "order_ok order" and "chat_run alnum order es chat_new = Some s"
    and "inbox s = Chat_message i m # q" and "clients s i = Some (Some u)"
    and "chat_do alnum order Serve s = Some s'" and "status s = Ok ()"
  shows "\<exists>to got. distinct to \<and> set to = {j. j \<noteq> i \<and> (\<exists>v. clients s j = Some (Some v))} \<and>
    got = takeWhile (reachable (tasks s)) to \<and>
    clients s' = clients s \<and> inbox s' = q \<and> status s' = (if got = to then Ok () else Err ()) \<and>
    (\<forall>j. map_option t_mail (tasks s' j) =
      map_option (\<lambda>t. t_mail t @ (if j \<in> set got then [User_message u m] else [])) (tasks s j))"
proof -
  have "finite (dom (clients s))"
    using chat_run_ok [OF assms(2) chat_ok_new assms(1)] assms(6) by (simp add: chat_ok_def room_ok_def)
  note to = others_recipients [OF assms(1) this, of i]
  define rs where "rs = map fst (others order (clients s) i)"
  define got where "got = takeWhile (reachable (tasks s)) rs"
  have ms: "map (\<lambda>(k, v). (k, User_message u m)) (others order (clients s) i) = map (\<lambda>k. (k, User_message u m)) rs"
    by (simp add: rs_def split_def)
  obtain ts b where ts: "send_all (map (\<lambda>k. (k, User_message u m)) rs) (tasks s) = (ts, b)"
    by (cases "send_all (map (\<lambda>k. (k, User_message u m)) rs) (tasks s)")
  have s': "s' = s\<lparr>tasks := ts, inbox := q, status := if b then Ok () else Err ()\<rparr>"
    using assms(3-5) ts by (simp add: sent_def ms)
  have "b = (got = rs)"
    using send_all_takeWhile [OF ts] takeWhile_eq_all_conv [of "reachable (tasks s)" rs]
    by (simp add: got_def list_all_iff)
  moreover have "ts j = map_option (mailed j (map (\<lambda>k. (k, User_message u m)) got)) (tasks s j)" for j
    using send_all_takeWhile [OF ts] by (simp add: got_def takeWhile_map comp_def)
  then have "map_option t_mail (ts j) =
      map_option (\<lambda>t. t_mail t @ (if j \<in> set got then [User_message u m] else [])) (tasks s j)" for j
    using to(1) mailed_to_all [of got j "User_message u m"]
    by (cases "tasks s j") (simp_all add: got_def rs_def)
  ultimately have "clients s' = clients s" "inbox s' = q" "status s' = (if got = rs then Ok () else Err ())"
    "\<forall>j. map_option t_mail (tasks s' j) =
      map_option (\<lambda>t. t_mail t @ (if j \<in> set got then [User_message u m] else [])) (tasks s j)"
    by (simp_all add: s')
  then show ?thesis
    using to [folded rs_def] got_def by blast
qed

theorem chat_message_reaches_others_witness:
  "\<exists>s s'. chat_run ascii_alnum by_id (join_events 1 [97] @ join_events 2 [98] @ [Line 1 [97]]) chat_new = Some s \<and>
    chat_do ascii_alnum by_id Serve s = Some s' \<and> status s' = Ok () \<and> map_option t_mail (tasks s' 2) = Some [User_message [97] [97]]"
proof -
  let ?run = "chat_run ascii_alnum by_id (join_events 1 [97] @ join_events 2 [98] @ [Line 1 [97]]) chat_new"
  have "map_option (\<lambda>s. (inbox s, clients s, status s, map_option (\<lambda>t. (receiver_alive t, t_mail t)) (tasks s 2),
        map_option status (chat_do ascii_alnum by_id Serve s))) ?run =
      Some ([Chat_message 1 [97]], [1 \<mapsto> Some [97], 2 \<mapsto> Some [98]], Ok (), Some (True, []), Some (Ok ()))"
    by (simp add: chat_eval)
  then obtain s s' t where s: "?run = Some s" "inbox s = [Chat_message 1 [97]]" "clients s = [1 \<mapsto> Some [97], 2 \<mapsto> Some [98]]"
      "chat_do ascii_alnum by_id Serve s = Some s'" "status s = Ok ()" "tasks s 2 = Some t" "receiver_alive t" "t_mail t = []"
    unfolding map_option_eq_Some by blast
  have "clients s 1 = Some (Some [97])"
    by (simp add: s(3))
  from chat_message_reaches_others [OF order_ok_by_id s(1,2) this s(4,5)] obtain to got where
    to: "set to = {j. j \<noteq> 1 \<and> (\<exists>v. clients s j = Some (Some v))}" "got = takeWhile (reachable (tasks s)) to"
      "status s' = (if got = to then Ok () else Err ())"
    and mail: "\<And>j. map_option t_mail (tasks s' j) =
      map_option (\<lambda>t. t_mail t @ (if j \<in> set got then [User_message [97] [97]] else [])) (tasks s j)"
    by blast
  have "set to = {2}"
    unfolding to(1) by (auto simp: s(3) split: if_splits)
  moreover from this have "got = to"
    unfolding to(2) takeWhile_eq_all_conv using s(6,7) by (simp add: reachable_def)
  ultimately have "status s' = Ok ()" "map_option t_mail (tasks s' 2) = Some [User_message [97] [97]]"
    using to(3) mail [of 2] s(6,8) by simp_all
  with s(1,4) show ?thesis
    by blast
qed

text \<open>Two clients that leave at about the same time stop the server for everyone: the farewell of the
  first goes to the second, whose receiver is gone, and \<open>?\<close> ends \<open>run\<close>.\<close>

theorem simultaneous_departure_stops_server:
  "map_option status (chat_run ascii_alnum by_id
     (join_events 1 [97] @ join_events 2 [98] @ [Eof 1, Eof 2, Close 1, Close 2, Serve]) chat_new) = Some (Err ())"
  by (simp add: chat_eval)

text \<open>A client that has its name but not yet the list of the room can get a chat message first: its task
  panics, and sending it that list then fails and ends \<open>run\<close> for everyone.\<close>

theorem early_message_stops_server:
  "map_option (\<lambda>s. (map_option t_phase (tasks s 2), status s)) (chat_run ascii_alnum by_id
     (join_events 1 [97] @ [Accept, Mail 2 True, Line 2 [98], Serve, Line 1 [97], Serve, Mail 2 True, Mail 2 True, Serve]) chat_new) =
   Some (Some Dead, Err ())"
  by (simp add: chat_eval)

end
