(* ===== verification/WasiChat.thy ===== *)
theory WasiChat
  imports BudgetChat
begin

text \<open>
  The chat server of the WASI port, \<open>wasi/problems/p03-budget-chat/src/server.rs\<close> and \<open>client.rs\<close>. It has the
  messages, the table and the tasks of \<open>BudgetChat\<close>, with two differences that matter: a message to a
  client that is gone is ignored, and the list of the room is sent together with the acceptance of the
  name. No order of events makes this server or a task panic, and nothing stops it but a failure to accept:
  then \<open>run\<close> returns. Identifiers of clients are not bounded here, as they are below \<open>2 ^ 32\<close> in the 32-bit
  build.
\<close>

section \<open>The server\<close>

text \<open>\<open>unbounded_send(..).ok()\<close>.\<close>

fun wasi_send :: "(nat \<times> server_message) list \<Rightarrow> tasks \<Rightarrow> tasks" where
  "wasi_send [] ts = ts"
| "wasi_send ((i, m) # ms) ts =
     wasi_send ms (case ts i of
       Some t \<Rightarrow> if receiver_alive t then ts(i \<mapsto> t\<lparr>t_mail := t_mail t @ [m]\<rparr>) else ts
     | None \<Rightarrow> ts)"

text \<open>What \<open>run\<close> does with a message: the table and what it sends, or \<open>None\<close> where it panics.\<close>

fun wasi_reply :: "(byte list \<Rightarrow> bool) \<Rightarrow> (clients \<Rightarrow> nat list) \<Rightarrow> client_message \<Rightarrow> clients \<Rightarrow>
    (clients \<times> (nat \<times> server_message) list) option" where
  "wasi_reply alnum order (SetUsername i username) cs =
     (if is_username_valid alnum order cs username then
        (case cs i of
           Some None \<Rightarrow>
             (let cs = cs(i \<mapsto> Some username)
              in Some (cs, [(i, UsernameAccepted), (i, Users (map snd (others order cs i)))]))
         | _ \<Rightarrow> None)
      else (case cs i of Some _ \<Rightarrow> Some (cs, [(i, UsernameInvalid)]) | None \<Rightarrow> None))"
| "wasi_reply alnum order (Joined i) cs =
     (case cs i of
        Some (Some user) \<Rightarrow> Some (cs, map (\<lambda>(j, _). (j, AnnounceUser user)) (others order cs i))
      | Some None \<Rightarrow> Some (cs, [])
      | None \<Rightarrow> None)"
| "wasi_reply alnum order (Chat_message i m) cs =
     (case cs i of
        Some (Some user) \<Rightarrow> Some (cs, map (\<lambda>(j, _). (j, User_message user m)) (others order cs i))
      | Some None \<Rightarrow> Some (cs, [])
      | None \<Rightarrow> None)"
| "wasi_reply alnum order (Disconnect i) cs =
     (case cs i of
        Some (Some user) \<Rightarrow> Some (cs(i := None), map (\<lambda>(j, _). (j, Disconnected user)) (others order cs i))
      | Some None \<Rightarrow> Some (cs(i := None), [])
      | None \<Rightarrow> Some (cs, []))"

section \<open>The tasks of the clients\<close>

definition lines_encode :: "rstring \<Rightarrow> byte list \<Rightarrow> byte list" where
  "lines_encode line dst = dst @ line @ [10]"

fun wasi_on_mail :: "client_phase \<Rightarrow> server_message \<Rightarrow> (client_phase \<times> rstring option) option" where
  "wasi_on_mail WaitingWelcome Welcome = Some (Joining, Some (ascii ''Welcome to budgetchat! What shall I call you?''))"
| "wasi_on_mail Naming UsernameAccepted = Some (Entering, None)"
| "wasi_on_mail Naming UsernameInvalid = Some (Closing, Some (ascii ''Invalid username''))"
| "wasi_on_mail Entering (Users us) = Some (Chatting, Some (ascii ''* The room contains:'' @ join_names us))"
| "wasi_on_mail Chatting (AnnounceUser u) = Some (Chatting, Some (ascii ''* '' @ u @ ascii '' has entered the room''))"
| "wasi_on_mail Chatting (User_message u m) = Some (Chatting, Some (ascii ''['' @ u @ ascii ''] '' @ m))"
| "wasi_on_mail Chatting (Disconnected u) = Some (Chatting, Some (ascii ''* '' @ u @ ascii '' has left the room''))"
| "wasi_on_mail _ _ = None"

definition wasi_mail :: "nat \<Rightarrow> bool \<Rightarrow> task \<Rightarrow> chat \<Rightarrow> chat option" where
  "wasi_mail i ok t s =
     (if \<not> receiver_alive t \<or> t_phase t = Joining then None
      else case t_mail t of
        [] \<Rightarrow> None
      | m # ms \<Rightarrow>
          Some (case wasi_on_mail (t_phase t) m of
             None \<Rightarrow> set_task i (t\<lparr>t_mail := ms, t_phase := Dead\<rparr>) s
           | Some (p, None) \<Rightarrow> tell (Joined i) (set_task i (t\<lparr>t_mail := ms, t_phase := p\<rparr>) s)
           | Some (p, Some line) \<Rightarrow>
               (if ok then set_task i (t\<lparr>t_mail := ms, t_phase := p, t_written := lines_encode line (t_written t)\<rparr>) s
                else set_task i (t\<lparr>t_mail := ms, t_phase := Closing\<rparr>) s)))"

definition wasi_line :: "nat \<Rightarrow> byte list \<Rightarrow> task \<Rightarrow> chat \<Rightarrow> chat option" where
  "wasi_line i line t s =
     (if t_phase t = Joining then Some (tell (SetUsername i (utf8_lossy line)) (set_task i (t\<lparr>t_phase := Naming\<rparr>) s))
      else if t_phase t = Chatting then Some (tell (Chat_message i (utf8_lossy line)) s)
      else None)"

text \<open>What \<open>run\<close> does with the next incoming client: whether there is one that is not an error. If not, \<open>run\<close>
  returns, here a status other than \<open>Ok\<close> and \<open>Panic\<close>.\<close>

fun wasi_accept :: "bool \<Rightarrow> chat \<Rightarrow> chat" where
  "wasi_accept True s =
     (let i = last_id s + 1
      in s\<lparr>last_id := i, clients := (clients s)(i \<mapsto> None),
           tasks := wasi_send [(i, Welcome)] ((tasks s)(i \<mapsto> \<lparr>t_phase = WaitingWelcome, t_mail = [], t_written = []\<rparr>))\<rparr>)"
| "wasi_accept False s = s\<lparr>status := Err ()\<rparr>"

fun wasi_chat_do :: "(byte list \<Rightarrow> bool) \<Rightarrow> (clients \<Rightarrow> nat list) \<Rightarrow> chat_event \<Rightarrow> chat \<Rightarrow> chat option" where
  "wasi_chat_do alnum order Accept s = Some (wasi_accept True s)"
| "wasi_chat_do alnum order Accept_failed s = Some (wasi_accept False s)"
| "wasi_chat_do alnum order Serve s =
     (case inbox s of
        [] \<Rightarrow> None
      | m # ms \<Rightarrow>
          (case wasi_reply alnum order m (clients s) of
             Some (cs, out) \<Rightarrow> Some (s\<lparr>clients := cs, tasks := wasi_send out (tasks s), inbox := ms\<rparr>)
           | None \<Rightarrow> Some (s\<lparr>inbox := ms, status := Panic\<rparr>)))"
| "wasi_chat_do alnum order (Mail i ok) s = Option.bind (tasks s i) (\<lambda>t. wasi_mail i ok t s)"
| "wasi_chat_do alnum order (Line i line) s = Option.bind (tasks s i) (\<lambda>t. if 10 \<in> set line then None else wasi_line i line t s)"
| "wasi_chat_do alnum order (Eof i) s =
     Option.bind (tasks s i) (\<lambda>t.
       if t_phase t \<in> {Joining, Chatting} then Some (set_task i (t\<lparr>t_phase := Closing\<rparr>) s) else None)"
| "wasi_chat_do alnum order (Close i) s =
     Option.bind (tasks s i) (\<lambda>t.
       if t_phase t = Closing then Some (tell (Disconnect i) (set_task i (t\<lparr>t_phase := Done\<rparr>) s)) else None)"

fun wasi_chat_run :: "(byte list \<Rightarrow> bool) \<Rightarrow> (clients \<Rightarrow> nat list) \<Rightarrow> chat_event list \<Rightarrow> chat \<Rightarrow> chat option" where
  "wasi_chat_run alnum order [] s = Some s"
| "wasi_chat_run alnum order (e # es) s =
     (if status s = Ok () then Option.bind (wasi_chat_do alnum order e s) (wasi_chat_run alnum order es) else None)"

section \<open>The conversation with one client\<close>

fun news :: "server_message \<Rightarrow> bool" where
  "news (AnnounceUser _) = True"
| "news (User_message _ _) = True"
| "news (Disconnected _) = True"
| "news _ = False"

fun talk :: "client_message \<Rightarrow> bool" where
  "talk (Joined _) = True"
| "talk (Chat_message _ _) = True"
| "talk _ = False"

definition has_name :: "rstring option option \<Rightarrow> bool" where
  "has_name c \<longleftrightarrow> (\<exists>u. c = Some (Some u))"

text \<open>Phase by phase: the entry of the client in the table, its mailbox, and what it has sent and the server
  has not read.\<close>

fun in_order :: "nat \<Rightarrow> client_phase \<Rightarrow> rstring option option \<Rightarrow> server_message list \<Rightarrow> client_message list \<Rightarrow> bool" where
  "in_order i WaitingWelcome c mail q \<longleftrightarrow> c = Some None \<and> mail = [Welcome] \<and> q = []"
| "in_order i Joining c mail q \<longleftrightarrow> c = Some None \<and> mail = [] \<and> q = []"
| "in_order i Naming c mail q \<longleftrightarrow>
     c = Some None \<and> mail = [] \<and> (\<exists>u. q = [SetUsername i u]) \<or>
     c = Some None \<and> mail = [UsernameInvalid] \<and> q = [] \<or>
     has_name c \<and> (\<exists>us ms. mail = UsernameAccepted # Users us # ms \<and> list_all news ms) \<and> q = []"
| "in_order i Entering c mail q \<longleftrightarrow> has_name c \<and> (\<exists>us ms. mail = Users us # ms \<and> list_all news ms) \<and> list_all talk q"
| "in_order i Chatting c mail q \<longleftrightarrow> has_name c \<and> list_all news mail \<and> list_all talk q"
| "in_order i Closing c mail q \<longleftrightarrow> c \<noteq> None \<and> list_all talk q"
| "in_order i Done c mail q \<longleftrightarrow> c = None \<and> q = [] \<or> c \<noteq> None \<and> (\<exists>q'. q = q' @ [Disconnect i] \<and> list_all talk q')"
| "in_order i Dead c mail q \<longleftrightarrow> False"

definition wasi_ok :: "(byte list \<Rightarrow> bool) \<Rightarrow> chat \<Rightarrow> bool" where
  "wasi_ok alnum s \<longleftrightarrow>
     status s \<noteq> Panic \<and> names_ok alnum (clients s) \<and> finite (dom (clients s)) \<and> dom (clients s) \<subseteq> dom (tasks s) \<and>
     (\<forall>i \<in> dom (tasks s). i \<le> last_id s) \<and> sender_of ` set (inbox s) \<subseteq> dom (tasks s) \<and>
     (\<forall>i t. tasks s i = Some t \<longrightarrow> in_order i (t_phase t) (clients s i) (t_mail t) (pending i s))"

lemma wasi_send_task:
  "wasi_send ms ts i = map_option (\<lambda>t. if receiver_alive t then mailed i ms t else t) (ts i)"
proof (induction ms ts rule: wasi_send.induct)
  case (1 ts)
  show ?case
    by (cases "ts i") (simp_all add: mailed_def)
next
  case (2 j m ms ts)
  then show ?case
    by (cases "ts i"; cases "ts j"; cases "i = j") (auto simp: mailed_def receiver_alive_def)
qed

lemma dom_wasi_send [simp]: "dom (wasi_send ms ts) = dom ts"
  by (auto simp: wasi_send_task dom_def)

text \<open>News for someone with a name.\<close>

lemma in_order_news:
  assumes "in_order i p c mail q" and "list_all news ms" and "ms \<noteq> [] \<Longrightarrow> has_name c"
  shows "in_order i p c (mail @ ms) q"
  using assms by (cases p) (auto simp: has_name_def)

lemma in_order_gone: "in_order i p c mail q \<Longrightarrow> p \<in> {Closing, Done, Dead} \<Longrightarrow> in_order i p c mail' q"
  by (cases p) auto


text \<open>What the server does with a message of a client that is in order.\<close>

definition to_client :: "nat \<Rightarrow> (nat \<times> server_message) list \<Rightarrow> server_message list" where
  "to_client j out = map snd (filter (\<lambda>(k, _). k = j) out)"

lemma to_client_simps [simp]: "to_client j [] = []" "to_client j ((k, m) # out) = (if k = j then m # to_client j out else to_client j out)"
  by (simp_all add: to_client_def)

lemma others_mem: "(j, u) \<in> set (others order cs i) \<Longrightarrow> j \<noteq> i \<and> has_name (cs j)"
  by (auto simp: others_def List.map_filter_def has_name_def split: option.splits if_splits)

definition announced :: "clients \<Rightarrow> nat \<Rightarrow> (nat \<times> server_message) list \<Rightarrow> bool" where
  "announced cs i out \<longleftrightarrow> (\<forall>(j, m) \<in> set out. j \<noteq> i \<and> has_name (cs j) \<and> news m)"

lemma announced_others: "news m \<Longrightarrow> announced cs i (map (\<lambda>(j, _). (j, m)) (others order cs i))"
  by (auto simp: announced_def dest: others_mem)

lemma announced_Nil [simp]: "announced cs i []"
  by (simp add: announced_def)

lemma announcedD:
  assumes "announced cs i out"
  shows "to_client i out = []" "list_all news (to_client j out)" "to_client j out \<noteq> [] \<Longrightarrow> has_name (cs j)"
  using assms by (auto simp: announced_def to_client_def list_all_iff filter_empty_conv)

lemma next_name: "in_order i p c mail (SetUsername j u # q) \<Longrightarrow> p = Naming \<and> j = i \<and> c = Some None \<and> mail = [] \<and> q = []"
  by (cases p) (auto simp: Cons_eq_append_conv)

lemma next_talk: "in_order i p c mail (m # q) \<Longrightarrow> talk m \<Longrightarrow> c \<noteq> None \<and> in_order i p c mail q"
  by (cases p) (auto simp: Cons_eq_append_conv has_name_def)

lemma next_farewell: "in_order i p c mail (Disconnect j # q) \<Longrightarrow> p = Done \<and> j = i \<and> q = []"
  by (cases p) (auto simp: Cons_eq_append_conv)

lemma reply_in_order:
  assumes "in_order i p (cs i) mail (m # q)" and "sender_of m = i"
  shows "\<exists>cs' out. wasi_reply alnum order m cs = Some (cs', out) \<and> (\<forall>j. j \<noteq> i \<longrightarrow> cs' j = cs j) \<and>
    (announced cs i out \<and> in_order i p (cs' i) mail q \<or>
     p = Naming \<and> (\<forall>j. j \<noteq> i \<longrightarrow> to_client j out = []) \<and> in_order i p (cs' i) (mail @ to_client i out) q)"
proof (cases m)
  case (SetUsername i' u)
  with next_name assms(1) have i: "i' = i" "p = Naming" "cs i = Some None" "mail = []" "q = []"
    by blast+
  have "\<exists>cs' out. wasi_reply alnum order m cs = Some (cs', out) \<and> (\<forall>j. j \<noteq> i \<longrightarrow> cs' j = cs j) \<and>
      (\<forall>j. j \<noteq> i \<longrightarrow> to_client j out = []) \<and> in_order i Naming (cs' i) (to_client i out) []"
  proof (cases "is_username_valid alnum order cs u")
    case True
    let ?cs = "cs(i \<mapsto> Some u)" and ?us = "Users (map snd (others order (cs(i \<mapsto> Some u)) i))"
    have "wasi_reply alnum order m cs = Some (?cs, [(i, UsernameAccepted), (i, ?us)])"
      using True i(1,3) SetUsername by (simp add: Let_def)
    moreover have "in_order i Naming (?cs i) (to_client i [(i, UsernameAccepted), (i, ?us)]) []"
      by (simp add: has_name_def)
    ultimately show ?thesis
      by (intro exI [of _ ?cs] exI [of _ "[(i, UsernameAccepted), (i, ?us)]"]) simp
  next
    case False
    with i(1,3) SetUsername show ?thesis
      by (intro exI [of _ cs] exI [of _ "[(i, UsernameInvalid)]"]) simp
  qed
  with i show ?thesis
    by simp
next
  case (Joined i')
  with assms(2) have i: "i' = i" and talk: "talk m"
    by simp_all
  note ok = next_talk [OF assms(1) talk]
  have "\<exists>out. wasi_reply alnum order m cs = Some (cs, out) \<and> announced cs i out"
    using i ok announced_others [of "AnnounceUser u" cs i order for u] unfolding Joined
    by (cases "cs i"; cases "the (cs i)") simp_all
  with ok show ?thesis
    by blast
next
  case (Chat_message i' c)
  with assms(2) have i: "i' = i" and talk: "talk m"
    by simp_all
  note ok = next_talk [OF assms(1) talk]
  have "\<exists>out. wasi_reply alnum order m cs = Some (cs, out) \<and> announced cs i out"
    using i ok announced_others [of "User_message u c" cs i order for u] unfolding Chat_message
    by (cases "cs i"; cases "the (cs i)") simp_all
  with ok show ?thesis
    by blast
next
  case (Disconnect i')
  with next_farewell assms(1) have i: "i' = i" "p = Done" "q = []"
    by blast+
  have "\<exists>cs' out. wasi_reply alnum order m cs = Some (cs', out) \<and> announced cs i out \<and> cs' i = None \<and> (\<forall>j. j \<noteq> i \<longrightarrow> cs' j = cs j)"
    using i(1) announced_others [of "Disconnected u" cs i order for u] unfolding Disconnect
    by (cases "cs i"; cases "the (cs i)") simp_all
  moreover have "in_order i p None mail q"
    by (simp add: i)
  ultimately show ?thesis
    by metis
qed

lemma reply_names:
  assumes "wasi_reply alnum order m cs = Some (cs', out)" and "names_ok alnum cs" and "order_ok order" and "finite (dom cs)"
  shows "names_ok alnum cs'"
proof (cases "\<exists>i u. m = SetUsername i u \<and> is_username_valid alnum order cs u")
  case True
  then obtain i u where m: "m = SetUsername i u" "is_username_valid alnum order cs u"
    by blast
  with assms(1) have cs': "cs' = cs(i \<mapsto> Some u)"
    by (auto simp: Let_def split: option.splits)
  show ?thesis
    unfolding cs' by (rule names_ok_set [OF assms(2-4) m(2)])
next
  case False
  with assms(1) have "cs' = cs \<or> (\<exists>i. cs' = cs(i := None))"
    by (cases m) (auto split: option.splits if_splits)
  with names_ok_drop [OF assms(2)] assms(2) show ?thesis
    by blast
qed


section \<open>Every event keeps the order\<close>

lemma wasi_okD:
  assumes "wasi_ok alnum s" and "tasks s i = Some t"
  shows "in_order i (t_phase t) (clients s i) (t_mail t) (pending i s)"
  using assms unfolding wasi_ok_def by blast

lemma wasi_ok_task:
  assumes "wasi_ok alnum s" and "tasks s i = Some t" and "in_order i (t_phase t') (clients s i) (t_mail t') (pending i s)"
  shows "wasi_ok alnum (set_task i t' s)"
  using assms unfolding wasi_ok_def by (auto simp: set_task_def pending_def split: if_splits)

lemma wasi_ok_tell:
  assumes "wasi_ok alnum s" and "tasks s i = Some t" and "in_order i (t_phase t') (clients s i) (t_mail t') (pending i s @ [m])" and "sender_of m = i"
  shows "wasi_ok alnum (tell m (set_task i t' s))"
  using assms unfolding wasi_ok_def by (auto simp: set_task_def tell_def pending_def split: if_splits)

lemma wasi_serve_ok:
  assumes "wasi_ok alnum s" and "order_ok order" and "wasi_chat_do alnum order Serve s = Some s'"
  shows "wasi_ok alnum s'"
proof -
  have ok: "status s \<noteq> Panic" "names_ok alnum (clients s)" "finite (dom (clients s))" "dom (clients s) \<subseteq> dom (tasks s)"
    "\<forall>i \<in> dom (tasks s). i \<le> last_id s" "sender_of ` set (inbox s) \<subseteq> dom (tasks s)"
    using assms(1) by (simp_all add: wasi_ok_def)
  obtain m ms where m: "inbox s = m # ms"
    using assms(3) by (auto split: list.splits)
  let ?i = "sender_of m"
  obtain t where t: "tasks s ?i = Some t"
    using ok(6) m by auto
  have head: "pending ?i s = m # filter (\<lambda>n. sender_of n = ?i) ms"
    by (simp add: pending_def m)
  have first: "in_order ?i (t_phase t) (clients s ?i) (t_mail t) (m # filter (\<lambda>n. sender_of n = ?i) ms)"
    using wasi_okD [OF assms(1) t] unfolding head .
  obtain cs out where reply: "wasi_reply alnum order m (clients s) = Some (cs, out)" "\<And>j. j \<noteq> ?i \<Longrightarrow> cs j = clients s j"
    and kept: "announced (clients s) ?i out \<and> in_order ?i (t_phase t) (cs ?i) (t_mail t) (filter (\<lambda>n. sender_of n = ?i) ms) \<or>
      t_phase t = Naming \<and> (\<forall>j. j \<noteq> ?i \<longrightarrow> to_client j out = []) \<and>
      in_order ?i (t_phase t) (cs ?i) (t_mail t @ to_client ?i out) (filter (\<lambda>n. sender_of n = ?i) ms)"
    using reply_in_order [of ?i "t_phase t" "clients s" "t_mail t" m _ alnum order, OF first] by blast
  have s': "s' = s\<lparr>clients := cs, tasks := wasi_send out (tasks s), inbox := ms\<rparr>"
    using assms(3) m reply(1) by simp
  have dom: "dom cs \<subseteq> insert ?i (dom (clients s))"
    using reply(2) by (metis domIff insertCI subsetI)
  have "in_order j (t_phase u') (cs j) (t_mail u') (pending j s')" if u': "wasi_send out (tasks s) j = Some u'" for j u'
  proof -
    obtain u where u: "tasks s j = Some u" "t_phase u' = t_phase u"
      "t_mail u' = (if receiver_alive u then t_mail u @ to_client j out else t_mail u)"
      using u' by (auto simp: wasi_send_task mailed_def to_client_def)
    show ?thesis
    proof (cases "j = ?i")
      case True
      with u t have "u = t"
        by simp
      with kept u True announcedD(1) show ?thesis
        by (auto simp: s' pending_def receiver_alive_def)
    next
      case False
      then have "cs j = clients s j" "pending j s' = pending j s"
        using reply(2) m by (simp_all add: s' pending_def)
      with kept u wasi_okD [OF assms(1) u(1)] in_order_news announcedD(2,3) False show ?thesis
        by (auto split: if_splits)
    qed
  qed
  moreover have "finite (dom cs)"
    using finite_subset [OF dom] ok(3) by simp
  moreover have "dom cs \<subseteq> dom (tasks s)"
    using dom ok(4) t by auto
  moreover have "sender_of ` set ms \<subseteq> dom (tasks s)"
    using ok(6) m by simp
  ultimately show ?thesis
    using ok(1,5) reply_names [OF reply(1) ok(2) assms(2) ok(3)] by (simp add: wasi_ok_def s')
qed

lemma wasi_mail_ok:
  assumes "wasi_ok alnum s" and "tasks s i = Some t" and "wasi_mail i ok t s = Some s'"
  shows "wasi_ok alnum s'"
proof -
  obtain m ms where m: "t_mail t = m # ms" "receiver_alive t" "t_phase t \<noteq> Joining"
    using assms(3) by (auto simp: wasi_mail_def split: if_splits list.splits)
  have order: "in_order i (t_phase t) (clients s i) (m # ms) (pending i s)"
    using wasi_okD [OF assms(1,2)] m(1) by simp
  obtain p line where p: "wasi_on_mail (t_phase t) m = Some (p, line)"
    and named: "line = None \<Longrightarrow> p = Entering \<and> in_order i p (clients s i) ms (pending i s @ [Joined i])"
    and going: "line \<noteq> None \<Longrightarrow> in_order i p (clients s i) ms (pending i s) \<and> in_order i Closing (clients s i) ms (pending i s)"
    using order m(2,3) by (cases "t_phase t"; cases m) (auto simp: receiver_alive_def has_name_def)
  show ?thesis
  proof (cases line)
    case None
    with assms(3) m p have "s' = tell (Joined i) (set_task i (t\<lparr>t_mail := ms, t_phase := p\<rparr>) s)"
      by (auto simp: wasi_mail_def)
    moreover have "wasi_ok alnum (tell (Joined i) (set_task i (t\<lparr>t_mail := ms, t_phase := p\<rparr>) s))"
      by (rule wasi_ok_tell [OF assms(1,2)]) (use named None in \<open>auto simp del: in_order.simps\<close>)
    ultimately show ?thesis
      by simp
  next
    case (Some l)
    let ?t = "if ok then t\<lparr>t_mail := ms, t_phase := p, t_written := lines_encode l (t_written t)\<rparr> else t\<lparr>t_mail := ms, t_phase := Closing\<rparr>"
    have "s' = set_task i ?t s"
      using assms(3) m p Some by (auto simp: wasi_mail_def)
    moreover have "wasi_ok alnum (set_task i ?t s)"
      by (rule wasi_ok_task [OF assms(1,2)]) (use going Some in \<open>simp del: in_order.simps\<close>)
    ultimately show ?thesis
      by simp
  qed
qed

lemma wasi_line_ok:
  assumes "wasi_ok alnum s" and "tasks s i = Some t" and "wasi_line i bs t s = Some s'"
  shows "wasi_ok alnum s'"
proof (cases "t_phase t = Joining")
  case True
  with assms(3) have "s' = tell (SetUsername i (utf8_lossy bs)) (set_task i (t\<lparr>t_phase := Naming\<rparr>) s)"
    by (simp add: wasi_line_def)
  moreover have "in_order i Naming (clients s i) (t_mail t) (pending i s @ [SetUsername i (utf8_lossy bs)])"
    using wasi_okD [OF assms(1,2)] True by simp
  ultimately show ?thesis
    using wasi_ok_tell [OF assms(1,2), of "t\<lparr>t_phase := Naming\<rparr>"] by simp
next
  case False
  with assms(3) have chatting: "t_phase t = Chatting" "s' = tell (Chat_message i (utf8_lossy bs)) s"
    by (auto simp: wasi_line_def split: if_splits)
  have "in_order i (t_phase t) (clients s i) (t_mail t) (pending i s @ [Chat_message i (utf8_lossy bs)])"
    using wasi_okD [OF assms(1,2)] chatting(1) by simp
  then have "wasi_ok alnum (tell (Chat_message i (utf8_lossy bs)) (set_task i t s))"
    using wasi_ok_tell [OF assms(1,2)] by simp
  moreover have "set_task i t s = s"
    using assms(2) by (simp add: set_task_def fun_upd_idem)
  ultimately show ?thesis
    by (simp add: chatting(2))
qed


lemma wasi_accept_ok:
  assumes "wasi_ok alnum s" and "wasi_chat_do alnum order Accept s = Some s'"
  shows "wasi_ok alnum s'"
proof -
  let ?i = "last_id s + 1"
  let ?t = "\<lparr>t_phase = WaitingWelcome, t_mail = [Welcome], t_written = []\<rparr>"
  have le: "\<forall>i \<in> dom (tasks s). i \<le> last_id s" and inbox: "sender_of ` set (inbox s) \<subseteq> dom (tasks s)"
    and doms: "dom (clients s) \<subseteq> dom (tasks s)"
    using assms(1) by (simp_all add: wasi_ok_def)
  have fresh: "?i \<notin> dom (tasks s)"
    using le by (metis Suc_eq_plus1 Suc_n_not_le_n)
  have pending: "pending ?i s = []"
    by (rule pending_fresh [OF inbox fresh])
  have s': "s' = s\<lparr>last_id := ?i, clients := (clients s)(?i \<mapsto> None), tasks := (tasks s)(?i \<mapsto> ?t)\<rparr>"
    using assms(2) by (simp add: Let_def receiver_alive_def)
  have "in_order i (t_phase t) (clients s' i) (t_mail t) (pending i s')" if "tasks s' i = Some t" for i t
  proof (cases "i = ?i")
    case True
    with that pending show ?thesis
      by (auto simp: s' pending_def)
  next
    case False
    with that wasi_okD [OF assms(1), of i t] show ?thesis
      by (simp add: s' pending_def)
  qed
  moreover have "names_ok alnum (clients s')"
    using assms(1) by (auto simp: s' wasi_ok_def names_ok_def)
  moreover have "finite (dom (clients s'))" "dom (clients s') \<subseteq> dom (tasks s')" "sender_of ` set (inbox s') \<subseteq> dom (tasks s')"
    using assms(1) by (auto simp: s' wasi_ok_def)
  moreover have "\<forall>i \<in> dom (tasks s'). i \<le> last_id s'"
    using le by (auto simp: s' intro: le_SucI)
  moreover have "status s' \<noteq> Panic"
    using assms(1) by (simp add: s' wasi_ok_def)
  ultimately show ?thesis
    by (simp add: wasi_ok_def)
qed

lemma wasi_chat_do_ok:
  assumes "wasi_ok alnum s" and "order_ok order" and "wasi_chat_do alnum order e s = Some s'"
  shows "wasi_ok alnum s'"
proof (cases e)
  case Accept
  with assms wasi_accept_ok show ?thesis
    by blast
next
  case Accept_failed
  with assms(3) have s': "s' = s\<lparr>status := Err ()\<rparr>"
    by simp
  show ?thesis
    using assms(1) unfolding s' wasi_ok_def pending_def by simp
next
  case Serve
  with assms wasi_serve_ok show ?thesis
    by blast
next
  case (Mail i ok)
  with assms(1,3) wasi_mail_ok show ?thesis
    by (auto split: bind_splits)
next
  case (Line i bs)
  with assms(1,3) wasi_line_ok show ?thesis
    by (auto split: bind_splits if_splits)
next
  case (Eof i)
  with assms(3) obtain t where t: "tasks s i = Some t" "t_phase t = Joining \<or> t_phase t = Chatting" "s' = set_task i (t\<lparr>t_phase := Closing\<rparr>) s"
    by (auto split: bind_splits if_splits)
  show ?thesis
    unfolding t(3) by (rule wasi_ok_task [OF assms(1) t(1)]) (use wasi_okD [OF assms(1) t(1)] t(2) in \<open>auto simp: has_name_def\<close>)
next
  case (Close i)
  with assms(3) obtain t where t: "tasks s i = Some t" "t_phase t = Closing" "s' = tell (Disconnect i) (set_task i (t\<lparr>t_phase := Done\<rparr>) s)"
    by (auto split: bind_splits if_splits)
  show ?thesis
    unfolding t(3) by (rule wasi_ok_tell [OF assms(1) t(1)]) (use wasi_okD [OF assms(1) t(1)] t(2) in auto)
qed

lemma wasi_chat_run_ok:
  "wasi_chat_run alnum order es s = Some s' \<Longrightarrow> wasi_ok alnum s \<Longrightarrow> order_ok order \<Longrightarrow> wasi_ok alnum s'"
  by (induction es arbitrary: s) (auto split: bind_splits if_splits intro: wasi_chat_do_ok)

text \<open>Nothing but a failure to accept makes \<open>run\<close> return.\<close>

lemma wasi_do_goes_on:
  "wasi_chat_do alnum order e s = Some s' \<Longrightarrow> e \<noteq> Accept_failed \<Longrightarrow> status s' = status s \<or> status s' = Panic"
  by (cases e) (auto simp: wasi_mail_def wasi_line_def set_task_def tell_def Let_def
      split: if_splits list.splits option.splits bind_splits prod.splits)

lemma wasi_run_goes_on:
  "wasi_chat_run alnum order es s = Some s' \<Longrightarrow> Accept_failed \<notin> set es \<Longrightarrow> status s = Ok () \<Longrightarrow>
     status s' = Ok () \<or> status s' = Panic"
proof (induction es arbitrary: s)
  case (Cons e es)
  then obtain t where t: "wasi_chat_do alnum order e s = Some t" "wasi_chat_run alnum order es t = Some s'"
    by (auto split: bind_splits)
  show ?case
  proof (cases "status t = Ok ()")
    case True
    with Cons t show ?thesis
      by auto
  next
    case False
    then have "status t = Panic"
      using wasi_do_goes_on [OF t(1)] Cons.prems(2,3) by auto
    with t(2) show ?thesis
      by (cases es) auto
  qed
qed simp

lemma wasi_ok_new: "wasi_ok alnum chat_new"
  by (simp add: wasi_ok_def chat_new_def names_ok_def)

section \<open>Properties\<close>

text \<open>C31: However connections, failures to accept, lines, ends of connections, failing writes and the turns of
  the tasks are ordered, the server does not panic and no task of a client does, the names of the room are
  distinct and alphanumeric, and the server goes on as long as accepting does not fail.\<close>

theorem wasi_chat_safe:
  assumes "order_ok order" and "wasi_chat_run alnum order es chat_new = Some s"
  shows "status s \<noteq> Panic \<and> (Accept_failed \<in> set es \<or> status s = Ok ()) \<and>
    (\<forall>i t. tasks s i = Some t \<longrightarrow> t_phase t \<noteq> Dead) \<and>
    (\<forall>i j u. clients s i = Some (Some u) \<and> clients s j = Some (Some u) \<longrightarrow> i = j) \<and>
    (\<forall>i u. clients s i = Some (Some u) \<longrightarrow> u \<noteq> [] \<and> list_all alnum (utf8_chars u))"
proof -
  have ok: "wasi_ok alnum s"
    by (rule wasi_chat_run_ok [OF assms(2) wasi_ok_new assms(1)])
  have "t_phase t \<noteq> Dead" if "tasks s i = Some t" for i t
    using wasi_okD [OF ok that] by auto
  moreover have "status s \<noteq> Panic" "names_ok alnum (clients s)"
    using ok by (simp_all add: wasi_ok_def)
  moreover have "Accept_failed \<in> set es \<or> status s = Ok ()"
    using wasi_run_goes_on [OF assms(2)] \<open>status s \<noteq> Panic\<close> by (auto simp: chat_new_def)
  ultimately show ?thesis
    unfolding names_ok_def by blast
qed

lemma by_id_left: "by_id ([Suc 0 \<mapsto> c, 2 \<mapsto> d](Suc 0 := None)) = [2]"
  by (rule by_id_eq) auto

lemma wasi_departures:
  "map_option (\<lambda>s. (clients s 1, clients s 2)) (wasi_chat_run ascii_alnum by_id
     (join_events 1 [97] @ join_events 2 [98] @ [Eof 1, Eof 2, Close 1, Close 2, Serve, Serve]) chat_new) = Some (None, None)"
  by (simp add: chat_eval wasi_mail_def wasi_line_def by_id_left)

text \<open>The run that stops the other server.\<close>

theorem wasi_chat_safe_witness:
  "\<exists>s. wasi_chat_run ascii_alnum by_id
     (join_events 1 [97] @ join_events 2 [98] @ [Eof 1, Eof 2, Close 1, Close 2, Serve, Serve]) chat_new = Some s \<and>
     status s = Ok () \<and> clients s 1 = None \<and> clients s 2 = None"
proof -
  obtain s where s: "wasi_chat_run ascii_alnum by_id
      (join_events 1 [97] @ join_events 2 [98] @ [Eof 1, Eof 2, Close 1, Close 2, Serve, Serve]) chat_new = Some s"
      "clients s 1 = None" "clients s 2 = None"
    using wasi_departures unfolding map_option_eq_Some by blast
  from wasi_chat_safe [OF order_ok_by_id s(1)] have "status s = Ok ()"
    by (simp add: join_events_def)
  with s show ?thesis
    by blast
qed

end
