(* ===== verification/WasiSync.thy ===== *)
theory WasiSync
  imports Prelude
begin

text \<open>
  The locks of the WASI port, \<open>wasi/crates/wasi-async-runtime/src/sync/\<close>: \<open>Semaphore\<close>, \<open>Mutex\<close>, \<open>Notify\<close>
  and \<open>RwLock\<close>, with any number of tasks that take turns on one thread. A waker is the number of its
  task; waking sets a flag, and the reactor polls the tasks whose flag is set. A task polls only the future
  it waits for and drops a guard it has; futures are not dropped before they are done.
\<close>

section \<open>Semaphore\<close>

record semaphore =
  permits :: nat
  queue :: "nat list"

definition semaphore_new :: "nat \<Rightarrow> semaphore" where
  "semaphore_new n = \<lparr>permits = n, queue = []\<rparr>"

text \<open>One poll of \<open>acquire\<close> by a task: whether it has a permit now.\<close>

definition acquire :: "nat \<Rightarrow> semaphore \<Rightarrow> bool \<times> semaphore" where
  "acquire i s =
     (if permits s = 0 then (False, s\<lparr>queue := queue s @ [i]\<rparr>) else (True, s\<lparr>permits := permits s - 1\<rparr>))"

text \<open>Dropping a permit wakes everyone that waits.\<close>

definition permit_drop :: "semaphore \<Rightarrow> nat list \<times> semaphore" where
  "permit_drop s = (queue s, s\<lparr>permits := permits s + 1, queue := []\<rparr>)"

section \<open>Notify\<close>

record notify =
  is_notified :: bool
  wakers :: "nat list"

definition notify_new :: notify where
  "notify_new = \<lparr>is_notified = False, wakers = []\<rparr>"

definition notify_one :: "notify \<Rightarrow> nat list \<times> notify" where
  "notify_one n =
     (case wakers n of
        w # ws \<Rightarrow> if is_notified n then ([], n) else ([w], \<lparr>is_notified = True, wakers = ws\<rparr>)
      | [] \<Rightarrow> ([], n\<lparr>is_notified := True\<rparr>))"

definition notified_poll :: "nat \<Rightarrow> notify \<Rightarrow> bool \<times> notify" where
  "notified_poll i n = (if is_notified n then (True, n\<lparr>is_notified := False\<rparr>) else (False, n\<lparr>wakers := wakers n @ [i]\<rparr>))"

section \<open>Runs\<close>

fun run_events :: "('e \<Rightarrow> 's \<Rightarrow> 's option) \<Rightarrow> 'e list \<Rightarrow> 's \<Rightarrow> 's option" where
  "run_events act [] s = Some s"
| "run_events act (e # es) s = Option.bind (act e s) (run_events act es)"

lemma run_events_reach:
  "run_events act es s = Some t \<Longrightarrow> reach init (\<lambda>s t. \<exists>e. act e s = Some t) s \<Longrightarrow> reach init (\<lambda>s t. \<exists>e. act e s = Some t) t"
proof (induction es arbitrary: s)
  case (Cons e es)
  then obtain s' where "act e s = Some s'" "run_events act es s' = Some t"
    by (auto split: bind_splits)
  with Cons(1) [of s'] reach_step [OF Cons(3)] show ?case
    by blast
qed simp

lemma reach_run: "run_events act es s = Some t \<Longrightarrow> reach (\<lambda>x. x = s) (\<lambda>s t. \<exists>e. act e s = Some t) t"
  by (auto intro: run_events_reach reach_init)

section \<open>One permit\<close>

text \<open>The permit is with the semaphore or with one holder; who waits is woken, or has its waker in the queue
  of a semaphore without permits.\<close>

definition one_holder :: "nat \<Rightarrow> nat set \<Rightarrow> bool" where
  "one_holder p H \<longleftrightarrow> p = 1 \<and> H = {} \<or> p = 0 \<and> (\<exists>i. H = {i})"

definition waits :: "nat \<Rightarrow> nat list \<Rightarrow> nat set \<Rightarrow> (nat \<Rightarrow> bool) \<Rightarrow> bool" where
  "waits p q W w \<longleftrightarrow> (\<forall>j \<in> W. w j \<or> p = 0 \<and> j \<in> set q)"

lemma one_holder_enter: "one_holder p H \<Longrightarrow> p \<noteq> 0 \<Longrightarrow> one_holder 0 (insert i H)"
  by (auto simp: one_holder_def)

lemma one_holder_leave: "one_holder p H \<Longrightarrow> i \<in> H \<Longrightarrow> one_holder 1 (H - {i})"
  by (auto simp: one_holder_def)

lemma one_holder_permit: "one_holder p H \<Longrightarrow> p \<noteq> 0 \<Longrightarrow> p = 1 \<and> H = {}"
  by (auto simp: one_holder_def)

lemma one_holder_unique: "one_holder p H \<Longrightarrow> i \<in> H \<Longrightarrow> j \<in> H \<Longrightarrow> i = j"
  by (auto simp: one_holder_def)

lemma waits_push: "waits 0 q W w \<Longrightarrow> (\<And>j. j \<in> W \<Longrightarrow> w j \<Longrightarrow> j \<noteq> i \<Longrightarrow> w' j) \<Longrightarrow> waits 0 (q @ [i]) W w'"
  by (auto simp: waits_def)

lemma waits_take: "waits p q W w \<Longrightarrow> p \<noteq> 0 \<Longrightarrow> (\<And>j. j \<in> W' \<Longrightarrow> j \<in> W \<and> (w j \<longrightarrow> w' j)) \<Longrightarrow> waits p' q' W' w'"
  by (auto simp: waits_def)

lemma waits_free: "waits p q W w \<Longrightarrow> (\<And>j. j \<in> W' \<Longrightarrow> j \<in> W \<and> (j \<in> set q \<or> w j \<longrightarrow> w' j)) \<Longrightarrow> waits p' q' W' w'"
  by (auto simp: waits_def)

lemma waits_add: "waits p q W w \<Longrightarrow> w' i \<Longrightarrow> (\<And>j. w j \<Longrightarrow> w' j) \<Longrightarrow> waits p q (insert i W) w'"
  by (auto simp: waits_def)

lemma waits_mono: "waits p q W w \<Longrightarrow> (\<And>j. j \<in> W' \<Longrightarrow> j \<in> W) \<Longrightarrow> (\<And>j. w j \<Longrightarrow> w' j) \<Longrightarrow> waits p q W' w'"
  by (auto simp: waits_def)

lemma upd_set: "{j. (f(i := x)) j = y} = (if x = y then insert i {j. f j = y} else {j. f j = y} - {i})"
  by auto

section \<open>Mutex\<close>

text \<open>A task is idle, waits for the permit, or has the guard.\<close>

datatype lock_phase = Idle | Locking | Locked

record mutex =
  sem :: semaphore
  phase_of :: "nat \<Rightarrow> lock_phase"
  woken :: "nat \<Rightarrow> bool"

definition mutex_new :: mutex where
  "mutex_new = \<lparr>sem = semaphore_new 1, phase_of = (\<lambda>_. Idle), woken = (\<lambda>_. False)\<rparr>"

text \<open>A task that runs calls \<open>lock\<close>, the reactor polls a task, a guard is dropped, or something else
  wakes a task.\<close>

datatype lock_event = Lock nat | Poll nat | Unlock nat | Wake nat

definition wake_all :: "nat list \<Rightarrow> (nat \<Rightarrow> bool) \<Rightarrow> nat \<Rightarrow> bool" where
  "wake_all is w = (\<lambda>i. i \<in> set is \<or> w i)"

fun mutex_do :: "lock_event \<Rightarrow> mutex \<Rightarrow> mutex option" where
  "mutex_do (Lock i) m =
     (if phase_of m i = Idle then Some (m\<lparr>phase_of := (phase_of m)(i := Locking), woken := (woken m)(i := True)\<rparr>) else None)"
| "mutex_do (Poll i) m =
     (if phase_of m i = Locking \<and> woken m i then
        (case acquire i (sem m) of
           (True, s) \<Rightarrow> Some (m\<lparr>sem := s, phase_of := (phase_of m)(i := Locked), woken := (woken m)(i := False)\<rparr>)
         | (False, s) \<Rightarrow> Some (m\<lparr>sem := s, woken := (woken m)(i := False)\<rparr>))
      else None)"
| "mutex_do (Unlock i) m =
     (if phase_of m i = Locked then
        (case permit_drop (sem m) of
           (ws, s) \<Rightarrow> Some (m\<lparr>sem := s, phase_of := (phase_of m)(i := Idle), woken := wake_all ws (woken m)\<rparr>))
      else None)"
| "mutex_do (Wake i) m = Some (m\<lparr>woken := (woken m)(i := True)\<rparr>)"

definition mutex_ok :: "mutex \<Rightarrow> bool" where
  "mutex_ok m \<longleftrightarrow> one_holder (permits (sem m)) {j. phase_of m j = Locked} \<and>
     waits (permits (sem m)) (queue (sem m)) {j. phase_of m j = Locking} (woken m)"

lemma mutex_do_ok:
  assumes "mutex_do e m = Some m'" and "mutex_ok m"
  shows "mutex_ok m'"
proof -
  have one: "one_holder (permits (sem m)) {j. phase_of m j = Locked}"
    and waits: "waits (permits (sem m)) (queue (sem m)) {j. phase_of m j = Locking} (woken m)"
    using assms(2) by (simp_all add: mutex_ok_def)
  show ?thesis
  proof (cases e)
    case (Lock i)
    with assms(1) have m': "phase_of m i = Idle"
      "m' = m\<lparr>phase_of := (phase_of m)(i := Locking), woken := (woken m)(i := True)\<rparr>"
      by (auto split: if_splits)
    have "waits (permits (sem m)) (queue (sem m)) (insert i {j. phase_of m j = Locking}) ((woken m)(i := True))"
      by (rule waits_add [OF waits]) auto
    moreover have "{j. phase_of m j = Locked} - {i} = {j. phase_of m j = Locked}"
      using m'(1) by auto
    ultimately show ?thesis
      using one by (simp add: m'(2) mutex_ok_def upd_set del: fun_upd_apply)
  next
    case (Poll i)
    with assms(1) have i: "phase_of m i = Locking"
      by (auto split: if_splits)
    show ?thesis
    proof (cases "permits (sem m) = 0")
      case True
      with assms(1) Poll have m': "m' = m\<lparr>sem := sem m\<lparr>queue := queue (sem m) @ [i]\<rparr>, woken := (woken m)(i := False)\<rparr>"
        by (auto simp: acquire_def split: if_splits)
      have "waits 0 (queue (sem m) @ [i]) {j. phase_of m j = Locking} ((woken m)(i := False))"
        using waits by (intro waits_push [of _ _ "woken m"]) (simp_all add: True)
      with one True show ?thesis
        by (simp add: m' mutex_ok_def)
    next
      case False
      with assms(1) Poll have m': "m' = m\<lparr>sem := sem m\<lparr>permits := permits (sem m) - 1\<rparr>,
          phase_of := (phase_of m)(i := Locked), woken := (woken m)(i := False)\<rparr>"
        by (auto simp: acquire_def split: if_splits)
      have "waits 0 (queue (sem m)) ({j. phase_of m j = Locking} - {i}) ((woken m)(i := False))"
        by (rule waits_take [OF waits False]) auto
      with one_holder_enter [OF one False, of i] one_holder_permit [OF one False] show ?thesis
        by (simp add: m' mutex_ok_def upd_set del: fun_upd_apply)
    qed
  next
    case (Unlock i)
    with assms(1) have i: "phase_of m i = Locked" and m': "m' = m\<lparr>sem := \<lparr>permits = permits (sem m) + 1, queue = []\<rparr>,
        phase_of := (phase_of m)(i := Idle), woken := wake_all (queue (sem m)) (woken m)\<rparr>"
      by (auto simp: permit_drop_def split: if_splits)
    have "permits (sem m) = 0"
      using one i by (auto simp: one_holder_def)
    moreover have "waits 1 [] ({j. phase_of m j = Locking} - {i}) (wake_all (queue (sem m)) (woken m))"
      by (rule waits_free [OF waits]) (auto simp: wake_all_def)
    ultimately show ?thesis
      using one_holder_leave [OF one, of i] i by (simp add: m' mutex_ok_def upd_set del: fun_upd_apply)
  next
    case (Wake i)
    with assms(1) waits_mono [OF waits, of "{j. phase_of m j = Locking}" "(woken m)(i := True)"] one show ?thesis
      by (auto simp: mutex_ok_def)
  qed
qed

definition mutex_step :: "mutex \<Rightarrow> mutex \<Rightarrow> bool" where
  "mutex_step = (\<lambda>m m'. \<exists>e. mutex_do e m = Some m')"

text \<open>The mutex implements a lock: the set of the tasks that have its guard.\<close>

inductive lock_step :: "nat set \<Rightarrow> nat set \<Rightarrow> bool" where
  lock_take: "lock_step {} {i}"
| lock_release: "lock_step {i} {}"

definition mutex_view :: "mutex \<Rightarrow> nat set" where
  "mutex_view m = {j. phase_of m j = Locked}"

lemma one_holder_step: "one_holder p H \<Longrightarrow> p \<noteq> 0 \<Longrightarrow> lock_step H (insert i H)" "one_holder p H \<Longrightarrow> i \<in> H \<Longrightarrow> lock_step H (H - {i})"
  by (auto simp: one_holder_def intro: lock_step.intros)

interpretation mutex: simulation "\<lambda>m. m = mutex_new" mutex_step mutex_ok lock_step mutex_view
proof
  show "mutex_ok m" if "m = mutex_new" for m
    using that by (simp add: mutex_new_def mutex_ok_def one_holder_def waits_def semaphore_new_def)
  show "mutex_ok m'" if "mutex_step m m'" "mutex_ok m" for m m'
    using that mutex_do_ok unfolding mutex_step_def by blast
next
  fix m m'
  assume "mutex_step m m'" and ok: "mutex_ok m"
  then obtain e where e: "mutex_do e m = Some m'"
    by (auto simp: mutex_step_def)
  have one: "one_holder (permits (sem m)) {j. phase_of m j = Locked}"
    using ok by (simp add: mutex_ok_def)
  show "mutex_view m' = mutex_view m \<or> lock_step (mutex_view m) (mutex_view m')"
  proof (cases e)
    case (Lock i)
    with e show ?thesis
      by (auto simp: mutex_view_def split: if_splits)
  next
    case (Poll i)
    with e one_holder_step(1) [OF one, of i] show ?thesis
      by (auto simp: mutex_view_def acquire_def upd_set simp del: fun_upd_apply split: if_splits)
  next
    case (Unlock i)
    with e one_holder_step(2) [OF one, of i] show ?thesis
      by (auto simp: mutex_view_def permit_drop_def upd_set simp del: fun_upd_apply split: if_splits)
  next
    case (Wake i)
    with e show ?thesis
      by (auto simp: mutex_view_def)
  qed
qed

section \<open>Readers and writers\<close>

datatype rw_phase = Rw_idle | Write_permit | Write_notified | Writing | Read_permit | Reading

record rwlock =
  writer :: semaphore
  bell :: notify
  readers :: nat
  rw_phase :: "nat \<Rightarrow> rw_phase"
  rw_woken :: "nat \<Rightarrow> bool"

definition rwlock_new :: rwlock where
  "rwlock_new = \<lparr>writer = semaphore_new 1, bell = snd (notify_one notify_new), readers = 0,
     rw_phase = (\<lambda>_. Rw_idle), rw_woken = (\<lambda>_. False)\<rparr>"

datatype rw_event = Write nat | Read nat | Rw_poll nat | Guard_drop nat | Rw_wake nat

definition set_phase :: "nat \<Rightarrow> rw_phase \<Rightarrow> rwlock \<Rightarrow> rwlock" where
  "set_phase i p r = r\<lparr>rw_phase := (rw_phase r)(i := p)\<rparr>"

definition rw_wake :: "nat list \<Rightarrow> rwlock \<Rightarrow> rwlock" where
  "rw_wake ws r = r\<lparr>rw_woken := wake_all ws (rw_woken r)\<rparr>"

text \<open>\<open>write\<close>: the permit, then the notification; with both in hand the guard. \<open>read\<close>: the permit, which
  is dropped at once.\<close>

definition poll_notified :: "nat \<Rightarrow> rwlock \<Rightarrow> rwlock" where
  "poll_notified i r =
     (case notified_poll i (bell r) of (ready, n) \<Rightarrow> set_phase i (if ready then Writing else Write_notified) (r\<lparr>bell := n\<rparr>))"

definition lock_poll_write :: "nat \<Rightarrow> rwlock \<Rightarrow> rwlock" where
  "lock_poll_write i r =
     (case acquire i (writer r) of
        (True, s) \<Rightarrow> poll_notified i (r\<lparr>writer := s\<rparr>)
      | (False, s) \<Rightarrow> r\<lparr>writer := s\<rparr>)"

definition lock_poll_read :: "nat \<Rightarrow> rwlock \<Rightarrow> rwlock" where
  "lock_poll_read i r =
     (case acquire i (writer r) of
        (True, s) \<Rightarrow>
          (case permit_drop s of (ws, s) \<Rightarrow> set_phase i Reading (rw_wake ws (r\<lparr>writer := s, readers := readers r + 1\<rparr>)))
      | (False, s) \<Rightarrow> r\<lparr>writer := s\<rparr>)"

text \<open>Dropping the guard of a writer notifies and then gives the permit back.\<close>

definition write_guard_drop :: "nat \<Rightarrow> rwlock \<Rightarrow> rwlock" where
  "write_guard_drop i r =
     (case notify_one (bell r) of (ws, n) \<Rightarrow>
        (case permit_drop (writer r) of (ws', s) \<Rightarrow>
           set_phase i Rw_idle (rw_wake (ws @ ws') (r\<lparr>bell := n, writer := s\<rparr>))))"

definition read_guard_drop :: "nat \<Rightarrow> rwlock \<Rightarrow> rwlock" where
  "read_guard_drop i r = set_phase i Rw_idle (r\<lparr>readers := readers r - 1\<rparr>)"

fun rw_do :: "rw_event \<Rightarrow> rwlock \<Rightarrow> rwlock option" where
  "rw_do (Write i) r =
     (if rw_phase r i = Rw_idle then Some (set_phase i Write_permit (rw_wake [i] r)) else None)"
| "rw_do (Read i) r =
     (if rw_phase r i = Rw_idle then Some (set_phase i Read_permit (rw_wake [i] r)) else None)"
| "rw_do (Rw_poll i) r =
     (if \<not> rw_woken r i then None
      else let r = r\<lparr>rw_woken := (rw_woken r)(i := False)\<rparr>
           in case rw_phase r i of
             Write_permit \<Rightarrow> Some (lock_poll_write i r)
           | Write_notified \<Rightarrow> Some (poll_notified i r)
           | Read_permit \<Rightarrow> Some (lock_poll_read i r)
           | _ \<Rightarrow> None)"
| "rw_do (Guard_drop i) r =
     (case rw_phase r i of
        Writing \<Rightarrow> Some (write_guard_drop i r)
      | Reading \<Rightarrow> Some (read_guard_drop i r)
      | _ \<Rightarrow> None)"
| "rw_do (Rw_wake i) r = Some (rw_wake [i] r)"

text \<open>The bell has rung while the semaphore has the permit, no writer waits for the bell, and the permit is
  as in a mutex.\<close>

definition rw_waiting :: "rwlock \<Rightarrow> nat set" where
  "rw_waiting r = {j. rw_phase r j = Write_permit} \<union> {j. rw_phase r j = Read_permit}"

definition rw_ok :: "rwlock \<Rightarrow> bool" where
  "rw_ok r \<longleftrightarrow> one_holder (permits (writer r)) {j. rw_phase r j = Writing} \<and>
     waits (permits (writer r)) (queue (writer r)) (rw_waiting r) (rw_woken r) \<and>
     (is_notified (bell r) \<longleftrightarrow> permits (writer r) \<noteq> 0) \<and> {j. rw_phase r j = Write_notified} = {}"

lemma rw_phase_simps [simp]:
  "rw_phase (set_phase i p r) = (rw_phase r)(i := p)" "writer (set_phase i p r) = writer r" "bell (set_phase i p r) = bell r"
  "readers (set_phase i p r) = readers r" "rw_woken (set_phase i p r) = rw_woken r"
  "rw_phase (rw_wake ws r) = rw_phase r" "writer (rw_wake ws r) = writer r" "bell (rw_wake ws r) = bell r"
  "readers (rw_wake ws r) = readers r" "rw_woken (rw_wake ws r) = wake_all ws (rw_woken r)"
  by (simp_all add: set_phase_def rw_wake_def)

lemma wake_all_iff [simp]: "wake_all ws w j \<longleftrightarrow> j \<in> set ws \<or> w j"
  by (simp add: wake_all_def)

definition readers_ok :: "rwlock \<Rightarrow> bool" where
  "readers_ok r \<longleftrightarrow> finite {j. rw_phase r j = Reading} \<and> readers r = card {j. rw_phase r j = Reading}"

lemma rw_waiting_simps [simp]:
  "rw_waiting (set_phase i p r) = (if p = Write_permit \<or> p = Read_permit then insert i (rw_waiting r) else rw_waiting r - {i})"
  "rw_waiting (rw_wake ws r) = rw_waiting r"
  by (auto simp: rw_waiting_def)

lemma rw_waiting_update [simp]:
  "rw_waiting (r\<lparr>writer := s\<rparr>) = rw_waiting r" "rw_waiting (r\<lparr>bell := b\<rparr>) = rw_waiting r" "rw_waiting (r\<lparr>readers := n\<rparr>) = rw_waiting r"
  "rw_waiting (r\<lparr>rw_woken := w\<rparr>) = rw_waiting r"
  by (simp_all add: rw_waiting_def)

text \<open>A task asks for a guard.\<close>

lemma rw_ask_ok:
  assumes "rw_ok r" and "rw_phase r i = Rw_idle" and "p = Write_permit \<or> p = Read_permit"
  shows "rw_ok (set_phase i p (rw_wake [i] r))"
proof -
  have "waits (permits (writer r)) (queue (writer r)) (insert i (rw_waiting r)) (rw_woken (rw_wake [i] r))"
    using assms(1) by (intro waits_add [of _ _ _ "rw_woken r"]) (auto simp: rw_ok_def)
  moreover have "{j. rw_phase r j = y} - {i} = {j. rw_phase r j = y}" if "y \<noteq> Rw_idle" for y
    using assms(2) that by auto
  ultimately show ?thesis
    using assms(1,3) by (auto simp: rw_ok_def upd_set simp del: fun_upd_apply)
qed

text \<open>A task that was polled, whose flag is cleared.\<close>

lemma poll_permit_ok:
  assumes "rw_ok r" and "permits (writer r) = 0" and "\<And>j. j \<noteq> i \<Longrightarrow> w j = rw_woken r j"
  shows "rw_ok (r\<lparr>rw_woken := w, writer := writer r\<lparr>queue := queue (writer r) @ [i]\<rparr>\<rparr>)"
proof -
  have "waits 0 (queue (writer r) @ [i]) (rw_waiting r) w"
    using assms by (intro waits_push [of _ _ "rw_woken r"]) (simp_all add: rw_ok_def)
  with assms(1,2) show ?thesis
    by (simp add: rw_ok_def)
qed

lemma lock_poll_write_ok:
  assumes "rw_ok r" and "rw_phase r i = Write_permit"
  shows "rw_ok (lock_poll_write i (r\<lparr>rw_woken := (rw_woken r)(i := False)\<rparr>))"
proof (cases "permits (writer r) = 0")
  case True
  with poll_permit_ok [OF assms(1) True, of i "(rw_woken r)(i := False)"] show ?thesis
    by (simp add: lock_poll_write_def acquire_def)
next
  case False
  have one: "one_holder (permits (writer r)) {j. rw_phase r j = Writing}" and bell: "is_notified (bell r)"
    and none: "{j. rw_phase r j = Write_notified} = {}"
    and waits: "waits (permits (writer r)) (queue (writer r)) (rw_waiting r) (rw_woken r)"
    using assms(1) False by (simp_all add: rw_ok_def)
  have "waits 0 (queue (writer r)) (rw_waiting r - {i}) ((rw_woken r)(i := False))"
    by (rule waits_take [OF waits False]) auto
  with False bell none one_holder_enter [OF one False, of i] one_holder_permit [OF one False] show ?thesis
    by (simp add: lock_poll_write_def acquire_def poll_notified_def notified_poll_def rw_ok_def upd_set del: fun_upd_apply)
qed

lemma lock_poll_read_ok:
  assumes "rw_ok r" and "rw_phase r i = Read_permit"
  shows "rw_ok (lock_poll_read i (r\<lparr>rw_woken := (rw_woken r)(i := False)\<rparr>))"
proof (cases "permits (writer r) = 0")
  case True
  with poll_permit_ok [OF assms(1) True, of i "(rw_woken r)(i := False)"] show ?thesis
    by (simp add: lock_poll_read_def acquire_def)
next
  case False
  let ?r = "r\<lparr>rw_woken := (rw_woken r)(i := False)\<rparr>"
  have one: "one_holder (permits (writer r)) {j. rw_phase r j = Writing}" and bell: "is_notified (bell r)"
    and none: "{j. rw_phase r j = Write_notified} = {}"
    and waits: "waits (permits (writer r)) (queue (writer r)) (rw_waiting r) (rw_woken r)"
    using assms(1) False by (simp_all add: rw_ok_def)
  have "waits 1 [] (rw_waiting r - {i}) (rw_woken (rw_wake (queue (writer r)) ?r))"
    by (rule waits_free [OF waits]) auto
  moreover have "{j. rw_phase r j = Writing} = {}" "permits (writer r) = 1"
    using one_holder_permit [OF one False] by simp_all
  ultimately show ?thesis
    using bell none by (simp add: lock_poll_read_def acquire_def permit_drop_def rw_ok_def upd_set one_holder_def del: fun_upd_apply)
qed

lemma write_guard_drop_ok:
  assumes "rw_ok r" and "rw_phase r i = Writing"
  shows "rw_ok (write_guard_drop i r)"
proof -
  have one: "one_holder (permits (writer r)) {j. rw_phase r j = Writing}"
    and none: "{j. rw_phase r j = Write_notified} = {}"
    and waits: "waits (permits (writer r)) (queue (writer r)) (rw_waiting r) (rw_woken r)"
    using assms(1) by (simp_all add: rw_ok_def)
  have permits: "permits (writer r) = 0"
    using one assms(2) by (auto simp: one_holder_def)
  obtain ws b where bell: "notify_one (bell r) = (ws, b)" "is_notified b"
    by (cases "wakers (bell r)"; cases "is_notified (bell r)") (simp_all add: notify_one_def)
  have "waits 1 [] (rw_waiting r - {i}) (rw_woken (rw_wake (ws @ queue (writer r)) r))"
    by (rule waits_free [OF waits]) auto
  with one_holder_leave [OF one, of i] assms(2) none permits bell show ?thesis
    by (simp add: write_guard_drop_def permit_drop_def rw_ok_def upd_set del: fun_upd_apply)
qed

lemma read_guard_drop_ok:
  assumes "rw_ok r" and "rw_phase r i = Reading"
  shows "rw_ok (read_guard_drop i r)"
proof -
  have "{j. rw_phase r j = y} - {i} = {j. rw_phase r j = y}" if "y \<noteq> Reading" for y
    using assms(2) that by auto
  moreover have "rw_waiting r - {i} = rw_waiting r"
    using assms(2) by (auto simp: rw_waiting_def)
  ultimately show ?thesis
    using assms(1) by (simp add: read_guard_drop_def rw_ok_def upd_set del: fun_upd_apply)
qed

lemma rw_do_ok:
  assumes "rw_do e r = Some r'" and "rw_ok r"
  shows "rw_ok r'"
proof (cases e)
  case (Write i)
  with assms rw_ask_ok [of r i Write_permit] show ?thesis
    by (auto split: if_splits)
next
  case (Read i)
  with assms rw_ask_ok [of r i Read_permit] show ?thesis
    by (auto split: if_splits)
next
  case (Rw_poll i)
  have "rw_phase r i \<noteq> Write_notified"
    using assms(2) by (auto simp: rw_ok_def)
  with Rw_poll assms lock_poll_write_ok lock_poll_read_ok show ?thesis
    by (auto simp: Let_def split: if_splits rw_phase.splits)
next
  case (Guard_drop i)
  with assms write_guard_drop_ok read_guard_drop_ok show ?thesis
    by (auto split: rw_phase.splits)
next
  case (Rw_wake i)
  with assms show ?thesis
    by (auto simp: rw_ok_def intro: waits_mono)
qed

definition rw_step :: "rwlock \<Rightarrow> rwlock \<Rightarrow> bool" where
  "rw_step = (\<lambda>r r'. \<exists>e. rw_do e r = Some r')"

text \<open>The abstract lock: the writers and the readers. A writer needs that there is no other; a reader that there is no
  writer.\<close>

inductive rw_lock_step :: "nat set \<times> nat set \<Rightarrow> nat set \<times> nat set \<Rightarrow> bool" where
  write_start: "rw_lock_step ({}, R) ({i}, R)"
| write_end: "rw_lock_step ({i}, R) ({}, R)"
| read_start: "rw_lock_step ({}, R) ({}, insert i R)"
| read_end: "rw_lock_step (W, R) (W, R - {i})"

definition rw_view :: "rwlock \<Rightarrow> nat set \<times> nat set" where
  "rw_view r = ({j. rw_phase r j = Writing}, {j. rw_phase r j = Reading})"

lemma rw_view_phase:
  assumes "rw_phase r' = (rw_phase r)(i := p)"
  shows "rw_view r' =
    (if p = Writing then insert i (fst (rw_view r)) else fst (rw_view r) - {i},
     if p = Reading then insert i (snd (rw_view r)) else snd (rw_view r) - {i})"
  using assms by (simp add: rw_view_def upd_set del: fun_upd_apply)

lemma rw_view_out: "rw_phase r i \<noteq> Writing \<Longrightarrow> fst (rw_view r) - {i} = fst (rw_view r)" "rw_phase r i \<noteq> Reading \<Longrightarrow> snd (rw_view r) - {i} = snd (rw_view r)"
  by (auto simp: rw_view_def)

lemma rw_view_pair: "rw_view r = (fst (rw_view r), snd (rw_view r))"
  by simp

lemma rw_ok_view:
  assumes "rw_ok r"
  shows "permits (writer r) \<noteq> 0 \<Longrightarrow> fst (rw_view r) = {}" and "rw_phase r i = Writing \<Longrightarrow> fst (rw_view r) = {i}"
    and "rw_phase r i \<noteq> Write_notified"
proof -
  have one: "one_holder (permits (writer r)) {j. rw_phase r j = Writing}"
    using assms by (simp add: rw_ok_def)
  then show "permits (writer r) \<noteq> 0 \<Longrightarrow> fst (rw_view r) = {}"
    by (auto simp: rw_view_def one_holder_def)
  show "fst (rw_view r) = {i}" if "rw_phase r i = Writing"
  proof -
    have "j = i" if "rw_phase r j = Writing" for j
      using one_holder_unique [OF one, of j i] that \<open>rw_phase r i = Writing\<close> by simp
    with that show ?thesis
      unfolding rw_view_def fst_conv by (intro set_eqI) (metis mem_Collect_eq singleton_iff)
  qed
  show "rw_phase r i \<noteq> Write_notified"
    using assms by (auto simp: rw_ok_def)
qed

lemma rw_do_view:
  assumes step: "rw_do e r = Some r'" and ok: "rw_ok r"
  shows "rw_view r' = rw_view r \<or> rw_lock_step (rw_view r) (rw_view r')"
proof (cases e)
  case (Rw_poll i)
  let ?r = "r\<lparr>rw_woken := (rw_woken r)(i := False)\<rparr>"
  consider "rw_phase r i = Write_permit" "r' = lock_poll_write i ?r" | "rw_phase r i = Read_permit" "r' = lock_poll_read i ?r"
    using step Rw_poll rw_ok_view(3) [OF ok, of i] by (auto simp: Let_def split: if_splits rw_phase.splits)
  then show ?thesis
  proof cases
    case 1
    show ?thesis
    proof (cases "permits (writer r) = 0")
      case True
      with 1(2) show ?thesis
        by (simp add: lock_poll_write_def acquire_def rw_view_def)
    next
      case False
      with ok have bell: "is_notified (bell r)"
        by (simp add: rw_ok_def)
      with False 1(2) have "rw_phase r' = (rw_phase r)(i := Writing)"
        by (simp add: lock_poll_write_def poll_notified_def acquire_def notified_poll_def)
      from rw_view_phase [OF this] have "rw_view r' = ({i}, snd (rw_view r))"
        using rw_ok_view(1) [OF ok False] rw_view_out(2) [of r i] 1(1) by simp
      then show ?thesis
        using rw_ok_view(1) [OF ok False] rw_view_pair [of r] write_start by metis
    qed
  next
    case 2
    show ?thesis
    proof (cases "permits (writer r) = 0")
      case True
      with 2(2) show ?thesis
        by (simp add: lock_poll_read_def acquire_def rw_view_def)
    next
      case False
      with 2(2) have "rw_phase r' = (rw_phase r)(i := Reading)"
        by (simp add: lock_poll_read_def acquire_def permit_drop_def)
      from rw_view_phase [OF this] have "rw_view r' = ({}, insert i (snd (rw_view r)))"
        using rw_ok_view(1) [OF ok False] by simp
      then show ?thesis
        using rw_ok_view(1) [OF ok False] rw_view_pair [of r] read_start by metis
    qed
  qed
next
  case (Guard_drop i)
  show ?thesis
  proof (cases "rw_phase r i = Reading")
    case True
    with step Guard_drop have "r' = read_guard_drop i r"
      by simp
    then have "rw_phase r' = (rw_phase r)(i := Rw_idle)"
      by (simp add: read_guard_drop_def)
    from rw_view_phase [OF this] have "rw_view r' = (fst (rw_view r), snd (rw_view r) - {i})"
      using rw_view_out(1) [of r i] True by simp
    then show ?thesis
      using rw_view_pair [of r] read_end by metis
  next
    case False
    with step Guard_drop have i: "rw_phase r i = Writing" "r' = write_guard_drop i r"
      by (auto split: rw_phase.splits)
    then have "rw_phase r' = (rw_phase r)(i := Rw_idle)"
      by (simp add: write_guard_drop_def permit_drop_def split: prod.split)
    from rw_view_phase [OF this] have "rw_view r' = ({}, snd (rw_view r))"
      using rw_ok_view(2) [OF ok i(1)] rw_view_out(2) [of r i] i(1) by simp
    then show ?thesis
      using rw_ok_view(2) [OF ok i(1)] rw_view_pair [of r] write_end by metis
  qed
qed (use step in \<open>auto simp: rw_view_def split: if_splits\<close>)

interpretation rwlock: simulation "\<lambda>r. r = rwlock_new" rw_step rw_ok rw_lock_step rw_view
proof
  show "rw_ok r" if "r = rwlock_new" for r
    using that by (simp add: rwlock_new_def rw_ok_def one_holder_def waits_def semaphore_new_def notify_new_def notify_one_def rw_waiting_def)
  show "rw_ok r'" if "rw_step r r'" "rw_ok r" for r r'
    using that rw_do_ok unfolding rw_step_def by blast
  show "rw_view r' = rw_view r \<or> rw_lock_step (rw_view r) (rw_view r')" if "rw_step r r'" "rw_ok r" for r r'
    using that rw_do_view unfolding rw_step_def by blast
qed

lemma readers_ok_leave:
  "readers_ok r \<Longrightarrow> rw_phase r i = Reading \<Longrightarrow> readers_ok (read_guard_drop i r)"
  by (simp add: readers_ok_def read_guard_drop_def upd_set del: fun_upd_apply)

lemma readers_ok_phase:
  assumes "readers_ok r" and "rw_phase r i \<noteq> Reading" and "p \<noteq> Reading" and "rw_phase r' = (rw_phase r)(i := p)" and "readers r' = readers r"
  shows "readers_ok r'"
proof -
  have "{j. rw_phase r j = Reading} - {i} = {j. rw_phase r j = Reading}"
    using assms(2) by auto
  with assms show ?thesis
    by (simp add: readers_ok_def upd_set del: fun_upd_apply)
qed

lemma readers_ok_enter:
  assumes "readers_ok r" and "rw_phase r i \<noteq> Reading" and "rw_phase r' = (rw_phase r)(i := Reading)" and "readers r' = readers r + 1"
  shows "readers_ok r'"
  using assms by (simp add: readers_ok_def upd_set del: fun_upd_apply)

lemma rw_do_readers:
  assumes "rw_do e r = Some r'" and ok: "readers_ok r"
  shows "readers_ok r'"
proof (cases e)
  case (Write i)
  with assms(1) have r': "rw_phase r i = Rw_idle" "r' = set_phase i Write_permit (rw_wake [i] r)"
    by (simp_all split: if_splits)
  show ?thesis
    by (rule readers_ok_phase [OF ok]) (use r' in simp_all)
next
  case (Read i)
  with assms(1) have r': "rw_phase r i = Rw_idle" "r' = set_phase i Read_permit (rw_wake [i] r)"
    by (simp_all split: if_splits)
  show ?thesis
    by (rule readers_ok_phase [OF ok]) (use r' in simp_all)
next
  case (Rw_poll i)
  let ?r = "r\<lparr>rw_woken := (rw_woken r)(i := False)\<rparr>"
  consider "rw_phase r i = Write_permit" "r' = lock_poll_write i ?r" | "rw_phase r i = Write_notified" "r' = poll_notified i ?r"
    | "rw_phase r i = Read_permit" "r' = lock_poll_read i ?r"
    using assms(1) Rw_poll by (auto simp: Let_def split: if_splits rw_phase.splits)
  then show ?thesis
  proof cases
    case 1
    then have i: "rw_phase r i \<noteq> Reading"
      by simp
    show ?thesis
    proof (cases "permits (writer r) = 0")
      case True
      with ok 1(2) show ?thesis
        by (simp add: lock_poll_write_def acquire_def readers_ok_def)
    next
      case False
      then obtain p where "rw_phase r' = (rw_phase r)(i := p)" "p \<noteq> Reading" "readers r' = readers r"
        using 1(2) by (auto simp: lock_poll_write_def poll_notified_def acquire_def notified_poll_def split: if_splits)
      with readers_ok_phase [OF ok i] show ?thesis
        by blast
    qed
  next
    case 2
    then have i: "rw_phase r i \<noteq> Reading"
      by simp
    obtain p where "rw_phase r' = (rw_phase r)(i := p)" "p \<noteq> Reading" "readers r' = readers r"
      using 2(2) by (auto simp: poll_notified_def notified_poll_def split: if_splits)
    with readers_ok_phase [OF ok i] show ?thesis
      by blast
  next
    case 3
    then have i: "rw_phase r i \<noteq> Reading"
      by simp
    show ?thesis
    proof (cases "permits (writer r) = 0")
      case True
      with ok 3(2) show ?thesis
        by (simp add: lock_poll_read_def acquire_def readers_ok_def)
    next
      case False
      show ?thesis
        by (rule readers_ok_enter [OF ok i]) (use 3(2) False in \<open>simp_all add: lock_poll_read_def acquire_def permit_drop_def\<close>)
    qed
  qed
next
  case (Guard_drop i)
  show ?thesis
  proof (cases "rw_phase r i = Reading")
    case True
    with assms(1) Guard_drop readers_ok_leave [OF ok True] show ?thesis
      by simp
  next
    case False
    with assms(1) Guard_drop have r': "r' = write_guard_drop i r"
      by (auto split: rw_phase.splits)
    show ?thesis
      by (rule readers_ok_phase [OF ok False, of Rw_idle]) (simp_all add: r' write_guard_drop_def permit_drop_def split: prod.split)
  qed
next
  case (Rw_wake i)
  with assms show ?thesis
    by (auto simp: readers_ok_def)
qed

interpretation rwlock_readers: invariant_system "\<lambda>r. r = rwlock_new" rw_step readers_ok
proof
  show "readers_ok r" if "r = rwlock_new" for r
    using that by (simp add: rwlock_new_def readers_ok_def)
  show "readers_ok r'" if "rw_step r r'" "readers_ok r" for r r'
    using that rw_do_readers unfolding rw_step_def by blast
qed

section \<open>Properties\<close>

text \<open>C29: In every order of locking, polling, unlocking and stray wake-ups at most one task has the guard of a
  mutex, and when none has it every task that waits for it is woken, so that no wake-up is lost; the mutex
  implements the lock whose steps take it when it is free and give it back.\<close>

theorem mutex_exclusive:
  assumes "reach (\<lambda>m. m = mutex_new) mutex_step m"
  shows "(phase_of m i = Locked \<and> phase_of m j = Locked \<longrightarrow> i = j) \<and>
    ((\<forall>k. phase_of m k \<noteq> Locked) \<and> phase_of m j = Locking \<longrightarrow> woken m j) \<and>
    lock_step\<^sup>*\<^sup>* {} (mutex_view m)"
proof -
  have one: "one_holder (permits (sem m)) {j. phase_of m j = Locked}"
    and waits: "waits (permits (sem m)) (queue (sem m)) {j. phase_of m j = Locking} (woken m)"
    using mutex.reach_inv [OF assms] by (simp_all add: mutex_ok_def)
  have "i = j" if "phase_of m i = Locked" "phase_of m j = Locked"
    using one_holder_unique [OF one] that by simp
  moreover have "woken m j" if "\<forall>k. phase_of m k \<noteq> Locked" "phase_of m j = Locking"
    using one waits that by (auto simp: one_holder_def waits_def)
  moreover have "mutex_view mutex_new = {}"
    by (simp add: mutex_view_def mutex_new_def)
  then have "lock_step\<^sup>*\<^sup>* {} (mutex_view m)"
    using mutex.reach_view [OF assms] by auto
  ultimately show ?thesis
    by blast
qed

lemmas lock_eval = mutex_new_def semaphore_new_def acquire_def permit_drop_def wake_all_def

theorem mutex_exclusive_witness:
  "\<exists>m :: mutex. phase_of m 1 = Locked \<and> phase_of m 2 = Locking \<and> (\<forall>i. phase_of m i = Locked \<longrightarrow> i = 1)"
proof -
  have "map_option (\<lambda>m. (phase_of m 1, phase_of m 2)) (run_events mutex_do [Lock 1, Poll 1, Lock 2, Poll 2] mutex_new) = Some (Locked, Locking)"
    by (simp add: lock_eval)
  then obtain m where m: "run_events mutex_do [Lock 1, Poll 1, Lock 2, Poll 2] mutex_new = Some m"
      "phase_of m 1 = Locked" "phase_of m 2 = Locking"
    unfolding map_option_eq_Some by blast
  have reach: "reach (\<lambda>m. m = mutex_new) mutex_step m"
    unfolding mutex_step_def by (rule reach_run [OF m(1)])
  have "i = 1" if "phase_of m i = Locked" for i
    using mutex_exclusive [OF reach, of i 1] m(2) that by simp
  with m(2,3) show ?thesis
    by (intro exI [of _ m] conjI allI impI)
qed

text \<open>C30: In every run of a read-write lock at most one task has the guard of a writer, while one has it no
  task gets a guard of either kind, when none has it every waiting task is woken, and the count of the
  readers is the number of their guards; it implements the abstract lock, in which a guard of either kind needs
  that there is no writer.\<close>

theorem rwlock_writers:
  assumes "reach (\<lambda>r. r = rwlock_new) rw_step r"
  shows "(rw_phase r i = Writing \<and> rw_phase r j = Writing \<longrightarrow> i = j) \<and>
    (rw_phase r i = Writing \<and> rw_do (Rw_poll j) r = Some r' \<longrightarrow> rw_phase r' = rw_phase r) \<and>
    ((\<forall>k. rw_phase r k \<noteq> Writing) \<and> rw_phase r j \<in> {Write_permit, Write_notified, Read_permit} \<longrightarrow> rw_woken r j) \<and>
    finite {k. rw_phase r k = Reading} \<and> readers r = card {k. rw_phase r k = Reading} \<and>
    rw_lock_step\<^sup>*\<^sup>* ({}, {}) (rw_view r)"
proof -
  have ok: "rw_ok r" "readers_ok r"
    using rwlock.reach_inv [OF assms] rwlock_readers.reach_inv [OF assms] .
  then have one: "one_holder (permits (writer r)) {j. rw_phase r j = Writing}"
    and none: "\<And>k. rw_phase r k \<noteq> Write_notified"
    and waits: "waits (permits (writer r)) (queue (writer r)) (rw_waiting r) (rw_woken r)"
    by (auto simp: rw_ok_def)
  have "permits (writer r) = 0" if "rw_phase r i = Writing" for i
    using one that by (auto simp: one_holder_def)
  then have "rw_phase r' = rw_phase r" if "rw_phase r i = Writing" "rw_do (Rw_poll j) r = Some r'"
    using that none [of j] by (auto simp: Let_def lock_poll_write_def lock_poll_read_def acquire_def split: if_splits rw_phase.splits)
  moreover have "rw_woken r j" if "\<forall>k. rw_phase r k \<noteq> Writing" "rw_phase r j \<in> {Write_permit, Write_notified, Read_permit}"
    using one waits that none [of j] by (auto simp: one_holder_def waits_def rw_waiting_def)
  moreover have "i = j" if "rw_phase r i = Writing" "rw_phase r j = Writing"
    using one_holder_unique [OF one] that by simp
  moreover have "rw_view rwlock_new = ({}, {})"
    by (simp add: rw_view_def rwlock_new_def)
  then have "rw_lock_step\<^sup>*\<^sup>* ({}, {}) (rw_view r)"
    using rwlock.reach_view [OF assms] by auto
  ultimately show ?thesis
    using ok(2) unfolding readers_ok_def by blast
qed

lemmas rw_eval = rwlock_new_def semaphore_new_def notify_new_def notify_one_def acquire_def permit_drop_def lock_poll_write_def lock_poll_read_def
  poll_notified_def notified_poll_def set_phase_def rw_wake_def wake_all_def write_guard_drop_def Let_def

theorem rwlock_writers_witness:
  "\<exists>r :: rwlock. rw_phase r 1 = Writing \<and> rw_phase r 2 = Read_permit \<and> (\<forall>i. rw_phase r i = Writing \<longrightarrow> i = 1) \<and> readers r = card {k. rw_phase r k = Reading}"
proof -
  have "map_option (\<lambda>r. (rw_phase r 1, rw_phase r 2)) (run_events rw_do [Write 1, Rw_poll 1, Read 2, Rw_poll 2] rwlock_new) = Some (Writing, Read_permit)"
    by (simp add: rw_eval)
  then obtain r where r: "run_events rw_do [Write 1, Rw_poll 1, Read 2, Rw_poll 2] rwlock_new = Some r"
      "rw_phase r 1 = Writing" "rw_phase r 2 = Read_permit"
    unfolding map_option_eq_Some by blast
  have reach: "reach (\<lambda>r. r = rwlock_new) rw_step r"
    unfolding rw_step_def by (rule reach_run [OF r(1)])
  have "i = 1" if "rw_phase r i = Writing" for i
    using rwlock_writers [OF reach, of i 1 r, THEN conjunct1] r(2) that by blast
  moreover have "readers r = card {k. rw_phase r k = Reading}"
    using rwlock_writers [OF reach, of 1 1 r] by (elim conjE)
  ultimately show ?thesis
    using r(2,3) by (intro exI [of _ r] conjI allI impI)
qed

text \<open>A writer does not wait for the readers: a task gets the guard of a writer, an exclusive reference,
  while another has the guard of a reader, a reference to the same value.\<close>

theorem rwlock_reader_and_writer:
  "\<exists>r. reach (\<lambda>r. r = rwlock_new) rw_step r \<and> rw_phase r 1 = Reading \<and> rw_phase r 2 = Writing"
proof -
  have "map_option (\<lambda>r. (rw_phase r 1, rw_phase r 2)) (run_events rw_do [Read 1, Rw_poll 1, Write 2, Rw_poll 2] rwlock_new) = Some (Reading, Writing)"
    by (simp add: rw_eval)
  then obtain r where r: "run_events rw_do [Read 1, Rw_poll 1, Write 2, Rw_poll 2] rwlock_new = Some r"
      "rw_phase r 1 = Reading" "rw_phase r 2 = Writing"
    unfolding map_option_eq_Some by blast
  have "reach (\<lambda>r. r = rwlock_new) rw_step r"
    unfolding rw_step_def by (rule reach_run [OF r(1)])
  with r(2,3) show ?thesis
    by blast
qed

end
