(* ===== verification/LrcpPackets.thy ===== *)
theory LrcpPackets
  imports Text
begin

text \<open>
  The packets of the Line Reversal Control Protocol, \<open>rust/p07-line-reversal/src/lrcp/packets.rs\<close>:
  numeric fields, payloads with their escapes, the four packets, their printer and their parser.
  The target of \<open>io::Write\<close> is a \<open>sink\<close>: the bytes written and, for a \<open>&mut [u8]\<close>, the room left.
\<close>

section \<open>Constants and types\<close>

definition MAX_NUMERIC_LENGTH :: nat where
  "MAX_NUMERIC_LENGTH = 10"

definition PACKET_POSTFIX :: "byte list" where
  "PACKET_POSTFIX = ascii ''/''"

definition PACKET_FIELD_SEPARATOR :: "byte list" where
  "PACKET_FIELD_SEPARATOR = ascii ''/''"

definition PACKET_CONNECT_PREFIX :: "byte list" where
  "PACKET_CONNECT_PREFIX = ascii ''/connect/''"

definition PACKET_DATA_PREFIX :: "byte list" where
  "PACKET_DATA_PREFIX = ascii ''/data/''"

definition PACKET_ACK_PREFIX :: "byte list" where
  "PACKET_ACK_PREFIX = ascii ''/ack/''"

definition PACKET_CLOSE_PREFIX :: "byte list" where
  "PACKET_CLOSE_PREFIX = ascii ''/close/''"

definition BUFFER_SIZE :: nat where
  "BUFFER_SIZE = 1000 - length PACKET_DATA_PREFIX - 2 * length PACKET_FIELD_SEPARATOR
     - length PACKET_POSTFIX - 2 * MAX_NUMERIC_LENGTH - 50"

lemmas packet_constants = MAX_NUMERIC_LENGTH_def PACKET_POSTFIX_def PACKET_FIELD_SEPARATOR_def
  PACKET_CONNECT_PREFIX_def PACKET_DATA_PREFIX_def PACKET_ACK_PREFIX_def PACKET_CLOSE_PREFIX_def
  ascii_def

lemma BUFFER_SIZE_eq: "BUFFER_SIZE = 921"
  by (simp add: BUFFER_SIZE_def packet_constants)

datatype numeric = Numeric (numeric_value: u32)

datatype payload = Payload (payload_string: rstring)

datatype packet_error = InvalidPacket | UnknownPacket | NumericOverflow | Overflow

datatype packet =
    Connect numeric
  | Data numeric numeric payload
  | Ack numeric numeric
  | Close numeric

fun packet_session :: "packet \<Rightarrow> numeric" where
  "packet_session (Connect s) = s"
| "packet_session (Close s) = s"
| "packet_session (Data s _ _) = s"
| "packet_session (Ack s _) = s"

section \<open>Output\<close>

datatype io_error = WriteZero

record sink =
  written :: "byte list"
  room :: "nat option"

definition vec_sink :: sink where
  "vec_sink = \<lparr>written = [], room = None\<rparr>"

definition slice_sink :: "nat \<Rightarrow> sink" where
  "slice_sink n = \<lparr>written = [], room = Some n\<rparr>"

text \<open>\<open>io::Write::write\<close> of \<open>Vec<u8>\<close> and of \<open>&mut [u8]\<close>: the count of bytes taken.\<close>

definition sink_write :: "byte list \<Rightarrow> sink \<Rightarrow> nat \<times> sink" where
  "sink_write bs s =
     (case room s of
        None \<Rightarrow> (length bs, s\<lparr>written := written s @ bs\<rparr>)
      | Some r \<Rightarrow>
          let n = min r (length bs)
          in (n, s\<lparr>written := written s @ take n bs, room := Some (r - n)\<rparr>))"

text \<open>\<open>io::Write::write_all\<close>: all the bytes, or an error.\<close>

definition sink_write_all :: "byte list \<Rightarrow> sink \<Rightarrow> (io_error, sink) outcome" where
  "sink_write_all bs s =
     (let (n, s') = sink_write bs s in if n = length bs then Ok s' else Err WriteZero)"

definition fits :: "nat \<Rightarrow> sink \<Rightarrow> bool" where
  "fits n s = (case room s of None \<Rightarrow> True | Some r \<Rightarrow> n \<le> r)"

definition emit :: "byte list \<Rightarrow> sink \<Rightarrow> sink" where
  "emit bs s = s\<lparr>written := written s @ bs, room := map_option (\<lambda>r. r - length bs) (room s)\<rparr>"

lemma sink_write_all_eq:
  "sink_write_all bs s = (if fits (length bs) s then Ok (emit bs s) else Err WriteZero)"
  by (cases s) (auto simp: sink_write_all_def sink_write_def fits_def emit_def min_def Let_def
      split: option.splits)

lemma sink_write_byte:
  "sink_write [b] s = (if fits 1 s then (1, emit [b] s) else (0, s))"
  by (cases s) (auto simp: sink_write_def fits_def emit_def min_def split: option.splits)

lemma emit_simps [simp]:
  "written (emit bs s) = written s @ bs"
  "emit bs (emit as s) = emit (as @ bs) s"
  "emit [] s = s"
  by (cases s; cases "room s"; simp add: emit_def)+

lemma fits_emit: "fits n s \<Longrightarrow> length bs \<le> n \<Longrightarrow> fits m (emit bs s) \<longleftrightarrow> fits (length bs + m) s"
  by (cases "room s") (auto simp: fits_def emit_def)

lemma fits_mono: "fits n s \<Longrightarrow> m \<le> n \<Longrightarrow> fits m s"
  by (auto simp: fits_def split: option.splits)

lemma fits_sinks [simp]:
  "fits n vec_sink" "fits n (slice_sink r) \<longleftrightarrow> n \<le> r" "written (slice_sink r) = []"
  by (simp_all add: fits_def vec_sink_def slice_sink_def)

section \<open>Numeric fields\<close>

text \<open>\<open>Numeric::parse\<close>. \<open>oc\<close>: does the build check for overflow?\<close>

fun numeric_parse_loop :: "bool \<Rightarrow> u32 \<Rightarrow> byte list \<Rightarrow> (packet_error, numeric \<times> byte list) outcome" where
  "numeric_parse_loop oc result [] = Err InvalidPacket"
| "numeric_parse_loop oc result (v # b) =
     (if is_ascii_digit v then
        bind_outcome (mul_w oc result 10) (\<lambda>m.
        bind_outcome (add_w oc m (ucast (v - 48))) (\<lambda>result'.
          if 2147483648 \<le> result' then Err NumericOverflow
          else numeric_parse_loop oc result' b))
      else if v = 47 then Ok (Numeric result, v # b)
      else Err InvalidPacket)"

definition numeric_parse :: "bool \<Rightarrow> byte list \<Rightarrow> (packet_error, numeric \<times> byte list) outcome" where
  "numeric_parse oc buffer = numeric_parse_loop oc 0 buffer"

text \<open>
  The writer of \<open>Numeric\<close>: the digits from the least significant one into an array of ten bytes
  (an index outside it panics), then the array's bytes backwards, one \<open>write\<close> each.
\<close>

function numeric_digits_loop :: "u32 \<Rightarrow> byte list \<Rightarrow> nat \<Rightarrow> (io_error, byte list \<times> nat) outcome" where
  "numeric_digits_loop v buffer len =
     (if length buffer \<le> len then Panic
      else
        let buffer' = buffer[len := ucast (v mod 10) + 48]
        in if v div 10 = 0 then Ok (buffer', len + 1)
           else numeric_digits_loop (v div 10) buffer' (len + 1))"
  by pat_completeness auto
termination
  by (relation "measure (\<lambda>(v, buffer, len). length buffer - len)") auto

declare numeric_digits_loop.simps [simp del]

fun numeric_emit_loop :: "byte list \<Rightarrow> nat list \<Rightarrow> sink \<Rightarrow> (io_error, sink) outcome" where
  "numeric_emit_loop buffer [] s = Ok s"
| "numeric_emit_loop buffer (i # is) s =
     (case sink_write [buffer ! i] s of
        (n, s') \<Rightarrow> if n = 0 then Err WriteZero else numeric_emit_loop buffer is s')"

definition numeric_write :: "numeric \<Rightarrow> sink \<Rightarrow> (io_error, nat \<times> sink) outcome" where
  "numeric_write n s =
     bind_outcome (numeric_digits_loop (numeric_value n) (replicate 10 0) 0) (\<lambda>(buffer, len).
     bind_outcome (numeric_emit_loop buffer (rev [0..<len]) s) (\<lambda>s'. Ok (len, s')))"

section \<open>Payloads\<close>

text \<open>\<open>String::push\<close> of a byte cast to \<open>char\<close>: the UTF-8 of the code point below 256.\<close>

definition char_utf8 :: "byte \<Rightarrow> byte list" where
  "char_utf8 b = (if b < 128 then [b] else [192 OR drop_bit 6 b, 128 OR (b AND 63)])"

fun payload_new_loop :: "nat \<Rightarrow> rstring \<Rightarrow> byte list \<Rightarrow> rstring" where
  "payload_new_loop len payload [] = payload"
| "payload_new_loop len payload (b # bs) =
     (let len' = (if b = 92 \<or> b = 47 then len + 2 else len + 1)
      in if BUFFER_SIZE \<le> len' then payload
         else payload_new_loop len' (payload @ char_utf8 b) bs)"

definition payload_new :: "byte list \<Rightarrow> payload option" where
  "payload_new buffer = (if buffer = [] then None else Some (Payload (payload_new_loop 0 [] buffer)))"

fun payload_parse_loop :: "rstring \<Rightarrow> bool \<Rightarrow> byte list \<Rightarrow> (packet_error, payload \<times> byte list) outcome" where
  "payload_parse_loop result skip [] = Err InvalidPacket"
| "payload_parse_loop result skip (c # b) =
     (if c = 92 \<and> \<not> skip then payload_parse_loop result True b
      else if c = 47 \<and> \<not> skip then Ok (Payload result, c # b)
      else if (c = 92 \<or> c = 47) \<and> skip then payload_parse_loop (result @ char_utf8 c) False b
      else if \<not> skip then payload_parse_loop (result @ char_utf8 c) skip b
      else Err InvalidPacket)"

definition payload_parse :: "byte list \<Rightarrow> (packet_error, payload \<times> byte list) outcome" where
  "payload_parse buffer = payload_parse_loop [] False buffer"

text \<open>\<open>Payload::write\<close>: the bytes after the first \<open>skip\<close>, appended to the application's buffer.\<close>

definition payload_write :: "bool \<Rightarrow> payload \<Rightarrow> byte list \<Rightarrow> u32 \<Rightarrow> ('e, u32 \<times> byte list) outcome" where
  "payload_write oc p buffer skip =
     bind_outcome (sub_w oc (of_nat (length (payload_string p))) skip) (\<lambda>n.
       Ok (n, buffer @ drop (unat skip) (payload_string p)))"

fun payload_emit_loop :: "byte list \<Rightarrow> nat \<Rightarrow> sink \<Rightarrow> (io_error, nat \<times> sink) outcome" where
  "payload_emit_loop [] len s = Ok (len, s)"
| "payload_emit_loop (b # bs) len s =
     (if b = 47 \<or> b = 92
      then bind_outcome (sink_write_all [92, b] s) (payload_emit_loop bs (len + 2))
      else bind_outcome (sink_write_all [b] s) (payload_emit_loop bs (len + 1)))"

definition payload_write_value :: "payload \<Rightarrow> sink \<Rightarrow> (io_error, nat \<times> sink) outcome" where
  "payload_write_value p s = payload_emit_loop (payload_string p) 0 s"

section \<open>Packets\<close>

fun packet_write_value :: "packet \<Rightarrow> sink \<Rightarrow> (io_error, nat \<times> sink) outcome" where
  "packet_write_value (Connect session) s =
     bind_outcome (sink_write_all PACKET_CONNECT_PREFIX s) (\<lambda>s.
     bind_outcome (numeric_write session s) (\<lambda>(len, s).
     bind_outcome (sink_write_all PACKET_POSTFIX s) (\<lambda>s.
       Ok (length PACKET_CONNECT_PREFIX + len + length PACKET_POSTFIX, s))))"
| "packet_write_value (Close session) s =
     bind_outcome (sink_write_all PACKET_CLOSE_PREFIX s) (\<lambda>s.
     bind_outcome (numeric_write session s) (\<lambda>(len, s).
     bind_outcome (sink_write_all PACKET_POSTFIX s) (\<lambda>s.
       Ok (length PACKET_CLOSE_PREFIX + len + length PACKET_POSTFIX, s))))"
| "packet_write_value (Ack session lengt) s =
     bind_outcome (sink_write_all PACKET_ACK_PREFIX s) (\<lambda>s.
     bind_outcome (numeric_write session s) (\<lambda>(len, s).
     bind_outcome (sink_write_all PACKET_FIELD_SEPARATOR s) (\<lambda>s.
     bind_outcome (numeric_write lengt s) (\<lambda>(len', s).
     bind_outcome (sink_write_all PACKET_POSTFIX s) (\<lambda>s.
       Ok (length PACKET_ACK_PREFIX + (len + len') + length PACKET_FIELD_SEPARATOR
             + length PACKET_POSTFIX, s))))))"
| "packet_write_value (Data session pos data) s =
     bind_outcome (sink_write_all PACKET_DATA_PREFIX s) (\<lambda>s.
     bind_outcome (numeric_write session s) (\<lambda>(len, s).
     bind_outcome (sink_write_all PACKET_FIELD_SEPARATOR s) (\<lambda>s.
     bind_outcome (numeric_write pos s) (\<lambda>(len', s).
     bind_outcome (sink_write_all PACKET_FIELD_SEPARATOR s) (\<lambda>s.
     bind_outcome (payload_write_value data s) (\<lambda>(len'', s).
     bind_outcome (sink_write_all PACKET_POSTFIX s) (\<lambda>s.
       Ok (length PACKET_DATA_PREFIX + (len + len' + len'') + length PACKET_FIELD_SEPARATOR * 2
             + length PACKET_POSTFIX, s))))))))"

text \<open>\<open>Packet::try_from\<close>. A slice \<open>&buffer[1..]\<close> of an empty slice panics.\<close>

definition slice_from :: "nat \<Rightarrow> byte list \<Rightarrow> ('e, byte list) outcome" where
  "slice_from n bs = (if n \<le> length bs then Ok (drop n bs) else Panic)"

definition packet_try_from :: "bool \<Rightarrow> byte list \<Rightarrow> (packet_error, packet) outcome" where
  "packet_try_from oc buffer =
     (if suffix (ascii ''/'') buffer \<and> length buffer < 1000 then
        if prefix PACKET_CONNECT_PREFIX buffer then
          bind_outcome (slice_from (length PACKET_CONNECT_PREFIX) buffer) (\<lambda>buffer.
          bind_outcome (numeric_parse oc buffer) (\<lambda>(session, buffer).
            if buffer \<noteq> ascii ''/'' then Err InvalidPacket else Ok (Connect session)))
        else if prefix PACKET_DATA_PREFIX buffer then
          bind_outcome (slice_from (length PACKET_DATA_PREFIX) buffer) (\<lambda>buffer.
          bind_outcome (numeric_parse oc buffer) (\<lambda>(session, buffer).
          bind_outcome (slice_from 1 buffer) (\<lambda>buffer.
          bind_outcome (numeric_parse oc buffer) (\<lambda>(pos, buffer).
          bind_outcome (slice_from 1 buffer) (\<lambda>buffer.
          bind_outcome (payload_parse buffer) (\<lambda>(data, buffer).
            if buffer \<noteq> ascii ''/'' then Err InvalidPacket else Ok (Data session pos data)))))))
        else if prefix PACKET_ACK_PREFIX buffer then
          bind_outcome (slice_from (length PACKET_ACK_PREFIX) buffer) (\<lambda>buffer.
          bind_outcome (numeric_parse oc buffer) (\<lambda>(session, buffer).
          bind_outcome (slice_from 1 buffer) (\<lambda>buffer.
          bind_outcome (numeric_parse oc buffer) (\<lambda>(lengt, buffer).
            if buffer \<noteq> ascii ''/'' then Err InvalidPacket else Ok (Ack session lengt)))))
        else if prefix PACKET_CLOSE_PREFIX buffer then
          bind_outcome (slice_from (length PACKET_CLOSE_PREFIX) buffer) (\<lambda>buffer.
          bind_outcome (numeric_parse oc buffer) (\<lambda>(session, buffer).
            if buffer \<noteq> ascii ''/'' then Err InvalidPacket else Ok (Close session)))
        else Err UnknownPacket
      else Err UnknownPacket)"


section \<open>What the numeric writer and reader do\<close>

lemma numeric_digits_loop_eq:
  "len + length (dec (unat v)) \<le> length buffer \<Longrightarrow>
   numeric_digits_loop v buffer len =
     Ok (take len buffer @ rev (dec (unat v)) @ drop (len + length (dec (unat v))) buffer,
         len + length (dec (unat v)))"
proof (induction v buffer len rule: numeric_digits_loop.induct)
  case (1 v buffer len)
  define b' where "b' = buffer[len := ucast (v mod 10) + 48]"
  have unat_div: "unat (v div 10) = unat v div 10" "unat (v mod 10) = unat v mod 10"
    by (simp_all add: unat_div unat_mod)
  have len: "len < length buffer"
    using "1.prems" dec_nonempty(2) [of "unat v"] by linarith
  have digit: "(ucast (v mod 10) :: byte) + 48 = 48 + of_nat (unat v mod 10)"
    by (simp add: unsigned_ucast_eq flip: unat_div)
  show ?case
  proof (cases "v div 10 = 0")
    case True
    then have "unat v < 10"
      using unat_div(1) by (simp add: div_eq_0_iff)
    then show ?thesis
      using len True digit
      by (subst numeric_digits_loop.simps, subst dec.simps)
        (simp add: upd_conv_take_nth_drop dec.simps)
  next
    case False
    then have dec: "dec (unat v) = dec (unat (v div 10)) @ [48 + of_nat (unat v mod 10)]"
      using unat_div(1) by (subst dec.simps) (auto simp: unat_eq_zero)
    have "numeric_digits_loop v buffer len = numeric_digits_loop (v div 10) b' (len + 1)"
      using False len by (subst numeric_digits_loop.simps) (simp add: b'_def)
    moreover have "take (len + 1) b' = take len buffer @ [48 + of_nat (unat v mod 10)]"
      using len digit by (simp add: b'_def take_Suc_conv_app_nth)
    moreover have "len + 1 + length (dec (unat (v div 10))) \<le> length b'"
      using "1.prems" dec by (simp add: b'_def)
    ultimately show ?thesis
      using "1.IH" [of b'] False len dec by (simp add: b'_def)
  qed
qed

lemma numeric_emit_loop_eq:
  "numeric_emit_loop buffer is s =
     (if is = [] \<or> fits (length is) s then Ok (emit (map ((!) buffer) is) s) else Err WriteZero)"
proof (induction "is" arbitrary: s)
  case (Cons i "is")
  show ?case
  proof (cases "fits 1 s")
    case True
    then show ?thesis
      using Cons [of "emit [buffer ! i] s"] fits_emit [of 1 s "[buffer ! i]" "length is"]
      by (auto simp: sink_write_byte)
  next
    case False
    then have "\<not> fits (length (i # is)) s"
      using fits_mono [of "length (i # is)" s 1] by auto
    then show ?thesis
      using False by (simp add: sink_write_byte)
  qed
qed simp

lemma map_nth_rev: "map ((!) (rev ds @ rest)) (rev [0..<length ds]) = ds"
  by (rule nth_equalityI) (auto simp: nth_append rev_nth)

definition numeric_bytes :: "numeric \<Rightarrow> byte list" where
  "numeric_bytes n = dec (unat (numeric_value n))"

lemma numeric_write_eq:
  "numeric_write n s =
     (if fits (length (numeric_bytes n)) s
      then Ok (length (numeric_bytes n), emit (numeric_bytes n) s) else Err WriteZero)"
  using numeric_digits_loop_eq [of 0 "numeric_value n" "replicate 10 0"]
    length_dec_u32 [of "numeric_value n"]
  by (simp add: numeric_write_def numeric_bytes_def numeric_emit_loop_eq map_nth_rev)

lemma digit_value: "is_ascii_digit d \<Longrightarrow> unat (d - 48) < 10"
  by (auto simp: is_ascii_digit_def word_le_nat_alt unat_sub')

lemma numeric_parse_digits:
  "\<forall>d \<in> set ds. is_ascii_digit d \<Longrightarrow> dval (unat r) ds < 2147483648 \<Longrightarrow>
   numeric_parse_loop oc r (ds @ rest) = numeric_parse_loop oc (of_nat (dval (unat r) ds)) rest"
proof (induction ds arbitrary: r)
  case (Cons d ds)
  let ?m = "unat r * 10 + unat (d - 48)"
  have m: "?m < 2147483648"
    using dval_mono [of ?m ds] Cons.prems(2) by simp
  have mul: "mul_w oc r 10 = Ok (r * 10)"
    using m by (intro mul_w_Ok) simp
  have umul: "unat (r * 10) = unat r * 10"
    using m by (simp add: unat_mul_lem')
  have udig: "unat (ucast (d - 48) :: u32) = unat (d - 48)"
    by (simp add: unat_ucast_up)
  have add: "add_w oc (r * 10) (ucast (d - 48)) = Ok (r * 10 + ucast (d - 48))"
    using m umul udig by (intro add_w_Ok) simp
  have uadd: "unat (r * 10 + ucast (d - 48)) = ?m"
    using m umul udig by (simp add: unat_add_lem')
  show ?case
    using Cons.IH [of "r * 10 + ucast (d - 48)"] Cons.prems m
    by (simp add: mul add uadd word_le_nat_alt)
qed simp

lemma numeric_parse_stop: "numeric_parse_loop oc r (47 # rest) = Ok (Numeric r, 47 # rest)"
  by (simp add: is_ascii_digit_def)

lemma numeric_parse_bytes:
  "numeric_value n < 2147483648 \<Longrightarrow> numeric_parse oc (numeric_bytes n @ 47 # rest) = Ok (n, 47 # rest)"
  unfolding numeric_parse_def numeric_bytes_def
  by (subst numeric_parse_digits)
    (auto simp: dval_dec dec_digits numeric_parse_stop word_less_nat_alt simp del: numeric_parse_loop.simps)


text \<open>
  A numeral: digits, possibly none, which stand for 0. With overflow checks their value is below
  \<open>2 ^ 31\<close>. Without, the value is kept modulo \<open>2 ^ 32\<close> and what is below \<open>2 ^ 31\<close> is the value so far, after
  every digit.
\<close>

definition numeral_of :: "bool \<Rightarrow> numeric \<Rightarrow> byte list \<Rightarrow> bool" where
  "numeral_of oc n ds \<longleftrightarrow>
     list_all is_ascii_digit ds \<and> n = Numeric (of_nat (dval 0 ds)) \<and>
     (if oc then dval 0 ds < 2147483648
      else \<forall>k \<le> length ds. dval 0 (take k ds) mod 2 ^ 32 < 2147483648)"

lemma dval_take_le: "dval a (take k ds) \<le> dval a ds"
proof (induction ds arbitrary: a k)
  case (Cons d ds)
  show ?case
    using Cons [of "a * 10 + unat (d - 48)"] dval_mono [of a "d # ds"] by (cases k) simp_all
qed simp

lemma numeral_of_mode: "numeral_of True n ds \<Longrightarrow> numeral_of oc n ds"
  using dval_take_le [of 0 _ ds] by (auto simp: numeral_of_def) (meson le_less_trans mod_less_eq_dividend)

lemma numeral_of_bytes: "numeric_value n < 2147483648 \<Longrightarrow> numeral_of oc n (numeric_bytes n)"
  by (rule numeral_of_mode) (cases n; auto simp: numeral_of_def numeric_bytes_def list_all_iff dec_digits dval_dec
      word_less_nat_alt)

lemma numeric_parse_loop_Ok:
  "numeric_parse_loop True r bs = Ok (n, rest) \<Longrightarrow> unat r < 2147483648 \<Longrightarrow>
   \<exists>ds. bs = ds @ rest \<and> list_all is_ascii_digit ds \<and> dval (unat r) ds < 2147483648 \<and>
        n = Numeric (of_nat (dval (unat r) ds)) \<and> (\<exists>t. rest = 47 # t)"
proof (induction bs arbitrary: r)
  case (Cons v b)
  show ?case
  proof (cases "is_ascii_digit v")
    case True
    let ?m = "unat r * 10 + unat (v - 48)"
    have udig: "unat (ucast (v - 48) :: u32) = unat (v - 48)"
      by (simp add: unat_ucast_up)
    from Cons.prems(1) True obtain m r' where
      mul: "mul_w True r 10 = (Ok m :: (packet_error, u32) outcome)" and
      add: "add_w True m (ucast (v - 48)) = (Ok r' :: (packet_error, u32) outcome)" and
      lt: "\<not> 2147483648 \<le> r'" and
      loop: "numeric_parse_loop True r' b = Ok (n, rest)"
      by (auto split: if_splits)
    have "unat m = unat r * 10"
      using mul by (auto simp: mul_w_def unat_mul_lem' split: if_splits)
    then have r': "unat r' = ?m"
      using add udig by (auto simp: add_w_def unat_add_lem' split: if_splits)
    have "unat r' < 2147483648"
      using lt by (simp add: word_le_nat_alt)
    then obtain ds where "b = ds @ rest" "list_all is_ascii_digit ds" "dval (unat r') ds < 2147483648"
      "n = Numeric (of_nat (dval (unat r') ds))" "\<exists>t. rest = 47 # t"
      using Cons.IH [OF loop] by auto
    then show ?thesis
      using True r' by (intro exI [of _ "v # ds"]) simp
  next
    case False
    then show ?thesis
      using Cons.prems by (auto split: if_splits)
  qed
qed simp

lemma ex_digits_Cons:
  assumes "is_ascii_digit v"
  shows "(\<exists>ds. v # b = ds @ rest \<and> list_all is_ascii_digit ds \<and> P ds \<and> (\<exists>t. rest = 47 # t)) \<longleftrightarrow>
    (\<exists>ds. b = ds @ rest \<and> list_all is_ascii_digit ds \<and> P (v # ds) \<and> (\<exists>t. rest = 47 # t))"
proof -
  have "\<not> is_ascii_digit 47"
    by (simp add: is_ascii_digit_def)
  with assms show ?thesis
    by (auto simp: Cons_eq_append_conv)
qed

lemma all_le_Suc: "(\<forall>k \<le> Suc n. P k) \<longleftrightarrow> P 0 \<and> (\<forall>k \<le> n. P (Suc k))"
  by (metis Suc_le_mono le0 not0_implies_Suc)

text \<open>The loop without overflow checks computes modulo \<open>2 ^ 32\<close>.\<close>

lemma numeric_parse_loop_release:
  "a mod 2 ^ 32 < 2147483648 \<Longrightarrow>
   numeric_parse_loop False (of_nat a) bs = Ok (n, rest) \<longleftrightarrow>
     (\<exists>ds. bs = ds @ rest \<and> list_all is_ascii_digit ds \<and>
        (n = Numeric (of_nat (dval a ds)) \<and> (\<forall>k \<le> length ds. dval a (take k ds) mod 2 ^ 32 < 2147483648)) \<and>
        (\<exists>t. rest = 47 # t))"
proof (induction bs arbitrary: a)
  case (Cons v b)
  show ?case
  proof (cases "is_ascii_digit v")
    case True
    let ?m = "a * 10 + unat (v - 48)"
    have r: "(of_nat a * 10 + ucast (v - 48) :: u32) = of_nat ?m"
      by (simp add: of_nat_unat)
    have bound: "2147483648 \<le> (of_nat ?m :: u32) \<longleftrightarrow> \<not> ?m mod 2 ^ 32 < 2147483648"
      by (simp add: word_le_nat_alt unat_of_nat not_less del: of_nat_add of_nat_mult)
    have step: "numeric_parse_loop False (of_nat a) (v # b) =
        (if ?m mod 2 ^ 32 < 2147483648 then numeric_parse_loop False (of_nat ?m) b else Err NumericOverflow)"
      using True by (simp add: mul_w_def add_w_def r bound del: of_nat_add of_nat_mult)
    show ?thesis
      unfolding step ex_digits_Cons [OF True]
      using Cons.IH [of ?m] Cons.prems by (auto simp: all_le_Suc)
  next
    case False
    then show ?thesis
      using Cons.prems by (auto simp: Cons_eq_append_conv)
  qed
qed simp

lemma numeric_parse_iff:
  "numeric_parse oc bs = Ok (n, rest) \<longleftrightarrow>
     (\<exists>ds. bs = ds @ rest \<and> numeral_of oc n ds) \<and> (\<exists>t. rest = 47 # t)"
proof (cases oc)
  case True
  have "numeric_parse True bs = Ok (n, rest)" if "bs = ds @ rest" "numeral_of True n ds" "\<exists>t. rest = 47 # t" for ds
    using that numeric_parse_digits [of _ 0 True rest]
    by (auto simp: numeric_parse_def numeral_of_def list_all_iff numeric_parse_stop
        simp del: numeric_parse_loop.simps)
  moreover have "(\<exists>ds. bs = ds @ rest \<and> numeral_of True n ds) \<and> (\<exists>t. rest = 47 # t)"
    if "numeric_parse True bs = Ok (n, rest)"
    using that unfolding numeric_parse_def using numeric_parse_loop_Ok [of 0 bs n rest] by (auto simp: numeral_of_def)
  ultimately show ?thesis
    unfolding eqTrueI [OF True] by blast
next
  case False
  then show ?thesis
    using numeric_parse_loop_release [of 0 bs n rest] by (auto simp: numeric_parse_def numeral_of_def)
qed

section \<open>Escapes\<close>

definition esc :: "byte list \<Rightarrow> byte list" where
  "esc s = concat (map (\<lambda>b. if b = 47 \<or> b = 92 then [92, b] else [b]) s)"

definition latin1 :: "byte list \<Rightarrow> rstring" where
  "latin1 s = concat (map char_utf8 s)"

lemma esc_simps [simp]:
  "esc [] = []"
  "esc (b # s) = (if b = 47 \<or> b = 92 then [92, b] else [b]) @ esc s"
  "esc (s @ t) = esc s @ esc t"
  by (simp_all add: esc_def)

lemma latin1_simps [simp]:
  "latin1 [] = []"
  "latin1 (b # s) = char_utf8 b @ latin1 s"
  "latin1 (s @ t) = latin1 s @ latin1 t"
  by (simp_all add: latin1_def)

lemma latin1_ascii: "list_all is_ascii s \<Longrightarrow> latin1 s = s"
  by (induction s) (auto simp: char_utf8_def is_ascii_def)

lemma payload_parse_loop_esc:
  "payload_parse_loop acc False (esc s @ 47 # rest) = Ok (Payload (acc @ latin1 s), 47 # rest)"
  by (induction s arbitrary: acc) auto

lemma payload_parse_loop_Ok:
  "payload_parse_loop acc skip bs = Ok (p, rest) \<Longrightarrow>
   \<exists>s. (if skip then 92 # bs else bs) = esc s @ rest \<and> p = Payload (acc @ latin1 s) \<and> (\<exists>t. rest = 47 # t)"
proof (induction acc skip bs rule: payload_parse_loop.induct)
  case (2 acc skip c b)
  consider "c = 92 \<and> \<not> skip" | "c = 47 \<and> \<not> skip" | "(c = 92 \<or> c = 47) \<and> skip"
    | "c \<noteq> 92 \<and> c \<noteq> 47 \<and> \<not> skip" | "c \<noteq> 92 \<and> c \<noteq> 47 \<and> skip"
    by auto
  then show ?case
  proof cases
    case 1
    then show ?thesis
      using 2 by simp
  next
    case 2
    then show ?thesis
      using "2.prems" by (intro exI [of _ "[]"]) auto
  next
    case 3
    then obtain s where "b = esc s @ rest" "p = Payload ((acc @ char_utf8 c) @ latin1 s)" "\<exists>t. rest = 47 # t"
      using "2.IH"(2) "2.prems" by auto
    with 3 show ?thesis
      by (intro exI [of _ "c # s"]) auto
  next
    case 4
    then obtain s where "b = esc s @ rest" "p = Payload ((acc @ char_utf8 c) @ latin1 s)" "\<exists>t. rest = 47 # t"
      using "2.IH"(3) "2.prems" by auto
    with 4 show ?thesis
      by (intro exI [of _ "c # s"]) auto
  next
    case 5
    then show ?thesis
      using "2.prems" by simp
  qed
qed simp

lemma payload_parse_iff:
  "payload_parse bs = Ok (p, rest) \<longleftrightarrow>
     (\<exists>s. bs = esc s @ rest \<and> p = Payload (latin1 s)) \<and> (\<exists>t. rest = 47 # t)"
  using payload_parse_loop_Ok [of "[]" False bs p rest] payload_parse_loop_esc [of "[]"]
  by (auto simp: payload_parse_def)

lemma payload_emit_loop_eq:
  "payload_emit_loop bs len s =
     (if bs = [] \<or> fits (length (esc bs)) s then Ok (len + length (esc bs), emit (esc bs) s) else Err WriteZero)"
proof (induction bs arbitrary: len s)
  case (Cons b bs)
  then show ?case
    by (auto simp: sink_write_all_eq fits_def emit_def split: option.splits)
qed simp


section \<open>What the packet writer and reader do\<close>

fun packet_bytes :: "packet \<Rightarrow> byte list" where
  "packet_bytes (Connect n) = PACKET_CONNECT_PREFIX @ numeric_bytes n @ [47]"
| "packet_bytes (Close n) = PACKET_CLOSE_PREFIX @ numeric_bytes n @ [47]"
| "packet_bytes (Ack n l) = PACKET_ACK_PREFIX @ numeric_bytes n @ 47 # numeric_bytes l @ [47]"
| "packet_bytes (Data n p (Payload d)) =
     PACKET_DATA_PREFIX @ numeric_bytes n @ 47 # numeric_bytes p @ 47 # esc d @ [47]"

lemma room_emit: "room (emit bs s) = map_option (\<lambda>r. r - length bs) (room s)"
  by (simp add: emit_def)

lemmas sink_simps = sink_write_all_eq numeric_write_eq payload_write_value_def payload_emit_loop_eq
  fits_def room_emit

lemma packet_write_eq:
  "packet_write_value p s =
     (if fits (length (packet_bytes p)) s
      then Ok (length (packet_bytes p), emit (packet_bytes p) s) else Err WriteZero)"
proof (cases p)
  case (Data n q d)
  then show ?thesis
    by (cases d; cases "room s"; cases "payload_string d = []")
      (auto simp: sink_simps PACKET_POSTFIX_def PACKET_FIELD_SEPARATOR_def ascii_def)
qed (cases "room s"; auto simp: sink_simps PACKET_POSTFIX_def PACKET_FIELD_SEPARATOR_def ascii_def)+

text \<open>The grammar of the protocol: the datagrams that stand for a packet, with and without overflow
  checks in the numerals.\<close>

inductive datagram :: "bool \<Rightarrow> packet \<Rightarrow> byte list \<Rightarrow> bool" for oc where
  datagram_connect: "numeral_of oc n ds \<Longrightarrow> datagram oc (Connect n) (PACKET_CONNECT_PREFIX @ ds @ [47])"
| datagram_close: "numeral_of oc n ds \<Longrightarrow> datagram oc (Close n) (PACKET_CLOSE_PREFIX @ ds @ [47])"
| datagram_ack: "numeral_of oc n ds \<Longrightarrow> numeral_of oc l es \<Longrightarrow>
    datagram oc (Ack n l) (PACKET_ACK_PREFIX @ ds @ 47 # es @ [47])"
| datagram_data: "numeral_of oc n ds \<Longrightarrow> numeral_of oc p es \<Longrightarrow>
    datagram oc (Data n p (Payload (latin1 s))) (PACKET_DATA_PREFIX @ ds @ 47 # es @ 47 # esc s @ [47])"

inductive_simps datagram_simps:
  "datagram oc (Connect n) bs" "datagram oc (Close n) bs" "datagram oc (Ack n l) bs" "datagram oc (Data n p d) bs"

lemma datagram_mode: "datagram True p bs \<Longrightarrow> datagram oc p bs"
  by (induction rule: datagram.induct) (auto intro: datagram.intros numeral_of_mode)

lemma prefix_append_iff: "prefix ps bs \<longleftrightarrow> bs = ps @ drop (length ps) bs"
  by (metis append_eq_conv_conj prefix_def)

lemma prefixes_differ:
  "prefix PACKET_CONNECT_PREFIX bs \<Longrightarrow> \<not> prefix PACKET_DATA_PREFIX bs"
  "prefix PACKET_CONNECT_PREFIX bs \<Longrightarrow> \<not> prefix PACKET_ACK_PREFIX bs"
  "prefix PACKET_CONNECT_PREFIX bs \<Longrightarrow> \<not> prefix PACKET_CLOSE_PREFIX bs"
  "prefix PACKET_DATA_PREFIX bs \<Longrightarrow> \<not> prefix PACKET_ACK_PREFIX bs"
  "prefix PACKET_DATA_PREFIX bs \<Longrightarrow> \<not> prefix PACKET_CLOSE_PREFIX bs"
  "prefix PACKET_ACK_PREFIX bs \<Longrightarrow> \<not> prefix PACKET_CLOSE_PREFIX bs"
  by (auto simp: prefix_def packet_constants)

lemma slice_from_prefix: "prefix ps bs \<Longrightarrow> slice_from (length ps) bs = Ok (drop (length ps) bs)"
  by (auto simp: slice_from_def dest: prefix_length_le)

lemma datagram_head:
  "datagram oc p bs \<Longrightarrow>
     suffix [47] bs \<and>
     (case p of Connect _ \<Rightarrow> prefix PACKET_CONNECT_PREFIX bs | Data _ _ _ \<Rightarrow> prefix PACKET_DATA_PREFIX bs
      | Ack _ _ \<Rightarrow> prefix PACKET_ACK_PREFIX bs | Close _ \<Rightarrow> prefix PACKET_CLOSE_PREFIX bs)"
  by (induction rule: datagram.induct) (auto simp: suffix_def)


lemma numeral_parse:
  "numeral_of oc n ds \<Longrightarrow> numeric_parse oc (ds @ 47 # rest) = Ok (n, 47 # rest)"
  by (auto simp: numeric_parse_iff)

lemma ascii_slash: "ascii ''/'' = [47]"
  by (simp add: ascii_def)

lemma packet_try_from_sound:
  assumes "packet_try_from oc bs = Ok p"
  shows "length bs < 1000 \<and> datagram oc p bs"
proof -
  have head: "suffix [47] bs" "length bs < 1000"
    using assms by (auto simp: packet_try_from_def ascii_slash split: if_splits)
  consider "prefix PACKET_CONNECT_PREFIX bs" | "prefix PACKET_DATA_PREFIX bs"
    | "prefix PACKET_ACK_PREFIX bs" | "prefix PACKET_CLOSE_PREFIX bs"
    using assms by (auto simp: packet_try_from_def split: if_splits)
  then show ?thesis
  proof cases
    case 1
    then show ?thesis
      using assms head
      by (auto simp: packet_try_from_def ascii_slash slice_from_def numeric_parse_iff
          prefix_append_iff [of PACKET_CONNECT_PREFIX] datagram_simps split: if_splits)
  next
    case 2
    then obtain rest where bs: "bs = PACKET_DATA_PREFIX @ rest"
      by (auto simp: prefix_def)
    show ?thesis
      using assms head 2 prefixes_differ(1) [of bs]
      by (auto simp: packet_try_from_def ascii_slash slice_from_def numeric_parse_iff payload_parse_iff
          bs datagram_simps split: if_splits) blast
  next
    case 3
    then obtain rest where bs: "bs = PACKET_ACK_PREFIX @ rest"
      by (auto simp: prefix_def)
    show ?thesis
      using assms head 3 prefixes_differ(2,4) [of bs]
      by (auto simp: packet_try_from_def ascii_slash slice_from_def numeric_parse_iff
          bs datagram_simps split: if_splits) blast
  next
    case 4
    then obtain rest where bs: "bs = PACKET_CLOSE_PREFIX @ rest"
      by (auto simp: prefix_def)
    show ?thesis
      using assms head 4 prefixes_differ(3,5,6) [of bs]
      by (auto simp: packet_try_from_def ascii_slash slice_from_def numeric_parse_iff
          bs datagram_simps split: if_splits)
  qed
qed

lemma packet_try_from_complete:
  assumes "datagram oc p bs" "length bs < 1000"
  shows "packet_try_from oc bs = Ok p"
  using assms(1)
proof (cases rule: datagram.cases)
  case (datagram_connect n ds)
  then show ?thesis
    using assms(2) datagram_head [OF assms(1)]
    by (simp add: packet_try_from_def ascii_slash slice_from_def numeral_parse [of oc n ds "[]"])
next
  case (datagram_close n ds)
  then show ?thesis
    using assms(2) datagram_head [OF assms(1)] prefixes_differ [of bs]
    by (auto simp: packet_try_from_def ascii_slash slice_from_def numeral_parse [of oc n ds "[]"])
next
  case (datagram_ack n ds l es)
  then show ?thesis
    using assms(2) datagram_head [OF assms(1)] prefixes_differ [of bs]
    by (auto simp: packet_try_from_def ascii_slash slice_from_def numeral_parse)
next
  case (datagram_data n ds q es d)
  then show ?thesis
    using assms(2) datagram_head [OF assms(1)] prefixes_differ [of bs]
      payload_parse_loop_esc [of "[]" d "[]"]
    by (auto simp: packet_try_from_def ascii_slash slice_from_def numeral_parse payload_parse_def)
qed


lemma packet_try_from_mode: "packet_try_from True bs = Ok p \<Longrightarrow> packet_try_from oc bs = Ok p"
  using packet_try_from_sound packet_try_from_complete datagram_mode by blast

definition packet_ok :: "packet \<Rightarrow> bool" where
  "packet_ok p \<longleftrightarrow>
     (case p of
        Connect n \<Rightarrow> numeric_value n < 2147483648
      | Data n q d \<Rightarrow> numeric_value n < 2147483648 \<and> numeric_value q < 2147483648 \<and>
                     list_all is_ascii (payload_string d)
      | Ack n l \<Rightarrow> numeric_value n < 2147483648 \<and> numeric_value l < 2147483648
      | Close n \<Rightarrow> numeric_value n < 2147483648)"

lemma datagram_packet_bytes: "packet_ok p \<Longrightarrow> datagram oc p (packet_bytes p)"
  by (cases p rule: packet_bytes.cases)
    (auto simp: packet_ok_def datagram_simps dest!: numeral_of_bytes [of _ oc] latin1_ascii [symmetric])

text \<open>The chunk that \<open>Payload::new\<close> takes.\<close>

lemma payload_new_loop_take:
  "len < BUFFER_SIZE \<Longrightarrow>
   \<exists>k \<le> length bs. payload_new_loop len acc bs = acc @ latin1 (take k bs) \<and>
     len + length (esc (take k bs)) < BUFFER_SIZE \<and>
     (k = length bs \<or> BUFFER_SIZE \<le> len + length (esc (take (Suc k) bs)))"
proof (induction bs arbitrary: len acc)
  case (Cons b bs)
  let ?l = "if b = 92 \<or> b = 47 then len + 2 else len + 1"
  show ?case
  proof (cases "BUFFER_SIZE \<le> ?l")
    case True
    then show ?thesis
      using Cons.prems by (intro exI [of _ 0]) (auto simp: Let_def)
  next
    case False
    then obtain k where "k \<le> length bs"
      "payload_new_loop ?l (acc @ char_utf8 b) bs = (acc @ char_utf8 b) @ latin1 (take k bs)"
      "?l + length (esc (take k bs)) < BUFFER_SIZE"
      "k = length bs \<or> BUFFER_SIZE \<le> ?l + length (esc (take (Suc k) bs))"
      using Cons.IH [of ?l "acc @ char_utf8 b"] by auto
    then show ?thesis
      using False by (intro exI [of _ "Suc k"]) (auto simp: Let_def)
  qed
qed simp

lemma payload_new_Some:
  assumes "bs \<noteq> []"
  obtains k where "0 < k" "k \<le> length bs" "payload_new bs = Some (Payload (latin1 (take k bs)))"
    "length (esc (take k bs)) < BUFFER_SIZE"
    "k = length bs \<or> BUFFER_SIZE \<le> length (esc (take (Suc k) bs))"
proof -
  obtain k where k: "k \<le> length bs" "payload_new_loop 0 [] bs = latin1 (take k bs)"
    "length (esc (take k bs)) < BUFFER_SIZE"
    "k = length bs \<or> BUFFER_SIZE \<le> length (esc (take (Suc k) bs))"
    using payload_new_loop_take [of 0 bs "[]"] by (auto simp: BUFFER_SIZE_eq)
  moreover have "0 < k"
    using k(4) assms by (cases k; cases bs) (auto simp: BUFFER_SIZE_eq split: if_splits)
  ultimately show ?thesis
    using assms that by (auto simp: payload_new_def)
qed

lemma length_data_packet:
  "length (packet_bytes (Data n p d)) \<le> 29 + length (esc (payload_string d))"
  using length_dec_u32 [of "numeric_value n"] length_dec_u32 [of "numeric_value p"]
  by (cases d) (simp add: numeric_bytes_def PACKET_DATA_PREFIX_def ascii_def)

lemma payload_new_None_iff: "payload_new bs = None \<longleftrightarrow> bs = []"
  by (simp add: payload_new_def)

section \<open>Properties\<close>

text \<open>C11: \<open>Packet::try_from\<close> accepts exactly the datagrams shorter than 1000 bytes that the grammar gives
  to a packet: one of the four forms, slashes and backslashes of the payload escaped and nothing else.
  A numeral is any digits, none standing for 0. With overflow checks their value is below \<open>2 ^ 31\<close>; without,
  it is the value modulo \<open>2 ^ 32\<close> and only that has to be below \<open>2 ^ 31\<close>, after every digit, so that also
  larger numbers are accepted, as others.\<close>

theorem packet_try_from_iff:
  "packet_try_from oc bs = Ok p \<longleftrightarrow> length bs < 1000 \<and> datagram oc p bs"
  using packet_try_from_sound packet_try_from_complete by blast

text \<open>A packet with numerals below \<open>2 ^ 31\<close>, an ASCII payload and an encoding shorter than
  1000 bytes is written whole into a buffer with room for it, its length is returned, and parsing
  what was written gives the packet back, with and without overflow checks.\<close>

theorem packet_roundtrip:
  assumes "packet_ok p" and "length (packet_bytes p) < 1000"
  shows "\<exists>n s. packet_write_value p (slice_sink 1024) = Ok (n, s) \<and> n = length (written s) \<and>
           packet_try_from oc (written s) = Ok p"
  using assms datagram_packet_bytes [OF assms(1)] packet_try_from_complete [of oc p "packet_bytes p"]
  by (simp add: packet_write_eq)

lemma packet_roundtrip_witness:
  "\<exists>n s. packet_write_value (Data (Numeric 12) (Numeric 305) (Payload (ascii ''a/b'')))
             (slice_sink 1024) = Ok (n, s) \<and> n = length (written s) \<and>
           packet_try_from True (written s) = Ok (Data (Numeric 12) (Numeric 305) (Payload (ascii ''a/b'')))"
  by (rule packet_roundtrip)
    (auto simp: packet_ok_def ascii_def is_ascii_def numeric_bytes_def dec.simps PACKET_DATA_PREFIX_def)

text \<open>C18: \<open>Payload::new\<close> of a non-empty ASCII buffer takes a non-empty beginning of it, the longest whose
  escaped form is shorter than \<open>BUFFER_SIZE\<close>, which is 921 bytes, and for any session and position the data
  packet with this payload fits the 1024-byte buffer of the endpoint and stays below the protocol's 1000
  bytes.\<close>

theorem payload_new_fits:
  assumes "bs \<noteq> []" and "list_all is_ascii bs"
  shows "\<exists>k. 0 < k \<and> k \<le> length bs \<and> payload_new bs = Some (Payload (take k bs)) \<and>
           length (esc (take k bs)) < BUFFER_SIZE \<and>
           (k = length bs \<or> BUFFER_SIZE \<le> length (esc (take (Suc k) bs))) \<and>
           (\<exists>n s. packet_write_value (Data session pos (Payload (take k bs))) (slice_sink 1024) = Ok (n, s)
              \<and> n < 1000)"
proof -
  obtain k where k: "0 < k" "k \<le> length bs" "payload_new bs = Some (Payload (latin1 (take k bs)))"
    "length (esc (take k bs)) < BUFFER_SIZE"
    "k = length bs \<or> BUFFER_SIZE \<le> length (esc (take (Suc k) bs))"
    using payload_new_Some [OF assms(1)] by metis
  moreover have "latin1 (take k bs) = take k bs"
    using assms(2) by (intro latin1_ascii) (metis append_take_drop_id list_all_append)
  moreover have "length (packet_bytes (Data session pos (Payload (take k bs)))) < 1000"
    using length_data_packet [of session pos "Payload (take k bs)"] k(4) by (simp add: BUFFER_SIZE_eq)
  ultimately show ?thesis
    by (intro exI [of _ k]) (simp add: packet_write_eq)
qed

lemma payload_new_fits_witness:
  "\<exists>k. 0 < k \<and> k \<le> length [104 :: byte, 105] \<and> payload_new [104, 105] = Some (Payload (take k [104, 105])) \<and>
     length (esc (take k [104 :: byte, 105])) < BUFFER_SIZE \<and>
     (k = length [104 :: byte, 105] \<or> BUFFER_SIZE \<le> length (esc (take (Suc k) [104, 105]))) \<and>
     (\<exists>n s. packet_write_value (Data (Numeric 1) (Numeric 0) (Payload (take k [104, 105])))
              (slice_sink 1024) = Ok (n, s) \<and> n < 1000)"
  by (rule payload_new_fits) (auto simp: is_ascii_def)

lemma high_bit_neq: "bit (x :: byte) 7 \<Longrightarrow> x \<noteq> 47 \<and> x \<noteq> 92"
  by auto

lemma char_utf8_wide:
  "128 \<le> b \<Longrightarrow> length (esc (char_utf8 b)) = 2"
  using high_bit_neq [of "192 OR drop_bit 6 b"] high_bit_neq [of "128 OR (b AND 63)"]
  by (simp add: char_utf8_def not_less bit_or_iff)

text \<open>Bytes from 128 on break this: \<open>Payload::new\<close> counts each as one byte and stores it as
  the two bytes of its UTF-8 encoding, so that on 512 of them or more the packet does not fit the
  endpoint's buffer, and the \<open>unwrap\<close> of the result in \<open>UdpEndpoint::split\<close> panics.\<close>

theorem payload_new_latin1_overflows:
  assumes "512 \<le> length bs" and "list_all (\<lambda>b. 128 \<le> b) bs"
  shows "\<exists>d. payload_new bs = Some d \<and>
           packet_write_value (Data session pos d) (slice_sink 1024) = Err WriteZero"
proof -
  have "bs \<noteq> []"
    using assms(1) by auto
  then obtain k where k: "k \<le> length bs" "payload_new bs = Some (Payload (latin1 (take k bs)))"
    "k = length bs \<or> BUFFER_SIZE \<le> length (esc (take (Suc k) bs))"
    using payload_new_Some by metis
  have esc: "length (esc cs) = length cs" if "list_all (\<lambda>b. 128 \<le> b) cs" for cs
    using that by (induction cs) (auto simp: word_le_nat_alt)
  have wide: "length (esc (latin1 cs)) = 2 * length cs" if "list_all (\<lambda>b. 128 \<le> b) cs" for cs
    using that by (induction cs) (simp_all add: char_utf8_wide)
  have "list_all (\<lambda>b. 128 \<le> b) (take j bs)" for j
    using assms(2) by (metis append_take_drop_id list_all_append)
  then have "512 \<le> k"
    using k(1,3) assms(1) esc [of "take (Suc k) bs"] by (auto simp: BUFFER_SIZE_eq)
  then show ?thesis
    using k wide [OF \<open>\<And>j. list_all _ (take j bs)\<close>, of k]
    by (simp add: packet_write_eq PACKET_DATA_PREFIX_def ascii_def)
qed

lemma payload_new_latin1_overflows_witness:
  "\<exists>d. payload_new (replicate 512 200) = Some d \<and>
     packet_write_value (Data (Numeric 1) (Numeric 0) d) (slice_sink 1024) = Err WriteZero"
  by (rule payload_new_latin1_overflows) (simp_all add: list_all_iff)

text \<open>The overflow guard of \<open>Numeric::parse\<close> comes after the multiplication: on a numeral
  past \<open>2 ^ 32\<close> a build with overflow checks panics and one without accepts a wrong number, here
  session 1 for 4294967297. An empty numeral is taken for 0 in both.\<close>

theorem numeric_parse_wraps:
  "packet_try_from False (ascii ''/connect/4294967297/'') = Ok (Connect (Numeric 1)) \<and>
   packet_try_from True (ascii ''/connect/4294967297/'') = Panic \<and>
   packet_try_from oc (ascii ''/connect//'') = Ok (Connect (Numeric 0))"
  by (simp add: packet_try_from_def packet_constants numeric_parse_def is_ascii_digit_def mul_w_def
      add_w_def suffix_to_prefix slice_from_def)

end
