(* ===== verification/LrcpProtocol.thy ===== *)
theory LrcpProtocol
  imports LrcpPackets
begin

text \<open>
  One end of an LRCP session, \<open>rust/p07-line-reversal/src/lrcp/protocol.rs\<close>: the byte stream that
  the application reads and writes (\<open>Stream\<close>), and the task that moves its bytes over packets
  (\<open>SocketHandler::lrcp_handler\<close>), one iteration of its loop per step. A waker is a number; what an
  operation sends and whom it wakes is its list of effects. A \<open>Notify\<close> is its stored permit.
\<close>

section \<open>The stream\<close>

datatype effect = Send packet | Wake nat

record upstream_part =
  up_closed :: bool
  up_buffer :: "byte list"
  up_waker :: "nat option"
  up_shutdown_waker :: "nat option"

record downstream_part =
  down_closed :: bool
  down_buffer :: "byte list"
  down_waker :: "nat option"

record stream =
  exit_notify :: bool
  upstream_notify :: bool
  upstream_shutdown_notify :: bool
  upstream :: upstream_part
  downstream :: downstream_part

datatype 'a poll = Ready 'a | Pending

text \<open>\<open>poll_read\<close> into a buffer with \<open>remaining\<close> bytes of room, by a task with waker \<open>w\<close>.\<close>

definition poll_read :: "nat \<Rightarrow> nat \<Rightarrow> stream \<Rightarrow> byte list poll \<times> stream" where
  "poll_read w remaining s =
     (let d = downstream s; downstream_len = length (down_buffer d)
      in if 0 < downstream_len then
           let len = min remaining downstream_len
           in (Ready (take len (down_buffer d)),
               s\<lparr>downstream := d\<lparr>down_buffer := drop len (down_buffer d)\<rparr>\<rparr>)
         else if down_closed d then (Ready [], s)
         else (Pending, s\<lparr>downstream := d\<lparr>down_waker := Some w\<rparr>\<rparr>))"

definition poll_write :: "byte list \<Rightarrow> stream \<Rightarrow> nat poll \<times> stream" where
  "poll_write buffer s =
     (let u = upstream s
      in if up_closed u then (Ready 0, s)
         else (Ready (length buffer), s\<lparr>upstream := u\<lparr>up_buffer := up_buffer u @ buffer\<rparr>\<rparr>))"

definition poll_flush :: "nat \<Rightarrow> stream \<Rightarrow> unit poll \<times> stream" where
  "poll_flush w s =
     (let u = upstream s
      in if up_buffer u = [] then (Ready (), s)
         else if up_closed u then (Ready (), s)
         else (Pending, s\<lparr>upstream := u\<lparr>up_waker := Some w\<rparr>, upstream_notify := True\<rparr>))"

definition poll_shutdown :: "nat \<Rightarrow> stream \<Rightarrow> unit poll \<times> stream" where
  "poll_shutdown w s =
     (let u = upstream s
      in if up_closed u then (Ready (), s)
         else (Pending, s\<lparr>upstream := u\<lparr>up_shutdown_waker := Some w\<rparr>, upstream_shutdown_notify := True\<rparr>))"

definition stream_drop :: "stream \<Rightarrow> stream" where
  "stream_drop s = s\<lparr>exit_notify := True\<rparr>"

definition stream_new :: stream where
  "stream_new =
     \<lparr>exit_notify = False, upstream_notify = False, upstream_shutdown_notify = False,
      upstream = \<lparr>up_closed = False, up_buffer = [], up_waker = None, up_shutdown_waker = None\<rparr>,
      downstream = \<lparr>down_closed = False, down_buffer = [], down_waker = None\<rparr>\<rparr>"

section \<open>The handler\<close>

text \<open>The constants of the trait \<open>SocketHandler\<close>, in milliseconds.\<close>

record timeouts =
  retrasmission_timeout :: nat
  session_expire_timeout :: nat

record handler =
  start_connection :: bool
  handler_session :: numeric
  closing :: bool
  closed :: bool
  receiver_position :: u32
  last_recv_timestamp :: nat
  send_packet :: "packet option"
  last_packet_sent :: "packet option"
  sender_offset :: u32
  sender_length :: u32
  need_ack :: bool
  current_timeout :: nat

definition handler_init :: "timeouts \<Rightarrow> bool \<Rightarrow> numeric \<Rightarrow> nat \<Rightarrow> handler" where
  "handler_init t start session now =
     \<lparr>start_connection = start, handler_session = session, closing = False, closed = False,
      receiver_position = 0, last_recv_timestamp = now,
      send_packet = (if start then Some (Connect session) else None),
      last_packet_sent = (if start then Some (Connect session) else None),
      sender_offset = 0, sender_length = 0, need_ack = start,
      current_timeout = (if start then retrasmission_timeout t else session_expire_timeout t)\<rparr>"

datatype flow = Continue | Break

type_synonym handler_result = "(io_error, flow \<times> handler \<times> stream \<times> effect list) outcome"

fun wake :: "nat option \<Rightarrow> effect list" where
  "wake None = []"
| "wake (Some w) = [Wake w]"

text \<open>Close the upstream part and wake whoever waits on it.\<close>

definition shut_upstream :: "stream \<Rightarrow> stream \<times> effect list" where
  "shut_upstream s =
     (let u = upstream s
      in (s\<lparr>upstream := u\<lparr>up_closed := True, up_waker := None, up_shutdown_waker := None\<rparr>\<rparr>,
          wake (up_waker u) @ wake (up_shutdown_waker u)))"

text \<open>Append a payload from its byte \<open>skip\<close> on to what the application reads.\<close>

definition append_payload ::
  "bool \<Rightarrow> payload \<Rightarrow> u32 \<Rightarrow> handler \<Rightarrow> stream \<Rightarrow> (io_error, handler \<times> stream \<times> effect list) outcome" where
  "append_payload oc data skip h s =
     bind_outcome (payload_write oc data (down_buffer (downstream s)) skip) (\<lambda>(len, buffer).
     bind_outcome (add_w oc (receiver_position h) len) (\<lambda>pos.
       let d = (downstream s)\<lparr>down_buffer := buffer\<rparr>;
           (d', eff) = (if 0 < len then (d\<lparr>down_waker := None\<rparr>, wake (down_waker d)) else (d, []))
       in Ok (h\<lparr>receiver_position := pos\<rparr>, s\<lparr>downstream := d'\<rparr>, eff)))"

definition send_ack :: "numeric \<Rightarrow> handler \<Rightarrow> effect" where
  "send_ack session h = Send (Ack session (Numeric (receiver_position h)))"

definition on_data :: "bool \<Rightarrow> nat \<Rightarrow> numeric \<Rightarrow> numeric \<Rightarrow> payload \<Rightarrow> handler \<Rightarrow> stream \<Rightarrow> handler_result" where
  "on_data oc now session pos data h s =
     (if handler_session h \<noteq> session then Panic
      else
        let h = h\<lparr>last_recv_timestamp := now\<rparr>
        in if closed h \<or> closing h then Ok (Continue, h, s, [Send (Close session)])
           else if numeric_value pos = receiver_position h then
             bind_outcome (append_payload oc data 0 h s) (\<lambda>(h, s, eff).
               Ok (Continue, h, s, eff @ [send_ack session h]))
           else if numeric_value pos < receiver_position h then
             bind_outcome (add_w oc (numeric_value pos) (of_nat (length (payload_string data)))) (\<lambda>total.
               if receiver_position h < total then
                 bind_outcome (sub_w oc (receiver_position h) (numeric_value pos)) (\<lambda>skip.
                 bind_outcome (append_payload oc data skip h s) (\<lambda>(h, s, eff).
                   Ok (Continue, h, s, eff @ [send_ack session h])))
               else Ok (Continue, h, s, [send_ack session h]))
           else Ok (Continue, h, s, []))"

text \<open>\<open>upstream.buffer.drain(..n)\<close>, skipped with a warning when \<open>n\<close> is past the end.\<close>

definition drain_upstream :: "nat \<Rightarrow> stream \<Rightarrow> stream" where
  "drain_upstream n s =
     (let u = upstream s
      in if length (up_buffer u) < n then s
         else s\<lparr>upstream := u\<lparr>up_buffer := drop n (up_buffer u)\<rparr>\<rparr>)"

definition on_ack ::
  "timeouts \<Rightarrow> bool \<Rightarrow> nat \<Rightarrow> numeric \<Rightarrow> numeric \<Rightarrow> handler \<Rightarrow> stream \<Rightarrow> handler_result" where
  "on_ack t oc now session lengt h s =
     (if handler_session h \<noteq> session then Panic
      else
        let h = h\<lparr>last_recv_timestamp := now\<rparr>; len = numeric_value lengt
        in if closed h \<or> closing h then Ok (Continue, h, s, [Send (Close session)])
           else if len = sender_length h then
             let h = h\<lparr>sender_length := len\<rparr>
             in bind_outcome
                  (if sender_offset h < sender_length h
                   then bind_outcome (sub_w oc (sender_length h) (sender_offset h)) (\<lambda>n.
                          Ok (drain_upstream (unat n) s))
                   else Ok s) (\<lambda>s.
                  Ok (Continue,
                      h\<lparr>sender_offset := sender_length h, need_ack := False,
                        current_timeout := session_expire_timeout t\<rparr>, s, []))
           else if len < sender_length h then
             (if sender_offset h < len
              then bind_outcome (sub_w oc len (sender_offset h)) (\<lambda>n.
                     Ok (Continue,
                         h\<lparr>sender_length := len, sender_offset := len, need_ack := False,
                           current_timeout := session_expire_timeout t\<rparr>,
                         drain_upstream (unat n) s, []))
              else Ok (Continue, h, s, []))
           else Ok (Continue, h\<lparr>closing := True\<rparr>, s, []))"

definition on_close :: "nat \<Rightarrow> numeric \<Rightarrow> handler \<Rightarrow> stream \<Rightarrow> handler_result" where
  "on_close now session h s =
     (if handler_session h \<noteq> session then Panic
      else
        let h = h\<lparr>last_recv_timestamp := now\<rparr>
        in if closing h then
             (if closed h then Ok (Continue, h, s, [])
              else Ok (Continue, h\<lparr>closed := True\<rparr>, s, [Send (Close session)]))
           else
             let (s', eff) = shut_upstream s
             in Ok (Break, h, s', Send (Close session) # eff))"

definition on_connect :: "nat \<Rightarrow> numeric \<Rightarrow> handler \<Rightarrow> stream \<Rightarrow> handler_result" where
  "on_connect now session h s =
     (if handler_session h \<noteq> session then Panic
      else
        let h = h\<lparr>last_recv_timestamp := now\<rparr>
        in if start_connection h then Ok (Continue, h, s, [])
           else Ok (Continue, h, s, [Send (Ack session (Numeric 0))]))"

definition on_timeout :: "timeouts \<Rightarrow> nat \<Rightarrow> handler \<Rightarrow> stream \<Rightarrow> handler_result" where
  "on_timeout t now h s =
     (if session_expire_timeout t < now - last_recv_timestamp h then
        let (s', eff) = shut_upstream s
        in Ok (Break, h, s', Send (Close (handler_session h)) # eff)
      else if need_ack h then
        (case last_packet_sent h of
           Some p \<Rightarrow> Ok (Continue, h\<lparr>last_packet_sent := None, send_packet := Some p\<rparr>, s, [])
         | None \<Rightarrow> Ok (Continue, h, s, []))
      else Ok (Continue, h, s, []))"

text \<open>What the iteration does after its \<open>select!\<close>: choose the next packet to send.\<close>

definition next_packet ::
  "timeouts \<Rightarrow> bool \<Rightarrow> handler \<Rightarrow> stream \<Rightarrow> (io_error, handler \<times> stream \<times> effect list) outcome" where
  "next_packet t oc h s =
     (if need_ack h then Ok (h, s, [])
      else if send_packet h \<noteq> None then Ok (h, s, [])
      else if closing h then
        (if closed h then let (s', eff) = shut_upstream s in Ok (h, s', eff)
         else Ok (h\<lparr>send_packet := Some (Close (handler_session h))\<rparr>, s, []))
      else
        (case payload_new (up_buffer (upstream s)) of
           Some data \<Rightarrow>
             bind_outcome (add_w oc (sender_length h) (of_nat (length (payload_string data)))) (\<lambda>n.
               Ok (h\<lparr>sender_length := n,
                     send_packet := Some (Data (handler_session h) (Numeric (sender_offset h)) data),
                     need_ack := True, current_timeout := retrasmission_timeout t\<rparr>, s, []))
         | None \<Rightarrow>
             let u = upstream s
             in Ok (h, s\<lparr>upstream := u\<lparr>up_waker := None\<rparr>\<rparr>, wake (up_waker u))))"

text \<open>
  What the \<open>select!\<close> may complete with. \<open>Recv\<close> is a packet from the channel before the timeout,
  \<open>Recv_none\<close> and \<open>Recv_err\<close> its other results, \<open>Timed_out\<close> the timeout, \<open>Sent\<close> a successful send.
\<close>

datatype event = Exit_notified | Upstream_notified | Shutdown_notified | Sent
  | Recv packet | Recv_none | Recv_err | Timed_out

fun event_enabled :: "event \<Rightarrow> handler \<Rightarrow> stream \<Rightarrow> bool" where
  "event_enabled Exit_notified h s = exit_notify s"
| "event_enabled Upstream_notified h s = (upstream_notify s \<and> \<not> closed h)"
| "event_enabled Shutdown_notified h s = (upstream_shutdown_notify s \<and> \<not> closed h)"
| "event_enabled Sent h s = (send_packet h \<noteq> None \<and> \<not> closed h)"
| "event_enabled _ h s = True"

fun select_branch :: "timeouts \<Rightarrow> bool \<Rightarrow> nat \<Rightarrow> event \<Rightarrow> handler \<Rightarrow> stream \<Rightarrow> handler_result" where
  "select_branch t oc now Exit_notified h s = Ok (Break, h, s\<lparr>exit_notify := False\<rparr>, [])"
| "select_branch t oc now Upstream_notified h s = Ok (Continue, h, s\<lparr>upstream_notify := False\<rparr>, [])"
| "select_branch t oc now Shutdown_notified h s =
     Ok (Continue, h\<lparr>closing := True\<rparr>, s\<lparr>upstream_shutdown_notify := False\<rparr>, [])"
| "select_branch t oc now Sent h s =
     Ok (Continue,
         h\<lparr>last_packet_sent := send_packet h, send_packet := None,
           closed := (if closing h then True else closed h)\<rparr>,
         s, (case send_packet h of Some p \<Rightarrow> [Send p] | None \<Rightarrow> []))"
| "select_branch t oc now (Recv (Data session pos data)) h s = on_data oc now session pos data h s"
| "select_branch t oc now (Recv (Ack session lengt)) h s = on_ack t oc now session lengt h s"
| "select_branch t oc now (Recv (Close session)) h s = on_close now session h s"
| "select_branch t oc now (Recv (Connect session)) h s = on_connect now session h s"
| "select_branch t oc now Recv_none h s = Ok (Continue, h, s, [])"
| "select_branch t oc now Recv_err h s = Ok (Continue, h, s, [])"
| "select_branch t oc now Timed_out h s = on_timeout t now h s"

text \<open>One iteration of the loop of \<open>lrcp_handler\<close>.\<close>

definition lrcp_iteration :: "timeouts \<Rightarrow> bool \<Rightarrow> nat \<Rightarrow> event \<Rightarrow> handler \<Rightarrow> stream \<Rightarrow> handler_result" where
  "lrcp_iteration t oc now ev h s =
     bind_outcome (select_branch t oc now ev h s) (\<lambda>(fl, h, s, eff).
       case fl of
         Break \<Rightarrow> Ok (Break, h, s, eff)
       | Continue \<Rightarrow>
           bind_outcome (next_packet t oc h s) (\<lambda>(h, s, eff').
             Ok (Continue, h, s, eff @ eff')))"

end
