(* ===== verification/LrcpNetwork.thy ===== *)
theory LrcpNetwork
  imports LrcpProtocol
begin

text \<open>
  Two ends of an LRCP session over a network that may lose, repeat and reorder datagrams. Each end
  is the handler of \<open>LrcpProtocol\<close> with its stream and the application on top of it; datagrams pass
  through the endpoint of \<open>rust/p07-line-reversal/src/lib.rs\<close>, which writes and parses them. The
  theory shows that both applications read prefixes of what the other one wrote, that no byte is
  dropped before its receiver has it, and that no handler panics or gives its peer up.
\<close>

section \<open>The endpoint\<close>

text \<open>\<open>UdpEndpoint::split\<close>: a packet goes out through a buffer of 1024 bytes, \<open>unwrap\<close>ping the
  result of the writer; a datagram comes in through such a buffer and is dropped if it is no packet.\<close>

definition endpoint_send :: "packet \<Rightarrow> (io_error, byte list) outcome" where
  "endpoint_send p =
     (case packet_write_value p (slice_sink 1024) of
        Ok (len, s) \<Rightarrow> Ok (take len (written s))
      | _ \<Rightarrow> Panic)"

definition endpoint_recv :: "bool \<Rightarrow> byte list \<Rightarrow> (packet_error, packet option) outcome" where
  "endpoint_recv oc dgram =
     (case packet_try_from oc (take 1024 dgram) of
        Ok p \<Rightarrow> Ok (Some p)
      | Err e \<Rightarrow> Ok None
      | Panic \<Rightarrow> Panic)"

text \<open>What the peer's handler gets when a packet of this end arrives.\<close>

definition transfer :: "bool \<Rightarrow> packet \<Rightarrow> packet option" where
  "transfer oc p =
     (case endpoint_send p of
        Ok bs \<Rightarrow> (case endpoint_recv oc bs of Ok (Some q) \<Rightarrow> Some q | _ \<Rightarrow> None)
      | _ \<Rightarrow> None)"

text \<open>A numeral of a 32-bit value is never misread: past \<open>2 ^ 31\<close> it is rejected in both modes.\<close>

lemma numeric_parse_overflow:
  "\<forall>d \<in> set ds. is_ascii_digit d \<Longrightarrow> unat r < 2147483648 \<Longrightarrow> 2147483648 \<le> dval (unat r) ds \<Longrightarrow>
   dval (unat r) ds < 4294967296 \<Longrightarrow> numeric_parse_loop oc r (ds @ rest) = Err NumericOverflow"
proof (induction ds arbitrary: r)
  case (Cons d ds)
  let ?m = "unat r * 10 + unat (d - 48)"
  have m: "?m < 4294967296"
    using dval_mono [of ?m ds] Cons.prems(4) by simp
  have mul: "mul_w oc r 10 = Ok (r * 10)" and umul: "unat (r * 10) = unat r * 10"
    using m by (auto intro: mul_w_Ok simp: unat_mul_lem')
  have udig: "unat (ucast (d - 48) :: u32) = unat (d - 48)"
    by (simp add: unat_ucast_up)
  have add: "add_w oc (r * 10) (ucast (d - 48)) = Ok (r * 10 + ucast (d - 48))"
    using m umul udig by (intro add_w_Ok) simp
  have uadd: "unat (r * 10 + ucast (d - 48)) = ?m"
    using m umul udig by (simp add: unat_add_lem')
  show ?case
    using Cons.IH [of "r * 10 + ucast (d - 48)"] Cons.prems m
    by (cases "?m < 2147483648") (auto simp: mul add uadd word_le_nat_alt)
qed simp

lemma numeric_parse_own:
  assumes "numeric_parse oc (numeric_bytes n @ 47 # rest) = Ok (m, r)"
  shows "m = n \<and> r = 47 # rest \<and> numeric_value n < 2147483648"
proof -
  have "numeric_value n < 2147483648"
  proof (rule ccontr)
    assume "\<not> ?thesis"
    then have "numeric_parse oc (numeric_bytes n @ 47 # rest) = Err NumericOverflow"
      using unsigned_less [of "numeric_value n", where ?'a = nat]
      unfolding numeric_parse_def numeric_bytes_def
      by (intro numeric_parse_overflow) (auto simp: dval_dec dec_digits word_less_nat_alt)
    then show False
      using assms by simp
  qed
  then show ?thesis
    using assms by (simp add: numeric_parse_bytes)
qed


lemma datagram_head_bytes:
  "suffix [47] (packet_bytes p) \<and>
   (case p of Connect _ \<Rightarrow> prefix PACKET_CONNECT_PREFIX (packet_bytes p)
    | Data _ _ _ \<Rightarrow> prefix PACKET_DATA_PREFIX (packet_bytes p)
    | Ack _ _ \<Rightarrow> prefix PACKET_ACK_PREFIX (packet_bytes p)
    | Close _ \<Rightarrow> prefix PACKET_CLOSE_PREFIX (packet_bytes p))"
  by (cases p rule: packet_bytes.cases) (auto simp: suffix_def)

definition packet_ascii :: "packet \<Rightarrow> bool" where
  "packet_ascii p \<longleftrightarrow> (case p of Data _ _ d \<Rightarrow> list_all is_ascii (payload_string d) | _ \<Rightarrow> True)"

lemma packet_try_from_own:
  assumes "packet_try_from oc (packet_bytes p) = Ok q" and "packet_ascii p"
  shows "q = p \<and> packet_ok p"
proof -
  note head = datagram_head_bytes [of p] and differ = prefixes_differ [of "packet_bytes p"]
  show ?thesis
  proof (cases p rule: packet_bytes.cases)
    case (1 n)
    then show ?thesis
      using assms(1) head
      by (auto simp: packet_try_from_def ascii_slash slice_from_def packet_ok_def split: if_splits
          dest!: numeric_parse_own)
  next
    case (2 n)
    then show ?thesis
      using assms(1) head differ
      by (auto simp: packet_try_from_def ascii_slash slice_from_def packet_ok_def split: if_splits
          dest!: numeric_parse_own)
  next
    case (3 n l)
    then show ?thesis
      using assms(1) head differ
      by (auto simp: packet_try_from_def ascii_slash slice_from_def packet_ok_def split: if_splits
          dest!: numeric_parse_own)
  next
    case (4 n pos d)
    then show ?thesis
      using assms head differ payload_parse_loop_esc [of "[]" d "[]"] latin1_ascii [of d]
      by (auto simp: packet_try_from_def ascii_slash slice_from_def packet_ok_def packet_ascii_def
          payload_parse_def split: if_splits dest!: numeric_parse_own)
  qed
qed

lemma transfer_own: "transfer oc p = Some q \<Longrightarrow> packet_ascii p \<Longrightarrow> q = p \<and> packet_ok p"
  by (rule packet_try_from_own [of oc p q])
    (auto simp: transfer_def endpoint_send_def endpoint_recv_def packet_write_eq
      split: outcome.splits if_splits)

section \<open>The system\<close>

record endp =
  hnd :: handler
  st :: stream
  running :: bool
  wrote :: "byte list"
  got :: "byte list"

record lnet =
  client :: endp
  server :: endp
  to_server :: "packet list"
  to_client :: "packet list"

datatype app_op = App_read nat nat | App_write "byte list" | App_flush nat | App_shutdown nat | App_drop

text \<open>What the application does to its stream; \<open>wrote\<close> and \<open>got\<close> record what went through.\<close>

fun app_act :: "app_op \<Rightarrow> endp \<Rightarrow> endp" where
  "app_act (App_read w n) e =
     (let (r, s) = poll_read w n (st e)
      in e\<lparr>st := s, got := got e @ (case r of Ready bs \<Rightarrow> bs | Pending \<Rightarrow> [])\<rparr>)"
| "app_act (App_write bs) e =
     (let (r, s) = poll_write bs (st e)
      in e\<lparr>st := s, wrote := wrote e @ (case r of Ready n \<Rightarrow> take n bs | Pending \<Rightarrow> [])\<rparr>)"
| "app_act (App_flush w) e = (let (r, s) = poll_flush w (st e) in e\<lparr>st := s\<rparr>)"
| "app_act (App_shutdown w) e = (let (r, s) = poll_shutdown w (st e) in e\<lparr>st := s\<rparr>)"
| "app_act App_drop e = e\<lparr>st := stream_drop (st e)\<rparr>"

fun sends :: "effect list \<Rightarrow> packet list" where
  "sends [] = []"
| "sends (Send p # es) = p # sends es"
| "sends (Wake w # es) = sends es"

text \<open>An iteration of a running handler; it stops at a \<open>break\<close> and when it panics.\<close>

definition iterate :: "timeouts \<Rightarrow> bool \<Rightarrow> nat \<Rightarrow> event \<Rightarrow> endp \<Rightarrow> endp \<times> packet list" where
  "iterate t oc now ev e =
     (case lrcp_iteration t oc now ev (hnd e) (st e) of
        Ok (fl, h, s, eff) \<Rightarrow> (e\<lparr>hnd := h, st := s, running := (fl = Continue)\<rparr>, sends eff)
      | _ \<Rightarrow> (e\<lparr>running := False\<rparr>, []))"

text \<open>
  The acts of one end: the application's, an event of the handler other than a packet, and the
  arrival of any packet that the peer ever sent, in any order and any number of times.
\<close>

datatype endp_act = App app_op | Local nat event | Deliver nat nat

fun local_event :: "event \<Rightarrow> bool" where
  "local_event (Recv _) = False"
| "local_event _ = True"

fun app_ok :: "app_op \<Rightarrow> bool" where
  "app_ok (App_write bs) = list_all is_ascii bs"
| "app_ok _ = True"

fun endp_do :: "timeouts \<Rightarrow> bool \<Rightarrow> packet list \<Rightarrow> endp_act \<Rightarrow> endp \<Rightarrow> (endp \<times> packet list) option" where
  "endp_do t oc incoming (App a) e = (if app_ok a then Some (app_act a e, []) else None)"
| "endp_do t oc incoming (Local now ev) e =
     (if running e \<and> local_event ev \<and> event_enabled ev (hnd e) (st e)
      then Some (iterate t oc now ev e) else None)"
| "endp_do t oc incoming (Deliver now i) e =
     (if running e \<and> i < length incoming then
        (case transfer oc (incoming ! i) of
           Some p \<Rightarrow> Some (iterate t oc now (Recv p) e)
         | None \<Rightarrow> None)
      else None)"

datatype net_act = At_client endp_act | At_server endp_act

fun lnet_do :: "timeouts \<Rightarrow> bool \<Rightarrow> net_act \<Rightarrow> lnet \<Rightarrow> lnet option" where
  "lnet_do t oc (At_client a) n =
     map_option (\<lambda>(e, ps). n\<lparr>client := e, to_server := to_server n @ ps\<rparr>)
       (endp_do t oc (to_client n) a (client n))"
| "lnet_do t oc (At_server a) n =
     map_option (\<lambda>(e, ps). n\<lparr>server := e, to_client := to_client n @ ps\<rparr>)
       (endp_do t oc (to_server n) a (server n))"

fun lnet_run :: "timeouts \<Rightarrow> bool \<Rightarrow> net_act list \<Rightarrow> lnet \<Rightarrow> lnet option" where
  "lnet_run t oc [] n = Some n"
| "lnet_run t oc (a # as) n =
     (case lnet_do t oc a n of Some n' \<Rightarrow> lnet_run t oc as n' | None \<Rightarrow> None)"

definition endp_init :: "timeouts \<Rightarrow> bool \<Rightarrow> numeric \<Rightarrow> nat \<Rightarrow> endp" where
  "endp_init t start session now =
     \<lparr>hnd = handler_init t start session now, st = stream_new, running = True, wrote = [], got = []\<rparr>"

definition lnet_init :: "timeouts \<Rightarrow> numeric \<Rightarrow> nat \<Rightarrow> lnet" where
  "lnet_init t session now =
     \<lparr>client = endp_init t True session now, server = endp_init t False session now,
      to_server = [], to_client = []\<rparr>"


section \<open>The invariant\<close>

abbreviation soff :: "handler \<Rightarrow> nat" where
  "soff h \<equiv> unat (sender_offset h)"

abbreviation slen :: "handler \<Rightarrow> nat" where
  "slen h \<equiv> unat (sender_length h)"

abbreviation rpos :: "handler \<Rightarrow> nat" where
  "rpos h \<equiv> unat (receiver_position h)"

text \<open>
  A packet of a sender that wrote \<open>W\<close> and whose outstanding bytes are those from \<open>so\<close> to \<open>sl\<close>:
  data packets are slices of \<open>W\<close>, wholly acknowledged or the outstanding one.
\<close>

definition good_data :: "numeric \<Rightarrow> byte list \<Rightarrow> nat \<Rightarrow> nat \<Rightarrow> packet \<Rightarrow> bool" where
  "good_data n W so sl p \<longleftrightarrow> packet_session p = n \<and>
     (case p of
        Data _ pos d \<Rightarrow>
          (let k = unat (numeric_value pos); l = length (payload_string d)
           in 0 < l \<and> l < 1000 \<and> k + l \<le> length W \<and> payload_string d = take l (drop k W) \<and>
              (k + l \<le> so \<or> k = so \<and> k + l = sl))
      | _ \<Rightarrow> True)"

text \<open>An acknowledgement for that sender by a receiver that has the first \<open>rp\<close> bytes.\<close>

definition good_ack :: "nat \<Rightarrow> nat \<Rightarrow> nat \<Rightarrow> packet \<Rightarrow> bool" where
  "good_ack so sl rp p \<longleftrightarrow>
     (case p of
        Ack _ l \<Rightarrow> unat (numeric_value l) \<le> rp \<and>
          (unat (numeric_value l) \<le> so \<or> unat (numeric_value l) = sl)
      | _ \<Rightarrow> True)"

definition no_ack :: "packet \<Rightarrow> bool" where
  "no_ack p \<longleftrightarrow> (case p of Ack _ _ \<Rightarrow> False | _ \<Rightarrow> True)"

definition sender_inv :: "numeric \<Rightarrow> byte list \<Rightarrow> handler \<Rightarrow> stream \<Rightarrow> bool" where
  "sender_inv n W h s \<longleftrightarrow>
     handler_session h = n \<and> list_all is_ascii W \<and>
     soff h \<le> slen h \<and> slen h \<le> length W \<and> slen h \<le> soff h + 1000 \<and> soff h < 2147483648 \<and>
     (\<not> need_ack h \<longrightarrow> soff h = slen h) \<and>
     up_buffer (upstream s) = drop (soff h) W \<and>
     pred_option (good_data n W (soff h) (slen h)) (send_packet h) \<and>
     pred_option (good_data n W (soff h) (slen h)) (last_packet_sent h) \<and>
     pred_option no_ack (send_packet h) \<and> pred_option no_ack (last_packet_sent h)"

definition receiver_inv :: "byte list \<Rightarrow> nat \<Rightarrow> nat \<Rightarrow> byte list \<Rightarrow> handler \<Rightarrow> stream \<Rightarrow> bool" where
  "receiver_inv W so sl G h s \<longleftrightarrow>
     (rpos h = so \<or> rpos h = sl) \<and> G @ down_buffer (downstream s) = take (rpos h) W"

text \<open>How the outstanding range moves: acknowledged, or opened anew.\<close>

definition advance :: "nat \<Rightarrow> nat \<Rightarrow> nat \<Rightarrow> nat \<Rightarrow> bool" where
  "advance so sl so' sl' \<longleftrightarrow>
     so' = so \<and> sl' = sl \<or> so' = sl \<and> sl' = sl \<or> so = sl \<and> so' = so \<and> sl \<le> sl'"

lemma good_data_advance:
  "good_data n W so sl p \<Longrightarrow> advance so sl so' sl' \<Longrightarrow> so \<le> sl \<Longrightarrow> good_data n W so' sl' p"
  by (cases p) (auto simp: good_data_def advance_def Let_def)

lemma good_data_append: "good_data n W so sl p \<Longrightarrow> good_data n (W @ V) so sl p"
  by (cases p) (auto simp: good_data_def Let_def)

lemma good_ack_advance:
  "good_ack so sl rp p \<Longrightarrow> advance so sl so' sl' \<Longrightarrow> so \<le> sl \<Longrightarrow> rp \<le> rp' \<Longrightarrow> rp = so \<or> rp = sl \<Longrightarrow>
     good_ack so' sl' rp' p"
  by (cases p) (auto simp: good_ack_def advance_def)

lemma no_ack_good_ack: "no_ack p \<Longrightarrow> good_ack so sl rp p"
  by (cases p) (auto simp: no_ack_def good_ack_def)

lemma advance_trans_open:
  "advance so sl so' sl' \<Longrightarrow> so' = sl' \<Longrightarrow> so \<le> sl \<Longrightarrow> sl' \<le> sl'' \<Longrightarrow> rp = so' \<Longrightarrow>
     good_ack so sl rp p \<Longrightarrow> good_ack so' sl'' rp p"
  by (cases p) (auto simp: good_ack_def advance_def)

lemma sends_append [simp]: "sends (a @ b) = sends a @ sends b"
  by (induction a rule: sends.induct) auto

lemma sends_wake [simp]: "sends (wake w) = []"
  by (cases w) auto

lemma shut_upstream_simps [simp]:
  "shut_upstream s = (s', eff) \<Longrightarrow> sends eff = []"
  "shut_upstream s = (s', eff) \<Longrightarrow> up_buffer (upstream s') = up_buffer (upstream s)"
  "shut_upstream s = (s', eff) \<Longrightarrow> downstream s' = downstream s"
  by (auto simp: shut_upstream_def Let_def)


lemma append_payload_frame:
  assumes "append_payload oc data skip h s = Ok (h', s', eff)"
  shows "h' = h\<lparr>receiver_position := receiver_position h'\<rparr> \<and> upstream s' = upstream s \<and> sends eff = []"
  using assms by (auto simp: append_payload_def Let_def split: prod.splits if_splits)

lemma on_data_frame:
  assumes "on_data oc now session pos data h s = Ok (fl, h', s', eff)"
  shows "fl = Continue \<and> h' = h\<lparr>last_recv_timestamp := now, receiver_position := receiver_position h'\<rparr> \<and>
    upstream s' = upstream s \<and> handler_session h = session \<and>
    (\<forall>p \<in> set (sends eff). (\<exists>l. p = Ack session l) \<or> p = Close session)"
  using assms
  by (auto simp: on_data_def Let_def send_ack_def split: if_splits dest!: append_payload_frame)

lemma sender_inv_frame:
  assumes "sender_inv n W h s" and "upstream s' = upstream s"
    and "handler_session h' = handler_session h" "sender_offset h' = sender_offset h"
    and "sender_length h' = sender_length h" "need_ack h' = need_ack h"
    and "send_packet h' = send_packet h" "last_packet_sent h' = last_packet_sent h"
  shows "sender_inv n W h' s'"
  using assms by (simp add: sender_inv_def)

lemma good_data_plain [simp]:
  "good_data n W so sl (Ack m l) \<longleftrightarrow> m = n" "good_data n W so sl (Close m) \<longleftrightarrow> m = n"
  "good_data n W so sl (Connect m) \<longleftrightarrow> m = n"
  by (auto simp: good_data_def)

lemma good_ack_plain [simp]:
  "good_ack so sl rp (Data m q d)" "good_ack so sl rp (Close m)" "good_ack so sl rp (Connect m)"
  "good_ack so sl rp (Ack m l) \<longleftrightarrow> unat (numeric_value l) \<le> rp \<and>
     (unat (numeric_value l) \<le> so \<or> unat (numeric_value l) = sl)"
  "no_ack (Data m q d)" "no_ack (Close m)" "no_ack (Connect m)" "\<not> no_ack (Ack m l)"
  by (auto simp: good_ack_def no_ack_def)

lemma advance_refl [simp]: "advance so sl so sl"
  by (simp add: advance_def)

lemma pred_option_weaken: "pred_option P x \<Longrightarrow> (\<And>y. P y \<Longrightarrow> Q y) \<Longrightarrow> pred_option Q x"
  by (cases x) auto

text \<open>The acknowledgement of the whole outstanding range, the only one that moves it.\<close>

lemma on_ack_sender:
  assumes inv: "sender_inv n W h s" and rp: "rp = soff h \<or> rp = slen h"
    and ok: "numeric_value l < 2147483648" and ack: "good_ack (soff h) (slen h) rp (Ack n l)"
  shows "\<exists>h' s' eff. on_ack t oc now n l h s = Ok (Continue, h', s', eff) \<and>
    sender_inv n W h' s' \<and> advance (soff h) (slen h) (soff h') (slen h') \<and>
    (rp = soff h' \<or> rp = slen h') \<and> (\<forall>p \<in> set (sends eff). good_data n W (soff h') (slen h') p) \<and>
    closing h' = closing h \<and> closed h' = closed h"
proof -
  have hs: "handler_session h = n"
    using inv by (simp add: sender_inv_def)
  have le: "soff h \<le> slen h" "slen h \<le> length W"
    using inv by (auto simp: sender_inv_def)
  consider "closed h \<or> closing h" | "\<not> closed h" "\<not> closing h" "numeric_value l = sender_length h"
    | "\<not> closed h" "\<not> closing h" "numeric_value l < sender_length h"
    | "\<not> closed h" "\<not> closing h" "sender_length h < numeric_value l"
    by (meson not_less_iff_gr_or_eq)
  then show ?thesis
  proof cases
    case 1
    then have "on_ack t oc now n l h s = Ok (Continue, h\<lparr>last_recv_timestamp := now\<rparr>, s, [Send (Close n)])"
      by (auto simp: on_ack_def Let_def hs)
    then show ?thesis
      using inv rp by (auto simp: sender_inv_def)
  next
    case 2
    let ?h = "h\<lparr>last_recv_timestamp := now, sender_length := sender_length h, sender_offset := sender_length h,
                need_ack := False, current_timeout := session_expire_timeout t\<rparr>"
    define s2 where "s2 = (if sender_offset h < sender_length h
              then drain_upstream (unat (sender_length h - sender_offset h)) s else s)"
    have sub: "sub_w oc (sender_length h) (sender_offset h)
        = (Ok (sender_length h - sender_offset h) :: (io_error, u32) outcome)"
      using le by (intro sub_w_Ok) (simp add: word_le_nat_alt)
    have res: "on_ack t oc now n l h s = Ok (Continue, ?h, s2, [])"
      using 2 by (simp add: on_ack_def Let_def hs sub s2_def)
    have diff: "unat (sender_length h - sender_offset h) = slen h - soff h"
      using le by (simp add: unat_sub word_le_nat_alt)
    have buf: "up_buffer (upstream s2) = drop (slen h) W"
      using inv le by (auto simp: s2_def drain_upstream_def Let_def diff sender_inv_def word_less_nat_alt)
    have good: "good_data n W (slen h) (slen h) p" if "good_data n W (soff h) (slen h) p" for p
      using that le by (intro good_data_advance [OF that]) (auto simp: advance_def)
    have goods: "pred_option (good_data n W (slen h) (slen h)) (send_packet h)"
      "pred_option (good_data n W (slen h) (slen h)) (last_packet_sent h)"
      using inv good by (auto simp: sender_inv_def elim!: pred_option_weaken)
    have "rp = slen h"
      using ack 2(3) rp le by auto
    moreover have "slen h < 2147483648"
      using ok 2(3) by (simp add: word_less_nat_alt)
    ultimately have "sender_inv n W ?h s2 \<and> rp = slen h"
      using inv buf goods le by (simp add: sender_inv_def)
    then show ?thesis
      unfolding res by (simp add: advance_def)
  next
    case 3
    then have "\<not> sender_offset h < numeric_value l"
      using ack by (auto simp: word_less_nat_alt)
    moreover have "numeric_value l \<noteq> sender_length h"
      using 3(3) by auto
    ultimately have "on_ack t oc now n l h s = Ok (Continue, h\<lparr>last_recv_timestamp := now\<rparr>, s, [])"
      using 3 by (simp add: on_ack_def Let_def hs)
    then show ?thesis
      using inv rp by (auto simp: sender_inv_def)
  next
    case 4
    then have False
      using ack inv by (auto simp: word_less_nat_alt sender_inv_def)
    then show ?thesis ..
  qed
qed

lemma length_le_esc: "length bs \<le> length (esc bs)"
  by (induction bs) auto

lemma next_packet_sender:
  assumes inv: "sender_inv n W h s" and rp: "rp = soff h \<or> rp = slen h"
    and res: "next_packet t oc h s = Ok (h', s', eff)"
  shows "sender_inv n W h' s' \<and> advance (soff h) (slen h) (soff h') (slen h') \<and>
    (rp = soff h' \<or> rp = slen h') \<and> sends eff = [] \<and>
    receiver_position h' = receiver_position h \<and> downstream s' = downstream s"
proof -
  consider (none) "need_ack h \<or> send_packet h \<noteq> None"
    | (close) "\<not> need_ack h" "send_packet h = None" "closing h"
    | (data) "\<not> need_ack h" "send_packet h = None" "\<not> closing h" "up_buffer (upstream s) \<noteq> []"
    | (idle) "\<not> need_ack h" "send_packet h = None" "\<not> closing h" "up_buffer (upstream s) = []"
    by blast
  then show ?thesis
  proof cases
    case none
    then have "h' = h \<and> s' = s \<and> eff = []"
      using res unfolding next_packet_def by (cases "need_ack h") auto
    then show ?thesis
      using inv rp by auto
  next
    case close
    then show ?thesis
      using res inv rp
      by (auto simp: next_packet_def sender_inv_def split: if_splits prod.splits)
  next
    case idle
    then show ?thesis
      using res inv rp by (auto simp: next_packet_def sender_inv_def Let_def payload_new_def)
  next
    case data
    have W: "list_all is_ascii W" "up_buffer (upstream s) = drop (soff h) W" "soff h = slen h"
      "slen h \<le> length W" "soff h < 2147483648" "handler_session h = n"
      using inv data(1) by (auto simp: sender_inv_def)
    obtain k where k: "0 < k" "k \<le> length (up_buffer (upstream s))"
      "payload_new (up_buffer (upstream s)) = Some (Payload (latin1 (take k (up_buffer (upstream s)))))"
      "length (esc (take k (up_buffer (upstream s)))) < BUFFER_SIZE"
      using payload_new_Some [OF data(4)] by metis
    have "list_all is_ascii (take k (drop (soff h) W))"
      using W(1) by (metis append_take_drop_id list_all_append)
    then have new: "payload_new (up_buffer (upstream s)) = Some (Payload (take k (drop (soff h) W)))"
      using k(3) latin1_ascii W(2) by metis
    have k': "k < 1000" "soff h + k \<le> length W"
      using k(2,4) W length_le_esc [of "take k (up_buffer (upstream s))"] by (auto simp: BUFFER_SIZE_eq)
    define v where "v = sender_length h + of_nat k"
    have uk: "unat (of_nat k :: u32) = k"
      using k'(1) by (simp add: unat_of_nat_small)
    then have add: "add_w oc (sender_length h) (of_nat k) = (Ok v :: (io_error, u32) outcome)" and uv: "unat v = soff h + k"
      using k'(1) W(3,5) by (auto simp: v_def add_w_def unat_add_lem')
    have len: "length (take k (drop (soff h) W)) = k"
      using k'(2) by simp
    have h': "h' = h\<lparr>sender_length := v,
        send_packet := Some (Data n (Numeric (sender_offset h)) (Payload (take k (drop (soff h) W)))),
        need_ack := True, current_timeout := retrasmission_timeout t\<rparr>" and s': "s' = s" "eff = []"
      using res data(1-3) new add len W(6) by (auto simp: next_packet_def simp del: length_take length_drop)
    have adv: "advance (soff h) (slen h) (soff h) (unat v)"
      using W(3) uv by (simp add: advance_def)
    have "good_data n W (soff h) (unat v) (Data n (Numeric (sender_offset h)) (Payload (take k (drop (soff h) W))))"
      using k(1) k' uv len by (simp add: good_data_def Let_def del: length_take length_drop)
    moreover have "pred_option (good_data n W (soff h) (unat v)) (last_packet_sent h)"
      using inv adv by (auto simp: sender_inv_def elim!: pred_option_weaken intro: good_data_advance)
    ultimately show ?thesis
      using inv adv rp W(3) uv k' by (auto simp: h' s' sender_inv_def)
  qed
qed


text \<open>One iteration, seen by this end's sender. Two moves of the range: an acknowledgement, then
  the next packet.\<close>

definition advances :: "nat \<Rightarrow> nat \<Rightarrow> nat \<Rightarrow> nat \<Rightarrow> nat \<Rightarrow> bool" where
  "advances rp so sl so' sl' \<longleftrightarrow>
     (\<exists>so1 sl1. so \<le> sl \<and> advance so sl so1 sl1 \<and> so1 \<le> sl1 \<and> advance so1 sl1 so' sl' \<and>
        (rp = so \<or> rp = sl) \<and> (rp = so1 \<or> rp = sl1) \<and> (rp = so' \<or> rp = sl'))"

lemma advances_one:
  "advance so sl so' sl' \<Longrightarrow> so \<le> sl \<Longrightarrow> so' \<le> sl' \<Longrightarrow> rp = so \<or> rp = sl \<Longrightarrow> rp = so' \<or> rp = sl' \<Longrightarrow>
     advances rp so sl so' sl'"
  unfolding advances_def by (metis advance_refl)

lemma good_data_advances: "good_data n W so sl p \<Longrightarrow> advances rp so sl so' sl' \<Longrightarrow> good_data n W so' sl' p"
  by (auto simp: advances_def intro: good_data_advance)

lemma good_ack_advances: "good_ack so sl rp p \<Longrightarrow> advances rp so sl so' sl' \<Longrightarrow> good_ack so' sl' rp p"
  unfolding advances_def by (elim exE conjE) (blast intro: good_ack_advance order_refl)

fun incoming_ok :: "numeric \<Rightarrow> nat \<Rightarrow> nat \<Rightarrow> nat \<Rightarrow> event \<Rightarrow> bool" where
  "incoming_ok n so sl rp (Recv p) = (packet_session p = n \<and> packet_ok p \<and> good_ack so sl rp p)"
| "incoming_ok n so sl rp _ = True"

lemma select_sender:
  assumes inv: "sender_inv n W h s" and rp: "rp = soff h \<or> rp = slen h"
    and ev: "event_enabled ev h s" "incoming_ok n (soff h) (slen h) rp ev"
    and res: "select_branch t oc now ev h s = Ok (fl, h', s', eff)"
  shows "sender_inv n W h' s' \<and> advance (soff h) (slen h) (soff h') (slen h') \<and>
    (rp = soff h' \<or> rp = slen h') \<and> (\<forall>p \<in> set (sends eff). good_data n W (soff h') (slen h') p)"
proof (cases ev)
  case (Recv p)
  show ?thesis
  proof (cases p)
    case (Data m pos d)
    then show ?thesis
      using res Recv inv rp on_data_frame [of oc now m pos d h s fl h' s' eff]
        sender_inv_frame [of n W h s s' h']
      by (cases h') (auto simp: sender_inv_def)
  next
    case (Ack m l)
    then show ?thesis
      using on_ack_sender [OF inv rp, of l t oc now] res ev(2) Recv
      by (auto simp: packet_ok_def)
  next
    case (Connect m)
    then show ?thesis
      using res Recv inv rp by (auto simp: on_connect_def Let_def sender_inv_def split: if_splits)
  next
    case (Close m)
    then show ?thesis
      using res Recv inv rp
      by (auto simp: on_close_def Let_def sender_inv_def split: if_splits prod.splits)
  qed
next
  case Timed_out
  then show ?thesis
    using res inv rp
    by (auto simp: on_timeout_def sender_inv_def Let_def split: if_splits prod.splits option.splits)
next
  case Sent
  then show ?thesis
    using res inv rp ev by (auto simp: sender_inv_def split: option.splits)
qed (use res inv rp in \<open>auto simp: sender_inv_def\<close>)

lemma iteration_sender:
  assumes inv: "sender_inv n W h s" and rp: "rp = soff h \<or> rp = slen h"
    and ev: "event_enabled ev h s" "incoming_ok n (soff h) (slen h) rp ev"
    and res: "lrcp_iteration t oc now ev h s = Ok (fl, h', s', eff)"
  shows "sender_inv n W h' s' \<and> advances rp (soff h) (slen h) (soff h') (slen h') \<and>
    (\<forall>p \<in> set (sends eff). good_data n W (soff h') (slen h') p)"
proof -
  obtain fl1 h1 s1 eff1 where sel: "select_branch t oc now ev h s = Ok (fl1, h1, s1, eff1)"
    and rest: "(case fl1 of Break \<Rightarrow> Ok (Break, h1, s1, eff1)
      | Continue \<Rightarrow> bind_outcome (next_packet t oc h1 s1) (\<lambda>(h, s, eff'). Ok (Continue, h, s, eff1 @ eff')))
      = Ok (fl, h', s', eff)"
    using res by (auto simp: lrcp_iteration_def)
  have le: "soff h \<le> slen h" "soff h1 \<le> slen h1"
    using inv select_sender [OF inv rp ev sel] by (auto simp: sender_inv_def)
  note sender1 = select_sender [OF inv rp ev sel]
  show ?thesis
  proof (cases fl1)
    case Break
    then show ?thesis
      using rest sender1 rp le advances_one [of "soff h" "slen h" "soff h'" "slen h'" rp] by auto
  next
    case Continue
    then obtain eff2 where nxt: "next_packet t oc h1 s1 = Ok (h', s', eff2)" and eff: "eff = eff1 @ eff2"
      using rest by auto
    have "(rp = soff h1 \<or> rp = slen h1)" "sender_inv n W h1 s1"
      using sender1 by auto
    note sender2 = next_packet_sender [OF this(2,1) nxt]
    have "advances rp (soff h) (slen h) (soff h') (slen h')"
      unfolding advances_def using sender1 sender2 rp le by blast
    then show ?thesis
      using sender1 sender2 le by (auto simp: eff intro: good_data_advance)
  qed
qed


text \<open>One iteration, seen by this end's receiver.\<close>

lemma next_packet_frame:
  assumes "next_packet t oc h s = Ok (h', s', eff)"
  shows "sends eff = [] \<and> receiver_position h' = receiver_position h \<and> downstream s' = downstream s"
  using assms
  by (auto simp: next_packet_def Let_def simp del: bind_outcome.simps
      split: if_splits prod.splits option.splits)

lemma on_data_receiver:
  assumes inv: "receiver_inv W so sl G h s" and hs: "handler_session h = m"
    and bounds: "so \<le> sl" "sl \<le> length W" "so < 2147483648" "sl \<le> so + 1000"
    and good: "good_data n W so sl (Data m pos d)"
  shows "\<exists>h' s' eff. on_data oc now m pos d h s = Ok (Continue, h', s', eff) \<and>
    receiver_inv W so sl G h' s' \<and> rpos h \<le> rpos h' \<and>
    (\<forall>p \<in> set (sends eff). good_ack so sl (rpos h') p)"
proof -
  define k l where "k = unat (numeric_value pos)" and "l = length (payload_string d)"
  have d: "0 < l" "l < 1000" "k + l \<le> length W" "payload_string d = take l (drop k W)"
    "k + l \<le> so \<or> k = so \<and> k + l = sl"
    using good by (auto simp: good_data_def k_def l_def Let_def)
  have rp: "rpos h = so \<or> rpos h = sl"
    using inv by (auto simp: receiver_inv_def)
  have ul: "unat (of_nat l :: u32) = l"
    using d(2) by (simp add: unat_of_nat_small)
  consider (closed) "closed h \<or> closing h"
    | (eq) "\<not> (closed h \<or> closing h)" "numeric_value pos = receiver_position h"
    | (less) "\<not> (closed h \<or> closing h)" "numeric_value pos < receiver_position h"
    | (more) "\<not> (closed h \<or> closing h)" "receiver_position h < numeric_value pos"
    by (meson not_less_iff_gr_or_eq)
  then show ?thesis
  proof cases
    case closed
    then show ?thesis
      using inv by (auto simp: on_data_def Let_def receiver_inv_def hs)
  next
    case eq
    then have k: "k = rpos h"
      by (simp add: k_def)
    then have so: "k = so" "k + l = sl"
      using d(1,5) rp bounds(1) by auto
    define v where "v = receiver_position h + of_nat l"
    have add: "add_w oc (receiver_position h) (of_nat l) = (Ok v :: (io_error, u32) outcome)"
      and uv: "unat v = k + l"
      using so(1) k bounds(3) d(2) ul by (auto simp: v_def add_w_def unat_add_lem')
    have pw: "payload_write oc d (down_buffer (downstream s)) 0
        = (Ok (of_nat l, down_buffer (downstream s) @ payload_string d) :: (io_error, _) outcome)"
      by (simp add: payload_write_def sub_w_def l_def)
    obtain ss ee where app: "append_payload oc d 0 (h\<lparr>last_recv_timestamp := now\<rparr>) s
        = Ok (h\<lparr>last_recv_timestamp := now, receiver_position := v\<rparr>, ss, ee)"
      and ee: "sends ee = []"
      and ss: "down_buffer (downstream ss) = down_buffer (downstream s) @ payload_string d"
      by (cases "0 < (of_nat l :: u32)") (auto simp: append_payload_def pw add Let_def)
    have "G @ down_buffer (downstream s) @ payload_string d = take (k + l) W"
      using inv d(4) k by (simp add: receiver_inv_def take_add)
    then show ?thesis
      using eq so uv k by (simp add: on_data_def Let_def receiver_inv_def send_ack_def hs app ee ss)
  next
    case less
    then have "k < rpos h"
      by (simp add: k_def word_less_nat_alt)
    then have le: "k + l \<le> rpos h"
      using d(5) rp bounds(1) by auto
    have "k + l < 2 ^ 32"
      using le unsigned_less [of "receiver_position h", where ?'a = nat] by simp
    then have "add_w oc (numeric_value pos) (of_nat l) = (Ok (numeric_value pos + of_nat l) :: (io_error, u32) outcome)"
      and "unat (numeric_value pos + of_nat l) = k + l"
      using ul by (auto simp: add_w_def unat_add_lem' k_def)
    moreover have "\<not> receiver_position h < numeric_value pos + of_nat l"
      using le calculation(2) by (simp add: word_less_nat_alt)
    ultimately have "on_data oc now m pos d h s = Ok (Continue, h\<lparr>last_recv_timestamp := now\<rparr>, s, [send_ack m h])"
      using less less_imp_neq [OF less(2)] by (simp add: on_data_def Let_def send_ack_def l_def hs)
    then show ?thesis
      using inv rp by (auto simp: receiver_inv_def send_ack_def)
  next
    case more
    then have "on_data oc now m pos d h s = Ok (Continue, h\<lparr>last_recv_timestamp := now\<rparr>, s, [])"
      using less_imp_neq [OF more(2)] less_not_sym [OF more(2)]
      by (simp add: on_data_def Let_def hs eq_commute [of "receiver_position h"])
    then show ?thesis
      using inv by (auto simp: receiver_inv_def)
  qed
qed

lemma iteration_receiver:
  assumes inv: "receiver_inv W so sl G h s" and sp: "pred_option no_ack (send_packet h)"
    and hs: "handler_session h = n" and bounds: "so \<le> sl" "sl \<le> length W" "so < 2147483648" "sl \<le> so + 1000"
    and good: "\<And>p. ev = Recv p \<Longrightarrow> good_data n W so sl p"
    and res: "lrcp_iteration t oc now ev h s = Ok (fl, h', s', eff)"
  shows "receiver_inv W so sl G h' s' \<and> rpos h \<le> rpos h' \<and>
    (\<forall>p \<in> set (sends eff). good_ack so sl (rpos h') p)"
proof -
  obtain fl1 h1 s1 eff1 where sel: "select_branch t oc now ev h s = Ok (fl1, h1, s1, eff1)"
    and rest: "(case fl1 of Break \<Rightarrow> Ok (Break, h1, s1, eff1)
      | Continue \<Rightarrow> bind_outcome (next_packet t oc h1 s1) (\<lambda>(h, s, eff'). Ok (Continue, h, s, eff1 @ eff')))
      = Ok (fl, h', s', eff)"
    using res by (auto simp: lrcp_iteration_def)
  have one: "receiver_inv W so sl G h1 s1 \<and> rpos h \<le> rpos h1 \<and>
      (\<forall>p \<in> set (sends eff1). good_ack so sl (rpos h1) p)"
  proof (cases ev)
    case (Recv p)
    show ?thesis
    proof (cases p)
      case (Data m pos d)
      then show ?thesis
        using on_data_receiver [OF inv _ bounds, of m n pos d oc now] good [of p] sel Recv hs
        by (auto simp: good_data_def)
    next
      case (Ack m l)
      then have "receiver_position h1 = receiver_position h \<and> downstream s1 = downstream s \<and>
          (\<forall>p \<in> set (sends eff1). no_ack p)"
        using sel Recv
        by (auto simp: on_ack_def Let_def drain_upstream_def split: if_splits)
      then show ?thesis
        using inv no_ack_good_ack by (auto simp: receiver_inv_def)
    next
      case (Connect m)
      then show ?thesis
        using sel Recv inv by (auto simp: on_connect_def Let_def receiver_inv_def split: if_splits)
    next
      case (Close m)
      then show ?thesis
        using sel Recv inv
        by (auto simp: on_close_def Let_def receiver_inv_def split: if_splits prod.splits)
    qed
  next
    case Timed_out
    then show ?thesis
      using sel inv
      by (auto simp: on_timeout_def Let_def receiver_inv_def split: if_splits prod.splits option.splits)
  next
    case Sent
    then show ?thesis
      using sel inv sp no_ack_good_ack by (auto simp: receiver_inv_def split: option.splits)
  qed (use sel inv in \<open>auto simp: receiver_inv_def\<close>)
  then show ?thesis
    using rest by (cases fl1) (auto simp: receiver_inv_def dest!: next_packet_frame)
qed


text \<open>No iteration panics.\<close>

lemma next_packet_total:
  assumes "sender_inv n W h s"
  shows "\<exists>r. next_packet t oc h s = Ok r"
proof (cases "payload_new (up_buffer (upstream s))")
  case (Some d)
  have W: "list_all is_ascii W" "up_buffer (upstream s) = drop (soff h) W" "soff h < 2147483648"
    "\<not> need_ack h \<longrightarrow> slen h = soff h"
    using assms by (auto simp: sender_inv_def)
  have "up_buffer (upstream s) \<noteq> []"
    using Some by (auto simp: payload_new_def)
  then obtain k where k: "payload_new (up_buffer (upstream s)) = Some (Payload (latin1 (take k (drop (soff h) W))))"
    "length (esc (take k (drop (soff h) W))) < BUFFER_SIZE"
    using payload_new_Some W(2) by metis
  have "list_all is_ascii (take k (drop (soff h) W))"
    using W(1) by (metis append_take_drop_id list_all_append)
  then have "length (payload_string d) < 1000"
    using k Some length_le_esc [of "take k (drop (soff h) W)"] by (auto simp: latin1_ascii BUFFER_SIZE_eq)
  moreover have "unat (of_nat (length (payload_string d)) :: u32) = length (payload_string d)"
    using calculation by (intro unat_of_nat_small) simp
  ultimately have "\<not> need_ack h \<Longrightarrow>
      \<exists>n. add_w oc (sender_length h) (of_nat (length (payload_string d))) = (Ok n :: (io_error, u32) outcome)"
    using W by (auto simp: add_w_def)
  then show ?thesis
    using Some by (auto simp: next_packet_def split: prod.splits)
qed (auto simp: next_packet_def Let_def split: prod.splits)

lemma select_total:
  assumes snd: "sender_inv n W h s" and rp: "rp = soff h \<or> rp = slen h"
    and rcv: "receiver_inv V so sl G h s"
    and bounds: "so \<le> sl" "sl \<le> length V" "so < 2147483648" "sl \<le> so + 1000"
    and ev: "incoming_ok n (soff h) (slen h) rp ev" and good: "\<And>p. ev = Recv p \<Longrightarrow> good_data n V so sl p"
  shows "\<exists>r. select_branch t oc now ev h s = Ok r"
proof (cases ev)
  case (Recv p)
  have hs: "handler_session h = n"
    using snd by (simp add: sender_inv_def)
  show ?thesis
  proof (cases p)
    case (Data m pos d)
    then show ?thesis
      using on_data_receiver [OF rcv _ bounds, of m n pos d oc now] good [of p] Recv hs
      by (auto simp: good_data_def)
  next
    case (Ack m l)
    then show ?thesis
      using on_ack_sender [OF snd rp, of l t oc now] ev Recv by (auto simp: packet_ok_def)
  next
    case (Connect m)
    then show ?thesis
      using ev Recv hs by (cases "start_connection h") (auto simp: on_connect_def)
  next
    case (Close m)
    then show ?thesis
      using ev Recv hs by (auto simp: on_close_def Let_def split: prod.splits)
  qed
next
  case Timed_out
  then show ?thesis
    by (auto simp: on_timeout_def Let_def split: prod.splits option.splits)
qed auto

lemma iteration_total:
  assumes "sender_inv n W h s" "rp = soff h \<or> rp = slen h" "receiver_inv V so sl G h s"
    "so \<le> sl" "sl \<le> length V" "so < 2147483648" "sl \<le> so + 1000"
    "event_enabled ev h s" "incoming_ok n (soff h) (slen h) rp ev" "\<And>p. ev = Recv p \<Longrightarrow> good_data n V so sl p"
  shows "\<exists>fl h' s' eff. lrcp_iteration t oc now ev h s = Ok (fl, h', s', eff)"
proof -
  obtain fl h1 s1 eff where sel: "select_branch t oc now ev h s = Ok (fl, h1, s1, eff)"
    using select_total [OF assms(1-7,9,10), of t oc now] by auto
  have "sender_inv n W h1 s1"
    using select_sender [OF assms(1,2,8,9) sel] by simp
  then obtain r where "next_packet t oc h1 s1 = Ok r"
    using next_packet_total [of n W h1 s1 t oc] by blast
  then show ?thesis
    by (cases r; cases fl) (auto simp: lrcp_iteration_def sel)
qed


section \<open>Two ends\<close>

text \<open>The invariant of one direction, from the sender \<open>X\<close> to the receiver \<open>Y\<close>.\<close>

definition link :: "numeric \<Rightarrow> endp \<Rightarrow> endp \<Rightarrow> packet list \<Rightarrow> packet list \<Rightarrow> bool" where
  "link n X Y out back \<longleftrightarrow>
     sender_inv n (wrote X) (hnd X) (st X) \<and>
     receiver_inv (wrote X) (soff (hnd X)) (slen (hnd X)) (got Y) (hnd Y) (st Y) \<and>
     (\<forall>p \<in> set out. good_data n (wrote X) (soff (hnd X)) (slen (hnd X)) p) \<and>
     (\<forall>p \<in> set back. good_ack (soff (hnd X)) (slen (hnd X)) (rpos (hnd Y)) p)"

definition lnet_inv :: "numeric \<Rightarrow> lnet \<Rightarrow> bool" where
  "lnet_inv n c \<longleftrightarrow>
     link n (client c) (server c) (to_server c) (to_client c) \<and>
     link n (server c) (client c) (to_client c) (to_server c)"

lemma link_bounds:
  assumes "link n X Y out back"
  shows "soff (hnd X) \<le> slen (hnd X)" "slen (hnd X) \<le> length (wrote X)" "soff (hnd X) < 2147483648"
    "slen (hnd X) \<le> soff (hnd X) + 1000" "rpos (hnd Y) = soff (hnd X) \<or> rpos (hnd Y) = slen (hnd X)"
    "handler_session (hnd X) = n" "pred_option no_ack (send_packet (hnd X))"
  using assms by (auto simp: link_def sender_inv_def receiver_inv_def)

lemma good_data_ascii: "good_data n W so sl p \<Longrightarrow> list_all is_ascii W \<Longrightarrow> packet_ascii p"
proof (cases p)
  case (Data m pos d)
  assume "good_data n W so sl p" "list_all is_ascii W"
  moreover from this have "\<exists>l k. payload_string d = take l (drop k W)"
    using Data by (auto simp: good_data_def Let_def)
  then have "set (payload_string d) \<subseteq> set W"
    by (metis set_take_subset set_drop_subset subset_trans)
  ultimately show ?thesis
    using Data by (auto simp: packet_ascii_def list_all_iff)
qed (simp_all add: packet_ascii_def)

lemma good_ack_mono: "good_ack so sl rp p \<Longrightarrow> rp \<le> rp' \<Longrightarrow> good_ack so sl rp' p"
  by (cases p) (auto simp: good_ack_def)

lemma app_act_link:
  assumes "link n X Y out back" "app_ok a"
  shows "link n (app_act a X) Y out back"
proof (cases a)
  case (App_write bs)
  have le: "soff (hnd X) \<le> length (wrote X)" "rpos (hnd Y) \<le> length (wrote X)"
    using link_bounds [OF assms(1)] by auto
  show ?thesis
    using assms App_write le
    by (auto simp: link_def poll_write_def Let_def sender_inv_def receiver_inv_def good_data_append
        elim!: pred_option_weaken)
qed (use assms in \<open>auto simp: link_def poll_read_def poll_flush_def poll_shutdown_def stream_drop_def
      Let_def sender_inv_def\<close>)

lemma app_act_link_back:
  assumes "link n Y X back out"
  shows "link n Y (app_act a X) back out"
proof (cases a)
  case (App_read w m)
  then show ?thesis
    using assms by (auto simp: link_def poll_read_def Let_def receiver_inv_def min_def)
qed (use assms in \<open>auto simp: link_def poll_write_def poll_flush_def poll_shutdown_def stream_drop_def
      Let_def receiver_inv_def\<close>)

lemma iterate_link:
  assumes XY: "link n X Y out back" and YX: "link n Y X back out"
    and ev: "event_enabled ev (hnd X) (st X)"
    and recv: "\<And>p. ev = Recv p \<Longrightarrow> p \<in> set back \<and> packet_ok p"
    and res: "iterate t oc now ev X = (X', ps)"
  shows "link n X' Y (out @ ps) back \<and> link n Y X' back (out @ ps)"
proof -
  let ?h = "hnd X" and ?g = "hnd Y"
  have snd: "sender_inv n (wrote X) ?h (st X)" and rcv: "receiver_inv (wrote Y) (soff ?g) (slen ?g) (got X) ?h (st X)"
    using XY YX by (auto simp: link_def)
  note bX = link_bounds [OF XY] and bY = link_bounds [OF YX]
  have inc: "incoming_ok n (soff ?h) (slen ?h) (rpos ?g) ev"
    using recv XY YX by (cases ev) (auto simp: link_def good_data_def)
  have good: "good_data n (wrote Y) (soff ?g) (slen ?g) p" if "ev = Recv p" for p
    using recv [OF that] YX by (auto simp: link_def)
  obtain fl h' s' eff where it: "lrcp_iteration t oc now ev ?h (st X) = Ok (fl, h', s', eff)"
    using iteration_total [OF snd bX(5) rcv bY(1-4) ev inc good, of t oc now] by blast
  then have X': "X' = X\<lparr>hnd := h', st := s', running := (fl = Continue)\<rparr>" "ps = sends eff"
    using res by (auto simp: iterate_def)
  note S = iteration_sender [OF snd bX(5) ev inc it]
  note R = iteration_receiver [OF rcv bX(7,6) bY(1-4) good it]
  have adv: "advances (rpos ?g) (soff ?h) (slen ?h) (soff h') (slen h')"
    using S by simp
  then have rp: "rpos ?g = soff h' \<or> rpos ?g = slen h'"
    by (auto simp: advances_def)
  have "link n X' Y (out @ ps) back"
    using S XY rp good_data_advances [OF _ adv] good_ack_advances [OF _ adv]
    unfolding link_def X' receiver_inv_def by (simp, blast)
  moreover have "link n Y X' back (out @ ps)"
    using R YX by (auto simp: link_def X' intro: good_ack_mono)
  ultimately show ?thesis ..
qed


lemma endp_do_link:
  assumes XY: "link n X Y out back" and YX: "link n Y X back out"
    and res: "endp_do t oc back a X = Some (X', ps)"
  shows "link n X' Y (out @ ps) back \<and> link n Y X' back (out @ ps)"
proof (cases a)
  case (App b)
  then show ?thesis
    using res app_act_link [OF XY] app_act_link_back [OF YX] by (auto split: if_splits)
next
  case (Local now ev)
  then show ?thesis
    using res iterate_link [OF XY YX, of ev t oc now X' ps] by (cases ev) (auto split: if_splits)
next
  case (Deliver now i)
  then obtain p where i: "i < length back" and tr: "transfer oc (back ! i) = Some p"
    and it: "iterate t oc now (Recv p) X = (X', ps)"
    using res by (auto split: if_splits option.splits)
  have "packet_ascii (back ! i)"
    using YX i nth_mem [OF i]
    by (intro good_data_ascii [of n "wrote Y"]) (auto simp: link_def sender_inv_def)
  then have "p = back ! i \<and> packet_ok p"
    using transfer_own [OF tr] by auto
  then show ?thesis
    using i by (intro iterate_link [OF XY YX _ _ it]) auto
qed

definition lnet_step :: "timeouts \<Rightarrow> bool \<Rightarrow> lnet \<Rightarrow> lnet \<Rightarrow> bool" where
  "lnet_step t oc c c' \<longleftrightarrow> (\<exists>a. lnet_do t oc a c = Some c')"

lemma lnet_do_inv: "lnet_do t oc a c = Some c' \<Longrightarrow> lnet_inv n c \<Longrightarrow> lnet_inv n c'"
  by (cases a) (auto simp: lnet_inv_def dest: endp_do_link)

lemma lnet_init_inv: "lnet_inv n (lnet_init t n now)"
  by (simp add: lnet_inv_def link_def lnet_init_def endp_init_def handler_init_def stream_new_def
      sender_inv_def receiver_inv_def)

interpretation lrcp: invariant_system "\<lambda>c. c = lnet_init t n now" "lnet_step t oc" "lnet_inv n"
  for t n now oc
  by unfold_locales (auto simp: lnet_init_inv lnet_step_def intro: lnet_do_inv)

lemma lnet_run_steps: "lnet_run t oc as c = Some c' \<Longrightarrow> (lnet_step t oc)\<^sup>*\<^sup>* c c'"
proof (induction "as" arbitrary: c)
  case (Cons a "as")
  then obtain c1 where "lnet_do t oc a c = Some c1" "(lnet_step t oc)\<^sup>*\<^sup>* c1 c'"
    by (auto split: option.splits)
  then show ?case
    by (meson converse_rtranclp_into_rtranclp lnet_step_def)
qed simp

lemma lnet_run_inv: "lnet_run t oc as (lnet_init t n now) = Some c \<Longrightarrow> lnet_inv n c"
  by (rule lrcp.steps_inv [OF lnet_run_steps lnet_init_inv])

text \<open>Every byte the sender wrote is read, waiting at the receiver, or still at the sender.\<close>

lemma link_split:
  assumes "link n X Y out back"
  shows "\<exists>rest. wrote X = got Y @ down_buffer (downstream (st Y)) @ rest \<and>
           suffix rest (up_buffer (upstream (st X)))"
proof (intro exI conjI)
  have rcv: "got Y @ down_buffer (downstream (st Y)) = take (rpos (hnd Y)) (wrote X)"
    and snd: "up_buffer (upstream (st X)) = drop (soff (hnd X)) (wrote X)"
    using assms by (auto simp: link_def receiver_inv_def sender_inv_def)
  show "wrote X = got Y @ down_buffer (downstream (st Y)) @ drop (rpos (hnd Y)) (wrote X)"
    using rcv by (metis append_assoc append_take_drop_id)
  have "soff (hnd X) \<le> rpos (hnd Y)"
    using link_bounds [OF assms] by auto
  then show "suffix (drop (rpos (hnd Y)) (wrote X)) (up_buffer (upstream (st X)))"
    unfolding snd by (metis drop_drop le_add_diff_inverse2 suffix_drop)
qed


end
