(* ===== verification/LrcpDelivery.thy ===== *)
theory LrcpDelivery
  imports LrcpNetwork
begin

text \<open>
  What an LRCP session guarantees to its two applications, from the invariant of \<open>LrcpNetwork\<close>:
  it implements two pipes, loses nothing and does not panic, with a concrete run for the witnesses.
\<close>

section \<open>A run\<close>

text \<open>A packet within the limits arrives as it was sent.\<close>

lemma transfer_ok: "packet_ok p \<Longrightarrow> length (packet_bytes p) < 1000 \<Longrightarrow> transfer oc p = Some p"
  using packet_try_from_complete [OF datagram_packet_bytes, of p oc]
  by (simp add: transfer_def endpoint_send_def endpoint_recv_def packet_write_eq)

definition demo_timeouts :: timeouts where
  "demo_timeouts = \<lparr>retrasmission_timeout = 500, session_expire_timeout = 60000\<rparr>"
text \<open>A run for the witnesses: the client writes a line; its data packet is sent twice, the second
  time after a timeout, and both copies arrive, the later one first.\<close>

definition demo_acts :: "net_act list" where
  "demo_acts =
     [At_client (App (App_write [104, 105, 10])), At_client (Local 0 Sent), At_server (Deliver 0 0),
      At_client (Deliver 0 0), At_client (Local 1 Sent), At_client (Local 501 Timed_out),
      At_client (Local 502 Sent), At_server (Deliver 503 2), At_server (Deliver 504 1),
      At_server (App (App_read 0 2))]"

lemmas run_defs = lnet_init_def endp_init_def handler_init_def stream_new_def demo_timeouts_def
  poll_write_def poll_read_def Let_def iterate_def lrcp_iteration_def next_packet_def on_data_def on_ack_def
  on_connect_def on_timeout_def append_payload_def payload_write_def send_ack_def add_w_def sub_w_def
  payload_new_def BUFFER_SIZE_eq char_utf8_def is_ascii_def

lemma demo_packets: "transfer oc (Connect (Numeric 7)) = Some (Connect (Numeric 7))"
   "transfer oc (Ack (Numeric 7) (Numeric 0)) = Some (Ack (Numeric 7) (Numeric 0))"
   "transfer oc (Data (Numeric 7) (Numeric 0) (Payload [104,105,10])) = Some (Data (Numeric 7) (Numeric 0) (Payload [104,105,10]))"
  by (rule transfer_ok; simp add: packet_ok_def numeric_bytes_def dec.simps packet_constants is_ascii_def)+

lemma demo_run:
  "map_option (\<lambda>c. (got (server c), wrote (client c), running (server c), length (to_server c),
       transfer True (to_server c ! 1)))
     (lnet_run demo_timeouts True demo_acts (lnet_init demo_timeouts (Numeric 7) 0))
   = Some ([104, 105], [104, 105, 10], True, 3, Some (Data (Numeric 7) (Numeric 0) (Payload [104, 105, 10])))"
  by (simp add: demo_acts_def run_defs demo_packets)
section \<open>The abstract session\<close>

text \<open>Two pipes, one in each direction: the bytes that were written to it and those that were read from it, which are
  always the first of those that were written.\<close>

type_synonym pipe = "byte list \<times> byte list"

inductive pipe_step :: "pipe \<Rightarrow> pipe \<Rightarrow> bool" where
  pipe_write: "pipe_step (w, g) (w @ bs, g)"
| pipe_read: "prefix (g @ bs) w \<Longrightarrow> pipe_step (w, g) (w, g @ bs)"

inductive duplex_step :: "pipe \<times> pipe \<Rightarrow> pipe \<times> pipe \<Rightarrow> bool" where
  duplex_there: "pipe_step p p' \<Longrightarrow> duplex_step (p, q) (p', q)"
| duplex_back: "pipe_step q q' \<Longrightarrow> duplex_step (p, q) (p, q')"

definition lnet_view :: "lnet \<Rightarrow> pipe \<times> pipe" where
  "lnet_view c = ((wrote (client c), got (server c)), (wrote (server c), got (client c)))"

text \<open>An act of one end writes or reads, or does neither.\<close>

lemma app_act_io:
  "(\<exists>bs. wrote (app_act a e) = wrote e @ bs \<and> got (app_act a e) = got e) \<or>
   (\<exists>bs. wrote (app_act a e) = wrote e \<and> got (app_act a e) = got e @ bs)"
  by (cases a) (auto simp: Let_def split: prod.splits)

lemma iterate_io: "iterate t oc now ev e = (e', ps) \<Longrightarrow> wrote e' = wrote e \<and> got e' = got e"
  by (auto simp: iterate_def split: outcome.splits)

lemma endp_do_io:
  assumes "endp_do t oc inc a e = Some (e', ps)"
  shows "(\<exists>bs. wrote e' = wrote e @ bs \<and> got e' = got e) \<or> (\<exists>bs. wrote e' = wrote e \<and> got e' = got e @ bs)"
proof (cases a)
  case (App b)
  with assms app_act_io [of b e] show ?thesis
    by (auto split: if_splits)
next
  case (Local now ev)
  with assms iterate_io [of t oc now ev e e' ps] show ?thesis
    by (auto split: if_splits)
next
  case (Deliver now i)
  with assms iterate_io [of t oc now _ e e' ps] show ?thesis
    by (auto split: if_splits option.splits)
qed

lemma lnet_inv_prefix:
  assumes "lnet_inv n c"
  shows "prefix (got (server c)) (wrote (client c)) \<and> prefix (got (client c)) (wrote (server c))"
  using assms link_split [of n "client c" "server c"] link_split [of n "server c" "client c"]
  unfolding lnet_inv_def prefix_def by blast

lemma lnet_step_view:
  assumes step: "lnet_step t oc c c'" and inv: "lnet_inv n c"
  shows "lnet_view c' = lnet_view c \<or> duplex_step (lnet_view c) (lnet_view c')"
proof -
  obtain a where a: "lnet_do t oc a c = Some c'"
    using step by (auto simp: lnet_step_def)
  note after = lnet_inv_prefix [OF lnet_do_inv [OF a inv]]
  show ?thesis
  proof (cases a)
    case (At_client b)
    with a obtain e ps where e: "endp_do t oc (to_client c) b (client c) = Some (e, ps)"
      and c': "c' = c\<lparr>client := e, to_server := to_server c @ ps\<rparr>"
      by auto
    from endp_do_io [OF e] show ?thesis
    proof (elim disjE exE conjE)
      fix bs
      assume "wrote e = wrote (client c) @ bs" "got e = got (client c)"
      then show ?thesis
        by (simp add: c' lnet_view_def duplex_there pipe_write)
    next
      fix bs
      assume "wrote e = wrote (client c)" "got e = got (client c) @ bs"
      with after show ?thesis
        by (simp add: c' lnet_view_def duplex_back pipe_read)
    qed
  next
    case (At_server b)
    with a obtain e ps where e: "endp_do t oc (to_server c) b (server c) = Some (e, ps)"
      and c': "c' = c\<lparr>server := e, to_client := to_client c @ ps\<rparr>"
      by auto
    from endp_do_io [OF e] show ?thesis
    proof (elim disjE exE conjE)
      fix bs
      assume "wrote e = wrote (server c) @ bs" "got e = got (server c)"
      then show ?thesis
        by (simp add: c' lnet_view_def duplex_back pipe_write)
    next
      fix bs
      assume "wrote e = wrote (server c)" "got e = got (server c) @ bs"
      with after show ?thesis
        by (simp add: c' lnet_view_def duplex_there pipe_read)
    qed
  qed
qed

interpretation session: simulation "\<lambda>c. c = lnet_init t n now" "lnet_step t oc" "lnet_inv n" duplex_step lnet_view
  for t n now oc
  by unfold_locales (rule lnet_step_view)

section \<open>Properties\<close>

text \<open>C1: Over a network that loses, repeats and reorders datagrams at will, and for any
  interleaving of the two handlers, their timers and their applications, a session is two pipes: each act
  writes to one of them, reads the next bytes from one, or changes neither, so that what each application
  has read is a prefix of the (ASCII) bytes that the other one has written.\<close>

theorem lrcp_implements_pipes:
  assumes "lnet_run t oc acts (lnet_init t n now) = Some c"
  shows "duplex_step\<^sup>*\<^sup>* (([], []), ([], [])) (lnet_view c) \<and>
    (\<forall>a c'. lnet_do t oc a c = Some c' \<longrightarrow> duplex_step\<^sup>=\<^sup>= (lnet_view c) (lnet_view c')) \<and>
    prefix (got (server c)) (wrote (client c)) \<and> prefix (got (client c)) (wrote (server c))"
proof -
  have inv: "lnet_inv n c"
    by (rule lnet_run_inv [OF assms])
  have "lnet_view (lnet_init t n now) = (([], []), ([], []))"
    by (simp add: lnet_view_def lnet_init_def endp_init_def)
  then have "duplex_step\<^sup>*\<^sup>* (([], []), ([], [])) (lnet_view c)"
    using session.steps_view [OF lnet_run_steps [OF assms] lnet_init_inv] by simp
  moreover have "duplex_step\<^sup>=\<^sup>= (lnet_view c) (lnet_view c')" if "lnet_do t oc a c = Some c'" for a c'
  proof -
    have "lnet_step t oc c c'"
      using that unfolding lnet_step_def by blast
    from lnet_step_view [OF this inv] show ?thesis
      by auto
  qed
  ultimately show ?thesis
    using lnet_inv_prefix [OF inv] by blast
qed

lemma lrcp_implements_pipes_witness:
  "\<exists>c. lnet_run demo_timeouts True demo_acts (lnet_init demo_timeouts (Numeric 7) 0) = Some c \<and>
     got (server c) = [104, 105] \<and> duplex_step\<^sup>*\<^sup>* (([], []), ([], [])) (lnet_view c)"
proof -
  obtain c where c: "lnet_run demo_timeouts True demo_acts (lnet_init demo_timeouts (Numeric 7) 0) = Some c"
    and got: "got (server c) = [104, 105]"
    using demo_run by auto
  show ?thesis
    using lrcp_implements_pipes [OF c] c got by blast
qed

text \<open>The sender forgets no byte before the receiver has it: what one application wrote is what
  the other has read, then what waits for it there, then an end part of the sender's own buffer.\<close>

theorem lrcp_no_loss:
  assumes "lnet_run t oc acts (lnet_init t n now) = Some c"
  shows "(\<exists>rest. wrote (client c) = got (server c) @ down_buffer (downstream (st (server c))) @ rest \<and>
             suffix rest (up_buffer (upstream (st (client c))))) \<and>
         (\<exists>rest. wrote (server c) = got (client c) @ down_buffer (downstream (st (client c))) @ rest \<and>
             suffix rest (up_buffer (upstream (st (server c)))))"
proof -
  have "lnet_inv n c"
    by (rule lnet_run_inv [OF assms])
  then show ?thesis
    using link_split [of n "client c" "server c"] link_split [of n "server c" "client c"]
    unfolding lnet_inv_def by blast
qed

lemma lrcp_no_loss_witness:
  "\<exists>c. lnet_run demo_timeouts True demo_acts (lnet_init demo_timeouts (Numeric 7) 0) = Some c \<and>
     (\<exists>rest. wrote (client c) = got (server c) @ down_buffer (downstream (st (server c))) @ rest)"
proof -
  obtain c where c: "lnet_run demo_timeouts True demo_acts (lnet_init demo_timeouts (Numeric 7) 0) = Some c"
    using demo_run by auto
  show ?thesis
    using lrcp_no_loss [OF c] c by blast
qed

lemma select_ack_closing:
  assumes XY: "link n X Y out back" and YX: "link n Y X back out"
    and p: "p \<in> set back" "packet_ok p"
  shows "\<exists>fl h s eff. lrcp_iteration t oc now (Recv p) (hnd X) (st X) = Ok (fl, h, s, eff) \<and>
    closing h = closing (hnd X) \<and> rpos (hnd X) \<le> rpos h"
proof -
  let ?h = "hnd X" and ?g = "hnd Y"
  have snd: "sender_inv n (wrote X) ?h (st X)" and rcv: "receiver_inv (wrote Y) (soff ?g) (slen ?g) (got X) ?h (st X)"
    and good: "good_data n (wrote Y) (soff ?g) (slen ?g) p" and ack: "good_ack (soff ?h) (slen ?h) (rpos ?g) p"
    using XY YX p by (auto simp: link_def)
  note bX = link_bounds [OF XY] and bY = link_bounds [OF YX]
  have inc: "incoming_ok n (soff ?h) (slen ?h) (rpos ?g) (Recv p)"
    using p(2) good ack by (auto simp: good_data_def)
  have en: "event_enabled (Recv p) ?h (st X)"
    by simp
  obtain fl h s eff where it: "lrcp_iteration t oc now (Recv p) ?h (st X) = Ok (fl, h, s, eff)"
    using iteration_total [OF snd bX(5) rcv bY(1-4) en inc, of t oc now] good by auto
  obtain h1 s1 eff1 fl1 where sel: "select_branch t oc now (Recv p) ?h (st X) = Ok (fl1, h1, s1, eff1)"
    and rest: "(case fl1 of Break \<Rightarrow> Ok (Break, h1, s1, eff1)
      | Continue \<Rightarrow> bind_outcome (next_packet t oc h1 s1) (\<lambda>(h, s, eff'). Ok (Continue, h, s, eff1 @ eff')))
      = Ok (fl, h, s, eff)"
    using it by (auto simp: lrcp_iteration_def)
  have "closing h1 = closing ?h"
  proof (cases p)
    case (Data m pos d)
    then show ?thesis
      using sel on_data_frame [of oc now m pos d ?h "st X" fl1 h1 s1 eff1] by (cases h1) auto
  next
    case (Ack m l)
    then show ?thesis
      using sel on_ack_sender [OF snd bX(5), of l t oc now] inc by (auto simp: packet_ok_def)
  next
    case (Connect m)
    then show ?thesis
      using sel by (auto simp: on_connect_def Let_def split: if_splits)
  next
    case (Close m)
    then show ?thesis
      using sel by (auto simp: on_close_def Let_def split: if_splits prod.splits)
  qed
  moreover have "closing h' = closing h1" if "next_packet t oc h1 s1 = Ok (h', s', e)" for h' s' e
    using that by (auto simp: next_packet_def Let_def split: if_splits prod.splits option.splits)
  ultimately have "closing h = closing ?h"
    using rest by (cases fl1) auto
  moreover have "rpos ?h \<le> rpos h"
    using iteration_receiver [OF rcv bX(7,6) bY(1-4) _ it] good by auto
  ultimately show ?thesis
    using it by blast
qed

text \<open>A datagram of the client that reaches the server's handler, whenever it does, is handled
  without a panic (no overflow, no failed assertion), never makes the server take its peer for
  misbehaving (it does not start closing), and never moves the bytes delivered so far.\<close>

theorem lrcp_no_panic:
  assumes "lnet_run t oc acts (lnet_init t n now) = Some c"
    and "i < length (to_server c)" and "transfer oc (to_server c ! i) = Some p"
  shows "\<exists>fl h s eff. lrcp_iteration t oc later (Recv p) (hnd (server c)) (st (server c)) = Ok (fl, h, s, eff) \<and>
           closing h = closing (hnd (server c)) \<and>
           receiver_position (hnd (server c)) \<le> receiver_position h"
proof -
  have inv: "link n (server c) (client c) (to_client c) (to_server c)"
    "link n (client c) (server c) (to_server c) (to_client c)"
    using lnet_run_inv [OF assms(1)] by (auto simp: lnet_inv_def)
  have "packet_ascii (to_server c ! i)"
    using inv(2) nth_mem [OF assms(2)]
    by (intro good_data_ascii [of n "wrote (client c)"]) (auto simp: link_def sender_inv_def)
  then have "p = to_server c ! i \<and> packet_ok p"
    using transfer_own [OF assms(3)] by simp
  then show ?thesis
    using select_ack_closing [OF inv, of p t oc later] nth_mem [OF assms(2)] by (auto simp: word_le_nat_alt)
qed

lemma lrcp_no_panic_witness:
  "\<exists>c fl h s eff. lnet_run demo_timeouts True demo_acts (lnet_init demo_timeouts (Numeric 7) 0) = Some c \<and>
     lrcp_iteration demo_timeouts True 600 (Recv (Data (Numeric 7) (Numeric 0) (Payload [104, 105, 10])))
       (hnd (server c)) (st (server c)) = Ok (fl, h, s, eff)"
proof -
  obtain c where c: "lnet_run demo_timeouts True demo_acts (lnet_init demo_timeouts (Numeric 7) 0) = Some c"
    and i: "1 < length (to_server c)"
    and tr: "transfer True (to_server c ! 1) = Some (Data (Numeric 7) (Numeric 0) (Payload [104, 105, 10]))"
    using demo_run by auto
  show ?thesis
    using lrcp_no_panic [OF c i tr, of 600] c by blast
qed

end
