(* ===== verification/LrcpSocket.thy ===== *)
theory LrcpSocket
  imports LrcpNetwork Utf8
begin

text \<open>
  The server around the sessions, \<open>rust/p07-line-reversal/src\<close>: the listener that keeps one handler
  per address and session number (\<open>Connection\<close>, \<open>Listener\<close> and \<open>Socket\<close> of \<open>lrcp/protocol.rs\<close>), the
  sessions that this side opens, and the application that reverses lines (\<open>lib.rs\<close>). The listener's
  sessions carry the handlers of \<open>LrcpProtocol\<close>; a handler that has returned is not alive, and
  packets for it are dropped with a warning.
\<close>

section \<open>Connections\<close>

record connection =
  conn_handler :: handler
  conn_stream :: stream
  mailbox :: "packet list"
  alive :: bool

record 'a socket =
  connections :: "('a \<times> numeric) \<rightharpoonup> connection"
  accept_queue :: "('a \<times> numeric) list"
  outgoing :: "('a \<times> packet) list"

definition connection_new :: "timeouts \<Rightarrow> numeric \<Rightarrow> nat \<Rightarrow> connection" where
  "connection_new t session now =
     \<lparr>conn_handler = handler_init t False session now, conn_stream = stream_new, mailbox = [], alive = True\<rparr>"

definition socket_new :: "'a socket" where
  "socket_new = \<lparr>connections = Map.empty, accept_queue = [], outgoing = []\<rparr>"

text \<open>\<open>connections.entry((addr, session)).or_insert_with(..)\<close>: the stream of a new connection goes
  to whoever accepts.\<close>

definition ensure_connection :: "timeouts \<Rightarrow> nat \<Rightarrow> 'a \<times> numeric \<Rightarrow> 'a socket \<Rightarrow> 'a socket" where
  "ensure_connection t now key s =
     (case connections s key of
        Some _ \<Rightarrow> s
      | None \<Rightarrow> s\<lparr>connections := (connections s)(key \<mapsto> connection_new t (snd key) now),
                  accept_queue := accept_queue s @ [key]\<rparr>)"

text \<open>One packet that the endpoint received.\<close>

definition socket_receive :: "timeouts \<Rightarrow> nat \<Rightarrow> 'a \<Rightarrow> packet \<Rightarrow> 'a socket \<Rightarrow> 'a socket" where
  "socket_receive t now addr p s =
     (let key = (addr, packet_session p); s = ensure_connection t now key s
      in case connections s key of
           Some c \<Rightarrow>
             if alive c then s\<lparr>connections := (connections s)(key \<mapsto> c\<lparr>mailbox := mailbox c @ [p]\<rparr>)\<rparr> else s
         | None \<Rightarrow> s)"

definition listener_accept :: "'a socket \<Rightarrow> ('a \<times> numeric) poll \<times> 'a socket" where
  "listener_accept s =
     (case accept_queue s of
        [] \<Rightarrow> (Pending, s)
      | k # ks \<Rightarrow> (Ready k, s\<lparr>accept_queue := ks\<rparr>))"

text \<open>
  A session's handler takes its next event; a packet comes from its mailbox. What it sends is
  tagged with the address of the session.
\<close>

definition handler_turn :: "timeouts \<Rightarrow> bool \<Rightarrow> nat \<Rightarrow> event \<Rightarrow> 'a \<times> numeric \<Rightarrow> 'a socket \<Rightarrow> 'a socket" where
  "handler_turn t oc now ev key s =
     (case connections s key of
        None \<Rightarrow> s
      | Some c \<Rightarrow>
          if \<not> alive c then s
          else
            case lrcp_iteration t oc now ev (conn_handler c) (conn_stream c) of
              Ok (fl, h, st', eff) \<Rightarrow>
                s\<lparr>connections := (connections s)(key \<mapsto>
                     c\<lparr>conn_handler := h, conn_stream := st', alive := (fl = Continue)\<rparr>),
                   outgoing := outgoing s @ map (\<lambda>p. (fst key, p)) (sends eff)\<rparr>
            | _ \<Rightarrow> s\<lparr>connections := (connections s)(key \<mapsto> c\<lparr>alive := False\<rparr>)\<rparr>)"

definition take_mail :: "'a \<times> numeric \<Rightarrow> 'a socket \<Rightarrow> (packet \<times> 'a socket) option" where
  "take_mail key s =
     (case connections s key of
        None \<Rightarrow> None
      | Some c \<Rightarrow>
          if alive c then
            (case mailbox c of
               [] \<Rightarrow> None
             | p # ps \<Rightarrow> Some (p, s\<lparr>connections := (connections s)(key \<mapsto> c\<lparr>mailbox := ps\<rparr>)\<rparr>))
          else None)"

fun stream_do :: "app_op \<Rightarrow> stream \<Rightarrow> stream" where
  "stream_do (App_read w n) s = snd (poll_read w n s)"
| "stream_do (App_write bs) s = snd (poll_write bs s)"
| "stream_do (App_flush w) s = snd (poll_flush w s)"
| "stream_do (App_shutdown w) s = snd (poll_shutdown w s)"
| "stream_do App_drop s = stream_drop s"

text \<open>
  What can happen next: a datagram of any bytes from any address (after a panic of the endpoint's
  task none comes any more), the server accepts, a handler takes an event or a packet of its
  mailbox, the application of a session uses its stream.
\<close>

datatype 'a socket_event =
    Datagram 'a "byte list"
  | Accept
  | Turn "'a \<times> numeric" event
  | Mail "'a \<times> numeric"
  | Application "'a \<times> numeric" app_op

fun socket_do :: "timeouts \<Rightarrow> bool \<Rightarrow> nat \<Rightarrow> 'a socket_event \<Rightarrow> 'a socket \<Rightarrow> 'a socket option" where
  "socket_do t oc now (Datagram addr bs) s =
     (case endpoint_recv oc bs of
        Ok (Some p) \<Rightarrow> Some (socket_receive t now addr p s)
      | Ok None \<Rightarrow> Some s
      | _ \<Rightarrow> None)"
| "socket_do t oc now Accept s = Some (snd (listener_accept s))"
| "socket_do t oc now (Turn key ev) s =
     (if local_event ev then Some (handler_turn t oc now ev key s) else None)"
| "socket_do t oc now (Mail key) s =
     map_option (\<lambda>(p, s). handler_turn t oc now (Recv p) key s) (take_mail key s)"
| "socket_do t oc now (Application key a) s =
     (case connections s key of
        None \<Rightarrow> None
      | Some c \<Rightarrow> Some (s\<lparr>connections := (connections s)(key \<mapsto> c\<lparr>conn_stream := stream_do a (conn_stream c)\<rparr>)\<rparr>))"

definition socket_step :: "timeouts \<Rightarrow> bool \<Rightarrow> 'a socket \<Rightarrow> 'a socket \<Rightarrow> bool" where
  "socket_step t oc s s' \<longleftrightarrow> (\<exists>now e. socket_do t oc now e s = Some s')"

text \<open>\<open>Socket::next_session\<close>, an atomic \<open>fetch_add\<close>, which wraps; \<open>Socket::connect\<close>.\<close>

definition next_session :: "u32 \<Rightarrow> numeric \<times> u32" where
  "next_session n = (Numeric n, n + 1)"

definition socket_connect :: "timeouts \<Rightarrow> nat \<Rightarrow> u32 \<Rightarrow> (handler \<times> stream) \<times> u32" where
  "socket_connect t now n =
     (case next_session n of (session, n') \<Rightarrow> ((handler_init t True session now, stream_new), n'))"

section \<open>The application\<close>

text \<open>
  \<open>handle\<close> of \<open>lib.rs\<close>, byte by byte of its input: \<open>read_line\<close> fills the line up to a newline and
  fails on bytes that are not UTF-8, which ends the task; a line goes out reversed.
\<close>

record line_handler =
  line :: "byte list"
  reply :: "byte list"
  failed :: bool

definition handle_init :: line_handler where
  "handle_init = \<lparr>line = [], reply = [], failed = False\<rparr>"

definition reverse_line :: "byte list \<Rightarrow> byte list" where
  "reverse_line l = rev (take (length l - 1) l) @ [10]"

definition handle_byte :: "line_handler \<Rightarrow> byte \<Rightarrow> line_handler" where
  "handle_byte h b =
     (if failed h then h
      else if b \<noteq> 10 then h\<lparr>line := line h @ [b]\<rparr>
      else
        let l = line h @ [b]
        in if utf8_valid l then h\<lparr>line := [], reply := reply h @ reverse_line l\<rparr>
           else h\<lparr>failed := True\<rparr>)"

definition handle_bytes :: "byte list \<Rightarrow> line_handler \<Rightarrow> line_handler" where
  "handle_bytes bs h = foldl handle_byte h bs"

section \<open>Lemmas\<close>

lemma handle_bytes_simps [simp]:
  "handle_bytes [] h = h"
  "handle_bytes (b # bs) h = handle_bytes bs (handle_byte h b)"
  "handle_bytes (bs @ cs) h = handle_bytes cs (handle_bytes bs h)"
  by (simp_all add: handle_bytes_def)

lemma handle_bytes_line:
  "10 \<notin> set l \<Longrightarrow> \<not> failed h \<Longrightarrow> handle_bytes l h = h\<lparr>line := line h @ l\<rparr>"
proof (induction l arbitrary: h)
  case (Cons b l)
  then show ?case
    using Cons.IH [of "handle_byte h b"] by (auto simp: handle_byte_def)
qed simp

text \<open>
  A handler against any peer: the bounds that keep its arithmetic from overflowing as long as the
  numerals that reach it are below \<open>2 ^ 31\<close> and payloads below 2000 bytes, as those parsed are.
\<close>

definition handler_ok :: "numeric \<Rightarrow> handler \<Rightarrow> bool" where
  "handler_ok n h \<longleftrightarrow> handler_session h = n \<and> rpos h < 2147485648 \<and> soff h < 2147483648 \<and>
     soff h \<le> slen h \<and> slen h \<le> soff h + 2000 \<and> (\<not> need_ack h \<longrightarrow> soff h = slen h)"

definition mail_ok :: "numeric \<Rightarrow> packet \<Rightarrow> bool" where
  "mail_ok n p \<longleftrightarrow> packet_session p = n \<and>
     (case p of
        Data _ q d \<Rightarrow> numeric_value q < 2147483648 \<and> length (payload_string d) < 2000
      | Ack _ l \<Rightarrow> numeric_value l < 2147483648
      | _ \<Rightarrow> True)"

lemma append_payload_robust:
  assumes "length (payload_string d) < 2000" and "unat skip \<le> length (payload_string d)"
    and "rpos h + (length (payload_string d) - unat skip) < 2147485648"
  shows "\<exists>h' s' eff. append_payload oc d skip h s = Ok (h', s', eff) \<and>
    h' = h\<lparr>receiver_position := receiver_position h'\<rparr> \<and>
    rpos h' = rpos h + (length (payload_string d) - unat skip)"
proof -
  let ?l = "of_nat (length (payload_string d)) :: u32"
  have ul: "unat ?l = length (payload_string d)"
    using assms(1) by (intro unat_of_nat_small) simp
  then have le: "skip \<le> ?l"
    using assms(2) by (simp add: word_le_nat_alt)
  then have sub: "sub_w oc ?l skip = (Ok (?l - skip) :: (io_error, u32) outcome)"
    and uv: "unat (?l - skip) = length (payload_string d) - unat skip"
    using ul by (auto intro: sub_w_Ok simp: unat_sub)
  then have "add_w oc (receiver_position h) (?l - skip) = (Ok (receiver_position h + (?l - skip)) :: (io_error, u32) outcome)"
    and "unat (receiver_position h + (?l - skip)) = rpos h + (length (payload_string d) - unat skip)"
    using assms(3) by (auto simp: add_w_def unat_add_lem')
  then show ?thesis
    by (cases "0 < ?l - skip") (auto simp: append_payload_def payload_write_def sub Let_def)
qed

lemma on_data_robust:
  assumes h: "handler_ok n h" and p: "mail_ok n (Data n pos d)"
  shows "\<exists>h' s' eff. on_data oc now n pos d h s = Ok (Continue, h', s', eff) \<and> handler_ok n h'"
proof -
  let ?h = "h\<lparr>last_recv_timestamp := now\<rparr>"
  define k l where "k = unat (numeric_value pos)" and "l = length (payload_string d)"
  have d: "k < 2147483648" "l < 2000" "handler_session h = n"
    using h p by (auto simp: mail_ok_def handler_ok_def k_def l_def word_less_nat_alt)
  have ul: "unat (of_nat l :: u32) = l"
    using d(2) by (simp add: unat_of_nat_small)
  consider (closed) "closed h \<or> closing h"
    | (eq) "\<not> (closed h \<or> closing h)" "numeric_value pos = receiver_position h"
    | (less) "\<not> (closed h \<or> closing h)" "numeric_value pos < receiver_position h"
    | (more) "\<not> (closed h \<or> closing h)" "receiver_position h < numeric_value pos"
    by (meson not_less_iff_gr_or_eq)
  then show ?thesis
  proof cases
    case closed
    then show ?thesis
      using h d by (auto simp: on_data_def Let_def handler_ok_def)
  next
    case eq
    then obtain h' s' eff where app: "append_payload oc d 0 ?h s = Ok (h', s', eff)"
      "h' = ?h\<lparr>receiver_position := receiver_position h'\<rparr>" "rpos h' = k + l"
      using append_payload_robust [of d 0 ?h oc s] d by (auto simp: k_def l_def)
    have "handler_ok n h'"
      using h d app(3) by (subst app(2)) (simp add: handler_ok_def)
    then show ?thesis
      using eq d(3) app(1) by (simp add: on_data_def)
  next
    case less
    have kr: "k < rpos h"
      using less by (simp add: k_def word_less_nat_alt)
    have add: "add_w oc (numeric_value pos) (of_nat l) = (Ok (numeric_value pos + of_nat l) :: (io_error, u32) outcome)"
      and uadd: "unat (numeric_value pos + of_nat l) = k + l"
      using d(1,2) ul by (auto simp: add_w_def unat_add_lem' k_def)
    show ?thesis
    proof (cases "receiver_position h < numeric_value pos + of_nat l")
      case False
      then show ?thesis
        using less h d(3) add less_imp_neq [OF less(2)]
        by (simp add: on_data_def Let_def l_def handler_ok_def)
    next
      case True
      then have rl: "rpos h < k + l"
        using uadd by (simp add: word_less_nat_alt)
      have sub: "sub_w oc (receiver_position h) (numeric_value pos)
          = (Ok (receiver_position h - numeric_value pos) :: (io_error, u32) outcome)"
        and usub: "unat (receiver_position h - numeric_value pos) = rpos h - k"
        using less by (auto intro: sub_w_Ok simp: unat_sub k_def)
      have fit: "rpos h - k \<le> length (payload_string d)"
        using rl by (simp add: l_def)
      obtain h' s' eff where app:
        "append_payload oc d (receiver_position h - numeric_value pos) ?h s = Ok (h', s', eff)"
        "h' = ?h\<lparr>receiver_position := receiver_position h'\<rparr>" "rpos h' = rpos h + (l - (rpos h - k))"
        using append_payload_robust [of d "receiver_position h - numeric_value pos" ?h oc s] d rl kr usub fit
        by (auto simp: l_def)
      have "handler_ok n h'"
        using h d rl kr app(3) by (subst app(2)) (simp add: handler_ok_def)
      then show ?thesis
        using less d(3) add sub True app(1) less_imp_neq [OF less(2)] by (simp add: on_data_def l_def)
    qed
  next
    case more
    then show ?thesis
      using h d(3) less_imp_neq [OF more(2)] less_not_sym [OF more(2)]
      by (simp add: on_data_def Let_def handler_ok_def eq_commute [of "receiver_position h"])
  qed
qed


lemma on_ack_robust:
  assumes h: "handler_ok n h" and p: "mail_ok n (Ack n l)"
  shows "\<exists>h' s' eff. on_ack t oc now n l h s = Ok (Continue, h', s', eff) \<and> handler_ok n h'"
proof -
  have hs: "handler_session h = n" and l: "unat (numeric_value l) < 2147483648"
    using h p by (auto simp: handler_ok_def mail_ok_def word_less_nat_alt)
  consider "closed h \<or> closing h" | "\<not> closed h" "\<not> closing h" "numeric_value l = sender_length h"
    | "\<not> closed h" "\<not> closing h" "numeric_value l < sender_length h"
    | "\<not> closed h" "\<not> closing h" "sender_length h < numeric_value l"
    by (meson not_less_iff_gr_or_eq)
  then show ?thesis
  proof cases
    case 1
    then show ?thesis
      using h by (auto simp: on_ack_def Let_def hs handler_ok_def)
  next
    case 2
    have sub: "sub_w oc (sender_length h) (sender_offset h)
        = (Ok (sender_length h - sender_offset h) :: (io_error, u32) outcome)"
      using h by (intro sub_w_Ok) (simp add: handler_ok_def word_le_nat_alt)
    show ?thesis
      using 2 h l by (simp add: on_ack_def Let_def hs sub handler_ok_def)
  next
    case 3
    have sub: "sender_offset h < numeric_value l \<Longrightarrow> sub_w oc (numeric_value l) (sender_offset h)
        = (Ok (numeric_value l - sender_offset h) :: (io_error, u32) outcome)"
      by (intro sub_w_Ok) simp
    show ?thesis
      using 3 h l less_imp_neq [OF 3(3)] by (simp add: on_ack_def Let_def hs sub handler_ok_def)
  next
    case 4
    then show ?thesis
      using h less_imp_neq [OF 4(3)] less_not_sym [OF 4(3)]
      by (simp add: on_ack_def Let_def hs handler_ok_def eq_commute [of "sender_length h"])
  qed
qed

lemma length_latin1: "length (latin1 bs) \<le> 2 * length bs"
  by (induction bs) (auto simp: char_utf8_def)

lemma payload_new_length: "payload_new bs = Some d \<Longrightarrow> length (payload_string d) < 1842"
proof -
  assume d: "payload_new bs = Some d"
  then have "bs \<noteq> []"
    by (auto simp: payload_new_def)
  then obtain k where "payload_new bs = Some (Payload (latin1 (take k bs)))" "length (esc (take k bs)) < BUFFER_SIZE"
    using payload_new_Some by metis
  then show ?thesis
    using d length_latin1 [of "take k bs"] length_le_esc [of "take k bs"] by (auto simp: BUFFER_SIZE_eq)
qed

lemma next_packet_robust:
  assumes h: "handler_ok n h"
  shows "\<exists>h' s' eff. next_packet t oc h s = Ok (h', s', eff) \<and> handler_ok n h'"
proof (cases "payload_new (up_buffer (upstream s))")
  case None
  then show ?thesis
    using h by (auto simp: next_packet_def Let_def handler_ok_def split: prod.splits)
next
  case (Some d)
  define l where "l = length (payload_string d)"
  have ul: "unat (of_nat l :: u32) = l" "l < 1842"
    using payload_new_length [OF Some] by (auto simp: l_def intro: unat_of_nat_small)
  show ?thesis
  proof (cases "need_ack h \<or> send_packet h \<noteq> None \<or> closing h")
    case True
    then show ?thesis
      using h Some
      by (cases "need_ack h") (auto simp: next_packet_def Let_def handler_ok_def split: prod.splits)
  next
    case False
    have "add_w oc (sender_length h) (of_nat l) = (Ok (sender_length h + of_nat l) :: (io_error, u32) outcome)"
      and "unat (sender_length h + of_nat l) = slen h + l"
      using False h ul by (auto simp: add_w_def unat_add_lem' handler_ok_def)
    then show ?thesis
      using False h Some ul by (simp add: next_packet_def handler_ok_def l_def)
  qed
qed

lemma select_robust:
  assumes h: "handler_ok n h" and p: "\<And>p. ev = Recv p \<Longrightarrow> mail_ok n p"
  shows "\<exists>fl h' s' eff. select_branch t oc now ev h s = Ok (fl, h', s', eff) \<and> handler_ok n h'"
proof (cases ev)
  case (Recv p)
  have hs: "handler_session h = n"
    using h by (simp add: handler_ok_def)
  show ?thesis
  proof (cases p)
    case (Data m pos d)
    then show ?thesis
      using on_data_robust [OF h, of pos d oc now s] assms(2) [OF Recv] Recv
      by (auto simp: mail_ok_def)
  next
    case (Ack m l)
    then show ?thesis
      using on_ack_robust [OF h, of l t oc now s] assms(2) [OF Recv] Recv by (auto simp: mail_ok_def)
  next
    case (Connect m)
    then show ?thesis
      using assms(2) [OF Recv] Recv hs h
      by (cases "start_connection h") (auto simp: on_connect_def mail_ok_def handler_ok_def)
  next
    case (Close m)
    then show ?thesis
      using assms(2) [OF Recv] Recv hs h
      by (auto simp: on_close_def Let_def mail_ok_def handler_ok_def split: prod.splits)
  qed
next
  case Timed_out
  then show ?thesis
    using h by (auto simp: on_timeout_def Let_def handler_ok_def split: prod.splits option.splits)
qed (use h in \<open>auto simp: handler_ok_def\<close>)

lemma iteration_robust:
  assumes h: "handler_ok n h" and p: "\<And>p. ev = Recv p \<Longrightarrow> mail_ok n p"
  shows "\<exists>fl h' s' eff. lrcp_iteration t oc now ev h s = Ok (fl, h', s', eff) \<and> handler_ok n h'"
proof -
  obtain fl h1 s1 eff where sel: "select_branch t oc now ev h s = Ok (fl, h1, s1, eff)" "handler_ok n h1"
    using select_robust [OF h p] by blast
  obtain h2 s2 eff2 where "next_packet t oc h1 s1 = Ok (h2, s2, eff2)" "handler_ok n h2"
    using next_packet_robust [OF sel(2)] by blast
  with sel show ?thesis
    by (cases fl) (auto simp: lrcp_iteration_def)
qed

text \<open>What the endpoint accepts is within those bounds, in both modes.\<close>

lemma numeric_parse_loop_bound:
  "numeric_parse_loop oc r bs = Ok (n, rest) \<Longrightarrow> r < 2147483648 \<Longrightarrow>
     numeric_value n < 2147483648 \<and> length rest \<le> length bs"
proof (induction bs arbitrary: r)
  case (Cons v b)
  show ?case
  proof (cases "is_ascii_digit v")
    case True
    then obtain r' where "r' < 2147483648" "numeric_parse_loop oc r' b = Ok (n, rest)"
      using Cons.prems(1) by (auto simp: not_le split: if_splits)
    then show ?thesis
      using Cons.IH by fastforce
  next
    case False
    then show ?thesis
      using Cons.prems by (auto split: if_splits)
  qed
qed simp

lemma numeric_parse_bound:
  "numeric_parse oc bs = Ok (n, rest) \<Longrightarrow> numeric_value n < 2147483648 \<and> length rest \<le> length bs"
  unfolding numeric_parse_def by (rule numeric_parse_loop_bound) auto

lemma payload_parse_bound: "payload_parse bs = Ok (d, rest) \<Longrightarrow> length (payload_string d) \<le> 2 * length bs"
proof -
  assume "payload_parse bs = Ok (d, rest)"
  then obtain s where "bs = esc s @ rest" "d = Payload (latin1 s)"
    unfolding payload_parse_iff by blast
  then show ?thesis
    using length_latin1 [of s] length_le_esc [of s] by auto
qed

lemma packet_try_from_bound:
  assumes "packet_try_from oc bs = Ok p"
  shows "mail_ok (packet_session p) p"
proof -
  have "length bs < 1000"
    using assms by (auto simp: packet_try_from_def split: if_splits)
  then show ?thesis
    using assms
    by (auto simp: packet_try_from_def slice_from_def mail_ok_def split: if_splits
        dest!: numeric_parse_bound payload_parse_bound)
qed


text \<open>The invariant of the listener: the streams that wait for \<open>accept\<close> are those of different open
  sessions; every connection's handler and mailbox are those of its own session.\<close>

definition connection_ok :: "numeric \<Rightarrow> connection \<Rightarrow> bool" where
  "connection_ok n c \<longleftrightarrow> handler_ok n (conn_handler c) \<and> list_all (mail_ok n) (mailbox c)"

definition socket_inv :: "'a socket \<Rightarrow> bool" where
  "socket_inv s \<longleftrightarrow>
     (\<forall>k c. connections s k = Some c \<longrightarrow> connection_ok (snd k) c) \<and>
     distinct (accept_queue s) \<and> set (accept_queue s) \<subseteq> dom (connections s)"

lemma socket_inv_connection:
  "socket_inv s \<Longrightarrow> connections s key = Some c \<Longrightarrow> connection_ok (snd key) c"
  by (cases key) (auto simp: socket_inv_def)

lemma connection_new_ok: "connection_ok n (connection_new t n now)"
  by (simp add: connection_ok_def connection_new_def handler_ok_def handler_init_def)

lemma socket_inv_update:
  "socket_inv s \<Longrightarrow> connections s key = Some c \<Longrightarrow> connection_ok (snd key) c' \<Longrightarrow>
     socket_inv (s\<lparr>connections := (connections s)(key \<mapsto> c')\<rparr>)"
  by (auto simp: socket_inv_def)

lemma ensure_connection_inv:
  "socket_inv s \<Longrightarrow> socket_inv (ensure_connection t now key s) \<and>
     connections (ensure_connection t now key s) key \<noteq> None"
  by (auto simp: ensure_connection_def socket_inv_def connection_new_ok split: option.splits)

lemma socket_receive_inv:
  assumes "socket_inv s" "mail_ok (packet_session p) p"
  shows "socket_inv (socket_receive t now addr p s)"
proof -
  let ?key = "(addr, packet_session p)"
  let ?s = "ensure_connection t now ?key s"
  obtain c where c: "socket_inv ?s" "connections ?s ?key = Some c"
    using ensure_connection_inv [OF assms(1)] by fastforce
  then have "connection_ok (packet_session p) c"
    by (auto simp: socket_inv_def)
  then have "connection_ok (packet_session p) (c\<lparr>mailbox := mailbox c @ [p]\<rparr>)"
    using assms(2) by (simp add: connection_ok_def)
  then show ?thesis
    using c socket_inv_update [OF c] by (simp add: socket_receive_def Let_def)
qed

lemma handler_turn_inv:
  assumes inv: "socket_inv s" and p: "\<And>p. ev = Recv p \<Longrightarrow> mail_ok (snd key) p"
  shows "socket_inv (handler_turn t oc now ev key s)"
proof (cases "connections s key")
  case (Some c)
  then have ok: "handler_ok (snd key) (conn_handler c)" "list_all (mail_ok (snd key)) (mailbox c)"
    using socket_inv_connection [OF inv] by (auto simp: connection_ok_def)
  obtain fl h st' eff where it: "lrcp_iteration t oc now ev (conn_handler c) (conn_stream c) = Ok (fl, h, st', eff)"
    "handler_ok (snd key) h"
    using iteration_robust [OF ok(1) p] by blast
  then have "connection_ok (snd key) (c\<lparr>conn_handler := h, conn_stream := st', alive := (fl = Continue)\<rparr>)"
    using ok by (simp add: connection_ok_def)
  then show ?thesis
    using Some it(1) inv by (auto simp: handler_turn_def socket_inv_def)
qed (use inv in \<open>simp add: handler_turn_def\<close>)

lemma take_mail_inv:
  assumes "socket_inv s" "take_mail key s = Some (p, s')"
  shows "socket_inv s' \<and> mail_ok (snd key) p"
proof -
  obtain c ps where c: "connections s key = Some c" "mailbox c = p # ps"
    and s': "s' = s\<lparr>connections := (connections s)(key \<mapsto> c\<lparr>mailbox := ps\<rparr>)\<rparr>"
    using assms(2) by (auto simp: take_mail_def split: option.splits if_splits list.splits)
  have "connection_ok (snd key) c"
    using socket_inv_connection [OF assms(1) c(1)] .
  then have "connection_ok (snd key) (c\<lparr>mailbox := ps\<rparr>)" "mail_ok (snd key) p"
    using c(2) by (auto simp: connection_ok_def)
  then show ?thesis
    unfolding s' using socket_inv_update [OF assms(1) c(1)] by blast
qed

lemma socket_do_inv:
  assumes "socket_do t oc now e s = Some s'" "socket_inv s"
  shows "socket_inv s'"
proof (cases e)
  case (Datagram addr bs)
  then show ?thesis
    using assms socket_receive_inv [OF assms(2) packet_try_from_bound]
    by (auto simp: endpoint_recv_def split: outcome.splits)
next
  case Accept
  then show ?thesis
    using assms by (cases "accept_queue s") (auto simp: listener_accept_def socket_inv_def)
next
  case (Turn key ev)
  then show ?thesis
    using assms handler_turn_inv [of s ev key t oc now] by (cases ev) (simp_all split: if_splits)
next
  case (Mail key)
  then obtain p s1 where m: "take_mail key s = Some (p, s1)" "s' = handler_turn t oc now (Recv p) key s1"
    using assms(1) by auto
  then show ?thesis
    using take_mail_inv [OF assms(2) m(1)] handler_turn_inv [of s1 "Recv p" key t oc now] by auto
next
  case (Application key a)
  then obtain c where c: "connections s key = Some c"
    "s' = s\<lparr>connections := (connections s)(key \<mapsto> c\<lparr>conn_stream := stream_do a (conn_stream c)\<rparr>)\<rparr>"
    using assms(1) by (auto split: option.splits)
  have "connection_ok (snd key) c"
    using socket_inv_connection [OF assms(2) c(1)] .
  then show ?thesis
    unfolding c(2) by (intro socket_inv_update [OF assms(2) c(1)]) (simp add: connection_ok_def)
qed

interpretation lrcp_socket: invariant_system "\<lambda>s. s = socket_new" "socket_step t oc" socket_inv for t oc
proof unfold_locales
  show "socket_inv s" if "s = socket_new" for s :: "'a socket"
    using that by (simp add: socket_new_def socket_inv_def)
  show "socket_inv s'" if "socket_step t oc s s'" "socket_inv s" for s s' :: "'a socket"
    using that by (auto simp: socket_step_def intro: socket_do_inv)
qed

fun socket_run :: "timeouts \<Rightarrow> bool \<Rightarrow> (nat \<times> 'a socket_event) list \<Rightarrow> 'a socket \<Rightarrow> 'a socket option" where
  "socket_run t oc [] s = Some s"
| "socket_run t oc ((now, e) # es) s =
     (case socket_do t oc now e s of Some s' \<Rightarrow> socket_run t oc es s' | None \<Rightarrow> None)"

lemma socket_run_steps: "socket_run t oc es s = Some s' \<Longrightarrow> (socket_step t oc)\<^sup>*\<^sup>* s s'"
proof (induction es arbitrary: s)
  case (Cons e es)
  then obtain s1 where "socket_do t oc (fst e) (snd e) s = Some s1" "(socket_step t oc)\<^sup>*\<^sup>* s1 s'"
    by (cases e) (auto split: option.splits)
  then show ?case
    by (meson converse_rtranclp_into_rtranclp socket_step_def)
qed simp

lemma socket_run_inv: "socket_run t oc es socket_new = Some s \<Longrightarrow> socket_inv s"
  by (rule lrcp_socket.reach_inv [OF reach_steps [OF socket_run_steps reach_init]]) auto


text \<open>Once a handler has returned, its connection stays as it is.\<close>

definition dead :: "'a \<times> numeric \<Rightarrow> packet list \<Rightarrow> 'a socket \<Rightarrow> bool" where
  "dead key ps s \<longleftrightarrow> (\<exists>c. connections s key = Some c \<and> \<not> alive c \<and> mailbox c = ps)"

lemma dead_ensure: "dead key ps s \<Longrightarrow> dead key ps (ensure_connection t now k s)"
  by (auto simp: dead_def ensure_connection_def split: option.splits)

lemma dead_receive: "dead key ps s \<Longrightarrow> dead key ps (socket_receive t now addr p s)"
  using dead_ensure [of key ps s t now "(addr, packet_session p)"]
  by (auto simp: dead_def socket_receive_def Let_def split: option.splits)

lemma dead_turn: "dead key ps s \<Longrightarrow> dead key ps (handler_turn t oc now ev k s)"
  by (auto simp: dead_def handler_turn_def split: option.splits outcome.splits)

lemma dead_do:
  assumes res: "socket_do t oc now e s = Some s'" and dead: "dead key ps s"
  shows "dead key ps s'"
proof (cases e)
  case (Datagram addr bs)
  then show ?thesis
    using res dead dead_receive [OF dead] by (auto split: outcome.splits option.splits)
next
  case (Mail k)
  then obtain p s1 where m: "take_mail k s = Some (p, s1)" "s' = handler_turn t oc now (Recv p) k s1"
    using res by auto
  have "dead key ps s1"
    using m(1) dead by (auto simp: take_mail_def dead_def split: option.splits if_splits list.splits)
  then show ?thesis
    using m(2) dead_turn by blast
next
  case (Turn k ev)
  then show ?thesis
    using res dead_turn [OF dead, of t oc now ev k] by (simp split: if_splits)
next
  case (Application k a)
  then show ?thesis
    using res dead by (auto simp: dead_def split: option.splits)
next
  case Accept
  then show ?thesis
    using res dead by (auto simp: dead_def listener_accept_def split: list.splits)
qed

lemma dead_run: "socket_run t oc es s = Some s' \<Longrightarrow> dead key ps s \<Longrightarrow> dead key ps s'"
proof (induction es arbitrary: s)
  case (Cons e es)
  then show ?case
    by (cases e) (auto split: option.splits dest: dead_do)
qed simp

lemma handle_line_bytes:
  "10 \<notin> set l \<Longrightarrow> utf8_valid (l @ [10]) \<Longrightarrow> \<not> failed h \<Longrightarrow> line h = [] \<Longrightarrow>
     handle_bytes (l @ [10]) h = h\<lparr>reply := reply h @ rev l @ [10]\<rparr>"
  by (cases h) (simp add: handle_bytes_line handle_byte_def reverse_line_def Let_def)

lemma handle_lines:
  "\<forall>l \<in> set ls. 10 \<notin> set l \<and> utf8_valid (l @ [10]) \<Longrightarrow> \<not> failed h \<Longrightarrow> line h = [] \<Longrightarrow>
     handle_bytes (concat (map (\<lambda>l. l @ [10]) ls)) h
     = h\<lparr>reply := reply h @ concat (map (\<lambda>l. rev l @ [10]) ls)\<rparr>"
proof (induction ls arbitrary: h)
  case (Cons l ls)
  have "handle_bytes (concat (map (\<lambda>l. l @ [10]) (l # ls))) h =
      handle_bytes (concat (map (\<lambda>l. l @ [10]) ls)) (handle_bytes (l @ [10]) h)"
    by simp
  also have "handle_bytes (l @ [10]) h = h\<lparr>reply := reply h @ rev l @ [10]\<rparr>"
    using Cons.prems by (intro handle_line_bytes) auto
  finally show ?case
    using Cons.prems Cons.IH [of "h\<lparr>reply := reply h @ rev l @ [10]\<rparr>"] by simp
qed simp

lemma handle_chunks: "foldl (\<lambda>h c. handle_bytes c h) h chunks = handle_bytes (concat chunks) h"
  by (induction chunks arbitrary: h) auto

definition demo_times :: timeouts where
  "demo_times = \<lparr>retrasmission_timeout = 500, session_expire_timeout = 60000\<rparr>"

lemma demo_datagrams:
  "endpoint_recv oc (ascii ''/connect/7/'') = Ok (Some (Connect (Numeric 7)))"
  "endpoint_recv oc (ascii ''/close/7/'') = Ok (Some (Close (Numeric 7)))"
  "endpoint_recv oc (ascii ''/data/7/0/hi/'') = Ok (Some (Data (Numeric 7) (Numeric 0) (Payload [104, 105])))"
  by (simp_all add: endpoint_recv_def packet_try_from_def packet_constants numeric_parse_def is_ascii_digit_def
      mul_w_def add_w_def suffix_to_prefix slice_from_def payload_parse_def char_utf8_def)

lemmas socket_simps = socket_new_def socket_receive_def ensure_connection_def connection_new_def
  take_mail_def handler_turn_def Let_def

lemmas session_simps = lrcp_iteration_def next_packet_def handler_init_def stream_new_def on_data_def
  on_connect_def on_close_def append_payload_def payload_write_def send_ack_def add_w_def sub_w_def
  payload_new_def shut_upstream_def

section \<open>Properties\<close>

text \<open>C10: Whatever datagrams arrive, from whatever peers and in any order, and whatever the applications
  do, no turn of a session's handler panics: not on a packet of its mailbox, and not on any other event of
  its loop, which are a timeout, an expiry of the session, a packet sent, and what the application does.
  The session assertion holds and no arithmetic overflows, in both build modes.\<close>

theorem lrcp_server_robust:
  assumes "socket_run t oc es socket_new = Some s"
    and "connections s key = Some c"
    and "local_event ev \<or> (\<exists>p \<in> set (mailbox c). ev = Recv p)"
  shows "\<exists>fl h st' eff. lrcp_iteration t oc now ev (conn_handler c) (conn_stream c) = Ok (fl, h, st', eff)"
proof -
  have ok: "connection_ok (snd key) c"
    by (rule socket_inv_connection [OF socket_run_inv [OF assms(1)] assms(2)])
  have "mail_ok (snd key) p" if "ev = Recv p" for p
    using assms(3) ok that by (auto simp: connection_ok_def list_all_iff)
  then show ?thesis
    using iteration_robust [of "snd key" "conn_handler c" ev t oc now "conn_stream c"] ok
    by (auto simp: connection_ok_def)
qed

lemma lrcp_server_robust_witness:
  "\<exists>s c fl h st' eff fl2 h2 st2 eff2.
     socket_run demo_times True [(0, Datagram (5 :: nat) (ascii ''/connect/7/''))] socket_new = Some s \<and>
     connections s (5, Numeric 7) = Some c \<and>
     lrcp_iteration demo_times True 1 (Recv (Connect (Numeric 7))) (conn_handler c) (conn_stream c)
       = Ok (fl, h, st', eff) \<and>
     lrcp_iteration demo_times True 600 Timed_out (conn_handler c) (conn_stream c) = Ok (fl2, h2, st2, eff2)"
proof -
  obtain s c where s: "socket_run demo_times True [(0, Datagram (5 :: nat) (ascii ''/connect/7/''))] socket_new = Some s"
    "connections s (5, Numeric 7) = Some c" "mailbox c = [Connect (Numeric 7)]"
    by (simp add: demo_datagrams socket_simps)
  then show ?thesis
    using lrcp_server_robust [OF s(1,2), of "Recv (Connect (Numeric 7))" 1]
      lrcp_server_robust [OF s(1,2), of Timed_out 600] by auto
qed

text \<open>A data packet for a session that is not open opens it and is acknowledged; the protocol
  asks for a close message. Here the first datagram a server sees is data for session 7.\<close>

theorem data_opens_session:
  "map_option (\<lambda>s. (outgoing s, accept_queue s))
     (socket_run t oc [(0, Datagram addr (ascii ''/data/7/0/hi/'')), (0, Mail (addr, Numeric 7))] socket_new)
   = Some ([(addr, Ack (Numeric 7) (Numeric 2))], [(addr, Numeric 7)])"
  by (simp add: demo_datagrams socket_simps session_simps)

text \<open>A session whose handler has returned stays closed: nothing that arrives later, connect
  messages included, reaches a handler or is answered on its behalf.\<close>

theorem closed_session_stays:
  assumes "connections s key = Some c" and "\<not> alive c" and "socket_run t oc es s = Some s'"
  shows "\<exists>c'. connections s' key = Some c' \<and> \<not> alive c' \<and> mailbox c' = mailbox c"
  using dead_run [OF assms(3), of key "mailbox c"] assms(1,2) by (auto simp: dead_def)

lemma closed_session_stays_witness:
  "\<exists>s c s' c'. connections s (5 :: nat, Numeric 7) = Some c \<and> \<not> alive c \<and>
     socket_run demo_times True [(2, Datagram 5 (ascii ''/connect/7/''))] s = Some s' \<and>
     connections s' (5, Numeric 7) = Some c' \<and> \<not> alive c' \<and> mailbox c' = mailbox c"
proof -
  obtain s c s' where s: "connections s (5 :: nat, Numeric 7) = Some c" "\<not> alive c"
    "socket_run demo_times True [(2, Datagram 5 (ascii ''/connect/7/''))] s = Some s'"
  proof (rule that)
    let ?c = "(connection_new demo_times (Numeric 7) 0)\<lparr>alive := False\<rparr>"
    let ?s = "socket_new\<lparr>connections := [(5 :: nat, Numeric 7) \<mapsto> ?c]\<rparr>"
    show "connections ?s (5, Numeric 7) = Some ?c" "\<not> alive ?c"
      "socket_run demo_times True [(2, Datagram 5 (ascii ''/connect/7/''))] ?s = Some ?s"
      by (simp_all add: demo_datagrams socket_simps)
  qed
  show ?thesis
    using closed_session_stays [OF s] s by blast
qed

text \<open>However its input is cut into pieces, the application answers every complete line with
  its reversal, in order, and keeps the incomplete rest.\<close>

theorem line_reversal:
  assumes "\<forall>l \<in> set ls. 10 \<notin> set l \<and> utf8_valid (l @ [10])" and "10 \<notin> set rest"
    and "concat chunks = concat (map (\<lambda>l. l @ [10]) ls) @ rest"
  shows "foldl (\<lambda>h c. handle_bytes c h) handle_init chunks
         = \<lparr>line = rest, reply = concat (map (\<lambda>l. rev l @ [10]) ls), failed = False\<rparr>"
  using handle_lines [OF assms(1), of handle_init] handle_bytes_line [OF assms(2)]
  by (simp add: handle_chunks assms(3) handle_init_def)

lemma line_reversal_witness:
  "foldl (\<lambda>h c. handle_bytes c h) handle_init [[104], [105, 10, 98], [97]]
   = \<lparr>line = [98, 97], reply = concat (map (\<lambda>l. rev l @ [10]) [[104, 105]]), failed = False\<rparr>"
  by (rule line_reversal) (auto intro!: utf8_valid_ascii simp: is_ascii_def)

end
