(* ===== verification/LrcpService.thy ===== *)
theory LrcpService
  imports LrcpDelivery LrcpSocket
begin

text \<open>
  The line reversal service from end to end: the network of \<open>LrcpNetwork\<close> with \<open>handle\<close> of
  \<open>rust/p07-line-reversal/src/lib.rs\<close> as the application of the server. What the client reads is the beginning of
  the reversals of its lines. The theory also shows that nobody tells a reader of the end of its session.
\<close>

section \<open>The end of a session\<close>

text \<open>No branch of the handler closes the downstream part.\<close>

abbreviation down_open :: "stream \<Rightarrow> bool" where
  "down_open s \<equiv> \<not> down_closed (downstream s)"

lemma append_payload_open: "append_payload oc data skip h s = Ok (h', s', eff) \<Longrightarrow> down_open s \<Longrightarrow> down_open s'"
  by (auto simp: append_payload_def Let_def bind_outcome_Ok_iff split: if_splits prod.splits)

lemma on_data_open: "on_data oc now n pos d h s = Ok (fl, h', s', eff) \<Longrightarrow> down_open s \<Longrightarrow> down_open s'"
  by (auto simp: on_data_def Let_def bind_outcome_Ok_iff split: if_splits dest: append_payload_open)

lemma drain_upstream_open: "down_closed (downstream (drain_upstream k s)) = down_closed (downstream s)"
  by (simp add: drain_upstream_def Let_def)

lemma shut_upstream_open: "shut_upstream s = (s', eff) \<Longrightarrow> down_open s' = down_open s"
  by (auto simp: shut_upstream_def Let_def)

lemma on_ack_open: "on_ack t oc now n l h s = Ok (fl, h', s', eff) \<Longrightarrow> down_open s \<Longrightarrow> down_open s'"
  by (auto simp: on_ack_def Let_def bind_outcome_Ok_iff drain_upstream_open split: if_splits)

lemma select_branch_open:
  assumes "select_branch t oc now ev h s = Ok (fl, h', s', eff)" and "down_open s"
  shows "down_open s'"
proof (cases "(t, oc, now, ev, h, s)" rule: select_branch.cases)
  case (5 _ _ _ session pos data)
  with assms on_data_open show ?thesis
    by auto
next
  case (6 _ _ _ session lengt)
  with assms on_ack_open show ?thesis
    by auto
qed (use assms in \<open>auto simp: on_close_def on_connect_def on_timeout_def Let_def shut_upstream_open split: if_splits prod.splits option.splits\<close>)

lemma next_packet_open: "next_packet t oc h s = Ok (h', s', eff) \<Longrightarrow> down_open s \<Longrightarrow> down_open s'"
  by (auto simp: next_packet_def Let_def bind_outcome_Ok_iff shut_upstream_open split: if_splits prod.splits option.splits)

lemma lrcp_iteration_open:
  assumes "lrcp_iteration t oc now ev h s = Ok (fl, h', s', eff)" and "down_open s"
  shows "down_open s'"
proof -
  obtain fl1 h1 s1 eff1 where sel: "select_branch t oc now ev h s = Ok (fl1, h1, s1, eff1)"
    and rest: "(case fl1 of Break \<Rightarrow> Ok (Break, h1, s1, eff1)
      | Continue \<Rightarrow> bind_outcome (next_packet t oc h1 s1) (\<lambda>(h, s, eff'). Ok (Continue, h, s, eff1 @ eff'))) = Ok (fl, h', s', eff)"
    using assms(1) by (auto simp: lrcp_iteration_def bind_outcome_Ok_iff)
  have "down_open s1"
    by (rule select_branch_open [OF sel assms(2)])
  with rest show ?thesis
    by (cases fl1) (auto simp: bind_outcome_Ok_iff dest: next_packet_open)
qed

lemma iterate_open: "iterate t oc now ev e = (e', ps) \<Longrightarrow> down_open (st e) \<Longrightarrow> down_open (st e')"
  by (auto simp: iterate_def split: outcome.splits dest: lrcp_iteration_open)

lemma app_act_open: "down_closed (downstream (st (app_act a e))) = down_closed (downstream (st e))"
  by (cases a) (auto simp: poll_read_def poll_write_def poll_flush_def poll_shutdown_def stream_drop_def Let_def)

lemma endp_do_open: "endp_do t oc inc a e = Some (e', ps) \<Longrightarrow> down_open (st e) \<Longrightarrow> down_open (st e')"
  by (cases a) (auto simp: app_act_open split: if_splits option.splits dest: iterate_open)

definition both_open :: "lnet \<Rightarrow> bool" where
  "both_open c \<longleftrightarrow> down_open (st (client c)) \<and> down_open (st (server c))"

lemma lnet_do_open: "lnet_do t oc a c = Some c' \<Longrightarrow> both_open c \<Longrightarrow> both_open c'"
  by (cases a) (auto simp: both_open_def dest: endp_do_open)

interpretation open_ends: invariant_system "\<lambda>c. c = lnet_init t n now" "lnet_step t oc" both_open
  for t n now oc
  by unfold_locales (auto simp: both_open_def lnet_init_def endp_init_def stream_new_def lnet_step_def dest: lnet_do_open)

text \<open>So a reader whose session has ended, and who has read all of it, waits for ever.\<close>

lemma endp_do_stopped:
  assumes "endp_do t oc inc a e = Some (e', ps)" and "\<not> running e" and "down_buffer (downstream (st e)) = []"
  shows "\<not> running e' \<and> down_buffer (downstream (st e')) = []"
proof (cases a)
  case (App b)
  with assms show ?thesis
    by (cases b) (auto simp: poll_read_def poll_write_def poll_flush_def poll_shutdown_def stream_drop_def Let_def split: if_splits)
qed (use assms in auto)

lemma lnet_run_stopped:
  "lnet_run t oc acts c = Some c' \<Longrightarrow> \<not> running (server c) \<Longrightarrow> down_buffer (downstream (st (server c))) = [] \<Longrightarrow>
     \<not> running (server c') \<and> down_buffer (downstream (st (server c'))) = []"
proof (induction acts arbitrary: c)
  case (Cons a acts)
  then obtain c1 where c1: "lnet_do t oc a c = Some c1" "lnet_run t oc acts c1 = Some c'"
    by (auto split: option.splits)
  have "\<not> running (server c1) \<and> down_buffer (downstream (st (server c1))) = []"
    using c1(1) Cons.prems(2,3) by (cases a) (auto dest: endp_do_stopped)
  with Cons.IH [OF c1(2)] show ?case
    by blast
qed simp

theorem reader_waits_forever:
  assumes "lnet_run t oc acts (lnet_init t n now) = Some c" and "\<not> running (server c)"
    and "down_buffer (downstream (st (server c))) = []" and "lnet_run t oc later c = Some c'"
  shows "\<exists>s. poll_read w k (st (server c')) = (Pending, s)"
proof -
  have "both_open c'"
    by (rule open_ends.steps_inv [OF _ open_ends.init_inv [OF refl]])
      (use lnet_run_steps [OF assms(1)] lnet_run_steps [OF assms(4)] in \<open>rule rtranclp_trans\<close>)
  with lnet_run_stopped [OF assms(4,2,3)] show ?thesis
    by (simp add: both_open_def poll_read_def Let_def)
qed

section \<open>The service\<close>

text \<open>The network with the task of the server's application: it reads, it passes the next bytes of its replies to
  the stream, it flushes, and it drops the stream when a line is not UTF-8. \<open>handle\<close> does these in a
  fixed order; here they may come in any.\<close>

record service =
  net :: lnet
  app :: line_handler

datatype service_act = Svc_client endp_act | Svc_handler endp_act | Svc_read nat nat | Svc_write nat | Svc_flush nat | Svc_end

definition on_net :: "timeouts \<Rightarrow> bool \<Rightarrow> net_act \<Rightarrow> service \<Rightarrow> service option" where
  "on_net t oc a s = map_option (\<lambda>c. s\<lparr>net := c\<rparr>) (lnet_do t oc a (net s))"

fun service_do :: "timeouts \<Rightarrow> bool \<Rightarrow> service_act \<Rightarrow> service \<Rightarrow> service option" where
  "service_do t oc (Svc_client a) s = on_net t oc (At_client a) s"
| "service_do t oc (Svc_handler (App _)) s = None"
| "service_do t oc (Svc_handler a) s = on_net t oc (At_server a) s"
| "service_do t oc (Svc_read w k) s =
     (let e = app_act (App_read w k) (server (net s))
      in Some (s\<lparr>net := (net s)\<lparr>server := e\<rparr>, app := handle_bytes (drop (length (got (server (net s)))) (got e)) (app s)\<rparr>))"
| "service_do t oc (Svc_write k) s =
     on_net t oc (At_server (App (App_write (take k (drop (length (wrote (server (net s)))) (reply (app s))))))) s"
| "service_do t oc (Svc_flush w) s = on_net t oc (At_server (App (App_flush w))) s"
| "service_do t oc Svc_end s = (if failed (app s) then on_net t oc (At_server (App App_drop)) s else None)"

fun service_run :: "timeouts \<Rightarrow> bool \<Rightarrow> service_act list \<Rightarrow> service \<Rightarrow> service option" where
  "service_run t oc [] s = Some s"
| "service_run t oc (a # as) s =
     (case service_do t oc a s of Some s' \<Rightarrow> service_run t oc as s' | None \<Rightarrow> None)"

definition service_init :: "timeouts \<Rightarrow> numeric \<Rightarrow> nat \<Rightarrow> service" where
  "service_init t session now = \<lparr>net = lnet_init t session now, app = handle_init\<rparr>"

section \<open>The replies\<close>

lemma handle_byte_reply: "prefix (reply h) (reply (handle_byte h b))"
  by (simp add: handle_byte_def Let_def)

lemma handle_bytes_reply: "prefix (reply h) (reply (handle_bytes bs h))"
proof (induction bs arbitrary: h)
  case (Cons b bs)
  with handle_byte_reply [of h b] show ?case
    by (auto intro: prefix_order.trans)
qed simp

text \<open>The state of the task: its handler has seen what the stream gave it, and the stream has got a
  beginning of its replies.\<close>

definition service_inv :: "numeric \<Rightarrow> service \<Rightarrow> bool" where
  "service_inv n s \<longleftrightarrow> lnet_inv n (net s) \<and> app s = handle_bytes (got (server (net s))) handle_init \<and>
     prefix (wrote (server (net s))) (reply (app s))"

lemma on_net_inv:
  assumes "on_net t oc a s = Some s'" and "service_inv n s" and "got (server (net s')) = got (server (net s))"
    and "prefix (wrote (server (net s'))) (reply (app s))"
  shows "service_inv n s'"
  using assms by (auto simp: on_net_def service_inv_def dest: lnet_do_inv)

lemma on_net_same:
  assumes "on_net t oc a s = Some s'" and "service_inv n s"
    and "wrote (server (net s')) = wrote (server (net s)) \<and> got (server (net s')) = got (server (net s))"
  shows "service_inv n s'"
proof (rule on_net_inv [OF assms(1,2)])
  show "prefix (wrote (server (net s'))) (reply (app s))"
    using assms(2,3) unfolding service_inv_def by metis
qed (use assms(3) in blast)

lemma app_read_io: "\<exists>bs. got (app_act (App_read w k) e) = got e @ bs \<and> wrote (app_act (App_read w k) e) = wrote e"
  by (cases "poll_read w k (st e)") simp

lemma handler_io:
  assumes "lnet_do t oc (At_server a) c = Some c'" and "\<And>b. a \<noteq> App b"
  shows "wrote (server c') = wrote (server c) \<and> got (server c') = got (server c)"
  using assms by (cases a) (auto split: if_splits option.splits dest: iterate_io)

lemma poll_write_takes: "\<exists>m. (case fst (poll_write bs s) of Ready n \<Rightarrow> take n bs | Pending \<Rightarrow> []) = take m bs"
  by (auto simp: poll_write_def Let_def) (metis take_all_iff order_refl take0)

lemma prefix_next: "prefix w r \<Longrightarrow> prefix (w @ take m (take k (drop (length w) r))) r"
  by (auto simp: prefix_def) (metis append_take_drop_id take_take)

lemma service_do_inv:
  assumes step: "service_do t oc a s = Some s'" and inv: "service_inv n s"
  shows "service_inv n s'"
proof (cases a)
  case (Svc_client b)
  then have do: "on_net t oc (At_client b) s = Some s'"
    using step by simp
  then have "server (net s') = server (net s)"
    by (auto simp: on_net_def)
  with on_net_same [OF do inv] show ?thesis
    by simp
next
  case (Svc_handler b)
  then have b: "b \<noteq> App c" for c
    using step by (cases b) auto
  then have do: "on_net t oc (At_server b) s = Some s'"
    using step Svc_handler by (cases b) auto
  then have "lnet_do t oc (At_server b) (net s) = Some (net s')"
    by (auto simp: on_net_def)
  from handler_io [OF this] b have "wrote (server (net s')) = wrote (server (net s)) \<and> got (server (net s')) = got (server (net s))"
    by blast
  with on_net_same [OF do inv] show ?thesis
    by blast
next
  case (Svc_read w k)
  let ?e = "app_act (App_read w k) (server (net s))"
  have s': "s' = s\<lparr>net := (net s)\<lparr>server := ?e\<rparr>, app := handle_bytes (drop (length (got (server (net s)))) (got ?e)) (app s)\<rparr>"
    using step Svc_read by (simp add: Let_def)
  obtain bs where e: "got ?e = got (server (net s)) @ bs" "wrote ?e = wrote (server (net s))"
    using app_read_io by blast
  have "lnet_do t oc (At_server (App (App_read w k))) (net s) = Some ((net s)\<lparr>server := ?e\<rparr>)"
    by simp
  from lnet_do_inv [OF this] inv have "lnet_inv n ((net s)\<lparr>server := ?e\<rparr>)"
    by (simp add: service_inv_def del: app_act.simps)
  moreover have "prefix (wrote (server (net s))) (reply (handle_bytes bs (app s)))"
    using inv handle_bytes_reply [of "app s" bs] by (auto simp: service_inv_def intro: prefix_order.trans)
  ultimately show ?thesis
    using inv by (simp add: service_inv_def s' e del: app_act.simps)
next
  case (Svc_write k)
  let ?w = "wrote (server (net s))" and ?bs = "take k (drop (length (wrote (server (net s)))) (reply (app s)))"
  have do: "on_net t oc (At_server (App (App_write ?bs))) s = Some s'"
    using step Svc_write by simp
  then have "server (net s') = app_act (App_write ?bs) (server (net s))"
    by (auto simp: on_net_def split: if_splits)
  then obtain m where "wrote (server (net s')) = ?w @ take m ?bs" "got (server (net s')) = got (server (net s))"
    using poll_write_takes [of ?bs "st (server (net s))"] by (auto simp: Let_def split: prod.splits)
  moreover have "prefix ?w (reply (app s))"
    using inv unfolding service_inv_def by blast
  ultimately show ?thesis
    using prefix_next by (intro on_net_inv [OF do inv]) simp_all
next
  case (Svc_flush w)
  then have do: "on_net t oc (At_server (App (App_flush w))) s = Some s'"
    using step by simp
  then have "wrote (server (net s')) = wrote (server (net s)) \<and> got (server (net s')) = got (server (net s))"
    by (auto simp: on_net_def Let_def split: prod.splits)
  with on_net_same [OF do inv] show ?thesis
    by blast
next
  case Svc_end
  then have do: "on_net t oc (At_server (App App_drop)) s = Some s'"
    using step by (simp split: if_splits)
  then have "wrote (server (net s')) = wrote (server (net s)) \<and> got (server (net s')) = got (server (net s))"
    by (auto simp: on_net_def)
  with on_net_same [OF do inv] show ?thesis
    by blast
qed

definition service_step :: "timeouts \<Rightarrow> bool \<Rightarrow> service \<Rightarrow> service \<Rightarrow> bool" where
  "service_step t oc s s' \<longleftrightarrow> (\<exists>a. service_do t oc a s = Some s')"

interpretation service: invariant_system "\<lambda>s. s = service_init t n now" "service_step t oc" "service_inv n"
  for t n now oc
proof
  show "service_inv n s" if "s = service_init t n now" for s
    using lnet_init_inv [of n t now] that by (simp add: service_inv_def service_init_def handle_init_def lnet_init_def endp_init_def)
  show "service_inv n s'" if "service_step t oc s s'" "service_inv n s" for s s'
    using that service_do_inv unfolding service_step_def by blast
qed

lemma service_run_steps: "service_run t oc as s = Some s' \<Longrightarrow> (service_step t oc)\<^sup>*\<^sup>* s s'"
proof (induction "as" arbitrary: s)
  case (Cons a "as")
  then obtain s1 where "service_do t oc a s = Some s1" "(service_step t oc)\<^sup>*\<^sup>* s1 s'"
    by (auto split: option.splits)
  then show ?case
    by (meson converse_rtranclp_into_rtranclp service_step_def)
qed simp

lemma replies_of_lines:
  assumes "\<forall>l \<in> set ls. 10 \<notin> set l" and "10 \<notin> set rest" and "list_all is_ascii (concat (map (\<lambda>l. l @ [10]) ls) @ rest)"
  shows "reply (handle_bytes (concat (map (\<lambda>l. l @ [10]) ls) @ rest) handle_init) = concat (map (\<lambda>l. rev l @ [10]) ls)"
proof -
  have "\<forall>l \<in> set ls. 10 \<notin> set l \<and> utf8_valid (l @ [10])"
    using assms by (fastforce simp: list_all_iff intro!: utf8_valid_ascii)
  from handle_lines [OF this, of handle_init] handle_bytes_line [OF assms(2)] show ?thesis
    by (simp add: handle_init_def)
qed

text \<open>The replies to a client that sends ASCII are ASCII, so that no write of the task is refused.\<close>

lemma handle_byte_ascii:
  "is_ascii b \<Longrightarrow> list_all is_ascii (line h) \<Longrightarrow> list_all is_ascii (reply h) \<Longrightarrow>
     list_all is_ascii (line (handle_byte h b)) \<and> list_all is_ascii (reply (handle_byte h b))"
  by (auto simp: handle_byte_def reverse_line_def Let_def list_all_iff is_ascii_def dest: in_set_takeD)

lemma handle_bytes_ascii:
  "list_all is_ascii bs \<Longrightarrow> list_all is_ascii (line h) \<Longrightarrow> list_all is_ascii (reply h) \<Longrightarrow>
     list_all is_ascii (reply (handle_bytes bs h))"
  by (induction bs arbitrary: h) (simp_all add: handle_byte_ascii)

lemma service_write_enabled:
  assumes "service_inv n s"
  shows "\<exists>s'. service_do t oc (Svc_write k) s = Some s'"
proof -
  have net: "lnet_inv n (net s)" and app: "app s = handle_bytes (got (server (net s))) handle_init"
    using assms unfolding service_inv_def by blast+
  have "list_all is_ascii (wrote (client (net s)))"
    using net by (auto simp: lnet_inv_def link_def sender_inv_def)
  then have "list_all is_ascii (got (server (net s)))"
    using lnet_inv_prefix [OF net] by (auto simp: prefix_def)
  then have "list_all is_ascii (reply (app s))"
    unfolding app by (rule handle_bytes_ascii) (simp_all add: handle_init_def)
  then have "list_all is_ascii (take k (drop j (reply (app s))))" for j
    by (auto simp: list_all_iff dest: in_set_takeD in_set_dropD)
  then show ?thesis
    by (simp add: on_net_def)
qed

section \<open>Properties\<close>

text \<open>C7: Over a network that loses, repeats and reorders datagrams, with any interleaving of both ends and of the
  task that serves the session, what the client has read is the beginning of the reversals of its lines, in
  their order.\<close>

theorem reversal_over_network:
  assumes "service_run t oc acts (service_init t n now) = Some s"
    and "\<forall>l \<in> set ls. 10 \<notin> set l" and "10 \<notin> set rest" and "wrote (client (net s)) = concat (map (\<lambda>l. l @ [10]) ls) @ rest"
  shows "prefix (got (client (net s))) (concat (map (\<lambda>l. rev l @ [10]) ls))"
proof -
  have inv: "service_inv n s"
    by (rule service.steps_inv [OF service_run_steps [OF assms(1)] service.init_inv [OF refl]])
  then have net: "lnet_inv n (net s)" and app: "app s = handle_bytes (got (server (net s))) handle_init"
    and sent: "prefix (wrote (server (net s))) (reply (app s))"
    unfolding service_inv_def by blast+
  have ascii: "list_all is_ascii (wrote (client (net s)))"
    using net by (auto simp: lnet_inv_def link_def sender_inv_def)
  obtain later where later: "wrote (client (net s)) = got (server (net s)) @ later"
    using lnet_inv_prefix [OF net] by (auto simp: prefix_def)
  have "prefix (got (client (net s))) (reply (app s))"
    using lnet_inv_prefix [OF net] sent by (blast intro: prefix_order.trans)
  also have "prefix (reply (app s)) (reply (handle_bytes (wrote (client (net s))) handle_init))"
    using handle_bytes_reply [of "app s" later] by (simp add: later app)
  also have "reply (handle_bytes (wrote (client (net s))) handle_init) = concat (map (\<lambda>l. rev l @ [10]) ls)"
    using replies_of_lines [OF assms(2,3)] ascii by (simp add: assms(4))
  finally show ?thesis .
qed

text \<open>A run in which the whole answer arrives.\<close>

definition service_acts :: "service_act list" where
  "service_acts =
     [Svc_client (App (App_write [104, 105, 10])), Svc_client (Local 0 Sent), Svc_handler (Deliver 0 0),
      Svc_client (Deliver 0 0), Svc_client (Local 1 Sent), Svc_handler (Deliver 2 1), Svc_read 0 10, Svc_write 3,
      Svc_flush 0, Svc_handler (Local 3 Upstream_notified), Svc_handler (Local 4 Sent), Svc_client (Deliver 5 2),
      Svc_client (App (App_read 0 10))]"

lemma service_packet: "transfer oc (Data (Numeric 7) (Numeric 0) (Payload [105,104,10])) = Some (Data (Numeric 7) (Numeric 0) (Payload [105,104,10]))"
  by (rule transfer_ok; simp add: packet_ok_def numeric_bytes_def dec.simps packet_constants is_ascii_def)

lemma service_run_demo:
  "map_option (\<lambda>s. (got (client (net s)), wrote (client (net s)))) (service_run demo_timeouts True service_acts (service_init demo_timeouts (Numeric 7) 0))
   = Some ([105, 104, 10], [104, 105, 10])"
  by (simp add: service_acts_def service_init_def on_net_def run_defs demo_packets service_packet handle_byte_def handle_init_def
      reverse_line_def poll_flush_def utf8_valid_ascii is_ascii_def)

lemma reversal_over_network_witness:
  "\<exists>s. service_run demo_timeouts True service_acts (service_init demo_timeouts (Numeric 7) 0) = Some s \<and>
     got (client (net s)) = [105, 104, 10] \<and> prefix (got (client (net s))) (concat (map (\<lambda>l. rev l @ [10]) [[104, 105]]))"
proof -
  obtain s where s: "service_run demo_timeouts True service_acts (service_init demo_timeouts (Numeric 7) 0) = Some s"
    "got (client (net s)) = [105, 104, 10]" "wrote (client (net s)) = [104, 105, 10]"
    using service_run_demo by auto
  have "prefix (got (client (net s))) (concat (map (\<lambda>l. rev l @ [10]) [[104, 105]]))"
    by (rule reversal_over_network [OF s(1), of _ "[]"]) (simp_all add: s(3))
  with s show ?thesis
    by blast
qed

end
