(* ===== verification/CipherCodec.thy ===== *)
theory CipherCodec
  imports Prelude
begin

text \<open>
  The insecure sockets layer, \<open>rust/p08-insecure-sockets-layer/src\<close>: the operations of a cipher
  spec, the codec that first reads the spec and then decodes and encodes the stream
  (\<open>cipher.rs\<close>), and the requests for toys on top of it (\<open>lib.rs\<close>). A buffer is the list of its
  bytes. A session is a list of reads: each is appended to what the decoder left of those before, and the
  decoder is called until it asks for more. Its loop may not end: it is a partial function, and \<open>None\<close> means
  that it runs forever. Positions are 64-bit; a build with overflow checks panics after \<open>2 ^ 64\<close> bytes, which is
  not modelled.
\<close>

section \<open>Operations\<close>

datatype operation = Reversebits | Xor u8 | Xorpos | Add u8 | Addpos

text \<open>\<open>u8::reverse_bits\<close>.\<close>

definition reverse_bits :: "u8 \<Rightarrow> u8" where
  "reverse_bits v = of_bool (bit v 7) OR push_bit 1 (of_bool (bit v 6)) OR push_bit 2 (of_bool (bit v 5)) OR
     push_bit 3 (of_bool (bit v 4)) OR push_bit 4 (of_bool (bit v 3)) OR push_bit 5 (of_bool (bit v 2)) OR
     push_bit 6 (of_bool (bit v 1)) OR push_bit 7 (of_bool (bit v 0))"

fun op_encode :: "operation \<Rightarrow> u64 \<Rightarrow> u8 \<Rightarrow> u8" where
  "op_encode Reversebits pos v = reverse_bits v"
| "op_encode (Xor n) pos v = v XOR n"
| "op_encode Xorpos pos v = ucast ((pos XOR ucast v) mod 256)"
| "op_encode (Add n) pos v = v + n"
| "op_encode Addpos pos v = ucast ((pos + ucast v) mod 256)"

fun op_decode :: "operation \<Rightarrow> u64 \<Rightarrow> u8 \<Rightarrow> u8" where
  "op_decode Reversebits pos v = reverse_bits v"
| "op_decode (Xor n) pos v = v XOR n"
| "op_decode Xorpos pos v = ucast ((pos XOR ucast v) mod 256)"
| "op_decode (Add n) pos v = v - n"
| "op_decode Addpos pos v = ucast ((ucast v - pos) mod 256)"

section \<open>Specs\<close>

datatype spec = Spec (spec_ops: "operation list")

definition spec_encode :: "spec \<Rightarrow> u64 \<Rightarrow> u8 \<Rightarrow> u8" where
  "spec_encode s pos v = fold (\<lambda>op v. op_encode op pos v) (spec_ops s) v"

definition spec_decode :: "spec \<Rightarrow> u64 \<Rightarrow> u8 \<Rightarrow> u8" where
  "spec_decode s pos v = fold (\<lambda>op v. op_decode op pos v) (rev (spec_ops s)) v"

definition CHECK_PHRASE :: "byte list" where
  "CHECK_PHRASE = ascii ''hello''"

text \<open>Encode bytes from a pos on.\<close>

fun encode_from :: "spec \<Rightarrow> u64 \<Rightarrow> byte list \<Rightarrow> byte list" where
  "encode_from s p [] = []"
| "encode_from s p (b # bs) = spec_encode s p b # encode_from s (p + 1) bs"

fun decode_from :: "spec \<Rightarrow> u64 \<Rightarrow> byte list \<Rightarrow> byte list" where
  "decode_from s p [] = []"
| "decode_from s p (b # bs) = spec_decode s p b # decode_from s (p + 1) bs"

definition spec_is_valid :: "spec \<Rightarrow> bool" where
  "spec_is_valid s = (CHECK_PHRASE \<noteq> encode_from s 0 CHECK_PHRASE)"

section \<open>The codec\<close>

text \<open>\<open>Previous\<close> carries the text of an earlier error; here the error itself.\<close>

datatype spec_error = EOS | InvalidOpcode u8 | Invalid "operation list" | Io | Previous spec_error | Not_ready

datatype codec = Incomplete "operation list" | Complete spec u64 u64 | SpecError spec_error

definition codec_new :: codec where
  "codec_new = Incomplete []"

text \<open>
  The inner loop over the buffer: the operations read so far, and how it ends: at the byte of index
  \<open>i\<close> that ends the spec, at the opcode of index \<open>i\<close> whose operand is missing or that is none, or at
  the end of the buffer.
\<close>

datatype scan_end = At_end nat | Operand_missing nat | Bad_opcode nat u8 | Exhausted

fun scan :: "operation list \<Rightarrow> nat \<Rightarrow> byte list \<Rightarrow> operation list \<times> scan_end" where
  "scan ops i [] = (ops, Exhausted)"
| "scan ops i (b # bs) =
     (if b = 0x00 then (ops, At_end i)
      else if b = 0x01 then scan (ops @ [Reversebits]) (i + 1) bs
      else if b = 0x02 then (case bs of c # cs \<Rightarrow> scan (ops @ [Xor c]) (i + 2) cs | [] \<Rightarrow> (ops, Operand_missing i))
      else if b = 0x03 then scan (ops @ [Xorpos]) (i + 1) bs
      else if b = 0x04 then (case bs of c # cs \<Rightarrow> scan (ops @ [Add c]) (i + 2) cs | [] \<Rightarrow> (ops, Operand_missing i))
      else if b = 0x05 then scan (ops @ [Addpos]) (i + 1) bs
      else (ops, Bad_opcode i b))"

type_synonym decode_result = "(spec_error, u8 option) outcome"

partial_function (option) codec_decode ::
  "codec \<Rightarrow> byte list \<Rightarrow> (codec \<times> byte list \<times> decode_result) option" where
  "codec_decode c src =
     (case c of
        SpecError e \<Rightarrow> Some (c, src, Err (Previous e))
      | Incomplete ops \<Rightarrow>
          if src = [] then Some (c, src, Ok None)
          else
            (case scan ops 0 src of
               (ops', At_end i) \<Rightarrow>
                 if spec_is_valid (Spec ops') then codec_decode (Complete (Spec ops') 0 0) (drop (i + 1) src)
                 else Some (SpecError (Invalid ops'), drop (i + 1) src, Err (Invalid ops'))
             | (ops', Operand_missing i) \<Rightarrow> Some (Incomplete ops', drop (i + 1) src, Ok None)
             | (ops', Bad_opcode i b) \<Rightarrow> Some (SpecError (InvalidOpcode b), drop (i + 1) src, Err (InvalidOpcode b))
             | (ops', Exhausted) \<Rightarrow> codec_decode (Incomplete ops') src)
      | Complete s up down \<Rightarrow>
          (case src of
             b # bs \<Rightarrow> Some (Complete s (up + 1) down, bs, Ok (Some (spec_decode s up b)))
           | [] \<Rightarrow> Some (c, src, Ok None)))"

fun codec_encode :: "codec \<Rightarrow> u8 \<Rightarrow> byte list \<Rightarrow> (spec_error, codec \<times> byte list) outcome" where
  "codec_encode (SpecError e) v dst = Err (Previous e)"
| "codec_encode (Incomplete ops) v dst = Err (Previous Not_ready)"
| "codec_encode (Complete s up down) v dst = Ok (Complete s up (down + 1), dst @ [spec_encode s down v])"

section \<open>Requests\<close>

type_synonym toy = "u32 \<times> byte list"

record parse_state =
  toys :: "toy list"
  part :: "byte list"
  amount :: u32
  x_found :: bool

definition parse_init :: parse_state where
  "parse_init = \<lparr>toys = [], part = [], amount = 0, x_found = False\<rparr>"

text \<open>
  \<open>parse\<close> over the decoded bytes that are still to come; their end is the end of the stream. The
  result is the toys of one request and the rest.
\<close>

fun parse_loop :: "bool \<Rightarrow> parse_state \<Rightarrow> byte list \<Rightarrow> (spec_error, toy list \<times> byte list) outcome" where
  "parse_loop oc s [] = Ok (toys s, [])"
| "parse_loop oc s (v # vs) =
     (if v = 120 \<and> \<not> x_found s then parse_loop oc (s\<lparr>x_found := True, part := part s @ [v]\<rparr>) vs
      else if is_ascii_digit v \<and> \<not> x_found s then
        bind_outcome (mul_w oc (amount s) 10) (\<lambda>m.
        bind_outcome (add_w oc m (ucast v - 48)) (\<lambda>n.
          parse_loop oc (s\<lparr>amount := n, part := part s @ [v]\<rparr>) vs))
      else if v = 10 then Ok (toys s @ [(amount s, part s)], vs)
      else if v = 44 then
        parse_loop oc (s\<lparr>toys := toys s @ [(amount s, part s)], part := [], amount := 0, x_found := False\<rparr>) vs
      else parse_loop oc (s\<lparr>part := part s @ [v]\<rparr>) vs)"

definition parse_toys :: "bool \<Rightarrow> byte list \<Rightarrow> (spec_error, toy list option \<times> byte list) outcome" where
  "parse_toys oc vs =
     bind_outcome (parse_loop oc parse_init vs) (\<lambda>(ts, rest). Ok (if ts = [] then None else Some ts, rest))"

lemma parse_loop_length: "parse_loop oc s vs = Ok (ts, rest) \<Longrightarrow> length rest \<le> length vs"
proof (induction oc s vs rule: parse_loop.induct)
  case (2 oc s v vs)
  then show ?case
    by (fastforce split: if_splits)
qed simp

lemma parse_toys_progress:
  "parse_toys oc vs = Ok (Some ts, rest) \<Longrightarrow> length rest < length vs"
  by (cases vs) (auto simp: parse_toys_def parse_init_def split: if_splits dest!: parse_loop_length)

text \<open>\<open>handle_client\<close>: the reply to every request in what the client sends until its end.\<close>

function handle_client :: "bool \<Rightarrow> byte list \<Rightarrow> (spec_error, byte list) outcome" where
  "handle_client oc vs =
     (case parse_toys oc vs of
        Ok (Some ts, rest) \<Rightarrow>
          (case max_by_key fst ts of
             None \<Rightarrow> Panic
           | Some t \<Rightarrow> bind_outcome (handle_client oc rest) (\<lambda>r. Ok (snd t @ [10] @ r)))
      | Ok (None, rest) \<Rightarrow> Ok []
      | Err e \<Rightarrow> Err e
      | Panic \<Rightarrow> Panic)"
  by pat_completeness auto
termination
  by (relation "measure (\<lambda>(oc, vs). length vs)")
    (auto dest: parse_toys_progress)

declare handle_client.simps [simp del]


section \<open>Every operation can be undone\<close>

text \<open>The interface of an operation, and of a whole spec: at every position a permutation of bytes.\<close>

locale byte_cipher =
  fixes enc dec :: "u64 \<Rightarrow> u8 \<Rightarrow> u8"
  assumes dec_enc: "dec p (enc p v) = v"
    and enc_dec: "enc p (dec p v) = v"
begin

lemma enc_inj: "enc p v = enc p w \<longleftrightarrow> v = w"
  by (metis dec_enc)

lemma enc_eq_iff: "enc p v = w \<longleftrightarrow> v = dec p w"
  by (metis dec_enc enc_dec)

end

lemma bit_reverse_bits: "bit (reverse_bits v) n \<longleftrightarrow> n < 8 \<and> bit v (7 - n)"
proof (cases "n < 8")
  case True
  then consider "n = 0" | "n = 1" | "n = 2" | "n = 3" | "n = 4" | "n = 5" | "n = 6" | "n = 7"
    by linarith
  then show ?thesis
    by cases (simp_all add: reverse_bits_def bit_simps)
qed (simp add: not_bit_byte)

lemma reverse_reverse_bits: "reverse_bits (reverse_bits v) = v"
proof (rule bit_word_eqI)
  fix n
  assume "n < LENGTH(8)"
  then have "7 - n < 8" "7 - (7 - n) = n"
    by auto
  then show "bit (reverse_bits (reverse_bits v)) n = bit v n"
    using \<open>n < LENGTH(8)\<close> by (simp add: bit_reverse_bits)
qed

lemma ucast_mod_256: "(ucast (x mod 256 :: u64) :: u8) = ucast x"
  by (simp add: word_unat_eq_iff unat_mod unsigned_ucast_eq take_bit_eq_mod)

lemma ucast_add_u8: "(ucast (x + y :: u64) :: u8) = ucast x + ucast y"
  by (simp add: word_unat_eq_iff unat_word_ariths unsigned_ucast_eq take_bit_eq_mod mod_simps mod_mod_cancel)

lemma ucast_xor_u8: "(ucast (x XOR y :: u64) :: u8) = ucast x XOR ucast y"
  by (rule bit_word_eqI) (auto simp: bit_simps)

lemma ucast_ucast_u8: "(ucast (ucast v :: u64) :: u8) = v"
  by (rule bit_word_eqI) (auto simp: bit_simps)

lemma ucast_sub_u8: "(ucast (ucast v - p :: u64) :: u8) = v - ucast p"
  using ucast_add_u8 [of "ucast v - p" p] by (simp add: ucast_ucast_u8 eq_diff_eq)

lemmas position_simps = ucast_mod_256 ucast_add_u8 ucast_xor_u8 ucast_ucast_u8 ucast_sub_u8

interpretation operation: byte_cipher "op_encode op" "op_decode op" for op
  by unfold_locales (cases op; simp add: reverse_reverse_bits position_simps word_bw_assocs; fail)+

lemma spec_encode_simps:
  "spec_encode (Spec []) p v = v"
  "spec_encode (Spec (op # ops)) p v = spec_encode (Spec ops) p (op_encode op p v)"
  "spec_decode (Spec []) p v = v"
  "spec_decode (Spec (op # ops)) p v = op_decode op p (spec_decode (Spec ops) p v)"
  by (simp_all add: spec_encode_def spec_decode_def)

lemma spec_decode_encode: "spec_decode (Spec ops) p (spec_encode (Spec ops) p v) = v"
  by (induction ops arbitrary: v) (simp_all add: spec_encode_simps operation.dec_enc)

lemma spec_encode_decode: "spec_encode (Spec ops) p (spec_decode (Spec ops) p v) = v"
  by (induction ops arbitrary: v) (simp_all add: spec_encode_simps operation.enc_dec)

interpretation spec_cipher: byte_cipher "spec_encode s" "spec_decode s" for s
  by (cases s) (unfold_locales; simp add: spec_decode_encode spec_encode_decode)

lemma decode_encode_from: "decode_from s p (encode_from s p bs) = bs"
  by (induction bs arbitrary: p) (simp_all add: spec_cipher.dec_enc)

lemma encode_from_id: "\<forall>p v. spec_encode s p v = v \<Longrightarrow> encode_from s p bs = bs"
  by (induction bs arbitrary: p) auto

section \<open>Reading a spec\<close>

fun op_bytes :: "operation \<Rightarrow> byte list" where
  "op_bytes Reversebits = [1]"
| "op_bytes (Xor n) = [2, n]"
| "op_bytes Xorpos = [3]"
| "op_bytes (Add n) = [4, n]"
| "op_bytes Addpos = [5]"

definition spec_bytes :: "operation list \<Rightarrow> byte list" where
  "spec_bytes ops = concat (map op_bytes ops)"

lemma scan_ops:
  "scan acc i (spec_bytes ops @ bs) = scan (acc @ ops) (i + length (spec_bytes ops)) bs"
proof (induction ops arbitrary: acc i)
  case (Cons op ops)
  then show ?case
    by (cases op) (simp_all add: spec_bytes_def)
qed (simp add: spec_bytes_def)

lemma codec_decode_complete:
  "codec_decode (Complete s up down) (b # bs) = Some (Complete s (up + 1) down, bs, Ok (Some (spec_decode s up b)))"
  "codec_decode (Complete s up down) [] = Some (Complete s up down, [], Ok None)"
  by (subst codec_decode.simps; simp)+

lemma codec_decode_spec:
  assumes "spec_is_valid (Spec ops)"
  shows "codec_decode (Incomplete []) (spec_bytes ops @ 0 # bs) = codec_decode (Complete (Spec ops) 0 0) bs"
  using assms by (subst codec_decode.simps) (simp add: scan_ops)

lemma codec_decode_invalid:
  assumes "\<not> spec_is_valid (Spec ops)"
  shows "codec_decode (Incomplete []) (spec_bytes ops @ 0 # bs) =
     Some (SpecError (Invalid ops), bs, Err (Invalid ops))"
  using assms by (subst codec_decode.simps) (simp add: scan_ops)

text \<open>
  \<open>Framed\<close> over one buffer: the codec, what it leaves in the buffer and the items, until it asks for
  more bytes or fails; the last component is the error.
\<close>

partial_function (option) decode_all ::
  "codec \<Rightarrow> byte list \<Rightarrow> (codec \<times> byte list \<times> byte list \<times> spec_error option) option" where
  "decode_all c src =
     (case codec_decode c src of
        None \<Rightarrow> None
      | Some (c', src', r) \<Rightarrow>
          (case r of
             Ok (Some b) \<Rightarrow>
               Option.bind (decode_all c' src') (\<lambda>(c'', src'', items, e). Some (c'', src'', b # items, e))
           | Ok None \<Rightarrow> Some (c', src', [], None)
           | Err e \<Rightarrow> Some (c', src', [], Some e)
           | Panic \<Rightarrow> None))"

text \<open>\<open>Framed\<close> over the reads of the socket: each is appended to what is left in the buffer. The stream
  ends after an error.\<close>

fun decode_reads ::
  "codec \<Rightarrow> byte list \<Rightarrow> byte list list \<Rightarrow> (codec \<times> byte list \<times> byte list \<times> spec_error option) option" where
  "decode_reads c buf [] = Some (c, buf, [], None)"
| "decode_reads c buf (r # rs) =
     (case decode_all c (buf @ r) of
        None \<Rightarrow> None
      | Some (c', buf', items, Some e) \<Rightarrow> Some (c', buf', items, Some e)
      | Some (c', buf', items, None) \<Rightarrow>
          Option.bind (decode_reads c' buf' rs) (\<lambda>(c'', buf'', items', e). Some (c'', buf'', items @ items', e)))"

lemma decode_all_complete:
  "decode_all (Complete s up down) bs =
     Some (Complete s (up + of_nat (length bs)) down, [], decode_from s up bs, None)"
proof (induction bs arbitrary: up)
  case Nil
  show ?case
    by (subst decode_all.simps) (simp add: codec_decode_complete)
next
  case (Cons b bs)
  show ?case
    by (subst decode_all.simps) (simp add: codec_decode_complete Cons add_ac)
qed

lemma decode_from_append:
  "decode_from s p (bs @ cs) = decode_from s p bs @ decode_from s (p + of_nat (length bs)) cs"
  by (induction bs arbitrary: p) (simp_all add: add_ac)

lemma decode_reads_complete:
  "decode_reads (Complete s up down) [] rs =
     Some (Complete s (up + of_nat (length (concat rs))) down, [], decode_from s up (concat rs), None)"
  by (induction rs arbitrary: up) (simp_all add: decode_all_complete decode_from_append add_ac)

lemma decode_all_spec:
  "spec_is_valid (Spec ops) \<Longrightarrow>
     decode_all (Incomplete []) (spec_bytes ops @ 0 # bs) = decode_all (Complete (Spec ops) 0 0) bs"
  by (subst decode_all.simps, subst (2) decode_all.simps) (simp add: codec_decode_spec)

lemma decode_reads_spec:
  assumes "spec_is_valid (Spec ops)"
  shows "decode_reads codec_new [] ((spec_bytes ops @ 0 # bs) # rs) =
     Some (Complete (Spec ops) (of_nat (length (bs @ concat rs))) 0, [], decode_from (Spec ops) 0 (bs @ concat rs), None)"
  using decode_all_spec [OF assms, of bs]
  by (simp add: codec_new_def decode_all_complete decode_reads_complete decode_from_append)

text \<open>A spec without its end in the buffer is read again and again.\<close>

lemma scan_end_ops: "snd (scan ops i bs) = snd (scan ops' i bs)"
proof (induction "length bs" arbitrary: ops ops' i bs rule: less_induct)
  case less
  show ?case
  proof (cases bs)
    case (Cons b cs)
    have IH: "snd (scan ops1 j ds) = snd (scan ops2 j ds)" if "length ds < length bs" for ops1 ops2 j ds
      using less that by blast
    show ?thesis
      unfolding Cons scan.simps(2)
      by (auto simp: Cons simp del: scan.simps split: list.split intro!: IH)
  qed simp
qed

lemma codec_decode_loops:
  "codec_decode c src = Some y \<Longrightarrow>
     \<forall>ops. c = Incomplete ops \<longrightarrow> src \<noteq> [] \<longrightarrow> snd (scan [] 0 src) \<noteq> Exhausted"
proof (erule codec_decode.raw_induct [rotated], intro allI impI notI)
  fix rec c src y ops
  assume IH: "\<And>c src y. rec c src = Some y \<Longrightarrow>
      \<forall>ops. c = Incomplete ops \<longrightarrow> src \<noteq> [] \<longrightarrow> snd (scan [] 0 src) \<noteq> Exhausted"
    and body: "(case c of SpecError e \<Rightarrow> Some (c, src, Err (Previous e))
      | Incomplete ops \<Rightarrow>
          if src = [] then Some (c, src, Ok None)
          else
            (case scan ops 0 src of
               (ops', At_end i) \<Rightarrow>
                 if spec_is_valid (Spec ops') then rec (Complete (Spec ops') 0 0) (drop (i + 1) src)
                 else Some (SpecError (Invalid ops'), drop (i + 1) src, Err (Invalid ops'))
             | (ops', Operand_missing i) \<Rightarrow> Some (Incomplete ops', drop (i + 1) src, Ok None)
             | (ops', Bad_opcode i b) \<Rightarrow> Some (SpecError (InvalidOpcode b), drop (i + 1) src, Err (InvalidOpcode b))
             | (ops', Exhausted) \<Rightarrow> rec (Incomplete ops') src)
      | Complete s up down \<Rightarrow>
          (case src of
             b # bs \<Rightarrow> Some (Complete s (up + 1) down, bs, Ok (Some (spec_decode s up b)))
           | [] \<Rightarrow> Some (c, src, Ok None))) = Some y"
    and c: "c = Incomplete ops" "src \<noteq> []" "snd (scan [] 0 src) = Exhausted"
  obtain ops' where "scan ops 0 src = (ops', Exhausted)"
    using c(3) scan_end_ops [of ops 0 src "[]"] by (cases "scan ops 0 src") auto
  then have "rec (Incomplete ops') src = Some y"
    using body c by simp
  then show False
    using IH c by blast
qed

text \<open>Where a scan starts does not matter but for the indexes in its result.\<close>

primrec later :: "nat \<Rightarrow> scan_end \<Rightarrow> scan_end" where
  "later j (At_end i) = At_end (i + j)"
| "later j (Operand_missing i) = Operand_missing (i + j)"
| "later j (Bad_opcode i b) = Bad_opcode (i + j) b"
| "later j Exhausted = Exhausted"

lemma scan_later: "scan ops (i + j) bs = map_prod id (later j) (scan ops i bs)"
proof (induction "length bs" arbitrary: ops i bs rule: less_induct)
  case less
  show ?case
  proof (cases bs)
    case (Cons b cs)
    have IH: "scan ops1 (Suc (i + j)) ds = map_prod id (later j) (scan ops1 (Suc i) ds)"
      "scan ops1 (Suc (Suc (i + j))) ds = map_prod id (later j) (scan ops1 (Suc (Suc i)) ds)"
      if "length ds < length bs" for ops1 ds
      using less [OF that, of ops1 "Suc i"] less [OF that, of ops1 "Suc (Suc i)"] by simp_all
    show ?thesis
      unfolding Cons by (auto simp: IH Cons split: list.split)
  qed simp
qed

lemma codec_decode_exhausted:
  assumes "src \<noteq> []" and "snd (scan [] 0 src) = Exhausted"
  shows "codec_decode (Incomplete ops) src = None"
  using codec_decode_loops [of "Incomplete ops" src] assms
  by (cases "codec_decode (Incomplete ops) src") auto

text \<open>Operations that are complete are taken; what follows them is decoded as if it came alone.\<close>

lemma codec_decode_ops:
  assumes "rest \<noteq> []"
  shows "codec_decode (Incomplete done) (spec_bytes ops @ rest) = codec_decode (Incomplete (done @ ops)) rest"
proof -
  let ?n = "length (spec_bytes ops)"
  have scan: "scan done 0 (spec_bytes ops @ rest) = map_prod id (later ?n) (scan (done @ ops) 0 rest)"
    using scan_later [of "done @ ops" 0 ?n rest] by (simp add: scan_ops)
  show ?thesis
  proof (cases "snd (scan (done @ ops) 0 rest) = Exhausted")
    case True
    then have "snd (scan [] 0 rest) = Exhausted" "snd (scan [] 0 (spec_bytes ops @ rest)) = Exhausted"
      using scan scan_end_ops [of "[]" 0 rest "done @ ops"] scan_end_ops [of "[]" 0 "spec_bytes ops @ rest" "done"]
      by simp_all
    then show ?thesis
      using assms by (simp add: codec_decode_exhausted)
  next
    case False
    then show ?thesis
      using assms scan
      by (subst codec_decode.simps, subst (3) codec_decode.simps)
        (cases "scan (done @ ops) 0 rest"; cases "snd (scan (done @ ops) 0 rest)"; simp)
  qed
qed

lemma codec_decode_operand_missing:
  "c = 2 \<or> c = 4 \<Longrightarrow>
     codec_decode (Incomplete done) [c] = Some (Incomplete done, [], Ok None)"
  by (subst codec_decode.simps) auto

lemma spec_bytes_Cons: "spec_bytes (op # ops) = op_bytes op @ spec_bytes ops"
  by (simp add: spec_bytes_def)

text \<open>A beginning of a spec ends between two operations, or between an opcode and its operand.\<close>

lemma spec_beginnings:
  "k \<le> length (spec_bytes ops) \<Longrightarrow>
     \<exists>n \<le> length ops. take k (spec_bytes ops) = spec_bytes (take n ops) \<or>
       n < length ops \<and> (\<exists>v. ops ! n = Xor v \<and> take k (spec_bytes ops) = spec_bytes (take n ops) @ [2] \<or>
         ops ! n = Add v \<and> take k (spec_bytes ops) = spec_bytes (take n ops) @ [4])"
proof (induction ops arbitrary: k)
  case Nil
  then show ?case
    by (simp add: spec_bytes_def)
next
  case (Cons op ops)
  consider "k = 0" | "0 < k" "k < length (op_bytes op)" | "length (op_bytes op) \<le> k"
    by linarith
  then show ?case
  proof cases
    case 1
    then show ?thesis
      by (intro exI [of _ 0]) (simp add: spec_bytes_def)
  next
    case 2
    then show ?thesis
      by (intro exI [of _ 0]; cases op) (auto simp: spec_bytes_def less_Suc_eq)
  next
    case 3
    then obtain n where n: "n \<le> length ops"
      "take (k - length (op_bytes op)) (spec_bytes ops) = spec_bytes (take n ops) \<or>
       n < length ops \<and> (\<exists>v. ops ! n = Xor v \<and> take (k - length (op_bytes op)) (spec_bytes ops) = spec_bytes (take n ops) @ [2] \<or>
         ops ! n = Add v \<and> take (k - length (op_bytes op)) (spec_bytes ops) = spec_bytes (take n ops) @ [4])"
      using Cons.IH [of "k - length (op_bytes op)"] Cons.prems by (simp only: spec_bytes_Cons) force
    then show ?thesis
      using 3 by (intro exI [of _ "Suc n"]) (auto simp: spec_bytes_Cons)
  qed
qed

lemma spec_bytes_eq_Nil: "spec_bytes ops = [] \<longleftrightarrow> ops = []"
  by (cases ops; cases "hd ops") (auto simp: spec_bytes_def)

section \<open>Parsing requests\<close>

text \<open>The bytes of a toy: digits, an x, and a name without comma and newline.\<close>

definition toy_ok :: "byte list \<Rightarrow> byte list \<Rightarrow> bool" where
  "toy_ok ds name \<longleftrightarrow> list_all is_ascii_digit ds \<and> list_all (\<lambda>b. b \<noteq> 10 \<and> b \<noteq> 44) name"

fun digits_value :: "nat \<Rightarrow> byte list \<Rightarrow> nat" where
  "digits_value a [] = a"
| "digits_value a (d # ds) = digits_value (a * 10 + (unat d - 48)) ds"

lemma digits_value_mono: "a \<le> digits_value a ds"
proof (induction ds arbitrary: a)
  case (Cons d ds)
  show ?case
    using Cons [of "a * 10 + (unat d - 48)"] by simp
qed simp

lemma parse_loop_digits:
  "list_all is_ascii_digit ds \<Longrightarrow> \<not> x_found s \<Longrightarrow> digits_value (unat (amount s)) ds < 2 ^ 32 \<Longrightarrow>
     parse_loop oc s (ds @ vs) =
       parse_loop oc (s\<lparr>amount := of_nat (digits_value (unat (amount s)) ds), part := part s @ ds\<rparr>) vs"
proof (induction ds arbitrary: s)
  case (Cons d ds)
  let ?m = "unat (amount s) * 10 + (unat d - 48)"
  have d: "is_ascii_digit d" "48 \<le> unat d" "d \<noteq> 120"
    using Cons.prems(1) by (auto simp: is_ascii_digit_def word_le_nat_alt)
  have m: "?m < 2 ^ 32"
    using digits_value_mono [of ?m ds] Cons.prems(3) by simp
  have mul: "mul_w oc (amount s) 10 = (Ok (amount s * 10) :: (spec_error, u32) outcome)"
    and umul: "unat (amount s * 10) = unat (amount s) * 10"
    using m by (auto intro: mul_w_Ok simp: unat_mul_lem')
  have ud: "unat (ucast d - 48 :: u32) = unat d - 48"
    using d(2) by (subst unat_sub) (simp_all add: word_le_nat_alt unat_ucast_up)
  have add: "add_w oc (amount s * 10) (ucast d - 48) = (Ok (amount s * 10 + (ucast d - 48)) :: (spec_error, u32) outcome)"
    and uadd: "unat (amount s * 10 + (ucast d - 48)) = ?m"
    using m umul ud by (auto simp: add_w_def unat_add_lem')
  show ?case
    using Cons.IH [of "s\<lparr>amount := amount s * 10 + (ucast d - 48), part := part s @ [d]\<rparr>"] Cons.prems d
    by (simp add: mul add uadd)
qed simp

lemma parse_loop_name:
  "list_all (\<lambda>b. b \<noteq> 10 \<and> b \<noteq> 44) name \<Longrightarrow> x_found s \<Longrightarrow>
     parse_loop oc s (name @ vs) = parse_loop oc (s\<lparr>part := part s @ name\<rparr>) vs"
  by (induction name arbitrary: s) auto

lemma parse_loop_toy:
  assumes "toy_ok ds name" "digits_value 0 ds < 2 ^ 32" "part s = []" "amount s = 0" "\<not> x_found s"
  shows "parse_loop oc s (ds @ 120 # name @ v # vs) =
    parse_loop oc (s\<lparr>amount := of_nat (digits_value 0 ds), part := ds @ 120 # name, x_found := True\<rparr>) (v # vs)"
proof -
  have digits: "parse_loop oc s (ds @ 120 # name @ v # vs) =
      parse_loop oc (s\<lparr>amount := of_nat (digits_value 0 ds), part := ds\<rparr>) (120 # name @ v # vs)"
    using assms parse_loop_digits [of ds s oc "120 # name @ v # vs"] by (simp add: toy_ok_def)
  show ?thesis
    unfolding digits
    using assms parse_loop_name [of name _ oc "v # vs"] by (simp add: toy_ok_def is_ascii_digit_def)
qed

text \<open>A request: toys separated by commas, ended by a newline; each as its digits and its name.\<close>

fun request_bytes :: "(byte list \<times> byte list) list \<Rightarrow> byte list" where
  "request_bytes [] = []"
| "request_bytes [(ds, name)] = ds @ 120 # name @ [10]"
| "request_bytes ((ds, name) # ts) = ds @ 120 # name @ 44 # request_bytes ts"

definition toy_of :: "byte list \<times> byte list \<Rightarrow> toy" where
  "toy_of t = (of_nat (digits_value 0 (fst t)), fst t @ 120 # snd t)"

definition request_ok :: "(byte list \<times> byte list) list \<Rightarrow> bool" where
  "request_ok ts \<longleftrightarrow> ts \<noteq> [] \<and> (\<forall>(ds, name) \<in> set ts. toy_ok ds name \<and> digits_value 0 ds < 2 ^ 32)"

lemma parse_loop_request:
  "request_ok ts \<Longrightarrow> part s = [] \<Longrightarrow> amount s = 0 \<Longrightarrow> \<not> x_found s \<Longrightarrow>
     parse_loop oc s (request_bytes ts @ vs) = Ok (toys s @ map toy_of ts, vs)"
proof (induction ts arbitrary: s rule: request_bytes.induct)
  case 1
  then show ?case
    by (simp add: request_ok_def)
next
  case (2 ds name)
  then show ?case
    using parse_loop_toy [of ds name s oc 10 vs]
    by (simp add: request_ok_def toy_of_def is_ascii_digit_def)
next
  case (3 ds name t ts)
  let ?s = "s\<lparr>toys := toys s @ [toy_of (ds, name)], part := [], amount := 0, x_found := False\<rparr>"
  have "parse_loop oc s (request_bytes ((ds, name) # t # ts) @ vs)
      = parse_loop oc ?s (request_bytes (t # ts) @ vs)"
    using parse_loop_toy [of ds name s oc 44 "request_bytes (t # ts) @ vs"] "3.prems"
    by (simp add: request_ok_def toy_of_def is_ascii_digit_def)
  also have "\<dots> = Ok (toys ?s @ map toy_of (t # ts), vs)"
    using "3.prems" by (intro "3.IH") (auto simp: request_ok_def)
  finally show ?case
    by simp
qed

lemma handle_client_request:
  assumes "request_ok ts"
  shows "handle_client oc (request_bytes ts @ vs) =
    bind_outcome (handle_client oc vs) (\<lambda>r. Ok (snd (the (max_by_key fst (map toy_of ts))) @ [10] @ r))"
proof -
  have "parse_loop oc parse_init (request_bytes ts @ vs) = Ok (map toy_of ts, vs)"
    using parse_loop_request [OF assms, of parse_init oc vs] by (simp add: parse_init_def)
  moreover have "ts \<noteq> []"
    using assms by (simp add: request_ok_def)
  moreover from this have "\<exists>y. max_by_key fst (map toy_of ts) = Some y"
    using max_by_key_Some [of "map toy_of ts" fst] by blast
  ultimately show ?thesis
    by (subst handle_client.simps) (auto simp: parse_toys_def)
qed

lemma handle_client_end: "handle_client oc [] = Ok []"
  by (subst handle_client.simps) (simp add: parse_toys_def parse_init_def)

lemma handle_client_requests:
  "\<forall>ts \<in> set rs. request_ok ts \<Longrightarrow>
     handle_client oc (concat (map request_bytes rs)) =
       Ok (concat (map (\<lambda>ts. snd (the (max_by_key fst (map toy_of ts))) @ [10]) rs))"
  by (induction rs) (simp_all add: handle_client_end handle_client_request)


section \<open>A whole session\<close>

text \<open>\<open>sink.feed\<close> of every byte of a reply.\<close>

fun feed_all :: "codec \<Rightarrow> byte list \<Rightarrow> byte list \<Rightarrow> (spec_error, codec \<times> byte list) outcome" where
  "feed_all c [] dst = Ok (c, dst)"
| "feed_all c (v # vs) dst = bind_outcome (codec_encode c v dst) (\<lambda>(c, dst). feed_all c vs dst)"

lemma feed_all_complete:
  "feed_all (Complete s up down) vs dst =
     Ok (Complete s up (down + of_nat (length vs)), dst @ encode_from s down vs)"
  by (induction vs arbitrary: down dst) (simp_all add: add_ac)

text \<open>
  The server on the reads of a session, until the client closes: what goes back, if the spec and the
  requests are processed to the end; a decoder that does not return, an error of the decoder and bytes
  that remain in the buffer at the end all leave no result.
\<close>

definition serve :: "bool \<Rightarrow> byte list list \<Rightarrow> byte list option" where
  "serve oc reads =
     (case decode_reads codec_new [] reads of
        Some (c, [], items, None) \<Rightarrow>
          (case bind_outcome (handle_client oc items) (\<lambda>reply. feed_all c reply []) of
             Ok (_, out) \<Rightarrow> Some out
           | _ \<Rightarrow> None)
      | _ \<Rightarrow> None)"

definition answer :: "(byte list \<times> byte list) list \<Rightarrow> byte list" where
  "answer ts = snd (the (max_by_key fst (map toy_of ts))) @ [10]"

lemma split_after:
  assumes "a @ b = xs @ x # ys" and "length xs < length a"
  shows "\<exists>zs. a = xs @ x # zs \<and> zs @ b = ys"
  using assms by (auto simp: append_eq_append_conv2 append_eq_Cons_conv)

section \<open>Properties\<close>

text \<open>Decoding undoes encoding at every position, and encoding undoes decoding, for every spec.\<close>

theorem spec_invertible:
  "spec_decode s pos (spec_encode s pos v) = v \<and> spec_encode s pos (spec_decode s pos v) = v"
  by (simp add: spec_cipher.dec_enc spec_cipher.enc_dec)

text \<open>C8: A client whose first read brings its whole spec, with the byte that ends it, and whose spec
  changes "hello": however the rest of the session is cut into reads, well-formed requests encoded with
  the spec are answered, encoded with it, each by the toy with the largest count, on a line of its own.\<close>

theorem cipher_session:
  assumes "spec_is_valid (Spec ops)" and "\<forall>ts \<in> set rs. request_ok ts"
    and "concat (r # reads) = spec_bytes ops @ 0 # encode_from (Spec ops) 0 (concat (map request_bytes rs))"
    and "length (spec_bytes ops) < length r"
  shows "\<exists>out. serve oc (r # reads) = Some out \<and>
      decode_from (Spec ops) 0 out = concat (map answer rs) \<and>
      (\<forall>ts \<in> set rs. \<exists>t \<in> set ts. answer ts = snd (toy_of t) @ [10] \<and>
         (\<forall>u \<in> set ts. fst (toy_of u) \<le> fst (toy_of t)))"
proof -
  obtain bs where bs: "r = spec_bytes ops @ 0 # bs"
    "bs @ concat reads = encode_from (Spec ops) 0 (concat (map request_bytes rs))"
    using split_after [of r "concat reads" "spec_bytes ops" 0] assms(3,4) by auto
  have "serve oc (r # reads) = Some (encode_from (Spec ops) 0 (concat (map answer rs)))"
    using handle_client_requests [OF assms(2), of oc] bs(2)
    by (simp add: serve_def bs(1) decode_reads_spec [OF assms(1)] decode_encode_from feed_all_complete
        answer_def [abs_def] del: decode_reads.simps)
  moreover have "\<exists>t \<in> set ts. answer ts = snd (toy_of t) @ [10] \<and> (\<forall>u \<in> set ts. fst (toy_of u) \<le> fst (toy_of t))"
    if "ts \<in> set rs" for ts
  proof -
    have "map toy_of ts \<noteq> []"
      using assms(2) that by (auto simp: request_ok_def)
    from max_by_key_Some [OF this, of fst] obtain y where y: "max_by_key fst (map toy_of ts) = Some y"
      "y \<in> set (map toy_of ts)" "\<forall>x \<in> set (map toy_of ts). fst x \<le> fst y"
      by metis
    from y(2) obtain t where "t \<in> set ts" "y = toy_of t"
      by auto
    with y(1,3) show ?thesis
      by (intro bexI [of _ t]) (simp_all add: answer_def)
  qed
  ultimately show ?thesis
    by (auto simp: decode_encode_from)
qed

lemma cipher_session_witness:
  "\<exists>out. serve True [[2, 123, 5, 1, 0, 0xf2], [0x20, 0xba], [0x44, 0x18, 0x84, 0xba, 0xaa, 0xd0, 0x26, 0x44, 0xa4, 0xa8, 0x7e]] = Some out \<and>
     decode_from (Spec [Xor 123, Addpos, Reversebits]) 0 out = ascii ''5x car'' @ [10]"
proof -
  let ?rs = "[[([52], ascii '' dog''), ([53], ascii '' car'')]]"
  have valid: "spec_is_valid (Spec [Xor 123, Addpos, Reversebits])"
    by (simp add: spec_is_valid_def CHECK_PHRASE_def ascii_def spec_encode_def reverse_bits_def)
  have ok: "\<forall>ts \<in> set ?rs. request_ok ts"
    by (simp add: request_ok_def toy_ok_def is_ascii_digit_def ascii_def)
  have reads: "concat [[2, 123, 5, 1, 0, 0xf2], [0x20, 0xba], [0x44, 0x18, 0x84, 0xba, 0xaa, 0xd0, 0x26, 0x44, 0xa4, 0xa8, 0x7e]]
      = spec_bytes [Xor 123, Addpos, Reversebits] @ 0 #
          encode_from (Spec [Xor 123, Addpos, Reversebits]) 0 (concat (map request_bytes ?rs))"
    by (simp add: spec_bytes_def spec_encode_def ascii_def reverse_bits_def)
  have ans: "concat (map answer ?rs) = ascii ''5x car'' @ [10]"
    by (simp add: answer_def toy_of_def ascii_def)
  from cipher_session [OF valid ok reads, of True] show ?thesis
    unfolding ans by (auto simp: spec_bytes_def)
qed

text \<open>A spec that changes no byte is refused, as the protocol asks. But only "hello" is looked
  at: the spec that adds 32 and then flips the upper three bits changes most bytes and is refused too.\<close>

theorem noop_specs_refused:
  "((\<forall>p v. spec_encode (Spec ops) p v = v) \<longrightarrow>
      codec_decode codec_new (spec_bytes ops @ 0 # bs) = Some (SpecError (Invalid ops), bs, Err (Invalid ops))) \<and>
   codec_decode codec_new (spec_bytes [Add 32, Xor 224] @ 0 # bs)
     = Some (SpecError (Invalid [Add 32, Xor 224]), bs, Err (Invalid [Add 32, Xor 224])) \<and>
   spec_encode (Spec [Add 32, Xor 224]) 0 0 = 192"
proof (intro conjI impI)
  assume "\<forall>p v. spec_encode (Spec ops) p v = v"
  then have "\<not> spec_is_valid (Spec ops)"
    by (simp add: spec_is_valid_def encode_from_id)
  then show "codec_decode codec_new (spec_bytes ops @ 0 # bs) = Some (SpecError (Invalid ops), bs, Err (Invalid ops))"
    by (simp add: codec_new_def codec_decode_invalid)
next
  have "\<not> spec_is_valid (Spec [Add 32, Xor 224])"
    by (simp add: spec_is_valid_def CHECK_PHRASE_def ascii_def spec_encode_def)
  then show "codec_decode codec_new (spec_bytes [Add 32, Xor 224] @ 0 # bs)
     = Some (SpecError (Invalid [Add 32, Xor 224]), bs, Err (Invalid [Add 32, Xor 224]))"
    by (simp add: codec_new_def codec_decode_invalid)
  show "spec_encode (Spec [Add 32, Xor 224]) 0 0 = 192"
    by (simp add: spec_encode_def)
qed

lemma noop_specs_refused_witness:
  "codec_decode codec_new (spec_bytes [Xor 0] @ [0]) = Some (SpecError (Invalid [Xor 0]), [], Err (Invalid [Xor 0]))"
  using noop_specs_refused [of "[Xor 0]" "[]"] by (simp add: spec_encode_def)

text \<open>C19: A beginning of a spec that arrives before the rest, whatever operations were read before. If
  it ends between two operations, the decoder never returns. Otherwise it ends with the opcode of an
  operation whose operand is still to come: the operations before it are kept, the opcode is dropped, and
  the next read, which starts with the operand, is decoded as if the opcode had not been sent.\<close>

theorem spec_in_pieces:
  assumes "0 < k" and "k \<le> length (spec_bytes ops)"
  shows "\<exists>n \<le> length ops.
     take k (spec_bytes ops) = spec_bytes (take n ops) \<and>
       codec_decode (Incomplete done) (take k (spec_bytes ops)) = None \<or>
     n < length ops \<and> (\<exists>v. ops ! n = Xor v \<and> take k (spec_bytes ops) = spec_bytes (take n ops) @ [2] \<or>
         ops ! n = Add v \<and> take k (spec_bytes ops) = spec_bytes (take n ops) @ [4]) \<and>
       codec_decode (Incomplete done) (take k (spec_bytes ops)) = Some (Incomplete (done @ take n ops), [], Ok None) \<and>
       (\<forall>rest. rest \<noteq> [] \<longrightarrow> codec_decode (Incomplete (done @ take n ops)) rest =
          codec_decode (Incomplete done) (spec_bytes (take n ops) @ rest))"
proof -
  obtain n where n: "n \<le> length ops" "take k (spec_bytes ops) = spec_bytes (take n ops) \<or>
       n < length ops \<and> (\<exists>v. ops ! n = Xor v \<and> take k (spec_bytes ops) = spec_bytes (take n ops) @ [2] \<or>
         ops ! n = Add v \<and> take k (spec_bytes ops) = spec_bytes (take n ops) @ [4])"
    using spec_beginnings [OF assms(2)] by blast
  have "codec_decode (Incomplete done) (take k (spec_bytes ops)) = None"
    if "take k (spec_bytes ops) = spec_bytes (take n ops)"
  proof -
    have "spec_bytes (take n ops) \<noteq> []"
      using assms that by (metis length_0_conv less_not_refl not_le take_eq_Nil)
    then show ?thesis
      using scan_ops [of "[]" 0 "take n ops" "[]"] unfolding that by (intro codec_decode_exhausted) simp_all
  qed
  with n show ?thesis
    by (intro exI [of _ n]) (auto simp: codec_decode_operand_missing codec_decode_ops simp del: codec_decode.simps)
qed

lemma spec_in_pieces_witness:
  "codec_decode (Incomplete [Addpos]) [1, 4] = Some (Incomplete [Addpos, Reversebits], [], Ok None) \<and>
   codec_decode (Incomplete [Addpos]) [1, 4, 7] = None"
proof -
  let ?ops = "[Reversebits, Add 7]"
  have bytes: "take 2 (spec_bytes ?ops) = [1, 4]" "take 3 (spec_bytes ?ops) = [1, 4, 7]"
    and k: "0 < (2::nat)" "0 < (3::nat)" "2 \<le> length (spec_bytes ?ops)" "3 \<le> length (spec_bytes ?ops)"
    by (simp_all add: spec_bytes_def)
  have two: "\<exists>n \<le> length ?ops. [1, 4] = spec_bytes (take n ?ops) \<or>
      (\<exists>c. [1, 4] = spec_bytes (take n ?ops) @ [c]) \<and>
      codec_decode (Incomplete [Addpos]) [1, 4] = Some (Incomplete ([Addpos] @ take n ?ops), [], Ok None)"
    using spec_in_pieces [OF k(1,3), of "[Addpos]"] unfolding bytes by blast
  have three: "\<exists>n \<le> length ?ops. codec_decode (Incomplete [Addpos]) [1, 4, 7] = None \<or>
      [1, 4, 7] = spec_bytes (take n ?ops) @ [2] \<or> [1, 4, 7] = spec_bytes (take n ?ops) @ [4]"
    using spec_in_pieces [OF k(2,4), of "[Addpos]"] unfolding bytes by blast
  show ?thesis
    using two three by (auto simp: spec_bytes_def le_Suc_eq)
qed

end
