(* ===== verification/VcsStore.thy ===== *)
theory VcsStore
  imports Text "HOL-Library.List_Lexorder"
begin

text \<open>
  The file store of the version control server, \<open>rust/p10-voracious-code-storage/src/vcs.rs\<close>: paths,
  the tree of entries, \<open>commit\<close>, \<open>list\<close> and the two ways to read a revision. The abstract
  specification is a history per path (\<open>history\<close>); \<open>revision_store\<close> is its interface and the tree is
  shown to provide it. A \<open>usize\<close> that counts what is in memory is a natural number here.
  A call is one step here; \<open>VcsLocks\<close> has the locks of the directories.
\<close>

section \<open>Errors and what a listing holds\<close>

datatype vcs_error = FileNotFound | DirNotFound | ReleaseNotFound | InvalidPath | InvalidData

datatype list_entry = Dir rstring nat | File rstring nat

fun list_entry_name :: "list_entry \<Rightarrow> rstring" where
  "list_entry_name (Dir n _) = n"
| "list_entry_name (File n _) = n"

text \<open>\<open>Ord::cmp\<close> of a \<open>ListEntry\<close>: by name only, so that entries of one name are equivalent to \<open>sort\<close>
  and still different to \<open>==\<close>.\<close>

definition list_entry_le :: "list_entry \<Rightarrow> list_entry \<Rightarrow> bool" where
  "list_entry_le e f \<longleftrightarrow> list_entry_name e \<le> list_entry_name f"

instantiation list_entry :: preorder
begin

definition less_eq_list_entry :: "list_entry \<Rightarrow> list_entry \<Rightarrow> bool" where
  "less_eq_list_entry = list_entry_le"

definition less_list_entry :: "list_entry \<Rightarrow> list_entry \<Rightarrow> bool" where
  "less_list_entry e f \<longleftrightarrow> list_entry_name e < list_entry_name f"

instance
  by standard (auto simp: less_eq_list_entry_def less_list_entry_def list_entry_le_def)

end

section \<open>The tree\<close>

datatype entry = Entry (entry_name: rstring) (subdirs: "entry list") (releases: "byte list list")

definition entry_file :: "byte list \<Rightarrow> byte list \<Rightarrow> entry" where
  "entry_file n data = Entry (utf8_lossy n) [] [data]"

definition entry_dir :: "byte list \<Rightarrow> entry list \<Rightarrow> entry" where
  "entry_dir n es = Entry (utf8_lossy n) es []"

text \<open>\<open>entry.iter().find(|entry| entry.name().as_bytes() == name)\<close>, and the update of what it finds.\<close>

fun find_entry :: "byte list \<Rightarrow> entry list \<Rightarrow> entry option" where
  "find_entry n [] = None"
| "find_entry n (e # es) = (if entry_name e = n then Some e else find_entry n es)"

fun update_entry :: "byte list \<Rightarrow> entry \<Rightarrow> entry list \<Rightarrow> entry list" where
  "update_entry n e' [] = []"
| "update_entry n e' (e # es) = (if entry_name e = n then e' # es else e # update_entry n e' es)"

section \<open>Paths\<close>

definition path_char :: "byte \<Rightarrow> bool" where
  "path_char c \<longleftrightarrow> is_ascii_alphanumeric c \<or> c \<in> {46, 95, 45, 47}"

definition path_is_valid :: "byte list \<Rightarrow> bool" where
  "path_is_valid p \<longleftrightarrow>
     p \<noteq> [] \<and> p ! 0 = 47 \<and> successively (\<lambda>a b. a \<noteq> 47 \<or> b \<noteq> 47) p \<and> list_all path_char p"

definition path_new :: "byte list \<Rightarrow> (vcs_error, byte list) outcome" where
  "path_new p = (if path_is_valid p then Ok p else Err InvalidPath)"

definition path_is_dir :: "byte list \<Rightarrow> bool" where
  "path_is_dir p \<longleftrightarrow> suffix [47] p"

text \<open>\<open>components\<close> with the filter that every user of it applies.\<close>

definition components :: "byte list \<Rightarrow> byte list list" where
  "components p = filter (\<lambda>c. c \<noteq> []) (split_by (\<lambda>b. b = 47) p)"

section \<open>Writing a revision\<close>

record write_revision =
  wr_path :: "byte list"
  wr_data :: "byte list"

text \<open>\<open>Vcs::put\<close> does not look at the path; \<open>poll_write\<close> of the \<open>Vec\<close> takes everything.\<close>

definition put :: "byte list \<Rightarrow> write_revision" where
  "put p = \<lparr>wr_path = p, wr_data = []\<rparr>"

definition wr_write :: "byte list \<Rightarrow> write_revision \<Rightarrow> write_revision" where
  "wr_write bs w = w\<lparr>wr_data := wr_data w @ bs\<rparr>"

definition data_ok :: "byte list \<Rightarrow> bool" where
  "data_ok d \<longleftrightarrow> list_all (\<lambda>b. is_ascii_graphic b \<or> is_ascii_whitespace b) d"

text \<open>The loop of \<open>commit\<close>: the tree after it (it is changed in place) and the result.\<close>

fun commit_loop :: "byte list \<Rightarrow> byte list list \<Rightarrow> entry list \<Rightarrow> entry list \<times> (vcs_error, nat) outcome" where
  "commit_loop data [] es = (es, Err FileNotFound)"
| "commit_loop data [name] es =
     (case find_entry name es of
        Some (Entry n subs rels) \<Rightarrow>
          (if rels \<noteq> [] \<and> last rels = data then (es, Ok (length rels - 1))
           else (update_entry name (Entry n subs (rels @ [data])) es, Ok (length rels)))
      | None \<Rightarrow> (es @ [entry_file name data], Ok 0))"
| "commit_loop data (dir # c # cs) es =
     (case find_entry dir es of
        Some (Entry n subs rels) \<Rightarrow>
          (let (subs', r) = commit_loop data (c # cs) subs
           in (update_entry dir (Entry n subs' rels) es, r))
      | None \<Rightarrow>
          (let (subs', r) = commit_loop data (c # cs) [] in (es @ [entry_dir dir subs'], r)))"

definition commit :: "write_revision \<Rightarrow> entry list \<Rightarrow> entry list \<times> (vcs_error, nat) outcome" where
  "commit w es =
     (if \<not> data_ok (wr_data w) then (es, Err InvalidData)
      else case path_new (wr_path w) of
        Ok path \<Rightarrow>
          (if path_is_dir path then (es, Err InvalidPath)
           else commit_loop (wr_data w) (components path) es)
      | Err e \<Rightarrow> (es, Err e)
      | Panic \<Rightarrow> (es, Panic))"

section \<open>Listing\<close>

fun list_loop :: "byte list list \<Rightarrow> entry list \<Rightarrow> (vcs_error, entry list) outcome" where
  "list_loop [] es = Ok es"
| "list_loop (c # cs) es =
     (case find_entry c es of Some (Entry n subs rels) \<Rightarrow> list_loop cs subs | None \<Rightarrow> Err DirNotFound)"

fun to_list_entry :: "entry \<Rightarrow> list_entry" where
  "to_list_entry (Entry n subs rels) =
     (if rels = [] then Dir n (length subs) else File n (length rels))"

definition vcs_list :: "byte list \<Rightarrow> entry list \<Rightarrow> (vcs_error, list_entry list) outcome" where
  "vcs_list p es =
     bind_outcome (path_new p) (\<lambda>path.
     bind_outcome (list_loop (components path) es) (\<lambda>dir.
     Ok (sort_key list_entry_name (map to_list_entry dir))))"

section \<open>Reading a revision\<close>

text \<open>\<open>get\<close> is given how to choose among the releases. In its loop a file that is not there leads to
  one more round, with no component left.\<close>

fun get_loop :: "(byte list list \<Rightarrow> byte list option) \<Rightarrow> byte list list \<Rightarrow> entry list \<Rightarrow> (vcs_error, byte list) outcome" where
  "get_loop f [] es = Err FileNotFound"
| "get_loop f [name] es =
     (case find_entry name es of
        Some (Entry n subs rels) \<Rightarrow>
          (case f rels of Some release \<Rightarrow> Ok release | None \<Rightarrow> Err ReleaseNotFound)
      | None \<Rightarrow> get_loop f [] es)"
| "get_loop f (dir # c # cs) es =
     (case find_entry dir es of
        Some (Entry n subs rels) \<Rightarrow> get_loop f (c # cs) subs
      | None \<Rightarrow> Err DirNotFound)"

record read_revision =
  rr_data :: "byte list"
  rr_index :: nat

definition vcs_get :: "byte list \<Rightarrow> (byte list list \<Rightarrow> byte list option) \<Rightarrow> entry list \<Rightarrow> (vcs_error, read_revision) outcome" where
  "vcs_get path f es =
     bind_outcome (get_loop f (components path) es) (\<lambda>release.
     Ok \<lparr>rr_data = release, rr_index = 0\<rparr>)"

definition get_current_revision :: "byte list \<Rightarrow> entry list \<Rightarrow> (vcs_error, read_revision) outcome" where
  "get_current_revision p es =
     bind_outcome (path_new p) (\<lambda>path.
     vcs_get path (\<lambda>vs. if vs = [] then None else Some (last vs)) es)"

definition get_revision :: "byte list \<Rightarrow> nat \<Rightarrow> entry list \<Rightarrow> (vcs_error, read_revision) outcome" where
  "get_revision p r es =
     bind_outcome (path_new p) (\<lambda>path.
     vcs_get path (\<lambda>vs. if r < length vs then Some (vs ! r) else None) es)"

text \<open>
  \<open>poll_read\<close> into a buffer that already holds \<open>filled\<close> of its \<open>capacity\<close> bytes. It measures the
  whole buffer and not what is left of it, and \<open>put_slice\<close> panics on what does not fit.
\<close>

definition rr_poll_read :: "nat \<Rightarrow> nat \<Rightarrow> read_revision \<Rightarrow> (vcs_error, byte list \<times> read_revision) outcome" where
  "rr_poll_read filled capacity rr =
     (let n = min capacity (length (rr_data rr) - rr_index rr) in
      if capacity - filled < n then Panic
      else Ok (take n (drop (rr_index rr) (rr_data rr)), rr\<lparr>rr_index := rr_index rr + n\<rparr>))"

section \<open>Entries of a directory\<close>

named_theorems store_simps \<open>what finding, updating and adding do to a directory\<close>

lemma find_entry_Some: "find_entry n es = Some e \<Longrightarrow> e \<in> set es \<and> entry_name e = n"
  by (induction es) (auto split: if_splits)

lemma find_entry_cases [consumes 1]:
  assumes "find_entry c es = Some e"
  obtains subs rels where "e = Entry c subs rels" "Entry c subs rels \<in> set es"
  using find_entry_Some [OF assms] by (cases e) auto

lemma find_entry_None: "find_entry n es = None \<longleftrightarrow> n \<notin> entry_name ` set es"
  by (induction es) auto

lemma find_entry_distinct:
  "distinct (map entry_name es) \<Longrightarrow> find_entry n es = Some e \<longleftrightarrow> e \<in> set es \<and> entry_name e = n"
  by (induction es) (auto simp: image_iff)

lemma find_update [store_simps]:
  "entry_name e' = n \<Longrightarrow> find_entry n es \<noteq> None \<Longrightarrow>
     find_entry m (update_entry n e' es) = (if m = n then Some e' else find_entry m es)"
  by (induction es) auto

lemma find_add [store_simps]:
  "find_entry m (es @ [e]) =
     (case find_entry m es of Some x \<Rightarrow> Some x | None \<Rightarrow> if entry_name e = m then Some e else None)"
  by (induction es) auto

lemma names_update [store_simps]:
  "entry_name e' = n \<Longrightarrow> map entry_name (update_entry n e' es) = map entry_name es"
  by (induction es) auto

lemma set_update: "set (update_entry n e' es) \<subseteq> insert e' (set es)"
  by (induction es) auto

lemma length_update [store_simps]: "length (update_entry n e' es) = length es"
  by (induction es) auto

lemma update_Nil [simp]: "update_entry n e' es = [] \<longleftrightarrow> es = []"
  by (cases es) auto

section \<open>The abstract specification: a history for every path\<close>

fun node_at :: "byte list list \<Rightarrow> entry list \<Rightarrow> entry option" where
  "node_at [] es = None"
| "node_at [c] es = find_entry c es"
| "node_at (c # d # cs) es =
     (case find_entry c es of None \<Rightarrow> None | Some e \<Rightarrow> node_at (d # cs) (subdirs e))"

definition history :: "entry list \<Rightarrow> byte list list \<Rightarrow> byte list list" where
  "history es p = (case node_at p es of None \<Rightarrow> [] | Some e \<Rightarrow> releases e)"

text \<open>A revision that equals the last one is not stored again.\<close>

definition add_revision :: "'d \<Rightarrow> 'd list \<Rightarrow> 'd list" where
  "add_revision d h = (if h \<noteq> [] \<and> last h = d then h else h @ [d])"

definition component_ok :: "byte list \<Rightarrow> bool" where
  "component_ok c \<longleftrightarrow> c \<noteq> [] \<and> list_all (\<lambda>b. path_char b \<and> b \<noteq> 47) c"

definition file_ok :: "byte list list \<Rightarrow> bool" where
  "file_ok cs \<longleftrightarrow> cs \<noteq> [] \<and> list_all component_ok cs"

lemma history_simps [store_simps]:
  "history es [] = []"
  "history es [c] = (case find_entry c es of None \<Rightarrow> [] | Some e \<Rightarrow> releases e)"
  "history es (c # d # cs) = (case find_entry c es of None \<Rightarrow> [] | Some e \<Rightarrow> history (subdirs e) (d # cs))"
  by (auto simp: history_def split: option.splits)

lemma node_at_Nil [simp]: "node_at p [] = None"
  by (cases p rule: remdups_adj.cases) auto

lemma history_Nil [simp]: "history [] p = []"
  by (simp add: history_def)

lemma add_revision_prefix: "prefix h (add_revision d h)"
  by (simp add: add_revision_def)

lemma add_revision_last [simp]: "add_revision d h \<noteq> []" "last (add_revision d h) = d"
  by (auto simp: add_revision_def)

lemma path_char_graphic: "path_char b \<Longrightarrow> is_ascii_graphic b"
  by (auto simp: path_char_def is_ascii_graphic_def is_ascii_alphanumeric_def is_ascii_digit_def
      word_le_nat_alt)

lemma component_lossy: "component_ok c \<Longrightarrow> utf8_lossy c = c"
  by (intro utf8_lossy_valid utf8_valid_ascii)
    (auto simp: component_ok_def list_all_iff intro: graphic_ascii path_char_graphic)

lemma commit_loop_history:
  "list_all component_ok cs \<Longrightarrow> cs \<noteq> [] \<Longrightarrow>
     history (fst (commit_loop data cs es)) q =
       (if q = cs then add_revision data (history es cs) else history es q)"
proof (induction data cs es arbitrary: q rule: commit_loop.induct)
  case (2 data c es)
  show ?case
  proof (cases "find_entry c es")
    case None
    with 2 show ?thesis
      by (cases q rule: remdups_adj.cases)
        (auto simp: store_simps entry_file_def component_lossy add_revision_def split: option.splits)
  next
    case (Some e)
    from Some obtain subs rels where "e = Entry c subs rels"
      by (cases rule: find_entry_cases)
    with Some 2 show ?thesis
      by (cases q rule: remdups_adj.cases) (simp_all add: store_simps add_revision_def)
  qed
next
  case (3 data dir c cs es)
  show ?case
  proof (cases "find_entry dir es")
    case None
    with 3 show ?thesis
      by (cases q rule: remdups_adj.cases)
        (auto simp: store_simps entry_dir_def component_lossy split_beta split: option.splits)
  next
    case (Some e)
    from Some obtain subs rels where "e = Entry dir subs rels"
      by (cases rule: find_entry_cases)
    with Some show ?thesis
      using 3 by (cases q rule: remdups_adj.cases) (auto simp: store_simps split_beta)
  qed
qed simp

lemma commit_loop_result:
  "cs \<noteq> [] \<Longrightarrow> list_all component_ok cs \<Longrightarrow>
     snd (commit_loop data cs es) = Ok (length (add_revision data (history es cs)) - 1)"
proof (induction data cs es rule: commit_loop.induct)
  case (3 data dir c cs es)
  then show ?case
    by (cases "find_entry dir es") (auto simp: store_simps split_beta split: entry.splits)
qed (auto simp: store_simps add_revision_def split: option.splits entry.splits)

lemma commit_loop_node:
  "list_all component_ok cs \<Longrightarrow> cs \<noteq> [] \<Longrightarrow>
     node_at q (fst (commit_loop data cs es)) = None \<longleftrightarrow>
       node_at q es = None \<and> (q = [] \<or> \<not> prefix q cs)"
proof (induction data cs es arbitrary: q rule: commit_loop.induct)
  case (2 data c es)
  show ?case
  proof (cases "find_entry c es")
    case None
    with 2 show ?thesis
      by (cases q rule: remdups_adj.cases)
        (auto simp: store_simps entry_file_def component_lossy add_revision_def split: option.splits)
  next
    case (Some e)
    from Some obtain subs rels where "e = Entry c subs rels"
      by (cases rule: find_entry_cases)
    with Some 2 show ?thesis
      by (cases q rule: remdups_adj.cases) (simp_all add: store_simps add_revision_def)
  qed
next
  case (3 data dir c cs es)
  show ?case
  proof (cases "find_entry dir es")
    case None
    with 3 have IH: "node_at p (fst (commit_loop data (c # cs) [])) = None \<longleftrightarrow> p = [] \<or> \<not> prefix p (c # cs)" for p
      by simp
    have "utf8_lossy dir = dir"
      using 3 by (simp add: component_lossy)
    with None show ?thesis
      by (cases q rule: remdups_adj.cases)
        (auto simp: store_simps entry_dir_def split_beta IH split: option.splits)
  next
    case (Some e)
    from Some obtain subs rels where "e = Entry dir subs rels"
      by (cases rule: find_entry_cases)
    with Some 3 have IH: "node_at p (fst (commit_loop data (c # cs) subs)) = None \<longleftrightarrow>
        node_at p subs = None \<and> (p = [] \<or> \<not> prefix p (c # cs))" for p
      by simp
    from Some \<open>e = _\<close> show ?thesis
      by (cases q rule: remdups_adj.cases) (simp_all add: store_simps split_beta IH)
  qed
qed simp

section \<open>Well-formed trees\<close>

text \<open>Names are components and unique in their directory, no two neighbours of a history are equal,
  and an entry without a release has entries beneath it.\<close>

fun entry_ok :: "entry \<Rightarrow> bool" where
  "entry_ok (Entry n subs rels) \<longleftrightarrow>
     component_ok n \<and> (rels = [] \<longrightarrow> subs \<noteq> []) \<and> successively (\<noteq>) rels \<and> list_all data_ok rels \<and>
     distinct (map entry_name subs) \<and> (\<forall>e \<in> set subs. entry_ok e)"

definition tree_ok :: "entry list \<Rightarrow> bool" where
  "tree_ok es \<longleftrightarrow> distinct (map entry_name es) \<and> (\<forall>e \<in> set es. entry_ok e)"

lemma tree_ok_Nil: "tree_ok []"
  by (simp add: tree_ok_def)

lemma entry_ok_Entry:
  "entry_ok (Entry n subs rels) \<longleftrightarrow>
     component_ok n \<and> (rels = [] \<longrightarrow> subs \<noteq> []) \<and> successively (\<noteq>) rels \<and> list_all data_ok rels \<and> tree_ok subs"
  by (auto simp: tree_ok_def)

lemma tree_ok_update:
  "tree_ok es \<Longrightarrow> entry_ok e \<Longrightarrow> entry_name e = n \<Longrightarrow> tree_ok (update_entry n e es)"
  using set_update [of n e es] by (auto simp: tree_ok_def names_update)

lemma tree_ok_add:
  "tree_ok es \<Longrightarrow> entry_ok e \<Longrightarrow> find_entry (entry_name e) es = None \<Longrightarrow> tree_ok (es @ [e])"
  by (auto simp: tree_ok_def find_entry_None)

lemma tree_ok_find: "tree_ok es \<Longrightarrow> find_entry n es = Some e \<Longrightarrow> entry_ok e"
  by (auto simp: tree_ok_def dest: find_entry_Some)

lemma successively_add_revision:
  "successively (\<noteq>) h \<Longrightarrow> successively (\<noteq>) (add_revision d h)"
  by (auto simp: add_revision_def successively_append_iff)

lemma commit_loop_nonempty: "cs \<noteq> [] \<Longrightarrow> fst (commit_loop data cs es) \<noteq> []"
  by (induction data cs es rule: commit_loop.induct)
    (auto simp: split_beta split: option.splits entry.splits dest: find_entry_Some)

lemma commit_loop_tree_ok:
  "tree_ok es \<Longrightarrow> list_all component_ok cs \<Longrightarrow> data_ok data \<Longrightarrow> tree_ok (fst (commit_loop data cs es))"
proof (induction data cs es rule: commit_loop.induct)
  case (2 data c es)
  show ?case
  proof (cases "find_entry c es")
    case None
    with 2 show ?thesis
      by (auto simp: entry_file_def component_lossy tree_ok_Nil entry_ok_Entry intro!: tree_ok_add
          simp del: entry_ok.simps)
  next
    case (Some e)
    from Some obtain subs rels where e: "e = Entry c subs rels"
      by (cases rule: find_entry_cases)
    then have "entry_ok (Entry c subs (rels @ [data]))" if "rels = [] \<or> last rels \<noteq> data"
      using tree_ok_find [OF 2(1) Some] that 2 by (auto simp: successively_append_iff)
    with Some e 2 show ?thesis
      by (auto intro: tree_ok_update simp del: entry_ok.simps)
  qed
next
  case (3 data dir c cs es)
  show ?case
  proof (cases "find_entry dir es")
    case None
    moreover have "tree_ok (fst (commit_loop data (c # cs) []))"
      using None 3 by (simp add: tree_ok_Nil)
    ultimately show ?thesis
      using 3 by (auto simp: entry_dir_def component_lossy entry_ok_Entry split_beta commit_loop_nonempty
          simp del: entry_ok.simps intro!: tree_ok_add)
  next
    case (Some e)
    from Some obtain subs rels where e: "e = Entry dir subs rels"
      by (cases rule: find_entry_cases)
    with Some 3 tree_ok_find [OF 3(3) Some] have "tree_ok (fst (commit_loop data (c # cs) subs))"
      by (auto simp: entry_ok_Entry simp del: entry_ok.simps)
    with tree_ok_find [OF 3(3) Some] e have "entry_ok (Entry dir (fst (commit_loop data (c # cs) subs)) rels)"
      by (auto simp: entry_ok_Entry commit_loop_nonempty simp del: entry_ok.simps)
    with Some e 3(3) show ?thesis
      by (auto simp: split_beta intro: tree_ok_update simp del: entry_ok.simps)
  qed
qed simp

lemma tree_ok_history: "tree_ok es \<Longrightarrow> successively (\<noteq>) (history es p) \<and> list_all data_ok (history es p)"
proof (induction p es rule: node_at.induct)
  case (2 c es)
  then show ?case
    by (cases "find_entry c es") (auto simp: store_simps entry_ok_Entry dest!: tree_ok_find split: entry.splits elim!: entry_ok.elims)
next
  case (3 c d cs es)
  show ?case
  proof (cases "find_entry c es")
    case (Some e)
    with tree_ok_find [OF 3(2) Some] have "tree_ok (subdirs e)"
      by (cases e) (simp add: entry_ok_Entry del: entry_ok.simps)
    with 3(1) Some show ?thesis
      by (simp add: store_simps)
  qed (simp add: store_simps)
qed (simp add: store_simps)

text \<open>In a well-formed tree there is an entry exactly on the way to a file.\<close>

lemma tree_has_file: "tree_ok es \<Longrightarrow> es \<noteq> [] \<Longrightarrow> \<exists>p. history es p \<noteq> []"
proof (induction es rule: measure_induct_rule [where f = "size_list size"])
  case (less es)
  then obtain e fs where "es = e # fs"
    by (cases es) auto
  moreover obtain n subs rels where "e = Entry n subs rels"
    by (cases e)
  ultimately have es: "es = Entry n subs rels # fs"
    by simp
  show ?case
  proof (cases "rels = []")
    case True
    with less(2) es have "tree_ok subs" "subs \<noteq> []"
      by (auto simp: tree_ok_def)
    with less(1) es obtain p where "history subs p \<noteq> []"
      by fastforce
    moreover from this have "p \<noteq> []"
      by (auto simp: store_simps)
    ultimately have "history es (n # p) \<noteq> []"
      using es by (cases p) (auto simp: store_simps)
    then show ?thesis ..
  next
    case False
    then have "history es [n] \<noteq> []"
      using es by (simp add: store_simps)
    then show ?thesis ..
  qed
qed

text \<open>The entries of the directory with these components, if it is there.\<close>

definition dir_at :: "byte list list \<Rightarrow> entry list \<Rightarrow> entry list option" where
  "dir_at p es = (if p = [] then Some es else map_option subdirs (node_at p es))"

lemma dir_at_simps [store_simps]:
  "dir_at [] es = Some es"
  "dir_at (c # cs) es = (case find_entry c es of None \<Rightarrow> None | Some e \<Rightarrow> dir_at cs (subdirs e))"
  by (cases cs; auto simp: dir_at_def split: option.splits)+

lemma history_append:
  "dir_at p es = Some fs \<Longrightarrow> q \<noteq> [] \<Longrightarrow> history es (p @ q) = history fs q"
proof (induction p arbitrary: es)
  case (Cons c p)
  from Cons.prems obtain e where "find_entry c es = Some e" "dir_at p (subdirs e) = Some fs"
    by (auto simp: store_simps split: option.splits)
  with Cons.IH [of "subdirs e"] Cons.prems(2) show ?case
    by (cases "p @ q") (auto simp: store_simps)
qed (simp add: store_simps)

lemma dir_at_tree_ok: "tree_ok es \<Longrightarrow> dir_at p es = Some fs \<Longrightarrow> tree_ok fs"
proof (induction p arbitrary: es)
  case (Cons c p)
  from Cons.prems obtain e where e: "find_entry c es = Some e" "dir_at p (subdirs e) = Some fs"
    by (auto simp: store_simps split: option.splits)
  have "tree_ok (subdirs e)"
    using tree_ok_find [OF Cons.prems(1) e(1)] by (cases e) (simp add: entry_ok_Entry del: entry_ok.simps)
  with Cons.IH e show ?case
    by blast
qed (simp add: store_simps)

lemma node_at_extend: "history es (p @ q) \<noteq> [] \<Longrightarrow> p \<noteq> [] \<Longrightarrow> node_at p es \<noteq> None"
proof (induction p es arbitrary: q rule: node_at.induct)
  case (2 c es)
  then show ?case
    by (cases q) (auto simp: store_simps split: option.splits)
next
  case (3 c d cs es)
  then show ?case
    by (auto simp: store_simps split: option.splits)
qed simp

lemma node_at_iff:
  assumes "tree_ok es" "p \<noteq> []"
  shows "node_at p es \<noteq> None \<longleftrightarrow> (\<exists>q. history es (p @ q) \<noteq> [])"
proof
  assume "node_at p es \<noteq> None"
  then obtain e where e: "node_at p es = Some e"
    by blast
  show "\<exists>q. history es (p @ q) \<noteq> []"
  proof (cases "releases e = []")
    case False
    then have "history es (p @ []) \<noteq> []"
      using e by (simp add: history_def)
    then show ?thesis ..
  next
    case True
    have d: "dir_at p es = Some (subdirs e)"
      using e assms(2) by (simp add: dir_at_def)
    then have ok: "tree_ok (subdirs e)"
      using assms(1) dir_at_tree_ok by blast
    have "subdirs e \<noteq> []"
      using assms e True
    proof (induction p es rule: node_at.induct)
      case (2 c es)
      then show ?case
        by (cases e) (auto dest: tree_ok_find simp: entry_ok_Entry simp del: entry_ok.simps)
    next
      case (3 c d cs es)
      then obtain f where f: "find_entry c es = Some f" "node_at (d # cs) (subdirs f) = Some e"
        by (auto split: option.splits)
      have "tree_ok (subdirs f)"
        using tree_ok_find [OF 3(2) f(1)] by (cases f) (simp add: entry_ok_Entry del: entry_ok.simps)
      with 3 f show ?case
        by simp
    qed simp
    then obtain q where "history (subdirs e) q \<noteq> []"
      using tree_has_file [OF ok] by blast
    moreover from this have "q \<noteq> []"
      by (auto simp: store_simps)
    ultimately have "history es (p @ q) \<noteq> []"
      using history_append [OF d] by simp
    then show ?thesis ..
  qed
qed (use node_at_extend assms(2) in blast)

section \<open>What reading and listing return\<close>

lemma get_loop_node:
  "cs \<noteq> [] \<Longrightarrow> node_at cs es = Some e \<Longrightarrow>
     get_loop f cs es = (case f (releases e) of Some d \<Rightarrow> Ok d | None \<Rightarrow> Err ReleaseNotFound)"
proof (induction f cs es rule: get_loop.induct)
  case (2 f c es)
  then show ?case
    by (cases e) simp
next
  case (3 f dir c cs es)
  then obtain n subs rels where "find_entry dir es = Some (Entry n subs rels)" "node_at (c # cs) subs = Some e"
    by (auto split: option.splits) (metis entry.collapse)
  with 3(1) show ?case
    by simp
qed simp

lemma get_loop_missing:
  "cs \<noteq> [] \<Longrightarrow> node_at cs es = None \<Longrightarrow>
     get_loop f cs es = Err (if dir_at (butlast cs) es = None then DirNotFound else FileNotFound)"
proof (induction f cs es rule: get_loop.induct)
  case (3 f dir c cs es)
  then show ?case
    by (auto simp: store_simps split: option.splits entry.splits)
qed (simp_all add: store_simps)

lemma list_loop_dir:
  "list_loop cs es = (case dir_at cs es of Some fs \<Rightarrow> Ok fs | None \<Rightarrow> Err DirNotFound)"
  by (induction cs es rule: list_loop.induct) (auto simp: store_simps split: option.splits entry.splits)

lemma to_list_entry_name [simp]: "list_entry_name (to_list_entry e) = entry_name e"
  by (cases e) simp

lemma to_list_entry_File:
  "File n k = to_list_entry e \<longleftrightarrow> entry_name e = n \<and> releases e \<noteq> [] \<and> k = length (releases e)"
  by (cases e) auto

section \<open>What paths name\<close>

lemma components_ok: "path_is_valid p \<Longrightarrow> list_all component_ok (components p)"
  by (auto simp: components_def path_is_valid_def list_all_iff component_ok_def dest: split_by_pieces)

lemma path_of_components:
  "list_all component_ok cs \<Longrightarrow> components (concat (map (\<lambda>c. 47 # c) cs)) = cs"
proof -
  assume ok: "list_all component_ok cs"
  have "split_by (\<lambda>b. b = 47) (d @ concat (map (\<lambda>c. 47 # c) cs)) = d # cs" if "\<forall>b \<in> set d. b \<noteq> 47" for d
    using ok that
    by (induction cs arbitrary: d) (auto simp: split_by_none split_by_append component_ok_def list_all_iff)
  from this [of "[]"] ok show ?thesis
    by (auto simp: components_def component_ok_def list_all_iff filter_id_conv)
qed

lemma components_nonempty: "path_is_valid p \<Longrightarrow> \<not> path_is_dir p \<Longrightarrow> components p \<noteq> []"
proof -
  assume p: "path_is_valid p" "\<not> path_is_dir p"
  then obtain q b where q: "p = q @ [b]"
    by (cases p rule: rev_cases) (auto simp: path_is_valid_def)
  with p(2) have "b \<noteq> 47"
    by (auto simp: path_is_dir_def)
  then have "b \<in> set (concat (split_by (\<lambda>b. b = 47) p))"
    by (simp add: split_by_set q del: set_concat)
  then show ?thesis
    by (force simp: components_def filter_empty_conv)
qed

lemma path_is_file: "path_is_valid p \<Longrightarrow> \<not> path_is_dir p \<Longrightarrow> file_ok (components p)"
  by (simp add: file_ok_def components_ok components_nonempty)

section \<open>The interface of a store of histories\<close>

text \<open>
  What a client of the store relies on: \<open>add\<close> extends the history of one file, \<open>read\<close> looks a
  revision up. Everything that has been given a number keeps it, whatever is added later.
\<close>

locale revision_store =
  fixes add :: "'p \<Rightarrow> 'd \<Rightarrow> 's \<Rightarrow> 's"
    and read :: "'p \<Rightarrow> nat \<Rightarrow> 's \<Rightarrow> 'd option"
    and hist :: "'s \<Rightarrow> 'p \<Rightarrow> 'd list"
    and ok :: "'p \<Rightarrow> bool"
  assumes hist_add: "ok p \<Longrightarrow> hist (add p d s) q = (if q = p then add_revision d (hist s p) else hist s q)"
    and read_hist: "ok p \<Longrightarrow> read p r s = (if r < length (hist s p) then Some (hist s p ! r) else None)"
begin

definition adds :: "('p \<times> 'd) list \<Rightarrow> 's \<Rightarrow> 's" where
  "adds ops s = fold (\<lambda>(p, d). add p d) ops s"

lemma adds_Cons: "adds ((p, d) # ops) s = adds ops (add p d s)"
  by (simp add: adds_def)

lemma hist_add_prefix: "ok p \<Longrightarrow> prefix (hist s q) (hist (add p d s) q)"
  by (simp add: hist_add add_revision_prefix)

lemma hist_adds_prefix: "\<forall>(p, d) \<in> set ops. ok p \<Longrightarrow> prefix (hist s q) (hist (adds ops s) q)"
proof (induction ops arbitrary: s)
  case (Cons op ops)
  obtain p d where "op = (p, d)"
    by (cases op)
  with Cons show ?case
    using hist_add_prefix [of p s q d] by (auto simp: adds_Cons intro: prefix_order.trans)
qed (simp add: adds_def)

lemma read_add: "ok p \<Longrightarrow> read p (length (hist (add p d s) p) - 1) (add p d s) = Some d"
  using last_conv_nth [of "add_revision d (hist s p)"] by (simp add: read_hist hist_add)

lemma read_prefix: "ok p \<Longrightarrow> prefix (hist s p) (hist t p) \<Longrightarrow> read p r s = Some d \<Longrightarrow> read p r t = Some d"
  by (auto simp: read_hist prefix_def nth_append split: if_splits)

lemma read_adds:
  "\<forall>(p, d) \<in> set ops. ok p \<Longrightarrow> ok p \<Longrightarrow> read p r s = Some d \<Longrightarrow> read p r (adds ops s) = Some d"
  by (rule read_prefix [OF _ hist_adds_prefix])

end

text \<open>The tree provides it, with the components of a file as its name.\<close>

definition tree_add :: "byte list list \<Rightarrow> byte list \<Rightarrow> entry list \<Rightarrow> entry list" where
  "tree_add cs d es = fst (commit_loop d cs es)"

definition tree_read :: "byte list list \<Rightarrow> nat \<Rightarrow> entry list \<Rightarrow> byte list option" where
  "tree_read cs r es =
     (case get_loop (\<lambda>vs. if r < length vs then Some (vs ! r) else None) cs es of Ok d \<Rightarrow> Some d | _ \<Rightarrow> None)"

interpretation tree: revision_store tree_add tree_read history file_ok
proof unfold_locales
  show "history (tree_add p d s) q = (if q = p then add_revision d (history s p) else history s q)"
    if "file_ok p" for p d s q
    using that by (simp add: tree_add_def file_ok_def commit_loop_history)
next
  show "tree_read p r s = (if r < length (history s p) then Some (history s p ! r) else None)"
    if "file_ok p" for p r s
    using that
    by (cases "node_at p s") (auto simp: tree_read_def history_def file_ok_def get_loop_node get_loop_missing)
qed

section \<open>The operations on paths\<close>

lemma commit_Ok_iff:
  "snd (commit w es) = Ok r \<longleftrightarrow>
     data_ok (wr_data w) \<and> path_is_valid (wr_path w) \<and> \<not> path_is_dir (wr_path w) \<and>
     r = length (add_revision (wr_data w) (history es (components (wr_path w)))) - 1"
  by (auto simp: commit_def path_new_def commit_loop_result components_ok components_nonempty)

lemma commit_Ok_tree:
  "snd (commit w es) = Ok r \<Longrightarrow> fst (commit w es) = tree_add (components (wr_path w)) (wr_data w) es"
  by (auto simp: commit_def path_new_def tree_add_def split: if_splits)

lemma commit_not_Ok: "(\<forall>r. snd (commit w es) \<noteq> Ok r) \<Longrightarrow> fst (commit w es) = es"
  by (auto simp: commit_def path_new_def commit_loop_result components_ok components_nonempty)

lemma get_revision_tree:
  "get_revision p r es = Ok \<lparr>rr_data = d, rr_index = 0\<rparr> \<longleftrightarrow>
     path_is_valid p \<and> tree_read (components p) r es = Some d"
  by (auto simp: get_revision_def vcs_get_def path_new_def tree_read_def split: outcome.splits)

lemma get_revision_history:
  "path_is_valid p \<Longrightarrow> \<not> path_is_dir p \<Longrightarrow>
     get_revision p r es = Ok \<lparr>rr_data = d, rr_index = 0\<rparr> \<longleftrightarrow>
       r < length (history es (components p)) \<and> d = history es (components p) ! r"
  by (auto simp: get_revision_tree tree.read_hist path_is_file split: if_splits)

lemma get_current_history:
  "path_is_valid p \<Longrightarrow> \<not> path_is_dir p \<Longrightarrow>
     get_current_revision p es = Ok \<lparr>rr_data = d, rr_index = 0\<rparr> \<longleftrightarrow>
       history es (components p) \<noteq> [] \<and> d = last (history es (components p))"
  by (cases "node_at (components p) es")
    (auto simp: get_current_revision_def vcs_get_def path_new_def history_def components_nonempty
      get_loop_node get_loop_missing)

lemma commit_eq:
  "commit w es =
     (if \<not> data_ok (wr_data w) then (es, Err InvalidData)
      else if \<not> path_is_valid (wr_path w) \<or> path_is_dir (wr_path w) then (es, Err InvalidPath)
      else (tree_add (components (wr_path w)) (wr_data w) es,
            Ok (length (add_revision (wr_data w) (history es (components (wr_path w)))) - 1)))"
  by (auto simp: commit_def path_new_def tree_add_def commit_loop_result components_ok components_nonempty
      intro!: prod_eqI)

lemma commit_history_prefix: "prefix (history es q) (history (fst (commit w es)) q)"
  by (simp add: commit_eq tree.hist_add_prefix path_is_file)

lemma commits_history_prefix: "prefix (history es q) (history (fold (\<lambda>w s. fst (commit w s)) ws es) q)"
  by (induction ws arbitrary: es) (auto intro: commit_history_prefix prefix_order.trans)

text \<open>The states of a store: what commits, in any order and of any clients, make of the empty tree.\<close>

definition commit_step :: "entry list \<Rightarrow> entry list \<Rightarrow> bool" where
  "commit_step es es' \<longleftrightarrow> (\<exists>w. es' = fst (commit w es))"

interpretation store: invariant_system "(=) []" commit_step tree_ok
proof unfold_locales
  show "tree_ok t" if "commit_step s t" "tree_ok s" for s t
    using that
    by (auto simp: commit_step_def commit_eq tree_add_def commit_loop_tree_ok components_ok)
qed (simp add: tree_ok_Nil)

text \<open>A listing is in the order of its entries.\<close>

lemma vcs_list_ascending: "vcs_list p es = Ok l \<Longrightarrow> sorted_wrt (\<le>) l"
proof -
  assume "vcs_list p es = Ok l"
  then obtain dir where "l = sort_key list_entry_name (map to_list_entry dir)"
    by (auto simp: vcs_list_def)
  then have "sorted (map list_entry_name l)"
    by simp
  then show ?thesis
    unfolding sorted_map less_eq_list_entry_def by (simp add: list_entry_le_def [abs_def])
qed

lemma list_names:
  assumes "tree_ok es" "dir_at p es = Some fs"
  shows "entry_name ` set fs = {n. \<exists>q. history es (p @ n # q) \<noteq> []}"
proof -
  have "tree_ok fs"
    using assms dir_at_tree_ok by blast
  have "n \<in> entry_name ` set fs \<longleftrightarrow> (\<exists>q. history es (p @ n # q) \<noteq> [])" for n
    using node_at_iff [OF \<open>tree_ok fs\<close>, of "[n]"] find_entry_None [of n fs] history_append [OF assms(2)]
    by auto
  then show ?thesis
    by blast
qed

lemma list_of_dir:
  assumes "tree_ok es" and "dir_at p es = Some fs" and l: "l = sort_key list_entry_name (map to_list_entry fs)"
  shows "sorted_wrt (<) (map list_entry_name l)"
    and "list_entry_name ` set l = {n. \<exists>q. history es (p @ n # q) \<noteq> []}"
    and "File n k \<in> set l \<longleftrightarrow> 0 < k \<and> k = length (history es (p @ [n]))"
proof -
  have ok: "tree_ok fs"
    using assms dir_at_tree_ok by blast
  have "distinct (map list_entry_name l)"
    using ok unfolding l tree_ok_def by (simp add: distinct_map distinct_sort inj_on_def) (metis to_list_entry_name)
  moreover have "sorted (map list_entry_name l)"
    by (simp add: l)
  ultimately show "sorted_wrt (<) (map list_entry_name l)"
    by (simp add: strict_sorted_iff)
  show "list_entry_name ` set l = {n. \<exists>q. history es (p @ n # q) \<noteq> []}"
    using list_names [OF assms(1,2)] by (simp add: l image_image)
  have "File n k \<in> set l \<longleftrightarrow> (\<exists>e \<in> set fs. entry_name e = n \<and> releases e \<noteq> [] \<and> k = length (releases e))"
    by (simp add: l image_iff to_list_entry_File)
  also have "\<dots> \<longleftrightarrow> (\<exists>e. find_entry n fs = Some e \<and> releases e \<noteq> [] \<and> k = length (releases e))"
    using ok by (auto simp: find_entry_distinct tree_ok_def)
  also have "\<dots> \<longleftrightarrow> 0 < k \<and> k = length (history fs [n])"
    by (auto simp: store_simps split: option.splits)
  finally show "File n k \<in> set l \<longleftrightarrow> 0 < k \<and> k = length (history es (p @ [n]))"
    by (simp add: history_append [OF assms(2)])
qed

section \<open>Properties\<close>

text \<open>C6: A commit of text to a file gives the next number (or that of the last revision, if the text
  is the same), under which and as the current revision it is read back. The history of the file
  gets it at its end, and no other file changes.\<close>

theorem commit_then_get:
  assumes "path_is_valid p" and "\<not> path_is_dir p" and "data_ok d"
  shows "\<exists>es' r. commit (wr_write d (put p)) es = (es', Ok r) \<and>
      get_revision p r es' = Ok \<lparr>rr_data = d, rr_index = 0\<rparr> \<and>
      get_current_revision p es' = Ok \<lparr>rr_data = d, rr_index = 0\<rparr> \<and>
      r + 1 = length (history es' (components p)) \<and>
      (\<forall>q. history es' q = (if q = components p then add_revision d (history es q) else history es q))"
proof -
  let ?cs = "components p"
  have ok: "file_ok ?cs"
    using assms path_is_file by blast
  have r: "tree_read ?cs (length (add_revision d (history es ?cs)) - 1) (tree_add ?cs d es) = Some d"
    using tree.read_add [OF ok, of d es] by (simp add: tree.hist_add ok)
  have "commit (wr_write d (put p)) es = (tree_add ?cs d es, Ok (length (add_revision d (history es ?cs)) - 1))"
    using assms by (simp add: commit_eq wr_write_def put_def)
  moreover have "get_revision p (length (add_revision d (history es ?cs)) - 1) (tree_add ?cs d es)
      = Ok \<lparr>rr_data = d, rr_index = 0\<rparr>"
    using r assms by (simp add: get_revision_tree)
  ultimately show ?thesis
    using assms ok by (auto simp: get_current_history tree.hist_add)
qed

lemma commit_then_get_witness:
  "\<exists>es' r. commit (wr_write (ascii ''hi'') (put (ascii ''/a/b''))) [] = (es', Ok r) \<and>
      get_revision (ascii ''/a/b'') r es' = Ok \<lparr>rr_data = ascii ''hi'', rr_index = 0\<rparr>"
proof -
  have "path_is_valid (ascii ''/a/b'')" "\<not> path_is_dir (ascii ''/a/b'')" "data_ok (ascii ''hi'')"
    by (simp_all add: ascii_def path_is_valid_def path_is_dir_def data_ok_def path_char_def suffix_def
        is_ascii_alphanumeric_def is_ascii_digit_def is_ascii_graphic_def is_ascii_whitespace_def)
  from commit_then_get [OF this, of "[]"] show ?thesis
    by blast
qed

text \<open>Once a revision of a path can be read, it reads the same after any sequence of commits,
  those that are refused included.\<close>

theorem revisions_immutable:
  assumes "get_revision p r es = Ok x"
  shows "get_revision p r (fold (\<lambda>w s. fst (commit w s)) ws es) = Ok x"
proof -
  from assms have valid: "path_is_valid p"
    by (auto simp: get_revision_def path_new_def split: if_splits)
  obtain d where d: "x = \<lparr>rr_data = d, rr_index = 0\<rparr>"
    using assms by (auto simp: get_revision_def vcs_get_def)
  have read: "tree_read (components p) r es = Some d"
    using assms d get_revision_tree by blast
  then have "components p \<noteq> []"
    by (auto simp: tree_read_def)
  then have "file_ok (components p)"
    using valid by (simp add: file_ok_def components_ok)
  from tree.read_prefix [OF this commits_history_prefix read] show ?thesis
    using valid d get_revision_tree by blast
qed

lemma revisions_immutable_witness:
  "get_revision (ascii ''/a'') 0 (fold (\<lambda>w s. fst (commit w s)) [wr_write (ascii ''new'') (put (ascii ''/a''))]
     [Entry (ascii ''a'') [] [ascii ''old'']]) = Ok \<lparr>rr_data = ascii ''old'', rr_index = 0\<rparr>"
  by (rule revisions_immutable)
    (simp add: get_revision_def vcs_get_def path_new_def ascii_def path_is_valid_def path_char_def components_def
      is_ascii_alphanumeric_def is_ascii_digit_def)

text \<open>C20: Whatever is committed: the names of a directory are valid components and unique, no directory
  is empty, and no two neighbours in the history of a file are the same.\<close>

theorem store_invariant:
  assumes "reach ((=) []) commit_step es"
  shows "tree_ok es \<and> (\<forall>p. successively (\<noteq>) (history es p) \<and> list_all data_ok (history es p))"
  using store.reach_inv [OF assms] tree_ok_history by blast

lemma store_invariant_witness: "tree_ok (fst (commit (wr_write (ascii ''new'') (put (ascii ''/a''))) []))"
proof -
  have "reach ((=) []) commit_step (fst (commit (wr_write (ascii ''new'') (put (ascii ''/a''))) []))"
    by (rule reach_step [OF reach_init]) (auto simp: commit_step_def)
  from store_invariant [OF this] show ?thesis ..
qed

text \<open>A commit is refused, and the tree left alone, for data that is not text, and otherwise for a
  path that is not valid or is a directory's. No other error of the code can occur.\<close>

theorem commit_refused:
  "(snd (commit w es) = Err InvalidData \<longleftrightarrow> \<not> data_ok (wr_data w)) \<and>
   (snd (commit w es) = Err InvalidPath \<longleftrightarrow>
      data_ok (wr_data w) \<and> \<not> (path_is_valid (wr_path w) \<and> \<not> path_is_dir (wr_path w))) \<and>
   snd (commit w es) \<notin> {Panic, Err FileNotFound, Err DirNotFound, Err ReleaseNotFound} \<and>
   (is_Ok (snd (commit w es)) \<or> fst (commit w es) = es)"
  by (simp add: commit_eq)

text \<open>C21: A listing is in strictly increasing order of names, names exactly what has a revision at it
  or beneath it, and shows what has revisions as a file with their number, even if there is something
  beneath it. It fails exactly for a path with nothing at it or beneath.\<close>

theorem listing_correct:
  assumes "tree_ok es" and "path_is_valid p"
  shows "(vcs_list p es = Err DirNotFound \<longleftrightarrow>
        components p \<noteq> [] \<and> (\<forall>q. history es (components p @ q) = [])) \<and>
      (\<forall>l. vcs_list p es = Ok l \<longrightarrow>
        sorted_wrt (<) (map list_entry_name l) \<and>
        list_entry_name ` set l = {n. \<exists>q. history es (components p @ n # q) \<noteq> []} \<and>
        (\<forall>n k. File n k \<in> set l \<longleftrightarrow> 0 < k \<and> k = length (history es (components p @ [n]))))"
proof (cases "dir_at (components p) es")
  case None
  then have "components p \<noteq> []" "node_at (components p) es = None"
    by (auto simp: dir_at_def split: if_splits)
  then have "history es (components p @ q) = []" for q
    using node_at_extend by blast
  with None \<open>components p \<noteq> []\<close> show ?thesis
    using assms(2) by (simp add: vcs_list_def path_new_def list_loop_dir)
next
  case (Some fs)
  have l: "vcs_list p es = Ok (sort_key list_entry_name (map to_list_entry fs))"
    using assms Some by (simp add: vcs_list_def path_new_def list_loop_dir)
  have "\<not> (components p \<noteq> [] \<and> (\<forall>q. history es (components p @ q) = []))"
    using Some node_at_iff [OF assms(1), of "components p"] by (auto simp: dir_at_def split: if_splits)
  with l list_of_dir [OF assms(1) Some refl] show ?thesis
    by simp
qed

lemma listing_correct_witness:
  "vcs_list (ascii ''/b'') [Entry (ascii ''a'') [] [ascii ''x'']] = Err DirNotFound"
proof -
  have "tree_ok [Entry (ascii ''a'') [] [ascii ''x'']]" "path_is_valid (ascii ''/b'')"
    by (simp_all add: tree_ok_def component_ok_def data_ok_def path_char_def ascii_def path_is_valid_def
        is_ascii_alphanumeric_def is_ascii_digit_def is_ascii_graphic_def is_ascii_whitespace_def)
  note listing = listing_correct [OF this, THEN conjunct1]
  have b: "components (ascii ''/b'') = [ascii ''b'']"
    by (simp add: components_def ascii_def)
  have "history [Entry (ascii ''a'') [] [ascii ''x'']] ([ascii ''b''] @ q) = []" for q
    by (cases q) (simp_all add: store_simps ascii_def)
  then show ?thesis
    unfolding listing b by simp
qed

lemma poll_read_empty:
  "rr_poll_read 0 capacity rr =
     Ok (take capacity (drop (rr_index rr) (rr_data rr)),
         rr\<lparr>rr_index := rr_index rr + min capacity (length (rr_data rr) - rr_index rr)\<rparr>)"
  by (auto simp: rr_poll_read_def Let_def min_def)

text \<open>Reading into an empty buffer never panics and gives the next bytes of the revision. A buffer
  that already holds something is measured as if it did not, so that a revision longer than the room
  left makes \<open>poll_read\<close> panic.\<close>

theorem poll_read_measures_capacity:
  "rr_poll_read 0 capacity rr =
     Ok (take capacity (drop (rr_index rr) (rr_data rr)),
         rr\<lparr>rr_index := rr_index rr + min capacity (length (rr_data rr) - rr_index rr)\<rparr>) \<and>
   (rr_poll_read filled capacity rr = Panic \<longleftrightarrow>
      capacity - filled < min capacity (length (rr_data rr) - rr_index rr)) \<and>
   rr_poll_read 1 4 \<lparr>rr_data = [104, 101, 108, 108, 111], rr_index = 0\<rparr> = Panic"
  by (auto simp: rr_poll_read_def Let_def min_def)

end
