(* ===== verification/VcsServer.thy ===== *)
theory VcsServer
  imports VcsStore
begin

text \<open>
  The sessions of the version control server, \<open>rust/p10-voracious-code-storage/src/lib.rs\<close>: \<open>copy_n\<close>,
  the requests of \<open>handle_client\<close> and the sessions that share one store. A session is modelled on
  everything its client sends until it closes the connection, because the handler waits for what it
  needs; how much one \<open>read\<close> finds is the parameter \<open>piece\<close>. Errors of writing to the client, who has
  gone then, are not modelled.
\<close>

section \<open>Copying\<close>

datatype session_error = Not_utf8

text \<open>\<open>copy_n\<close> with any reader: at the end of the reader's input the assertion fails.\<close>

function copy_loop :: "(nat \<Rightarrow> 'r \<Rightarrow> (session_error, byte list \<times> 'r) outcome) \<Rightarrow> nat \<Rightarrow> nat \<Rightarrow> nat \<Rightarrow> 'r \<Rightarrow> byte list
    \<Rightarrow> (session_error, byte list \<times> 'r) outcome" where
  "copy_loop rd original written left r out =
     (if left = 0 then (if written = original then Ok (out, r) else Panic)
      else bind_outcome (rd (min left 4096) r) (\<lambda>(bs, r').
        if bs = [] then Panic
        else copy_loop rd original (written + length bs) (left - length bs) r' (out @ bs)))"
  by pat_completeness auto
termination
  by (relation "measure (\<lambda>(_, _, _, left, _, _). left)") auto

declare copy_loop.simps [simp del]

definition copy_n :: "(nat \<Rightarrow> 'r \<Rightarrow> (session_error, byte list \<times> 'r) outcome) \<Rightarrow> 'r \<Rightarrow> nat \<Rightarrow> (session_error, byte list \<times> 'r) outcome" where
  "copy_n rd r n = copy_loop rd n 0 n r []"

text \<open>The two readers: the client's bytes, of which \<open>piece\<close> are there (but at least one, if any is to
  come), and a revision.\<close>

definition read_client :: "(byte list \<Rightarrow> nat) \<Rightarrow> nat \<Rightarrow> byte list \<Rightarrow> (session_error, byte list \<times> byte list) outcome" where
  "read_client piece n input =
     (let k = min n (max 1 (piece input)) in Ok (take k input, drop k input))"

definition read_rev :: "nat \<Rightarrow> read_revision \<Rightarrow> (session_error, byte list \<times> read_revision) outcome" where
  "read_rev n rr = (case rr_poll_read 0 n rr of Ok x \<Rightarrow> Ok x | _ \<Rightarrow> Panic)"

section \<open>Requests\<close>

definition wline :: "byte list \<Rightarrow> byte list" where
  "wline l = l @ [10]"

text \<open>What a request comes to: the store after it, the reply and what is left of the input.\<close>

type_synonym response = "entry list \<times> (session_error, byte list \<times> byte list) outcome"

fun show_entry :: "list_entry \<Rightarrow> byte list" where
  "show_entry (Dir name _) = name @ ascii ''/ DIR''"
| "show_entry (File name k) = name @ ascii '' r'' @ dec k"

fun do_list :: "rstring list \<Rightarrow> byte list \<Rightarrow> entry list \<Rightarrow> response" where
  "do_list [dir] rest es =
     (es, Ok (case vcs_list dir es of
        Ok l \<Rightarrow> wline (ascii ''OK '' @ dec (length l)) @ concat (map (\<lambda>e. wline (show_entry e)) l)
      | _ \<Rightarrow> wline (ascii ''ERR no such file''), rest))"
| "do_list _ rest es = (es, Ok (wline (ascii ''ERR usage: LIST dir''), rest))"

definition put_usage :: "byte list" where
  "put_usage = wline (ascii ''ERR usage: PUT file length newline data'')"

fun do_put :: "(byte list \<Rightarrow> nat) \<Rightarrow> rstring list \<Rightarrow> byte list \<Rightarrow> entry list \<Rightarrow> response" where
  "do_put piece [path, len] rest es =
     (case parse_usize len of
        Some n \<Rightarrow>
          (case copy_n (read_client piece) rest n of
             Ok (data, rest') \<Rightarrow>
               (case commit (wr_write data (put path)) es of
                  (es', Ok revision) \<Rightarrow> (es', Ok (wline (ascii ''OK r'' @ dec (revision + 1)), rest'))
                | (es', _) \<Rightarrow> (es', Ok (wline (ascii ''ERR invalid file''), rest')))
           | Err e \<Rightarrow> (es, Err e)
           | Panic \<Rightarrow> (es, Panic))
      | None \<Rightarrow> (es, Ok (wline (ascii ''ERR invalid size''), rest)))"
| "do_put piece [path] rest es =
     (es, Ok (if is_Ok (path_new path) then put_usage else wline (ascii ''ERR illegal file name''), rest))"
| "do_put piece _ rest es = (es, Ok (put_usage, rest))"

definition strip_prefix_r :: "rstring \<Rightarrow> rstring option" where
  "strip_prefix_r s = (case s of c # cs \<Rightarrow> if c = 114 then Some cs else None | [] \<Rightarrow> None)"

definition send_revision :: "(vcs_error, read_revision) outcome \<Rightarrow> byte list \<Rightarrow> entry list \<Rightarrow> response" where
  "send_revision r rest es =
     (case r of
        Ok rr \<Rightarrow>
          (es, bind_outcome (copy_n read_rev rr (length (rr_data rr))) (\<lambda>(data, _).
             Ok (wline (ascii ''OK '' @ dec (length (rr_data rr))) @ data, rest)))
      | _ \<Rightarrow> (es, Ok (wline (ascii ''ERR no such file''), rest)))"

fun do_get :: "rstring list \<Rightarrow> byte list \<Rightarrow> entry list \<Rightarrow> response" where
  "do_get [path, revision] rest es =
     (case Option.bind (strip_prefix_r revision) parse_usize of
        Some n \<Rightarrow>
          (if 0 < n then send_revision (get_revision path (n - 1) es) rest es
           else (es, Ok (wline (ascii ''ERR invalid revision spec''), rest)))
      | None \<Rightarrow> (es, Ok (wline (ascii ''ERR invalid revision spec''), rest)))"
| "do_get [path] rest es = send_revision (get_current_revision path es) rest es"
| "do_get _ rest es = (es, Ok (wline (ascii ''ERR usage: GET file [revision]''), rest))"

fun request :: "(byte list \<Rightarrow> nat) \<Rightarrow> rstring list \<Rightarrow> byte list \<Rightarrow> entry list \<Rightarrow> response" where
  "request piece [] rest es = (es, Ok ([], rest))"
| "request piece (cmd # parts) rest es =
     (if eq_ignore_ascii_case cmd (ascii ''HELP'')
      then (es, Ok (wline (ascii ''OK usage: HELP|GET|PUT|LIST''), rest))
      else if eq_ignore_ascii_case cmd (ascii ''LIST'') then do_list parts rest es
      else if eq_ignore_ascii_case cmd (ascii ''PUT'') then do_put piece parts rest es
      else if eq_ignore_ascii_case cmd (ascii ''GET'') then do_get parts rest es
      else (es, Ok (wline (ascii ''ERR illegal method: '' @ cmd), rest)))"

section \<open>Sessions\<close>

datatype status = Running | Finished | Failed session_error | Panicked

record session =
  pending :: "byte list"
  sent :: "byte list"
  status :: status

definition session_new :: "byte list \<Rightarrow> session" where
  "session_new input = \<lparr>pending = input, sent = [], status = Running\<rparr>"

text \<open>One round of the loop of \<open>handle_client\<close>. The changes to the store stay, whatever becomes of the
  session.\<close>

definition session_turn :: "(byte list \<Rightarrow> nat) \<Rightarrow> entry list \<Rightarrow> session \<Rightarrow> entry list \<times> session" where
  "session_turn piece es s =
     (let s = s\<lparr>sent := sent s @ wline (ascii ''READY'')\<rparr> in
      case read_line (pending s) of
        None \<Rightarrow> (es, s\<lparr>status := Failed Not_utf8\<rparr>)
      | Some (buffer, rest) \<Rightarrow>
          (if buffer = [] then (es, s\<lparr>status := Finished\<rparr>)
           else case request piece (split_whitespace (trim buffer)) rest es of
               (es', Ok (reply, rest')) \<Rightarrow> (es', s\<lparr>pending := rest', sent := sent s @ reply\<rparr>)
             | (es', Err e) \<Rightarrow> (es', s\<lparr>status := Failed e\<rparr>)
             | (es', Panic) \<Rightarrow> (es', s\<lparr>status := Panicked\<rparr>)))"

record vcs_server =
  store :: "entry list"
  sessions :: "session list"

text \<open>\<open>run\<close> accepts connections; the tasks take turns in any order. \<open>commit\<close> and the reads of the store
  are the only points where they meet.\<close>

inductive vcs_step :: "vcs_server \<Rightarrow> vcs_server \<Rightarrow> bool" where
  accept: "vcs_step v (v\<lparr>sessions := sessions v @ [session_new input]\<rparr>)"
| turn: "i < length (sessions v) \<Longrightarrow> status (sessions v ! i) = Running \<Longrightarrow>
     session_turn piece (store v) (sessions v ! i) = (es', s') \<Longrightarrow>
     vcs_step v (v\<lparr>store := es', sessions := (sessions v)[i := s']\<rparr>)"

definition vcs_init :: vcs_server where
  "vcs_init = \<lparr>store = [], sessions = []\<rparr>"

section \<open>What copying does\<close>

lemma copy_loop_revision:
  "rr_index rr + n = length (rr_data rr) \<Longrightarrow> written + n = original \<Longrightarrow>
     copy_loop read_rev original written n rr out =
       Ok (out @ drop (rr_index rr) (rr_data rr), rr\<lparr>rr_index := length (rr_data rr)\<rparr>)"
proof (induction n arbitrary: rr written out rule: less_induct)
  case (less n)
  show ?case
  proof (cases "n = 0")
    case True
    with less.prems show ?thesis
      by (subst copy_loop.simps) simp
  next
    case False
    let ?k = "min n 4096"
    have "copy_loop read_rev original (written + ?k) (n - ?k) (rr\<lparr>rr_index := rr_index rr + ?k\<rparr>)
        (out @ take ?k (drop (rr_index rr) (rr_data rr)))
      = Ok (out @ take ?k (drop (rr_index rr) (rr_data rr)) @ drop (rr_index rr + ?k) (rr_data rr),
          rr\<lparr>rr_index := length (rr_data rr)\<rparr>)"
      using False less.prems less.IH [of "n - ?k" "rr\<lparr>rr_index := rr_index rr + ?k\<rparr>" "written + ?k"] by simp
    moreover have "take ?k (drop (rr_index rr) (rr_data rr)) @ drop (rr_index rr + ?k) (rr_data rr)
        = drop (rr_index rr) (rr_data rr)"
      by (metis append_take_drop_id drop_drop add.commute)
    moreover have "length (rr_data rr) - rr_index rr = n" "length (take ?k (drop (rr_index rr) (rr_data rr))) = ?k"
      using less.prems by auto
    ultimately show ?thesis
      using False less.prems
      by (subst copy_loop.simps) (auto simp: read_rev_def poll_read_empty min_def)
  qed
qed

lemma copy_revision:
  "copy_n read_rev \<lparr>rr_data = d, rr_index = 0\<rparr> (length d) = Ok (d, \<lparr>rr_data = d, rr_index = length d\<rparr>)"
  by (simp add: copy_n_def copy_loop_revision)

lemma copy_loop_client:
  "written + n = original \<Longrightarrow>
     copy_loop (read_client piece) original written n input out =
       (if n \<le> length input then Ok (out @ take n input, drop n input) else Panic)"
proof (induction n arbitrary: input written out rule: less_induct)
  case (less n)
  show ?case
  proof (cases "n = 0 \<or> input = []")
    case True
    with less.prems show ?thesis
      by (subst copy_loop.simps) (auto simp: read_client_def)
  next
    case False
    define k where "k = min (min n 4096) (max 1 (piece input))"
    let ?l = "length (take k input)"
    have k: "0 < ?l" "?l \<le> n" "take k input \<noteq> []" "k \<le> n"
      using False by (auto simp: k_def)
    have rd: "read_client piece (min n 4096) input = Ok (take k input, drop k input)"
      by (simp add: read_client_def Let_def k_def)
    have IH: "copy_loop (read_client piece) original (written + ?l) (n - ?l) (drop k input) (out @ take k input)
      = (if n - ?l \<le> length (drop k input)
         then Ok ((out @ take k input) @ take (n - ?l) (drop k input), drop (n - ?l) (drop k input)) else Panic)"
      using k less.prems by (intro less.IH) auto
    have enough: "n - ?l \<le> length (drop k input) \<longleftrightarrow> n \<le> length input"
      using k by auto
    have pieces: "take k input @ take (n - ?l) (drop k input) = take n input \<and>
        drop (n - ?l) (drop k input) = drop n input" if "n \<le> length input"
      using that k(4) take_add [of k "n - k" input] by (simp add: min_absorb2)
    have "copy_loop (read_client piece) original written n input out =
        copy_loop (read_client piece) original (written + ?l) (n - ?l) (drop k input) (out @ take k input)"
      using False k(3) unfolding copy_loop.simps [of _ _ _ n] rd by simp
    then show ?thesis
      unfolding IH enough using pieces by simp
  qed
qed

lemma copy_client:
  "copy_n (read_client piece) input n =
     (if n \<le> length input then Ok (take n input, drop n input) else Panic)"
  by (simp add: copy_n_def copy_loop_client)

section \<open>What a turn does\<close>

lemma request_store: "fst (request piece ws rest es) = es \<or> (\<exists>w. fst (request piece ws rest es) = fst (commit w es))"
proof -
  have "fst (do_put piece parts rest es) = es \<or> (\<exists>w. fst (do_put piece parts rest es) = fst (commit w es))" for parts
  proof (cases "(piece, parts, rest, es)" rule: do_put.cases)
    case (1 _ path len)
    then show ?thesis
      by (auto split: option.splits outcome.splits prod.splits) (metis fst_conv)+
  qed auto
  moreover have "fst (do_get parts rest es) = es" for parts
    by (cases "(parts, rest, es)" rule: do_get.cases)
      (auto simp: send_revision_def split: option.splits outcome.splits)
  moreover have "fst (do_list parts rest es) = es" for parts
    by (cases "(parts, rest, es)" rule: do_list.cases) auto
  ultimately show ?thesis
    by (cases ws) auto
qed

lemma turn_store:
  "fst (session_turn piece es s) = es \<or> (\<exists>w. fst (session_turn piece es s) = fst (commit w es))"
proof (cases "read_line (pending s)")
  case (Some br)
  obtain buffer rest where br: "br = (buffer, rest)"
    by (cases br)
  have "fst (session_turn piece es s) \<in> {es, fst (request piece (split_whitespace (trim buffer)) rest es)}"
    by (simp add: session_turn_def Let_def Some br split: prod.splits outcome.splits)
  with request_store [of piece "split_whitespace (trim buffer)" rest es] show ?thesis
    by auto
qed (simp add: session_turn_def Let_def)

lemma vcs_step_store: "vcs_step v v' \<Longrightarrow> store v' = store v \<or> commit_step (store v) (store v')"
proof (induction rule: vcs_step.induct)
  case (turn i v piece es' s')
  then show ?case
    using turn_store [of piece "store v" "sessions v ! i"] by (auto simp: commit_step_def)
qed auto

lemma vcs_steps_history: "vcs_step\<^sup>*\<^sup>* v v' \<Longrightarrow> prefix (history (store v) p) (history (store v') p)"
proof (induction rule: rtranclp_induct)
  case (step v v')
  then have "prefix (history (store v) p) (history (store v') p)"
    by (auto simp: commit_step_def commit_history_prefix dest!: vcs_step_store)
  with step show ?case
    by (auto intro: prefix_order.trans)
qed simp

text \<open>The server implements an archive that has a history for each file: a turn of a session adds a revision to one of
  them, or changes nothing.\<close>

inductive archive_step :: "(byte list list \<Rightarrow> byte list list) \<Rightarrow> (byte list list \<Rightarrow> byte list list) \<Rightarrow> bool" where
  archive_add: "file_ok p \<Longrightarrow> data_ok d \<Longrightarrow> archive_step h (h(p := add_revision d (h p)))"

lemma commit_archive:
  "history (fst (commit w es)) = history es \<or> archive_step (history es) (history (fst (commit w es)))"
proof (cases "\<exists>r. snd (commit w es) = Ok r")
  case True
  then have ok: "data_ok (wr_data w)" "path_is_valid (wr_path w)" "\<not> path_is_dir (wr_path w)"
    using commit_Ok_iff by blast+
  then have comps: "file_ok (components (wr_path w))"
    by (simp add: path_is_file)
  have "history (fst (commit w es)) =
      (history es)(components (wr_path w) := add_revision (wr_data w) (history es (components (wr_path w))))"
    by (rule ext) (use ok comps in \<open>simp add: commit_eq tree.hist_add\<close>)
  with comps ok(1) show ?thesis
    by (simp add: archive_add)
qed (simp add: commit_not_Ok)

interpretation vcs: simulation "(=) vcs_init" vcs_step "\<lambda>v. tree_ok (store v)" archive_step "\<lambda>v. history (store v)"
proof unfold_locales
  show "history (store v') = history (store v) \<or> archive_step (history (store v)) (history (store v'))" if "vcs_step v v'" for v v'
    using vcs_step_store [OF that] commit_archive unfolding commit_step_def by metis
qed (auto simp: vcs_init_def tree_ok_Nil dest!: vcs_step_store dest: store.step_inv)

lemma vcs_implements_archive:
  assumes "reach ((=) vcs_init) vcs_step v"
  shows "archive_step\<^sup>*\<^sup>* (\<lambda>_. []) (history (store v))"
proof -
  have "history (store vcs_init) = (\<lambda>_. [])"
    by (rule ext) (simp add: vcs_init_def history_def)
  with vcs.reach_view [OF assms] show ?thesis
    by auto
qed

lemma session_turn_words:
  assumes "list_all is_word ws" "ws \<noteq> []" "pending s = unwords ws @ 10 # rest"
  shows "session_turn piece es s =
     (case request piece ws rest es of
        (es', Ok (reply, rest')) \<Rightarrow> (es', s\<lparr>pending := rest', sent := sent s @ wline (ascii ''READY'') @ reply\<rparr>)
      | (es', Err e) \<Rightarrow> (es', s\<lparr>sent := sent s @ wline (ascii ''READY''), status := Failed e\<rparr>)
      | (es', Panic) \<Rightarrow> (es', s\<lparr>sent := sent s @ wline (ascii ''READY''), status := Panicked\<rparr>))"
  using assms
  by (simp add: session_turn_def Let_def read_line_unwords words_of_line split: prod.splits outcome.splits)

lemma is_word_append: "is_word v \<Longrightarrow> list_all is_ascii_graphic w \<Longrightarrow> is_word (v @ w)"
  by (simp add: is_word_def)

lemma is_word_ascii [simp]:
  "is_word (ascii ''PUT'')" "is_word (ascii ''GET'')" "is_word (ascii ''LIST'')" "is_word (ascii ''r'')"
  by (simp_all add: is_word_def ascii_def is_ascii_graphic_def)

lemma is_word_path: "path_is_valid p \<Longrightarrow> is_word p"
  by (auto simp: is_word_def path_is_valid_def list_all_iff path_char_graphic)

lemma commands [simp]:
  "eq_ignore_ascii_case (ascii ''PUT'') (ascii ''PUT'')"
  "\<not> eq_ignore_ascii_case (ascii ''PUT'') (ascii ''HELP'')"
  "\<not> eq_ignore_ascii_case (ascii ''PUT'') (ascii ''LIST'')"
  "eq_ignore_ascii_case (ascii ''GET'') (ascii ''GET'')"
  "\<not> eq_ignore_ascii_case (ascii ''GET'') (ascii ''HELP'')"
  "\<not> eq_ignore_ascii_case (ascii ''GET'') (ascii ''LIST'')"
  "\<not> eq_ignore_ascii_case (ascii ''GET'') (ascii ''PUT'')"
  by (simp_all add: eq_ignore_ascii_case_def ascii_def to_ascii_lowercase_def)

lemma strip_prefix_r_r: "strip_prefix_r (ascii ''r'' @ s) = Some s"
  by (simp add: strip_prefix_r_def ascii_def)

lemma request_put:
  "path_is_valid p \<Longrightarrow> length d < 2 ^ 64 \<Longrightarrow>
     request piece [ascii ''PUT'', p, dec (length d)] (d @ rest) es =
       (case commit (wr_write d (put p)) es of
          (es', Ok revision) \<Rightarrow> (es', Ok (wline (ascii ''OK r'' @ dec (revision + 1)), rest))
        | (es', _) \<Rightarrow> (es', Ok (wline (ascii ''ERR invalid file''), rest)))"
  by (simp add: parse_usize_dec copy_client split: prod.splits outcome.splits)

lemma request_get:
  "get_revision p (k - 1) es = Ok \<lparr>rr_data = d, rr_index = 0\<rparr> \<Longrightarrow> 0 < k \<Longrightarrow> k < 2 ^ 64 \<Longrightarrow>
     request piece [ascii ''GET'', p, ascii ''r'' @ dec k] rest es =
       (es, Ok (wline (ascii ''OK '' @ dec (length d)) @ d, rest))"
  by (simp add: strip_prefix_r_r parse_usize_dec send_revision_def copy_revision)

section \<open>The requests as a client writes them\<close>

definition put_request :: "byte list \<Rightarrow> byte list \<Rightarrow> byte list" where
  "put_request p d = unwords [ascii ''PUT'', p, dec (length d)] @ 10 # d"

definition get_request :: "byte list \<Rightarrow> nat \<Rightarrow> byte list" where
  "get_request p k = unwords [ascii ''GET'', p, ascii ''r'' @ dec k] @ 10 # []"

lemma turn_put:
  assumes "path_is_valid p" "\<not> path_is_dir p" "data_ok d" "length d < 2 ^ 64"
    and "pending s = put_request p d @ rest"
  shows "session_turn piece es s =
     (tree_add (components p) d es,
      s\<lparr>pending := rest, sent := sent s @ wline (ascii ''READY'') @
        wline (ascii ''OK r'' @ dec (length (add_revision d (history es (components p)))))\<rparr>)"
proof -
  have "Suc (length (add_revision d (history es (components p))) - Suc 0)
      = length (add_revision d (history es (components p)))"
    using add_revision_last(1) [of d "history es (components p)"] by (metis Suc_pred length_greater_0_conv One_nat_def)
  moreover have "commit (wr_write d (put p)) es =
      (tree_add (components p) d es, Ok (length (add_revision d (history es (components p))) - 1))"
    using assms by (simp add: commit_eq wr_write_def put_def)
  moreover have "list_all is_word [ascii ''PUT'', p, dec (length d)]"
    using assms by (simp add: is_word_path is_word_dec)
  ultimately show ?thesis
    using assms(1,4,5) session_turn_words [of "[ascii ''PUT'', p, dec (length d)]" s "d @ rest"]
    by (simp add: put_request_def request_put del: request.simps)
qed

lemma turn_get:
  assumes "get_revision p (k - 1) es = Ok \<lparr>rr_data = d, rr_index = 0\<rparr>" "0 < k" "k < 2 ^ 64"
    and "pending s = get_request p k @ rest"
  shows "session_turn piece es s =
     (es, s\<lparr>pending := rest, sent := sent s @ wline (ascii ''READY'') @ wline (ascii ''OK '' @ dec (length d)) @ d\<rparr>)"
proof -
  have "path_is_valid p"
    using assms(1) by (auto simp: get_revision_def path_new_def split: if_splits)
  then have "list_all is_word [ascii ''GET'', p, ascii ''r'' @ dec k]"
    using is_word_dec [of k] by (auto simp: is_word_path intro: is_word_append) (auto simp: is_word_def ascii_def is_ascii_graphic_def)
  then show ?thesis
    using assms session_turn_words [of "[ascii ''GET'', p, ascii ''r'' @ dec k]" s rest]
    by (simp add: get_request_def request_get del: request.simps)
qed

lemma turn_cases:
  assumes "session_turn piece es s = (es', s')"
  shows "prefix (sent s @ wline (ascii ''READY'')) (sent s')"
  using assms
  by (auto simp: session_turn_def Let_def split: option.splits prod.splits if_splits outcome.splits)

lemma vcs_server_invariant: "reach ((=) vcs_init) vcs_step v \<Longrightarrow> tree_ok (store v)"
  by (rule vcs.reach_inv)

section \<open>Properties\<close>

text \<open>C3: What one client has put is what any client gets. In any run of the server, when the request
  of a session to put a text at the path of a file has its turn, the answer is the number of a
  revision; and a session that later asks for that number of that path, after whatever turns of
  whatever sessions, receives the length and the bytes of that text.\<close>

theorem put_then_get_over_the_wire:
  assumes valid: "path_is_valid p" "\<not> path_is_dir p" and bytes: "data_ok d" "length d < 2 ^ 64"
    and few: "length (history (store v) (components p)) + 1 < 2 ^ 64"
    and put: "session_turn piece (store v) s = (es', s')" "pending s = put_request p d @ rest"
    and later: "vcs_step\<^sup>*\<^sup>* (v\<lparr>store := es', sessions := ss\<rparr>) v'"
  shows "\<exists>k. sent s' = sent s @ wline (ascii ''READY'') @ wline (ascii ''OK r'' @ dec k) \<and> pending s' = rest \<and>
      (\<forall>t piece' rest'. pending t = get_request p k @ rest' \<longrightarrow>
         session_turn piece' (store v') t =
           (store v', t\<lparr>pending := rest', sent := sent t @ wline (ascii ''READY'') @
              wline (ascii ''OK '' @ dec (length d)) @ d\<rparr>))"
proof -
  let ?cs = "components p"
  let ?k = "length (add_revision d (history (store v) ?cs))"
  have ok: "file_ok ?cs"
    using valid path_is_file by blast
  have "es' = tree_add ?cs d (store v)"
    and s': "sent s' = sent s @ wline (ascii ''READY'') @ wline (ascii ''OK r'' @ dec ?k)" "pending s' = rest"
    using put turn_put [OF valid bytes put(2)] by auto
  then have "tree_read ?cs (?k - 1) es' = Some d"
    using tree.read_add [OF ok, of d "store v"] by (simp add: tree.hist_add ok)
  moreover have "prefix (history es' ?cs) (history (store v') ?cs)"
    using vcs_steps_history [OF later] by simp
  ultimately have "tree_read ?cs (?k - 1) (store v') = Some d"
    using tree.read_prefix [OF ok] by blast
  then have "get_revision p (?k - 1) (store v') = Ok \<lparr>rr_data = d, rr_index = 0\<rparr>"
    using valid get_revision_tree by blast
  moreover have "0 < ?k" "?k < 2 ^ 64"
    using few by (auto simp: add_revision_def)
  ultimately show ?thesis
    using s' turn_get by blast
qed

lemma put_then_get_over_the_wire_witness:
  "\<exists>k. sent (snd (session_turn (\<lambda>_. 1) [] (session_new (put_request (ascii ''/a'') (ascii ''hi''))))) =
     wline (ascii ''READY'') @ wline (ascii ''OK r'' @ dec k)"
proof -
  have valid: "path_is_valid (ascii ''/a'')" "\<not> path_is_dir (ascii ''/a'')" "data_ok (ascii ''hi'')"
    "length (ascii ''hi'') < 2 ^ 64"
    by (simp_all add: ascii_def path_is_valid_def path_is_dir_def data_ok_def path_char_def suffix_def
        is_ascii_alphanumeric_def is_ascii_digit_def is_ascii_graphic_def is_ascii_whitespace_def)
  have few: "length (history (store vcs_init) (components (ascii ''/a''))) + 1 < 2 ^ 64"
    by (simp add: vcs_init_def)
  obtain es' s' where t: "session_turn (\<lambda>_. 1) (store vcs_init)
      (session_new (put_request (ascii ''/a'') (ascii ''hi''))) = (es', s')"
    by (cases "session_turn (\<lambda>_. 1) (store vcs_init) (session_new (put_request (ascii ''/a'') (ascii ''hi'')))")
  have "pending (session_new (put_request (ascii ''/a'') (ascii ''hi''))) =
      put_request (ascii ''/a'') (ascii ''hi'') @ []"
    by (simp add: session_new_def)
  from put_then_get_over_the_wire [OF valid few t this rtranclp.rtrancl_refl] t show ?thesis
    by (auto simp: session_new_def vcs_init_def)
qed

text \<open>A task of a session panics in one case only: its client closed the connection before it had
  sent all the bytes that its PUT announced. Then, and when it sent something that is not UTF-8, the
  store is what it was before.\<close>

theorem only_unfinished_put_panics:
  assumes "session_turn piece es s = (es', s')" and "status s = Running" and "status s' \<in> {Panicked, Failed e}"
  shows "es' = es \<and>
    (status s' = Panicked \<longrightarrow> (\<exists>buffer rest cmd path len n. read_line (pending s) = Some (buffer, rest) \<and>
       split_whitespace (trim buffer) = [cmd, path, len] \<and> eq_ignore_ascii_case cmd (ascii ''PUT'') \<and>
       parse_usize len = Some n \<and> length rest < n))"
proof (cases "read_line (pending s)")
  case None
  with assms show ?thesis
    by (auto simp: session_turn_def Let_def)
next
  case (Some br)
  obtain buffer rest where br: "br = (buffer, rest)"
    by (cases br)
  let ?ws = "split_whitespace (trim buffer)"
  have "buffer \<noteq> []" and r: "fst (request piece ?ws rest es) = es'"
    and bad: "\<not> is_Ok (snd (request piece ?ws rest es))"
    using assms by (auto simp: session_turn_def Let_def Some br split: if_splits prod.splits outcome.splits)
  have get: "is_Ok (snd (send_revision r rest es))" if "\<forall>rr. r = Ok rr \<longrightarrow> rr_index rr = 0" for r
    using that copy_revision
    by (cases r) (auto simp: send_revision_def copy_n_def copy_loop_revision)
  have "is_Ok (snd (do_get parts rest es))" for parts
    by (cases "(parts, rest, es)" rule: do_get.cases)
      (auto simp: get_revision_def get_current_revision_def vcs_get_def intro!: get split: option.splits)
  moreover have "is_Ok (snd (do_list parts rest es))" for parts
    by (cases "(parts, rest, es)" rule: do_list.cases) auto
  moreover obtain cmd parts where ws: "?ws = cmd # parts"
    using bad by (cases ?ws) auto
  ultimately have "eq_ignore_ascii_case cmd (ascii ''PUT'')" and do_put: "\<not> is_Ok (snd (do_put piece parts rest es))"
    and es': "es' = fst (do_put piece parts rest es)"
    using bad r by (auto split: if_splits)
  moreover obtain path len n where "parts = [path, len]" "parse_usize len = Some n" "length rest < n"
    using do_put by (cases "(piece, parts, rest, es)" rule: do_put.cases)
      (auto simp: copy_client split: option.splits if_splits prod.splits outcome.splits)
  ultimately show ?thesis
    using Some br ws by (auto simp: copy_client)
qed

lemma only_unfinished_put_panics_witness:
  "\<exists>es' s'. session_turn (\<lambda>_. 1) [] (session_new (unwords [ascii ''PUT'', ascii ''/a'', dec 5] @ 10 # ascii ''hi'')) = (es', s') \<and>
     status s' = Panicked \<and> es' = []"
proof -
  let ?s = "session_new (unwords [ascii ''PUT'', ascii ''/a'', dec 5] @ 10 # ascii ''hi'')"
  have "is_word (ascii ''/a'')"
    by (simp add: is_word_def ascii_def is_ascii_graphic_def)
  then have "session_turn (\<lambda>_. 1) [] ?s =
      ([], ?s\<lparr>sent := sent ?s @ wline (ascii ''READY''), status := Panicked\<rparr>)" (is "_ = (_, ?t)")
    by (subst session_turn_words [of "[ascii ''PUT'', ascii ''/a'', dec 5]" _ "ascii ''hi''"]) (simp_all add: session_new_def is_word_dec parse_usize_dec copy_client ascii_def [of "''hi''"])
  moreover have "status ?s = Running" "status ?t \<in> {Panicked, Failed Not_utf8}"
    by (simp_all add: session_new_def)
  ultimately show ?thesis
    using only_unfinished_put_panics [of "\<lambda>_. 1" "[]" ?s "[]" ?t Not_utf8] by simp
qed

end
