(* ===== verification/VcsLocks.thy ===== *)
theory VcsLocks
  imports VcsStore
begin

text \<open>
  The locks of the version control store, \<open>rust/p10-voracious-code-storage/src/vcs.rs\<close>: every directory is
  behind a lock of readers and writers of its own, and \<open>commit\<close>, \<open>list\<close> and \<open>get\<close> go down the tree hand
  over hand, each with the lock of a directory until it has that of the next one. Requests of several
  threads are walks that advance one lock at a time, in any order; the store of \<open>VcsStore\<close>, where a
  request is one step, is what they are compared with. The locks below the root are only waited for by
  those that have the lock above, readers or one writer, so that it does not matter whom the lock
  prefers when both wait. The lock of the releases of a file is only taken under that of its directory
  and is not modelled; \<open>list\<close> with an invalid path, which takes the lock of the root before it looks at
  the path, is answered without it.
\<close>

section \<open>Requests and what one step of them does\<close>

datatype vcs_call = Commit write_revision | Get_revision "byte list" "nat option" | List_dir "byte list"

datatype call_reply =
    Committed "(vcs_error, nat) outcome"
  | Got "(vcs_error, read_revision) outcome"
  | Listed "(vcs_error, list_entry list) outcome"

text \<open>A request as one step.\<close>

fun call_once :: "vcs_call \<Rightarrow> entry list \<Rightarrow> entry list \<times> call_reply" where
  "call_once (Commit w) es = (let (es', r) = commit w es in (es', Committed r))"
| "call_once (Get_revision p None) es = (es, Got (get_current_revision p es))"
| "call_once (Get_revision p (Some r)) es = (es, Got (get_revision p r es))"
| "call_once (List_dir p) es = (es, Listed (vcs_list p es))"

fun call_all :: "vcs_call list \<Rightarrow> entry list \<Rightarrow> entry list \<times> call_reply list" where
  "call_all [] es = (es, [])"
| "call_all (r # rs) es =
     (let (es', a) = call_once r es; (es'', bs) = call_all rs es' in (es'', a # bs))"

text \<open>
  The local state of a call: the directory whose lock it has, what is left of the path, and for
  \<open>list\<close> in a directory the entries it has collected so far.
\<close>

datatype walk =
    Writing "byte list list" "byte list list" "byte list"
  | Reading "byte list list" "byte list list" "nat option"
  | Finding "byte list list" "byte list list"
  | Listing "byte list list" "list_entry list"
  | Done call_reply

fun which_release :: "nat option \<Rightarrow> byte list list \<Rightarrow> byte list option" where
  "which_release None vs = (if vs = [] then None else Some (last vs))"
| "which_release (Some r) vs = (if r < length vs then Some (vs ! r) else None)"

definition revision_of :: "(vcs_error, byte list) outcome \<Rightarrow> (vcs_error, read_revision) outcome" where
  "revision_of m = bind_outcome m (\<lambda>release. Ok \<lparr>rr_data = release, rr_index = 0\<rparr>)"

text \<open>A call up to its lock of the root.\<close>

fun admit :: "vcs_call \<Rightarrow> walk" where
  "admit (Commit w) =
     (if \<not> data_ok (wr_data w) then Done (Committed (Err InvalidData))
      else if \<not> path_is_valid (wr_path w) \<or> path_is_dir (wr_path w) then Done (Committed (Err InvalidPath))
      else Writing [] (components (wr_path w)) (wr_data w))"
| "admit (Get_revision p r) =
     (if path_is_valid p then Reading [] (components p) r else Done (Got (Err InvalidPath)))"
| "admit (List_dir p) =
     (if path_is_valid p then Finding [] (components p) else Done (Listed (Err InvalidPath)))"

text \<open>The directory at a path, and a change of its entries in place.\<close>

definition entries_at :: "byte list list \<Rightarrow> entry list \<Rightarrow> entry list" where
  "entries_at p es = (case dir_at p es of Some fs \<Rightarrow> fs | None \<Rightarrow> [])"

fun at_dir :: "byte list list \<Rightarrow> (entry list \<Rightarrow> entry list) \<Rightarrow> entry list \<Rightarrow> entry list" where
  "at_dir [] f es = f es"
| "at_dir (c # cs) f es =
     (case find_entry c es of
        None \<Rightarrow> es
      | Some (Entry n subs rels) \<Rightarrow> update_entry c (Entry n (at_dir cs f subs) rels) es)"

definition make_dir :: "byte list \<Rightarrow> entry list \<Rightarrow> entry list" where
  "make_dir c es = (if find_entry c es = None then es @ [entry_dir c []] else es)"

text \<open>One round of the loop of \<open>commit\<close> in the directory at \<open>p\<close>.\<close>

fun commit_round :: "byte list list \<Rightarrow> byte list list \<Rightarrow> byte list \<Rightarrow> entry list \<Rightarrow> entry list \<times> walk" where
  "commit_round p [] d es = (es, Done (Committed (Err FileNotFound)))"
| "commit_round p [c] d es =
     (at_dir p (\<lambda>fs. fst (commit_loop d [c] fs)) es,
      Done (Committed (snd (commit_loop d [c] (entries_at p es)))))"
| "commit_round p (c # c' # cs) d es = (at_dir p (make_dir c) es, Writing (p @ [c]) (c' # cs) d)"

text \<open>One round of the loop of \<open>get\<close>, of that of \<open>list\<close>, and one entry of the listing.\<close>

fun get_round :: "byte list list \<Rightarrow> byte list list \<Rightarrow> nat option \<Rightarrow> entry list \<Rightarrow> walk" where
  "get_round p (c # c' # cs) r es =
     (if find_entry c (entries_at p es) = None then Done (Got (Err DirNotFound))
      else Reading (p @ [c]) (c' # cs) r)"
| "get_round p [c] r es =
     Done (Got (revision_of (get_loop (which_release r) [c] (entries_at p es))))"
| "get_round p [] r es = Done (Got (Err FileNotFound))"

fun list_round :: "byte list list \<Rightarrow> byte list list \<Rightarrow> entry list \<Rightarrow> walk" where
  "list_round p [] es = Listing p []"
| "list_round p (c # cs) es =
     (if find_entry c (entries_at p es) = None then Done (Listed (Err DirNotFound))
      else Finding (p @ [c]) cs)"

fun collect_round :: "byte list list \<Rightarrow> list_entry list \<Rightarrow> entry list \<Rightarrow> walk" where
  "collect_round p ls es =
     (if length ls < length (entries_at p es)
      then Listing p (ls @ [to_list_entry (entries_at p es ! length ls)])
      else Done (Listed (Ok (sort_key list_entry_name ls))))"

fun advance_walk :: "walk \<Rightarrow> entry list \<Rightarrow> entry list \<times> walk" where
  "advance_walk (Writing p cs d) es = commit_round p cs d es"
| "advance_walk (Reading p cs r) es = (es, get_round p cs r es)"
| "advance_walk (Finding p cs) es = (es, list_round p cs es)"
| "advance_walk (Listing p ls) es = (es, collect_round p ls es)"
| "advance_walk (Done a) es = (es, Done a)"

lemma walk_forms:
  obtains (leaf) p d where "w = Writing p [] d"
  | (new_file) p c d where "w = Writing p [c] d"
  | (dir) p c c' cs d where "w = Writing p (c # c' # cs) d"
  | (get_dir) p c c' cs r where "w = Reading p (c # c' # cs) r"
  | (get_file) p c r where "w = Reading p [c] r"
  | (get_leaf) p r where "w = Reading p [] r"
  | (found) p where "w = Finding p []"
  | (find_dir) p c cs where "w = Finding p (c # cs)"
  | (listing) p ls where "w = Listing p ls"
  | (answered) a where "w = Done a"
  by (metis list.exhaust walk.exhaust)

text \<open>The lock that a walk has, and the one that it needs to advance. Only \<open>commit\<close> asks for more than
  a reader's lock.\<close>

fun place :: "walk \<Rightarrow> byte list list option" where
  "place (Writing p _ _) = Some p"
| "place (Reading p _ _) = Some p"
| "place (Finding p _) = Some p"
| "place (Listing p _) = Some p"
| "place (Done _) = None"

fun writes :: "walk \<Rightarrow> bool" where
  "writes (Writing _ _ _) \<longleftrightarrow> True"
| "writes _ \<longleftrightarrow> False"

fun wants :: "walk \<Rightarrow> entry list \<Rightarrow> byte list list option" where
  "wants (Writing p (c # c' # cs) d) es = Some (p @ [c])"
| "wants (Reading p (c # c' # cs) r) es =
     (if find_entry c (entries_at p es) = None then None else Some (p @ [c]))"
| "wants (Finding p (c # cs)) es =
     (if find_entry c (entries_at p es) = None then None else Some (p @ [c]))"
| "wants (Listing p ls) es =
     (if length ls < length (entries_at p es) \<and> releases (entries_at p es ! length ls) = []
      then Some (p @ [entry_name (entries_at p es ! length ls)]) else None)"
| "wants _ es = None"

text \<open>The lock at \<open>q\<close> is given to \<open>w\<close> when nobody has it, or only readers do and \<open>w\<close> is one.\<close>

definition may_lock :: "walk \<Rightarrow> byte list list option \<Rightarrow> walk list \<Rightarrow> bool" where
  "may_lock w q ws \<longleftrightarrow> q = None \<or> (\<forall>v \<in> set ws. place v = q \<longrightarrow> \<not> writes v \<and> \<not> writes w)"

text \<open>
  The store with the calls so far, in the order in which they got their first lock. A call that has
  found its path invalid is answered without a lock. A walk has no lock of another place than its own,
  so that nothing is lost in asking it too for what it wants.
\<close>

type_synonym locked_store = "entry list \<times> (vcs_call \<times> walk) list"

inductive walk_step :: "locked_store \<Rightarrow> locked_store \<Rightarrow> bool" where
  advance: "i < length ws \<Longrightarrow> ws ! i = (r, w) \<Longrightarrow> place w \<noteq> None \<Longrightarrow>
    may_lock w (wants w es) (map snd ws) \<Longrightarrow>
    walk_step (es, ws) (fst (advance_walk w es), ws[i := (r, snd (advance_walk w es))])"

inductive locked_step :: "locked_store \<Rightarrow> locked_store \<Rightarrow> bool" where
  admitted: "may_lock (admit r) (place (admit r)) (map snd ws) \<Longrightarrow>
    locked_step (es, ws) (es, ws @ [(r, admit r)])"
| advanced: "walk_step s s' \<Longrightarrow> locked_step s s'"


section \<open>Changes inside a directory\<close>

text \<open>
  A change of a directory that its walks make leaves every directory under it where it is, and does the
  same whatever is in them.
\<close>

definition keeps_subdirs :: "(entry list \<Rightarrow> entry list) \<Rightarrow> bool" where
  "keeps_subdirs g \<longleftrightarrow> (\<forall>c es n subs rels. find_entry c es = Some (Entry n subs rels) \<longrightarrow>
     (\<exists>rels'. find_entry c (g es) = Some (Entry n subs rels') \<and>
        (\<forall>subs'. g (update_entry c (Entry n subs' rels) es) = update_entry c (Entry n subs' rels') (g es))))"

lemma keeps_subdirsE:
  assumes "keeps_subdirs g" "find_entry c es = Some (Entry c subs rels)"
  obtains rels' where "find_entry c (g es) = Some (Entry c subs rels')"
    "\<And>subs'. g (update_entry c (Entry c subs' rels) es) = update_entry c (Entry c subs' rels') (g es)"
  using assms unfolding keeps_subdirs_def by blast

lemma find_entry_name: "find_entry c es = Some (Entry n subs rels) \<Longrightarrow> n = c"
  by (auto dest: find_entry_Some)

lemma update_update [store_simps]:
  "entry_name e = c \<Longrightarrow> update_entry c e' (update_entry c e es) = update_entry c e' es"
  by (induction es) auto

lemma update_swap:
  "c \<noteq> d \<Longrightarrow> entry_name e = c \<Longrightarrow> entry_name f = d \<Longrightarrow>
     update_entry c e (update_entry d f es) = update_entry d f (update_entry c e es)"
  by (induction es) auto

lemma update_append:
  "find_entry c es \<noteq> None \<Longrightarrow> update_entry c e (es @ fs) = update_entry c e es @ fs"
  by (induction es) auto

lemma update_id: "find_entry c es = Some e \<Longrightarrow> update_entry c e es = es"
  by (induction es) (auto split: if_splits)

lemma dir_at_ConsE:
  assumes "dir_at (c # cs) es \<noteq> None"
  obtains subs rels where "find_entry c es = Some (Entry c subs rels)" "dir_at cs subs \<noteq> None"
proof -
  from assms obtain e where e: "find_entry c es = Some e" "dir_at cs (subdirs e) \<noteq> None"
    by (auto simp: store_simps split: option.splits)
  moreover from e(1) obtain subs rels where "e = Entry c subs rels"
    by (rule find_entry_cases)
  ultimately show thesis
    using that by simp
qed

lemma keeps_id: "keeps_subdirs (\<lambda>es. es)"
  by (auto simp: keeps_subdirs_def)

lemma keeps_make_dir: "keeps_subdirs (make_dir c)"
  unfolding keeps_subdirs_def
proof (intro allI impI)
  fix d es n subs rels
  assume found: "find_entry d es = Some (Entry n subs rels)"
  then have "n = d"
    by (rule find_entry_name)
  with found show "\<exists>rels'. find_entry d (make_dir c es) = Some (Entry n subs rels') \<and>
     (\<forall>subs'. make_dir c (update_entry d (Entry n subs' rels) es) = update_entry d (Entry n subs' rels') (make_dir c es))"
    by (auto simp: make_dir_def store_simps update_append split: option.splits)
qed

lemma keeps_commit: "keeps_subdirs (\<lambda>es. fst (commit_loop data [c] es))"
  unfolding keeps_subdirs_def
proof (intro allI impI)
  fix d es n subs rels
  assume found: "find_entry d es = Some (Entry n subs rels)"
  then have n: "n = d"
    by (rule find_entry_name)
  show "\<exists>rels'. find_entry d (fst (commit_loop data [c] es)) = Some (Entry n subs rels') \<and>
     (\<forall>subs'. fst (commit_loop data [c] (update_entry d (Entry n subs' rels) es)) =
        update_entry d (Entry n subs' rels') (fst (commit_loop data [c] es)))"
  proof (cases "c = d")
    case True
    with found n show ?thesis
      by (simp add: store_simps update_id)
  next
    case False
    show ?thesis
    proof (cases "find_entry c es")
      case None
      with False found n show ?thesis
        by (simp add: store_simps update_append split: option.splits)
    next
      case (Some e)
      then have "entry_name e = c"
        by (auto dest: find_entry_Some)
      with Some False found n show ?thesis
        by (cases e) (simp add: store_simps update_swap [of d c])
    qed
  qed
qed

lemma at_dir_commute:
  assumes "keeps_subdirs g"
  shows "\<not> prefix q p \<Longrightarrow> dir_at p es \<noteq> None \<Longrightarrow> dir_at q es \<noteq> None \<Longrightarrow>
    at_dir p g (at_dir q f es) = at_dir q f (at_dir p g es)"
proof (induction p arbitrary: q es)
  case Nil
  then obtain c cs where q: "q = c # cs"
    by (cases q) auto
  with Nil obtain subs rels where found: "find_entry c es = Some (Entry c subs rels)"
    by (metis dir_at_ConsE)
  from keeps_subdirsE [OF assms found] obtain rels' where
    "find_entry c (g es) = Some (Entry c subs rels')"
    "\<And>subs'. g (update_entry c (Entry c subs' rels) es) = update_entry c (Entry c subs' rels') (g es)"
    by metis
  with q found show ?case
    by simp
next
  case (Cons d p)
  then obtain c cs where q: "q = c # cs"
    by (cases q) auto
  from Cons.prems(2) obtain subs rels where d: "find_entry d es = Some (Entry d subs rels)" "dir_at p subs \<noteq> None"
    by (rule dir_at_ConsE)
  from Cons.prems(3) q obtain subs' rels' where c: "find_entry c es = Some (Entry c subs' rels')" "dir_at cs subs' \<noteq> None"
    by (metis dir_at_ConsE)
  show ?case
  proof (cases "c = d")
    case True
    with Cons.IH [of cs subs] Cons.prems q c d show ?thesis
      by (simp add: store_simps)
  next
    case False
    with q c d show ?thesis
      by (simp add: store_simps update_swap)
  qed
qed

lemma dir_at_unseen:
  assumes "keeps_subdirs g"
  shows "\<not> prefix q p \<Longrightarrow> dir_at q es \<noteq> None \<Longrightarrow> dir_at q (at_dir p g es) = dir_at q es"
proof (induction p arbitrary: q es)
  case Nil
  then obtain c cs where q: "q = c # cs"
    by (cases q) auto
  with Nil obtain subs rels where found: "find_entry c es = Some (Entry c subs rels)"
    by (metis dir_at_ConsE)
  from keeps_subdirsE [OF assms found] obtain rels' where "find_entry c (g es) = Some (Entry c subs rels')"
    by metis
  with q found show ?case
    by (simp add: store_simps)
next
  case (Cons d p)
  then obtain c cs where q: "q = c # cs"
    by (cases q) auto
  show ?case
  proof (cases "find_entry d es")
    case (Some e)
    then obtain n subs rels where d: "find_entry d es = Some (Entry n subs rels)"
      by (cases e) auto
    with Cons q find_entry_name [OF d] show ?thesis
      by (auto simp: store_simps split: option.splits)
  qed simp
qed

lemma update_nth: "entry_name (es ! k) \<noteq> c \<Longrightarrow> k < length es \<Longrightarrow> update_entry c e es ! k = es ! k"
  by (induction es arbitrary: k) (auto simp: nth_Cons split: nat.splits)

lemma map_update: "find_entry c es = Some e \<Longrightarrow> f e' = f e \<Longrightarrow> map f (update_entry c e' es) = map f es"
  by (induction es) (auto split: if_splits)

lemma find_at_dir:
  "find_entry d (at_dir (c # cs) f es) =
     (if d = c then map_option (\<lambda>e. Entry c (at_dir cs f (subdirs e)) (releases e)) (find_entry c es)
      else find_entry d es)"
proof (cases "find_entry c es")
  case (Some e)
  then obtain subs rels where "e = Entry c subs rels"
    by (rule find_entry_cases)
  with Some show ?thesis
    by (simp add: store_simps)
qed simp

lemma at_dir_Nil_Cons: "length (at_dir (c # cs) f es) = length es"
  by (simp add: store_simps split: option.splits entry.splits)

text \<open>What a walk at \<open>q\<close> sees of its directory, when another changes something that is not above it.\<close>

lemma dir_at_seen:
  "\<not> prefix p q \<Longrightarrow> dir_at q es = Some fs \<Longrightarrow>
     \<exists>fs'. dir_at q (at_dir p f es) = Some fs' \<and> map entry_name fs' = map entry_name fs \<and>
       map releases fs' = map releases fs \<and>
       (\<forall>k < length fs. p \<noteq> q @ [entry_name (fs ! k)] \<longrightarrow> length (subdirs (fs' ! k)) = length (subdirs (fs ! k)))"
proof (induction q arbitrary: p es)
  case Nil
  then obtain c cs where p: "p = c # cs"
    by (cases p) auto
  from Nil have fs: "fs = es"
    by (simp add: store_simps)
  show ?case
  proof (cases "find_entry c es")
    case (Some e)
    then obtain subs rels where e: "find_entry c es = Some (Entry c subs rels)"
      by (metis find_entry_cases)
    let ?e = "Entry c (at_dir cs f subs) rels"
    have "length (subdirs (update_entry c ?e es ! k)) = length (subdirs (es ! k))"
      if k: "k < length es" "p \<noteq> [entry_name (es ! k)]" for k
    proof (cases cs)
      case Nil
      with p k(2) have "entry_name (es ! k) \<noteq> c"
        by auto
      with k(1) show ?thesis
        by (simp add: update_nth)
    next
      case (Cons d ds)
      then have "map (\<lambda>e. length (subdirs e)) (update_entry c ?e es) = map (\<lambda>e. length (subdirs e)) es"
        by (intro map_update [OF e]) (simp only: entry.sel at_dir_Nil_Cons)
      with k(1) show ?thesis
        by (metis length_update nth_map)
    qed
    with e fs p show ?thesis
      by (simp add: store_simps map_update [OF e])
  qed (use fs p in \<open>simp add: store_simps\<close>)
next
  case (Cons d q)
  then obtain c cs where p: "p = c # cs"
    by (cases p) auto
  from Cons.prems obtain subs rels where d: "find_entry d es = Some (Entry d subs rels)" "dir_at q subs = Some fs"
    by (metis dir_at_ConsE dir_at_simps(2) entry.sel(2) option.distinct(1) option.simps(5))
  show ?case
  proof (cases "c = d")
    case True
    with Cons.IH [of cs subs] Cons.prems p d show ?thesis
      by (simp add: store_simps)
  next
    case False
    have "dir_at (d # q) (at_dir p f es) = dir_at (d # q) es"
      using False p by (simp add: dir_at_simps find_at_dir del: at_dir.simps)
    with Cons.prems show ?thesis
      by simp
  qed
qed

lemma find_entry_seen:
  "map entry_name fs' = map entry_name fs \<Longrightarrow> map releases fs' = map releases fs \<Longrightarrow>
     map_option releases (find_entry c fs') = map_option releases (find_entry c fs)"
proof (induction fs arbitrary: fs')
  case (Cons e fs)
  then obtain e' fs'' where "fs' = e' # fs''"
    by (cases fs') auto
  with Cons.IH [of fs''] Cons.prems show ?case
    by simp
qed simp

lemma at_dir_append: "at_dir (p @ q) f es = at_dir p (at_dir q f) es"
  by (induction p arbitrary: es) (auto split: option.splits entry.splits)

lemma at_dir_twice: "at_dir p f (at_dir p g es) = at_dir p (\<lambda>fs. f (g fs)) es"
proof (induction p arbitrary: es)
  case (Cons c p)
  show ?case
  proof (cases "find_entry c es")
    case (Some e)
    then obtain subs rels where "e = Entry c subs rels"
      by (rule find_entry_cases)
    with Some Cons.IH show ?thesis
      by (simp add: store_simps)
  qed simp
qed simp

lemma at_dir_id: "at_dir p (\<lambda>fs. fs) es = es"
proof (induction p arbitrary: es)
  case (Cons c p)
  show ?case
  proof (cases "find_entry c es")
    case (Some e)
    then obtain subs rels where "e = Entry c subs rels"
      by (rule find_entry_cases)
    with Some Cons.IH show ?thesis
      by (simp add: update_id)
  qed simp
qed simp

lemma dir_at_at_dir: "dir_at p (at_dir p f es) = map_option f (dir_at p es)"
proof (induction p arbitrary: es)
  case (Cons c p)
  then show ?case
    by (cases "find_entry c es") (simp_all add: dir_at_simps find_at_dir del: at_dir.simps)
qed (simp add: dir_at_simps)

lemma dir_at_append:
  "dir_at (p @ q) es = (case dir_at p es of None \<Rightarrow> None | Some fs \<Rightarrow> dir_at q fs)"
  by (induction p arbitrary: es) (auto simp: store_simps split: option.splits)

lemma dir_at_kept:
  assumes f: "\<And>r fs. dir_at r fs \<noteq> None \<Longrightarrow> dir_at r (f fs) \<noteq> None"
  shows "dir_at q es \<noteq> None \<Longrightarrow> dir_at q (at_dir p f es) \<noteq> None"
proof (induction p arbitrary: q es)
  case (Cons c p)
  show ?case
  proof (cases q)
    case q: (Cons d ds)
    with Cons.prems Cons.IH show ?thesis
      by (auto simp: dir_at_simps find_at_dir simp del: at_dir.simps split: option.splits)
  qed (simp add: store_simps)
qed (use f in simp)

lemma keeps_subdirs_dirs:
  assumes "keeps_subdirs g" "dir_at q es \<noteq> None"
  shows "dir_at q (g es) \<noteq> None"
  using dir_at_unseen [OF assms(1), of q "[]" es] assms(2) by (cases q) (auto simp: store_simps)

lemma commit_loop_dirs:
  assumes "list_all component_ok cs" "dir_at q es \<noteq> None"
  shows "dir_at q (fst (commit_loop data cs es)) \<noteq> None"
proof (cases "cs = []")
  case False
  with assms commit_loop_node [OF assms(1) False, of q data es] show ?thesis
    by (auto simp: dir_at_def)
qed (use assms in simp)

lemma make_dir_there: "component_ok c \<Longrightarrow> dir_at [c] (make_dir c es) \<noteq> None"
  by (auto simp: make_dir_def store_simps entry_dir_def component_lossy split: option.splits)

text \<open>The loop of \<open>commit\<close> as changes of one directory after the other.\<close>

lemma commit_loop_step:
  assumes "component_ok c"
  shows "fst (commit_loop d (c # c' # cs) es) = at_dir [c] (\<lambda>fs. fst (commit_loop d (c' # cs) fs)) (make_dir c es)"
    and "snd (commit_loop d (c # c' # cs) es) = snd (commit_loop d (c' # cs) (entries_at [c] (make_dir c es)))"
proof -
  show "fst (commit_loop d (c # c' # cs) es) = at_dir [c] (\<lambda>fs. fst (commit_loop d (c' # cs) fs)) (make_dir c es)"
  proof (cases "find_entry c es")
    case None
    moreover from None have "update_entry c x (es @ [entry_dir c []]) = es @ [x]" for x
      using assms by (induction es) (auto simp: entry_dir_def component_lossy split: if_splits)
    ultimately show ?thesis
      using assms by (simp add: make_dir_def entry_dir_def component_lossy store_simps split_beta)
  next
    case (Some e)
    then show ?thesis
      by (cases e) (simp add: make_dir_def split_beta)
  qed
  show "snd (commit_loop d (c # c' # cs) es) = snd (commit_loop d (c' # cs) (entries_at [c] (make_dir c es)))"
    using assms
    by (cases "find_entry c es")
      (auto simp: make_dir_def entry_dir_def component_lossy store_simps entries_at_def split_beta split: entry.splits)
qed

section \<open>A walk that is left alone\<close>

text \<open>What becomes of the store and what the call answers, when no other walk advances any more.\<close>

fun left_alone :: "walk \<Rightarrow> entry list \<Rightarrow> entry list \<times> call_reply" where
  "left_alone (Writing p cs d) es =
     (at_dir p (\<lambda>fs. fst (commit_loop d cs fs)) es, Committed (snd (commit_loop d cs (entries_at p es))))"
| "left_alone (Reading p cs r) es =
     (es, Got (revision_of (get_loop (which_release r) cs (entries_at p es))))"
| "left_alone (Finding p cs) es =
     (es, Listed (bind_outcome (list_loop cs (entries_at p es)) (\<lambda>dir.
        Ok (sort_key list_entry_name (map to_list_entry dir)))))"
| "left_alone (Listing p ls) es =
     (es, Listed (Ok (sort_key list_entry_name (ls @ map to_list_entry (drop (length ls) (entries_at p es))))))"
| "left_alone (Done a) es = (es, a)"

definition walk_ok :: "entry list \<Rightarrow> walk \<Rightarrow> bool" where
  "walk_ok es w \<longleftrightarrow> (\<forall>p. place w = Some p \<longrightarrow> dir_at p es \<noteq> None) \<and>
     (case w of Writing p cs d \<Rightarrow> list_all component_ok cs | _ \<Rightarrow> True)"

lemma entries_at_Nil [simp]: "entries_at [] es = es"
  by (simp add: entries_at_def store_simps)

lemma entries_at_step:
  assumes "dir_at p es \<noteq> None"
  shows "entries_at (p @ q) es = entries_at q (entries_at p es)"
  using assms by (auto simp: entries_at_def dir_at_append)

lemma entries_at_single: "find_entry c fs = Some e \<Longrightarrow> entries_at [c] fs = subdirs e"
  by (simp add: entries_at_def store_simps)

lemma which_release_eq:
  "which_release None = (\<lambda>vs. if vs = [] then None else Some (last vs))"
  "which_release (Some r) = (\<lambda>vs. if r < length vs then Some (vs ! r) else None)"
  by auto

lemma left_alone_admit: "left_alone (admit r) es = call_once r es"
proof (cases r)
  case (Commit w)
  then show ?thesis
    by (simp add: commit_def path_new_def split_beta)
next
  case (Get_revision p n)
  then show ?thesis
    by (cases n) (simp_all add: get_current_revision_def get_revision_def vcs_get_def path_new_def
        revision_of_def which_release_eq)
next
  case (List_dir p)
  then show ?thesis
    by (simp add: vcs_list_def path_new_def)
qed

lemma advance_ok:
  assumes "walk_ok es w"
  shows "walk_ok (fst (advance_walk w es)) (snd (advance_walk w es))"
proof (cases w rule: walk_forms)
  case (dir p c c' cs d)
  with assms obtain fs where fs: "dir_at p es = Some fs"
    by (auto simp: walk_ok_def)
  with dir assms show ?thesis
    using make_dir_there [of c fs] by (auto simp: walk_ok_def dir_at_append dir_at_at_dir)
qed (use assms in \<open>auto simp: walk_ok_def dir_at_append entries_at_def store_simps split: option.splits\<close>)

lemma left_alone_advance:
  assumes "walk_ok es w"
  shows "left_alone (snd (advance_walk w es)) (fst (advance_walk w es)) = left_alone w es"
proof (cases w rule: walk_forms)
  case (leaf p d)
  then show ?thesis
    by (simp add: at_dir_id)
next
  case (dir p c c' cs d)
  with assms obtain fs where fs: "dir_at p es = Some fs" and c: "component_ok c"
    by (auto simp: walk_ok_def)
  note step = commit_loop_step [OF c, of d c' cs]
  have "at_dir (p @ [c]) (\<lambda>fs. fst (commit_loop d (c' # cs) fs)) (at_dir p (make_dir c) es) =
      at_dir p (\<lambda>fs. fst (commit_loop d (c # c' # cs) fs)) es"
    by (simp only: at_dir_append at_dir_twice step(1))
  moreover have "entries_at (p @ [c]) (at_dir p (make_dir c) es) = entries_at [c] (make_dir c fs)"
    using fs by (simp add: entries_at_def dir_at_append dir_at_at_dir)
  ultimately show ?thesis
    using dir fs step(2) [of fs] by (simp add: entries_at_def)
next
  case (get_dir p c c' cs r)
  then show ?thesis
    using assms by (auto simp: walk_ok_def entries_at_step entries_at_single revision_of_def split: entry.splits)
next
  case (find_dir p c cs)
  then show ?thesis
    using assms by (auto simp: walk_ok_def entries_at_step entries_at_single split: entry.splits)
next
  case (listing p ls)
  then show ?thesis
    by (auto simp: Cons_nth_drop_Suc [symmetric])
qed (auto simp: revision_of_def)

section \<open>Walks that do not disturb each other\<close>

text \<open>
  \<open>u\<close> got its first lock before \<open>w\<close>, so that it is never above it, unless both only read; and \<open>w\<close> does
  not advance to where it is.
\<close>

definition ahead_of :: "walk \<Rightarrow> walk \<Rightarrow> bool" where
  "ahead_of u w \<longleftrightarrow> \<not> writes u \<and> \<not> writes w \<or>
     (\<forall>p q. place u = Some p \<longrightarrow> place w = Some q \<longrightarrow> \<not> prefix p q)"

lemma writes_Writing: "writes w \<longleftrightarrow> (\<exists>p cs d. w = Writing p cs d)"
  by (cases w) auto

lemma reader_tree: "\<not> writes w \<Longrightarrow> fst (advance_walk w es) = es \<and> fst (left_alone w es) = es"
  by (cases w rule: walk_forms) auto

lemma writer_change:
  assumes "writes w" "place w = Some p"
  obtains g where "keeps_subdirs g" "\<And>es. fst (advance_walk w es) = at_dir p g es"
proof -
  have "\<exists>g. keeps_subdirs g \<and> (\<forall>es. fst (advance_walk w es) = at_dir p g es)"
  proof (cases w rule: walk_forms)
    case (leaf p d)
    with assms show ?thesis
      by (intro exI [of _ "\<lambda>fs. fs"]) (simp add: keeps_id at_dir_id)
  next
    case (new_file p c d)
    with assms show ?thesis
      by (intro exI [of _ "\<lambda>fs. fst (commit_loop d [c] fs)"]) (auto simp: keeps_commit simp del: commit_loop.simps)
  next
    case (dir p c c' cs d)
    with assms show ?thesis
      by (intro exI [of _ "make_dir c"]) (auto simp: keeps_make_dir)
  qed (use assms in auto)
  with that show thesis
    by blast
qed

lemma walk_ok_kept:
  "(\<And>q. dir_at q es \<noteq> None \<Longrightarrow> dir_at q es' \<noteq> None) \<Longrightarrow> walk_ok es v \<Longrightarrow> walk_ok es' v"
  unfolding walk_ok_def by blast

lemma left_alone_dirs:
  assumes "walk_ok es u" "dir_at q es \<noteq> None"
  shows "dir_at q (fst (left_alone u es)) \<noteq> None"
proof (cases u)
  case (Writing p cs d)
  with assms show ?thesis
    using dir_at_kept [of "\<lambda>fs. fst (commit_loop d cs fs)" q es p] commit_loop_dirs by (simp add: walk_ok_def)
qed (use assms in simp_all)

lemma advance_dirs:
  assumes "walk_ok es w" "dir_at q es \<noteq> None"
  shows "dir_at q (fst (advance_walk w es)) \<noteq> None"
proof (cases "writes w")
  case True
  then obtain p cs d where "w = Writing p cs d"
    by (auto simp: writes_Writing)
  with True obtain g where "keeps_subdirs g" "fst (advance_walk w es) = at_dir p g es"
    by (metis place.simps(1) writer_change)
  with assms(2) show ?thesis
    using dir_at_kept [of g q es p] keeps_subdirs_dirs by simp
qed (use assms reader_tree in simp)

text \<open>What a walk sees of its directory decides how it goes on.\<close>

lemma commit_loop_file:
  "snd (commit_loop d [c] fs) = Ok (case map_option releases (find_entry c fs) of
     None \<Rightarrow> 0 | Some rels \<Rightarrow> length (add_revision d rels) - 1)"
  by (simp add: add_revision_def split: option.split entry.split)

lemma get_loop_file:
  "get_loop f [c] fs = (case map_option releases (find_entry c fs) of
     None \<Rightarrow> Err FileNotFound
   | Some rels \<Rightarrow> (case f rels of Some release \<Rightarrow> Ok release | None \<Rightarrow> Err ReleaseNotFound))"
  by (simp split: option.split entry.split)

lemma to_list_entry_eq:
  "to_list_entry e = (if releases e = [] then Dir (entry_name e) (length (subdirs e))
     else File (entry_name e) (length (releases e)))"
  by (cases e) simp

lemma advance_seen:
  assumes w: "place w = Some q" and fs: "fs = entries_at q es" and fs': "fs' = entries_at q es'"
    and names: "map entry_name fs' = map entry_name fs" and rels: "map releases fs' = map releases fs"
    and lens: "\<And>k. k < length fs \<Longrightarrow> wants w es = Some (q @ [entry_name (fs ! k)]) \<Longrightarrow>
      length (subdirs (fs' ! k)) = length (subdirs (fs ! k)) \<or> writes w"
  shows "wants w es' = wants w es \<and> snd (advance_walk w es') = snd (advance_walk w es)"
proof -
  have len: "length fs' = length fs"
    using map_eq_imp_length_eq [OF names] .
  have at: "entry_name (fs' ! k) = entry_name (fs ! k) \<and> releases (fs' ! k) = releases (fs ! k)" if "k < length fs" for k
    using names rels len that by (metis nth_map)
  have found: "map_option releases (find_entry c fs') = map_option releases (find_entry c fs)" for c
    using find_entry_seen [OF names rels] .
  then have none: "find_entry c fs' = None \<longleftrightarrow> find_entry c fs = None" for c
    by (metis map_option_is_None)
  show ?thesis
  proof (cases w rule: walk_forms)
    case (new_file p c d)
    with w fs fs' found show ?thesis
      by (simp del: commit_loop.simps add: commit_loop_file)
  next
    case (get_file p c r)
    with w fs fs' found show ?thesis
      by (simp del: get_loop.simps add: get_loop_file)
  next
    case (listing p ls)
    then have ls: "w = Listing q ls"
      using w by simp
    have "to_list_entry (fs' ! length ls) = to_list_entry (fs ! length ls)" if "length ls < length fs"
      using lens [OF that] at [OF that] that ls fs by (simp add: to_list_entry_eq)
    then show ?thesis
      using at [of "length ls"] by (simp add: ls len flip: fs fs')
  qed (use w fs fs' none in auto)
qed

lemma left_alone_unseen:
  assumes "writes w" "walk_ok es u" "ahead_of u w"
  shows "snd (left_alone u (fst (advance_walk w es))) = snd (left_alone u es)"
proof (cases "place u")
  case (Some p)
  from assms(1) obtain q cs d where w: "w = Writing q cs d"
    by (auto simp: writes_Writing)
  then obtain g where g: "keeps_subdirs g" "fst (advance_walk w es) = at_dir q g es"
    using assms(1) by (metis place.simps(1) writer_change)
  have "\<not> prefix p q" "dir_at p es \<noteq> None"
    using assms w Some by (auto simp: ahead_of_def walk_ok_def)
  then have "entries_at p (fst (advance_walk w es)) = entries_at p es"
    using dir_at_unseen [OF g(1)] g(2) by (simp add: entries_at_def)
  with Some show ?thesis
    by (cases u) simp_all
qed (cases u; simp)

lemma advance_unseen:
  assumes "writes u" "walk_ok es w" "ahead_of u w"
    and free: "wants w es = place u \<Longrightarrow> \<not> writes u \<and> \<not> writes w"
  shows "wants w (fst (left_alone u es)) = wants w es \<and>
    snd (advance_walk w (fst (left_alone u es))) = snd (advance_walk w es)"
proof (cases "place w")
  case (Some q)
  from assms(1) obtain p cs d where u: "u = Writing p cs d"
    by (auto simp: writes_Writing)
  let ?es' = "fst (left_alone u es)"
  obtain fs where fs: "dir_at q es = Some fs" and "\<not> prefix p q"
    using assms u Some by (auto simp: ahead_of_def walk_ok_def)
  then obtain fs' where fs': "dir_at q ?es' = Some fs'" "map entry_name fs' = map entry_name fs"
      "map releases fs' = map releases fs"
      "\<And>k. k < length fs \<Longrightarrow> p \<noteq> q @ [entry_name (fs ! k)] \<Longrightarrow>
        length (subdirs (fs' ! k)) = length (subdirs (fs ! k))"
    using dir_at_seen [of p q es fs "\<lambda>fs. fst (commit_loop d cs fs)"] u by auto
  show ?thesis
  proof (rule advance_seen [OF Some])
    show "fs = entries_at q es" "fs' = entries_at q ?es'"
      using fs fs' by (simp_all add: entries_at_def)
  next
    fix k
    assume "k < length fs" "wants w es = Some (q @ [entry_name (fs ! k)])"
    with free fs'(4) [of k] assms(1) u
    show "length (subdirs (fs' ! k)) = length (subdirs (fs ! k)) \<or> writes w"
      by auto
  qed (use fs' in simp_all)
qed (cases w; simp)

lemma undisturbed:
  assumes "walk_ok es u" "walk_ok es w" "ahead_of u w"
    and free: "wants w es = place u \<Longrightarrow> place u \<noteq> None \<Longrightarrow> \<not> writes u \<and> \<not> writes w"
  shows "left_alone u (fst (advance_walk w es)) = (fst (advance_walk w (fst (left_alone u es))), snd (left_alone u es))"
    and "snd (advance_walk w (fst (left_alone u es))) = snd (advance_walk w es)"
    and "wants w (fst (left_alone u es)) = wants w es"
proof -
  have "fst (left_alone u (fst (advance_walk w es))) = fst (advance_walk w (fst (left_alone u es)))"
  proof (cases "writes u \<and> writes w")
    case True
    then obtain p cs d q cs' d' where u: "u = Writing p cs d" and w: "w = Writing q cs' d'"
      by (auto simp: writes_Writing)
    then obtain g where g: "keeps_subdirs g" "\<And>es. fst (advance_walk w es) = at_dir q g es"
      using True by (metis place.simps(1) writer_change)
    have "\<not> prefix p q" "dir_at q es \<noteq> None" "dir_at p es \<noteq> None"
      using assms u w by (auto simp: ahead_of_def walk_ok_def)
    from at_dir_commute [OF g(1) this] show ?thesis
      by (simp add: g(2) u)
  next
    case False
    then show ?thesis
      using reader_tree by metis
  qed
  moreover have "snd (left_alone u (fst (advance_walk w es))) = snd (left_alone u es)"
    using left_alone_unseen [OF _ assms(1,3)] reader_tree by metis
  ultimately show "left_alone u (fst (advance_walk w es)) = (fst (advance_walk w (fst (left_alone u es))), snd (left_alone u es))"
    by (metis prod.collapse)
  have "writes u \<Longrightarrow> place u \<noteq> None"
    by (auto simp: writes_Writing)
  then show "snd (advance_walk w (fst (left_alone u es))) = snd (advance_walk w es)"
    "wants w (fst (left_alone u es)) = wants w es"
    using advance_unseen [OF _ assms(2,3)] free reader_tree by metis+
qed

section \<open>Calls of several threads are calls one after the other\<close>

text \<open>What becomes of the store when every walk is left alone in turn.\<close>

fun settle_walks :: "walk list \<Rightarrow> entry list \<Rightarrow> entry list \<times> call_reply list" where
  "settle_walks [] es = (es, [])"
| "settle_walks (w # ws) es =
     (let (es', a) = left_alone w es; (es'', bs) = settle_walks ws es' in (es'', a # bs))"

lemma settle_walks_append:
  "settle_walks (us @ vs) es =
     (let (es', as) = settle_walks us es; (es'', bs) = settle_walks vs es' in (es'', as @ bs))"
  by (induction us arbitrary: es) (auto simp: split_beta)

lemma settle_walks_advance:
  "\<forall>u \<in> set us. walk_ok es u \<and> ahead_of u w \<Longrightarrow> walk_ok es w \<Longrightarrow> may_lock w (wants w es) us \<Longrightarrow>
     settle_walks (us @ snd (advance_walk w es) # vs) (fst (advance_walk w es)) = settle_walks (us @ w # vs) es"
proof (induction us arbitrary: es)
  case Nil
  then show ?case
    by (simp add: left_alone_advance)
next
  case (Cons u us)
  let ?es = "fst (left_alone u es)"
  have u: "walk_ok es u" "ahead_of u w"
    using Cons.prems by auto
  have free: "wants w es = place u \<Longrightarrow> place u \<noteq> None \<Longrightarrow> \<not> writes u \<and> \<not> writes w"
    using Cons.prems(3) by (auto simp: may_lock_def)
  note alone = undisturbed [OF u(1) Cons.prems(2) u(2) free]
  have kept: "walk_ok ?es v" if "walk_ok es v" for v
    using that walk_ok_kept [OF left_alone_dirs [OF u(1)]] by blast
  have "settle_walks (us @ snd (advance_walk w ?es) # vs) (fst (advance_walk w ?es)) = settle_walks (us @ w # vs) ?es"
    using Cons.prems kept alone(3) by (intro Cons.IH) (auto simp: may_lock_def)
  then show ?case
    using alone by (simp add: split_beta)
qed

text \<open>In every reachable state each walk is in a directory that exists, ahead of those that came later.\<close>

definition locked_ok :: "locked_store \<Rightarrow> bool" where
  "locked_ok s \<longleftrightarrow> (\<forall>w \<in> snd ` set (snd s). walk_ok (fst s) w) \<and> sorted_wrt ahead_of (map snd (snd s))"

lemma advance_place:
  "place (snd (advance_walk w es)) = None \<or>
     writes (snd (advance_walk w es)) = writes w \<and>
       (place (snd (advance_walk w es)) = place w \<or>
        place (snd (advance_walk w es)) = wants w es \<and> (\<exists>p c. place w = Some p \<and> wants w es = Some (p @ [c])))"
  by (cases w rule: walk_forms) auto

lemma ahead_of_advanced:
  assumes "ahead_of u w" and free: "wants w es = place u \<Longrightarrow> place u \<noteq> None \<Longrightarrow> \<not> writes u \<and> \<not> writes w"
  shows "ahead_of u (snd (advance_walk w es))"
  using advance_place [of w es] assms by (auto simp: ahead_of_def)

lemma advanced_ahead_of: "ahead_of w v \<Longrightarrow> ahead_of (snd (advance_walk w es)) v"
  using advance_place [of w es] by (auto simp: ahead_of_def dest: append_prefixD)

lemma admit_ok: "walk_ok es (admit r)"
  by (cases r) (auto simp: walk_ok_def store_simps components_ok)

lemma admit_place: "place (admit r) = None \<or> place (admit r) = Some []"
  by (cases r) auto

lemma walk_stepE:
  assumes "walk_step (es, ws) s'"
  obtains us r w vs where "ws = us @ (r, w) # vs" "place w \<noteq> None"
    "may_lock w (wants w es) (map snd (us @ vs))"
    "s' = (fst (advance_walk w es), us @ (r, snd (advance_walk w es)) # vs)"
  using assms
proof cases
  case (advance i r w)
  let ?us = "take i ws" and ?vs = "drop (Suc i) ws"
  have ws: "ws = ?us @ (r, w) # ?vs"
    using advance id_take_nth_drop by metis
  moreover have "may_lock w (wants w es) (map snd (?us @ ?vs))"
    using advance(5) by (subst (asm) ws) (auto simp: may_lock_def)
  ultimately show thesis
    using that [of ?us r w ?vs] advance by (simp add: upd_conv_take_nth_drop)
qed

lemma walk_step_ok:
  assumes "walk_step s s'" "locked_ok s"
  shows "locked_ok s' \<and> map fst (snd s') = map fst (snd s) \<and>
    settle_walks (map snd (snd s')) (fst s') = settle_walks (map snd (snd s)) (fst s)"
proof -
  obtain es ws where s: "s = (es, ws)"
    by (cases s)
  from assms(1) [unfolded s] obtain us r w vs where ws: "ws = us @ (r, w) # vs"
    and lock: "may_lock w (wants w es) (map snd (us @ vs))"
    and s': "s' = (fst (advance_walk w es), us @ (r, snd (advance_walk w es)) # vs)"
    by (rule walk_stepE)
  have ok: "walk_ok es v" if "v \<in> snd ` set us \<union> snd ` set vs \<union> {w}" for v
    using assms(2) that by (auto simp: locked_ok_def s ws)
  have ahead: "sorted_wrt ahead_of (map snd us @ w # map snd vs)"
    using assms(2) by (simp add: locked_ok_def s ws)
  have "walk_ok (fst (advance_walk w es)) v" if "v \<in> snd ` set us \<union> snd ` set vs" for v
    using that ok walk_ok_kept [OF advance_dirs [OF ok [of w]]] by blast
  moreover have "ahead_of v (snd (advance_walk w es))" if "v \<in> set (map snd us)" for v
  proof (rule ahead_of_advanced)
    show "ahead_of v w"
      using that ahead unfolding sorted_wrt_append by fastforce
    show "\<not> writes v \<and> \<not> writes w" if "wants w es = place v" "place v \<noteq> None"
      using that \<open>v \<in> _\<close> lock by (auto simp: may_lock_def)
  qed
  then have "sorted_wrt ahead_of (map snd us @ snd (advance_walk w es) # map snd vs)"
    using ahead advanced_ahead_of by (simp add: sorted_wrt_append)
  ultimately have "locked_ok s'"
    using advance_ok [OF ok [of w]] by (auto simp: locked_ok_def s')
  moreover have "settle_walks (map snd us @ snd (advance_walk w es) # map snd vs) (fst (advance_walk w es)) =
      settle_walks (map snd us @ w # map snd vs) es"
    using ahead ok lock by (intro settle_walks_advance) (auto simp: sorted_wrt_append may_lock_def)
  ultimately show ?thesis
    by (simp add: s s' ws)
qed

lemma settle_walks_admitted:
  "settle_walks (us @ [admit r]) es =
     (let (es', as) = settle_walks us es; (es'', a) = call_once r es' in (es'', as @ [a]))"
  by (simp add: settle_walks_append left_alone_admit split_beta)

lemma call_all_snoc:
  "call_all (rs @ [r]) es = (let (es', as) = call_all rs es; (es'', a) = call_once r es' in (es'', as @ [a]))"
  by (induction rs arbitrary: es) (auto simp: split_beta)

lemma locked_step_ok:
  assumes "locked_step s s'" "locked_ok s"
    and "settle_walks (map snd (snd s)) (fst s) = call_all (map fst (snd s)) es0"
  shows "locked_ok s' \<and> settle_walks (map snd (snd s')) (fst s') = call_all (map fst (snd s')) es0"
  using assms(1)
proof cases
  case (admitted r ws es)
  have "ahead_of v (admit r)" if "v \<in> snd ` set ws" for v
    using that admitted(3) admit_place [of r] by (auto simp: may_lock_def ahead_of_def)
  with admitted assms(2,3) show ?thesis
    by (auto simp: locked_ok_def sorted_wrt_append admit_ok settle_walks_admitted call_all_snoc)
next
  case advanced
  with walk_step_ok assms show ?thesis
    by metis
qed

lemma locked_run_ok:
  assumes "locked_step\<^sup>*\<^sup>* (es0, []) s"
  shows "locked_ok s \<and> settle_walks (map snd (snd s)) (fst s) = call_all (map fst (snd s)) es0"
  using assms
proof induction
  case base
  then show ?case
    by (simp add: locked_ok_def)
next
  case (step s s')
  then show ?case
    using locked_step_ok by blast
qed

lemma settle_walks_Done:
  "i < length ws \<Longrightarrow> ws ! i = Done a \<Longrightarrow> snd (settle_walks ws es) ! i = a"
proof (induction ws arbitrary: es i)
  case (Cons w ws)
  then show ?case
    by (cases i) (auto simp: split_beta)
qed simp

lemma settle_walks_all_Done: "\<forall>w \<in> set ws. place w = None \<Longrightarrow> fst (settle_walks ws es) = es"
proof (induction ws)
  case (Cons w ws)
  then show ?case
    by (cases w) (auto simp: split_beta)
qed simp

section \<open>No deadlock\<close>

text \<open>The walk that is deepest of all can advance: what it wants is deeper.\<close>

lemma deepest_advances:
  assumes "x \<in> set ws" "place (snd x) \<noteq> None"
  shows "\<exists>s'. walk_step (es, ws) s'"
proof -
  let ?depth = "\<lambda>x. length (the (place (snd x)))"
  let ?going = "{x \<in> set ws. place (snd x) \<noteq> None}"
  have "x \<in> ?going"
    using assms by simp
  then have "finite ?going" "?going \<noteq> {}"
    by (simp, blast)
  then have "Max (?depth ` ?going) \<in> ?depth ` ?going"
    by (intro Max_in) simp_all
  then obtain y where y: "y \<in> ?going" and "Max (?depth ` ?going) = ?depth y"
    by blast
  then have max: "?depth x \<le> ?depth y" if "x \<in> ?going" for x
    using Max_ge [of "?depth ` ?going" "?depth x"] \<open>finite ?going\<close> that by simp
  obtain r w where rw: "y = (r, w)"
    by (cases y)
  have deeper: "length q = Suc (length p)" if "wants w es = Some q" "place w = Some p" for p q
    using that by (cases w rule: walk_forms) (auto split: if_splits)
  have "place (snd v) \<noteq> wants w es" if "v \<in> set ws" "wants w es \<noteq> None" for v
  proof
    assume "place (snd v) = wants w es"
    moreover from that(2) obtain q where "wants w es = Some q"
      by auto
    moreover obtain p where "place w = Some p"
      using y rw by auto
    ultimately show False
      using max [of v] that(1) deeper rw by simp
  qed
  then have "may_lock w (wants w es) (map snd ws)"
    by (auto simp: may_lock_def)
  moreover obtain i where "i < length ws" "ws ! i = (r, w)"
    using y rw by (auto simp: in_set_conv_nth)
  ultimately show ?thesis
    using y rw walk_step.advance [of i ws r w es] by auto
qed

text \<open>Every step of a walk uses something up: a component of its path, or an entry to list.\<close>

fun path_left :: "walk \<Rightarrow> nat" where
  "path_left (Writing p cs d) = Suc (length cs)"
| "path_left (Reading p cs r) = Suc (length cs)"
| "path_left (Finding p cs) = length cs + 2"
| "path_left (Listing p ls) = 1"
| "path_left (Done a) = 0"

fun entries_left :: "entry list \<Rightarrow> walk \<Rightarrow> nat" where
  "entries_left es (Listing p ls) = length (entries_at p es) - length ls"
| "entries_left es _ = 0"

lemma advance_left:
  assumes "place w \<noteq> None"
  shows "path_left (snd (advance_walk w es)) < path_left w \<or>
    fst (advance_walk w es) = es \<and> path_left (snd (advance_walk w es)) = path_left w \<and>
      entries_left es (snd (advance_walk w es)) < entries_left es w"
  using assms by (cases w rule: walk_forms) auto

lemma walk_steps_end: "wfp (\<lambda>s' s. walk_step s s')"
proof -
  let ?m = "\<lambda>s :: locked_store. (\<Sum>x\<leftarrow>snd s. path_left (snd x), \<Sum>x\<leftarrow>snd s. entries_left (fst s) (snd x))"
  have "(?m s', ?m s) \<in> less_than <*lex*> less_than" if "walk_step s s'" for s s'
  proof -
    obtain es ws where s: "s = (es, ws)"
      by (cases s)
    from that [unfolded s] obtain us r w vs where "ws = us @ (r, w) # vs" "place w \<noteq> None"
      "s' = (fst (advance_walk w es), us @ (r, snd (advance_walk w es)) # vs)"
      by (rule walk_stepE)
    then show ?thesis
      using advance_left [of w es] by (auto simp: s)
  qed
  then have "{(s', s). walk_step s s'} \<subseteq> inv_image (less_than <*lex*> less_than) ?m"
    by auto
  then have "wf {(s', s). walk_step s s'}"
    by (rule wf_subset [rotated]) (intro wf_inv_image wf_lex_prod wf_less_than)
  then show ?thesis
    by (simp add: wfp_def)
qed

lemma walks_finish:
  "locked_ok s \<Longrightarrow> \<exists>s'. walk_step\<^sup>*\<^sup>* s s' \<and> (\<forall>x \<in> set (snd s'). place (snd x) = None) \<and> locked_ok s' \<and>
     map fst (snd s') = map fst (snd s) \<and> settle_walks (map snd (snd s')) (fst s') = settle_walks (map snd (snd s)) (fst s)"
proof (induction s rule: wfp_induct_rule [OF walk_steps_end])
  case (1 s)
  show ?case
  proof (cases "\<forall>x \<in> set (snd s). place (snd x) = None")
    case False
    then obtain s' where step: "walk_step s s'"
      using deepest_advances [where ws = "snd s" and es = "fst s"] by (metis prod.collapse)
    note step_ok = walk_step_ok [OF step 1(2)]
    with 1(1) [OF step] obtain t where "walk_step\<^sup>*\<^sup>* s' t" "\<forall>x \<in> set (snd t). place (snd x) = None" "locked_ok t"
      "map fst (snd t) = map fst (snd s')" "settle_walks (map snd (snd t)) (fst t) = settle_walks (map snd (snd s')) (fst s')"
      by blast
    with step step_ok show ?thesis
      by (intro exI [of _ t]) (simp add: converse_rtranclp_into_rtranclp)
  qed (use 1 in blast)
qed

lemma settle_walks_replies: "\<forall>w \<in> set ws. place w = None \<Longrightarrow> map Done (snd (settle_walks ws es)) = ws"
proof (induction ws)
  case (Cons w ws)
  then show ?case
    by (cases w) (auto simp: split_beta)
qed simp

text \<open>C17: Whatever the order in which the threads advance, each call that has been answered has the
  answer it would have if all calls had been made one after the other, in the order in which they got
  the lock of the root; when none is under way the store is the one after these calls. No set of calls
  deadlocks: however far they are, all can be answered, and every sequence of their steps is finite.\<close>

theorem vcs_calls_serializable:
  assumes "locked_step\<^sup>*\<^sup>* (es0, []) (es, ws)"
  shows "(\<forall>i < length ws. \<forall>a. snd (ws ! i) = Done a \<longrightarrow> snd (call_all (map fst ws) es0) ! i = a) \<and>
    ((\<forall>x \<in> set ws. place (snd x) = None) \<longrightarrow> fst (call_all (map fst ws) es0) = es) \<and>
    walk_step\<^sup>*\<^sup>* (es, ws) (fst (call_all (map fst ws) es0),
      zip (map fst ws) (map Done (snd (call_all (map fst ws) es0)))) \<and>
    wfp (\<lambda>s' s. walk_step s s')"
proof (intro conjI allI impI)
  note run = locked_run_ok [OF assms]
  fix i a
  assume "i < length ws" "snd (ws ! i) = Done a"
  with run settle_walks_Done [of i "map snd ws" a es] show "snd (call_all (map fst ws) es0) ! i = a"
    by simp
next
  assume "\<forall>x \<in> set ws. place (snd x) = None"
  with locked_run_ok [OF assms] settle_walks_all_Done [of "map snd ws" es] show "fst (call_all (map fst ws) es0) = es"
    by simp
next
  obtain s' where s': "walk_step\<^sup>*\<^sup>* (es, ws) s'" "\<forall>w \<in> set (map snd (snd s')). place w = None"
      "map fst (snd s') = map fst ws" "settle_walks (map snd (snd s')) (fst s') = call_all (map fst ws) es0"
    using walks_finish [of "(es, ws)"] locked_run_ok [OF assms] by auto
  have "fst s' = fst (call_all (map fst ws) es0)"
    "map snd (snd s') = map Done (snd (call_all (map fst ws) es0))"
    using settle_walks_all_Done [OF s'(2), of "fst s'"] settle_walks_replies [OF s'(2), of "fst s'"] s'(4) by simp_all
  then have "s' = (fst (call_all (map fst ws) es0), zip (map fst ws) (map Done (snd (call_all (map fst ws) es0))))"
    using s'(3) by (metis prod.collapse zip_map_fst_snd)
  with s'(1) show "walk_step\<^sup>*\<^sup>* (es, ws) (fst (call_all (map fst ws) es0),
      zip (map fst ws) (map Done (snd (call_all (map fst ws) es0))))"
    by simp
qed (rule walk_steps_end)

text \<open>One thread commits \<open>/a/b\<close> and has come to the directory \<open>a\<close> when another asks for the same file: it
  gets what is being written.\<close>

lemma vcs_calls_serializable_witness:
  "\<exists>es. walk_step\<^sup>*\<^sup>*
    ([Entry [97] [] []], [(Commit \<lparr>wr_path = [47, 97, 47, 98], wr_data = [120]\<rparr>, Writing [[97]] [[98]] [120]),
       (Get_revision [47, 97, 47, 98] None, Reading [] [[97], [98]] None)])
    (es, [(Commit \<lparr>wr_path = [47, 97, 47, 98], wr_data = [120]\<rparr>, Done (Committed (Ok 0))),
       (Get_revision [47, 97, 47, 98] None, Done (Got (Ok \<lparr>rr_data = [120], rr_index = 0\<rparr>)))])"
proof -
  let ?c = "Commit \<lparr>wr_path = [47, 97, 47, 98], wr_data = [120]\<rparr>" and ?g = "Get_revision [47, 97, 47, 98] None"
  have path: "components [47, 97, 47, 98] = [[97], [98]]" "path_is_valid [47, 97, 47, 98]"
      "\<not> path_is_dir [47, 97, 47, 98]" and textual: "data_ok [120]" and names: "component_ok [97]" "component_ok [98]"
    by (simp_all add: components_def path_is_valid_def path_is_dir_def data_ok_def path_char_def suffix_def component_ok_def
        is_ascii_alphanumeric_def is_ascii_digit_def is_ascii_graphic_def is_ascii_whitespace_def)
  note lossy = names [THEN component_lossy]
  have "locked_step ([], []) ([], [(?c, Writing [] [[97], [98]] [120])])"
    using admitted [of ?c "[]" "[]"] by (simp add: path textual may_lock_def)
  moreover have "locked_step ([], [(?c, Writing [] [[97], [98]] [120])]) ([Entry [97] [] []], [(?c, Writing [[97]] [[98]] [120])])"
    using walk_step.advance [of 0 "[(?c, Writing [] [[97], [98]] [120])]" ?c "Writing [] [[97], [98]] [120]" "[]"]
    by (intro advanced) (simp add: may_lock_def make_dir_def entry_dir_def lossy)
  moreover have "locked_step ([Entry [97] [] []], [(?c, Writing [[97]] [[98]] [120])]) ([Entry [97] [] []], [(?c, Writing [[97]] [[98]] [120]), (?g, Reading [] [[97], [98]] None)])"
    using admitted [of ?g "[(?c, Writing [[97]] [[98]] [120])]" "[Entry [97] [] []]"] by (simp add: path may_lock_def)
  ultimately have run: "locked_step\<^sup>*\<^sup>* ([], []) ([Entry [97] [] []], [(?c, Writing [[97]] [[98]] [120]), (?g, Reading [] [[97], [98]] None)])"
    by simp
  have "snd (call_all [?c, ?g] []) = [Committed (Ok 0), Got (Ok \<lparr>rr_data = [120], rr_index = 0\<rparr>)]"
    by (simp add: commit_def get_current_revision_def vcs_get_def path_new_def path textual entry_dir_def entry_file_def lossy)
  with vcs_calls_serializable [OF run] show ?thesis
    by auto
qed

end
