(* ===== verification/PestCodec.thy ===== *)
theory PestCodec
  imports Utf8
begin

text \<open>
  The packets of the pest control protocol, \<open>rust/p11-pest-control/src/codec\<close>: the writer with its
  length and checksum, the validator that looks whether a packet is complete and well-formed, the
  parser that reads what was validated, and the decoder that picks them by the first byte. The
  interface \<open>wire_validator\<close> says what validating a field means; every kind of field provides it.
\<close>

section \<open>Packets\<close>

datatype policy_action = Conserve | Cull

datatype pest_packet =
    Hello rstring u32
  | Error_packet rstring
  | Ok_packet
  | DialAuthority u32
  | TargetPopulations u32 "(rstring \<times> u32 \<times> u32) list"
  | CreatePolicy rstring policy_action
  | DeletePolicy u32
  | PolicyResult u32
  | SiteVisit u32 "(rstring \<times> u32) list"

datatype pest_error = Unknown_packet byte | Invalid_packet | Invalid_checksum

definition PESTCONTROL_PROTOCOL :: rstring where
  "PESTCONTROL_PROTOCOL = ascii ''pestcontrol''"

definition PESTCONTROL_VERSION :: u32 where
  "PESTCONTROL_VERSION = 1"

definition hello_new :: pest_packet where
  "hello_new = Hello PESTCONTROL_PROTOCOL PESTCONTROL_VERSION"

fun action_byte :: "policy_action \<Rightarrow> u8" where
  "action_byte Conserve = 160"
| "action_byte Cull = 144"

section \<open>Writer\<close>

type_synonym writer = "byte list"

definition writer_new :: "u8 \<Rightarrow> writer" where
  "writer_new t = [t, 0, 0, 0, 0]"

definition w_u8 :: "u8 \<Rightarrow> writer \<Rightarrow> writer" where
  "w_u8 v w = w @ [v]"

definition w_u32 :: "u32 \<Rightarrow> writer \<Rightarrow> writer" where
  "w_u32 v w = w @ to_be_u32 v"

text \<open>\<open>value.len() as u32\<close> truncates.\<close>

definition w_str :: "rstring \<Rightarrow> writer \<Rightarrow> writer" where
  "w_str s w = w_u32 (of_nat (length s)) w @ s"

definition byte_sum :: "byte list \<Rightarrow> u8" where
  "byte_sum bs = fold (+) bs 0"

definition finalize :: "writer \<Rightarrow> byte list" where
  "finalize w =
     (let w = take 1 w @ to_be_u32 (of_nat (length w + 1)) @ drop 5 w
      in w @ [0 - byte_sum w])"

definition write_hello :: "rstring \<Rightarrow> u32 \<Rightarrow> byte list" where
  "write_hello protocol version = finalize (w_u32 version (w_str protocol (writer_new 80)))"

definition write_error :: "rstring \<Rightarrow> byte list" where
  "write_error message = finalize (w_str message (writer_new 81))"

definition write_ok :: "byte list" where
  "write_ok = finalize (writer_new 82)"

definition write_dial_authority :: "u32 \<Rightarrow> byte list" where
  "write_dial_authority site = finalize (w_u32 site (writer_new 83))"

definition write_target_populations :: "u32 \<Rightarrow> (rstring \<times> u32 \<times> u32) list \<Rightarrow> byte list" where
  "write_target_populations site populations =
     finalize (fold (\<lambda>(species, min, max) w. w_u32 max (w_u32 min (w_str species w))) populations
       (w_u32 (of_nat (length populations)) (w_u32 site (writer_new 84))))"

definition write_create_policy :: "rstring \<Rightarrow> policy_action \<Rightarrow> byte list" where
  "write_create_policy species action = finalize (w_u8 (action_byte action) (w_str species (writer_new 85)))"

definition write_delete_policy :: "u32 \<Rightarrow> byte list" where
  "write_delete_policy policy = finalize (w_u32 policy (writer_new 86))"

definition write_policy_result :: "u32 \<Rightarrow> byte list" where
  "write_policy_result policy = finalize (w_u32 policy (writer_new 87))"

definition write_site_visit :: "u32 \<Rightarrow> (rstring \<times> u32) list \<Rightarrow> byte list" where
  "write_site_visit site populations =
     finalize (fold (\<lambda>(species, count) w. w_u32 count (w_str species w)) populations
       (w_u32 (of_nat (length populations)) (w_u32 site (writer_new 88))))"

text \<open>\<open>PacketCodec::encode\<close>: what it appends to the destination.\<close>

fun pest_encode :: "pest_packet \<Rightarrow> byte list" where
  "pest_encode (Hello protocol version) = write_hello protocol version"
| "pest_encode (Error_packet message) = write_error message"
| "pest_encode Ok_packet = write_ok"
| "pest_encode (DialAuthority site) = write_dial_authority site"
| "pest_encode (TargetPopulations site populations) = write_target_populations site populations"
| "pest_encode (CreatePolicy species action) = write_create_policy species action"
| "pest_encode (DeletePolicy policy) = write_delete_policy policy"
| "pest_encode (PolicyResult policy) = write_policy_result policy"
| "pest_encode (SiteVisit site populations) = write_site_visit site populations"

section \<open>Validator\<close>

record validator =
  data :: "byte list"
  cursor :: nat
  limit :: "nat option"

definition validator_new :: "byte list \<Rightarrow> validator" where
  "validator_new src = \<lparr>data = src, cursor = 0, limit = None\<rparr>"

text \<open>\<open>ControlFlow\<close>: to go on with a value, or to leave \<open>read_packet\<close> because bytes are missing, because
  the packet is wrong, or by a panic.\<close>

datatype 'a vflow = VContinue 'a | VMore | VFail pest_error | VPanic

fun vbind :: "'a vflow \<Rightarrow> ('a \<Rightarrow> 'b vflow) \<Rightarrow> 'b vflow" where
  "vbind (VContinue x) f = f x"
| "vbind VMore f = VMore"
| "vbind (VFail e) f = VFail e"
| "vbind VPanic f = VPanic"

definition over_limit :: "nat \<Rightarrow> validator \<Rightarrow> bool" where
  "over_limit n v \<longleftrightarrow> (case limit v of Some l \<Rightarrow> l < cursor v + n | None \<Rightarrow> False)"

definition validate_u8 :: "validator \<Rightarrow> (u8 \<times> validator) vflow" where
  "validate_u8 v =
     (if over_limit 1 v then VFail Invalid_packet
      else if cursor v < length (data v) then VContinue (data v ! cursor v, v\<lparr>cursor := cursor v + 1\<rparr>)
      else VMore)"

definition validate_u32 :: "validator \<Rightarrow> (u32 \<times> validator) vflow" where
  "validate_u32 v =
     (if over_limit 4 v then VFail Invalid_packet
      else if cursor v + 4 < length (data v)
      then VContinue (from_be_u32 (data v ! cursor v) (data v ! (cursor v + 1)) (data v ! (cursor v + 2))
             (data v ! (cursor v + 3)), v\<lparr>cursor := cursor v + 4\<rparr>)
      else VMore)"

definition validate_str :: "validator \<Rightarrow> (rstring \<times> validator) vflow" where
  "validate_str v =
     vbind (validate_u32 v) (\<lambda>(n, v).
       let len = unat n in
       if over_limit len v then VFail Invalid_packet
       else if cursor v + len < length (data v)
       then (let r = take len (drop (cursor v) (data v)) in
             if utf8_valid r then VContinue (r, v\<lparr>cursor := cursor v + len\<rparr>) else VPanic)
       else VMore)"

definition validate_length :: "validator \<Rightarrow> (nat \<times> validator) vflow" where
  "validate_length v =
     vbind (validate_u32 v) (\<lambda>(n, v). VContinue (unat n, v\<lparr>limit := Some (unat n)\<rparr>))"

definition validate_checksum :: "validator \<Rightarrow> (u8 \<times> validator) vflow" where
  "validate_checksum v =
     vbind (validate_u8 v) (\<lambda>(checksum, v).
       case limit v of
         None \<Rightarrow> VFail Invalid_packet
       | Some l \<Rightarrow> if byte_sum (take l (data v)) \<noteq> 0 then VFail Invalid_checksum else VContinue (checksum, v))"

text \<open>The part of a packet that follows its length, per type.\<close>

definition body_hello :: "validator \<Rightarrow> ((rstring \<times> u32) \<times> validator) vflow" where
  "body_hello v = vbind (validate_str v) (\<lambda>(s, v). vbind (validate_u32 v) (\<lambda>(n, v). VContinue ((s, n), v)))"

definition body_error :: "validator \<Rightarrow> (rstring \<times> validator) vflow" where
  "body_error = validate_str"

definition body_ok :: "validator \<Rightarrow> (unit \<times> validator) vflow" where
  "body_ok v = VContinue ((), v)"

definition body_u32 :: "validator \<Rightarrow> (u32 \<times> validator) vflow" where
  "body_u32 = validate_u32"

definition validate_action :: "validator \<Rightarrow> (policy_action \<times> validator) vflow" where
  "validate_action v =
     vbind (validate_u8 v) (\<lambda>(b, v).
       if b = 144 then VContinue (Cull, v) else if b = 160 then VContinue (Conserve, v)
       else VFail Invalid_packet)"

definition body_create_policy :: "validator \<Rightarrow> ((rstring \<times> policy_action) \<times> validator) vflow" where
  "body_create_policy v =
     vbind (validate_str v) (\<lambda>(s, v). vbind (validate_action v) (\<lambda>(a, v). VContinue ((s, a), v)))"

fun validate_many :: "(validator \<Rightarrow> ('a \<times> validator) vflow) \<Rightarrow> nat \<Rightarrow> validator \<Rightarrow> ('a list \<times> validator) vflow" where
  "validate_many V 0 v = VContinue ([], v)"
| "validate_many V (Suc n) v =
     vbind (V v) (\<lambda>(x, v). vbind (validate_many V n v) (\<lambda>(xs, v). VContinue (x # xs, v)))"

definition validate_target :: "validator \<Rightarrow> ((rstring \<times> u32 \<times> u32) \<times> validator) vflow" where
  "validate_target v =
     vbind (validate_str v) (\<lambda>(s, v). vbind (validate_u32 v) (\<lambda>(lo, v).
     vbind (validate_u32 v) (\<lambda>(hi, v). VContinue ((s, lo, hi), v))))"

definition validate_population :: "validator \<Rightarrow> ((rstring \<times> u32) \<times> validator) vflow" where
  "validate_population = body_hello"

definition body_array :: "(validator \<Rightarrow> ('a \<times> validator) vflow) \<Rightarrow> validator \<Rightarrow> ((u32 \<times> 'a list) \<times> validator) vflow" where
  "body_array V v =
     vbind (validate_u32 v) (\<lambda>(site, v). vbind (validate_u32 v) (\<lambda>(n, v).
     vbind (validate_many V (unat n) v) (\<lambda>(xs, v). VContinue ((site, xs), v))))"

section \<open>Parser\<close>

text \<open>The parser reads validated bytes; where it would index past their end or find no UTF-8 it panics,
  here \<open>None\<close>.\<close>

definition p_str :: "byte list \<Rightarrow> (rstring \<times> byte list) option" where
  "p_str bs =
     Option.bind (rd_u32 bs) (\<lambda>(n, r). Option.bind (rd_exact (unat n) r) (\<lambda>(s, r).
     if utf8_valid s then Some (s, r) else None))"

definition p_header :: "byte list \<Rightarrow> byte list option" where
  "p_header raw = Option.bind (rd_u8 raw) (\<lambda>(_, r). Option.bind (rd_u32 r) (\<lambda>(_, r). Some r))"

definition p_action :: "byte list \<Rightarrow> (policy_action \<times> byte list) option" where
  "p_action bs = Option.bind (rd_u8 bs) (\<lambda>(b, r). Some (if b = 144 then Cull else Conserve, r))"

definition p_hello :: "byte list \<Rightarrow> ((rstring \<times> u32) \<times> byte list) option" where
  "p_hello bs = Option.bind (p_str bs) (\<lambda>(s, r). Option.bind (rd_u32 r) (\<lambda>(n, r). Some ((s, n), r)))"

definition p_create_policy :: "byte list \<Rightarrow> ((rstring \<times> policy_action) \<times> byte list) option" where
  "p_create_policy bs = Option.bind (p_str bs) (\<lambda>(s, r). Option.bind (p_action r) (\<lambda>(a, r). Some ((s, a), r)))"

definition p_target :: "byte list \<Rightarrow> ((rstring \<times> u32 \<times> u32) \<times> byte list) option" where
  "p_target bs =
     Option.bind (p_str bs) (\<lambda>(s, r). Option.bind (rd_u32 r) (\<lambda>(lo, r).
     Option.bind (rd_u32 r) (\<lambda>(hi, r). Some ((s, lo, hi), r))))"

definition p_array :: "(byte list \<Rightarrow> ('a \<times> byte list) option) \<Rightarrow> byte list \<Rightarrow> ((u32 \<times> 'a list) \<times> byte list) option" where
  "p_array P bs =
     Option.bind (rd_u32 bs) (\<lambda>(site, r). Option.bind (rd_u32 r) (\<lambda>(n, r).
     Option.bind (rd_many P (unat n) r) (\<lambda>(xs, r). Some ((site, xs), r))))"

text \<open>\<open>RawPacketDecoder::decode\<close> of each type.\<close>

definition decode_hello :: "byte list \<Rightarrow> pest_packet option" where
  "decode_hello raw = Option.bind (p_header raw) (\<lambda>r. Option.bind (p_hello r) (\<lambda>((s, n), _). Some (Hello s n)))"

definition decode_error :: "byte list \<Rightarrow> pest_packet option" where
  "decode_error raw = Option.bind (p_header raw) (\<lambda>r. Option.bind (p_str r) (\<lambda>(s, _). Some (Error_packet s)))"

definition decode_ok :: "byte list \<Rightarrow> pest_packet option" where
  "decode_ok raw = Option.bind (p_header raw) (\<lambda>_. Some Ok_packet)"

definition decode_dial_authority :: "byte list \<Rightarrow> pest_packet option" where
  "decode_dial_authority raw = Option.bind (p_header raw) (\<lambda>r. Option.bind (rd_u32 r) (\<lambda>(n, _). Some (DialAuthority n)))"

definition decode_target_populations :: "byte list \<Rightarrow> pest_packet option" where
  "decode_target_populations raw =
     Option.bind (p_header raw) (\<lambda>r. Option.bind (p_array p_target r) (\<lambda>((n, xs), _). Some (TargetPopulations n xs)))"

definition decode_create_policy :: "byte list \<Rightarrow> pest_packet option" where
  "decode_create_policy raw =
     Option.bind (p_header raw) (\<lambda>r. Option.bind (p_create_policy r) (\<lambda>((s, a), _). Some (CreatePolicy s a)))"

definition decode_delete_policy :: "byte list \<Rightarrow> pest_packet option" where
  "decode_delete_policy raw = Option.bind (p_header raw) (\<lambda>r. Option.bind (rd_u32 r) (\<lambda>(n, _). Some (DeletePolicy n)))"

definition decode_policy_result :: "byte list \<Rightarrow> pest_packet option" where
  "decode_policy_result raw = Option.bind (p_header raw) (\<lambda>r. Option.bind (rd_u32 r) (\<lambda>(n, _). Some (PolicyResult n)))"

definition decode_site_visit :: "byte list \<Rightarrow> pest_packet option" where
  "decode_site_visit raw =
     Option.bind (p_header raw) (\<lambda>r. Option.bind (p_array p_hello r) (\<lambda>((n, xs), _). Some (SiteVisit n xs)))"

section \<open>Decoder\<close>

type_synonym pest_decoded = "byte list \<times> (pest_error, pest_packet option) outcome"

definition raw_packet :: "validator \<Rightarrow> (byte list \<times> byte list) option" where
  "raw_packet v =
     (case limit v of
        None \<Rightarrow> None
      | Some l \<Rightarrow> if l \<noteq> cursor v then None else Some (take l (data v), drop l (data v)))"

text \<open>\<open>read_packet\<close>, which every type writes out with its own fields: the buffer after it and the result.\<close>

definition validate_packet :: "(validator \<Rightarrow> ('a \<times> validator) vflow) \<Rightarrow> byte list \<Rightarrow> validator vflow" where
  "validate_packet body src =
     vbind (validate_u8 (validator_new src)) (\<lambda>(_, v).
     vbind (validate_length v) (\<lambda>(_, v).
     vbind (body v) (\<lambda>(_, v).
     vbind (validate_checksum v) (\<lambda>(_, v). VContinue v))))"

definition read_packet :: "(validator \<Rightarrow> ('a \<times> validator) vflow) \<Rightarrow> (byte list \<Rightarrow> pest_packet option) \<Rightarrow> byte list \<Rightarrow> pest_decoded" where
  "read_packet body decode src =
     (case validate_packet body src of
        VMore \<Rightarrow> (src, Ok None)
      | VFail e \<Rightarrow> (src, Err e)
      | VPanic \<Rightarrow> (src, Panic)
      | VContinue v \<Rightarrow>
          (case raw_packet v of
             None \<Rightarrow> (src, Err Invalid_packet)
           | Some (raw, rest) \<Rightarrow>
               (rest, case decode raw of Some p \<Rightarrow> Ok (Some p) | None \<Rightarrow> Panic)))"

definition read_hello :: "byte list \<Rightarrow> pest_decoded" where
  "read_hello = read_packet body_hello decode_hello"

definition read_error_packet :: "byte list \<Rightarrow> pest_decoded" where
  "read_error_packet = read_packet body_error decode_error"

definition read_ok :: "byte list \<Rightarrow> pest_decoded" where
  "read_ok = read_packet body_ok decode_ok"

definition read_dial_authority :: "byte list \<Rightarrow> pest_decoded" where
  "read_dial_authority = read_packet body_u32 decode_dial_authority"

definition read_target_populations :: "byte list \<Rightarrow> pest_decoded" where
  "read_target_populations = read_packet (body_array validate_target) decode_target_populations"

definition read_create_policy :: "byte list \<Rightarrow> pest_decoded" where
  "read_create_policy = read_packet body_create_policy decode_create_policy"

definition read_delete_policy :: "byte list \<Rightarrow> pest_decoded" where
  "read_delete_policy = read_packet body_u32 decode_delete_policy"

definition read_policy_result :: "byte list \<Rightarrow> pest_decoded" where
  "read_policy_result = read_packet body_u32 decode_policy_result"

definition read_site_visit :: "byte list \<Rightarrow> pest_decoded" where
  "read_site_visit = read_packet (body_array validate_population) decode_site_visit"

text \<open>\<open>PacketCodec::decode\<close>.\<close>

fun pest_decode :: "byte list \<Rightarrow> pest_decoded" where
  "pest_decode [] = ([], Ok None)"
| "pest_decode (c # src) =
     (if c = 80 then read_hello (c # src)
      else if c = 81 then read_error_packet (c # src)
      else if c = 82 then read_ok (c # src)
      else if c = 83 then read_dial_authority (c # src)
      else if c = 84 then read_target_populations (c # src)
      else if c = 85 then read_create_policy (c # src)
      else if c = 86 then read_delete_policy (c # src)
      else if c = 87 then read_policy_result (c # src)
      else if c = 88 then read_site_visit (c # src)
      else (c # src, Err (Unknown_packet c)))"

section \<open>What validating a field means\<close>

text \<open>
  \<open>field_complete V put x full\<close>: on any beginning of a buffer in which the field \<open>x\<close> follows what was
  read, \<open>V\<close> either takes it or asks for more, the latter only if bytes are missing.
  \<open>field_sound\<close>: what \<open>V\<close> takes is a field that the writer could have written.
\<close>

definition field_complete :: "(validator \<Rightarrow> ('a \<times> validator) vflow) \<Rightarrow> ('a \<Rightarrow> byte list) \<Rightarrow> 'a \<Rightarrow> bool" where
  "field_complete V put x \<longleftrightarrow>
     (\<forall>v pre post n. data v = take n (pre @ put x @ post) \<longrightarrow> cursor v = length pre \<longrightarrow> length pre \<le> n \<longrightarrow>
        n \<le> length (pre @ put x @ post) \<longrightarrow> post \<noteq> [] \<longrightarrow> \<not> over_limit (length (put x)) v \<longrightarrow>
        (V v = VContinue (x, v\<lparr>cursor := length (pre @ put x)\<rparr>) \<and> length (pre @ put x) \<le> n) \<or>
        (V v = VMore \<and> n < length (pre @ put x @ post)))"

definition field_sound :: "(validator \<Rightarrow> ('a \<times> validator) vflow) \<Rightarrow> ('a \<Rightarrow> byte list) \<Rightarrow> ('a \<Rightarrow> bool) \<Rightarrow> bool" where
  "field_sound V put ok \<longleftrightarrow>
     (\<forall>v x v'. V v = VContinue (x, v') \<longrightarrow> cursor v \<le> length (data v) \<longrightarrow>
        ok x \<and> v' = v\<lparr>cursor := cursor v + length (put x)\<rparr> \<and> cursor v' \<le> length (data v) \<and>
        take (cursor v') (data v) = take (cursor v) (data v) @ put x)"

locale wire_validator = field_codec put get ok for put :: "'a \<Rightarrow> byte list" and get and ok +
  fixes V :: "validator \<Rightarrow> ('a \<times> validator) vflow"
  assumes complete: "ok x \<Longrightarrow> field_complete V put x"
    and sound: "field_sound V put ok"

lemma field_completeI:
  assumes "\<And>v pre post n. data v = take n (pre @ put x @ post) \<Longrightarrow> cursor v = length pre \<Longrightarrow> length pre \<le> n \<Longrightarrow>
        n \<le> length (pre @ put x @ post) \<Longrightarrow> post \<noteq> [] \<Longrightarrow> \<not> over_limit (length (put x)) v \<Longrightarrow>
        (V v = VContinue (x, v\<lparr>cursor := length (pre @ put x)\<rparr>) \<and> length (pre @ put x) \<le> n) \<or>
        (V v = VMore \<and> n < length (pre @ put x @ post))"
  shows "field_complete V put x"
  unfolding field_complete_def using assms by blast

lemma field_completeD:
  "field_complete V put x \<Longrightarrow> data v = take n (pre @ put x @ post) \<Longrightarrow> cursor v = length pre \<Longrightarrow> length pre \<le> n \<Longrightarrow>
        n \<le> length (pre @ put x @ post) \<Longrightarrow> post \<noteq> [] \<Longrightarrow> \<not> over_limit (length (put x)) v \<Longrightarrow>
        (V v = VContinue (x, v\<lparr>cursor := length (pre @ put x)\<rparr>) \<and> length (pre @ put x) \<le> n) \<or>
        (V v = VMore \<and> n < length (pre @ put x @ post))"
  unfolding field_complete_def by blast

lemma field_soundD:
  "field_sound V put ok \<Longrightarrow> V v = VContinue (x, v') \<Longrightarrow> cursor v \<le> length (data v) \<Longrightarrow>
     ok x \<and> v' = v\<lparr>cursor := cursor v + length (put x)\<rparr> \<and> cursor v' \<le> length (data v) \<and>
        take (cursor v') (data v) = take (cursor v) (data v) @ put x"
  unfolding field_sound_def by blast

lemma vbind_Continue: "vbind m f = VContinue y \<longleftrightarrow> (\<exists>x. m = VContinue x \<and> f x = VContinue y)"
  by (cases m) auto

lemma over_limit_mono: "\<not> over_limit n v \<Longrightarrow> m \<le> n \<Longrightarrow> \<not> over_limit m v"
  by (auto simp: over_limit_def split: option.splits)

lemma over_limit_cursor: "over_limit n (v\<lparr>cursor := cursor v + k\<rparr>) = over_limit (k + n) v"
  by (auto simp: over_limit_def add_ac split: option.splits)

text \<open>One field after another.\<close>

lemma complete_pair:
  assumes "field_complete V put x" and "field_complete (W x) put' y"
    and put: "put'' (f x y) = put x @ put' y"
  shows "field_complete (\<lambda>v. vbind (V v) (\<lambda>(a, v). vbind (W a v) (\<lambda>(b, v). VContinue (f a b, v))))
     put'' (f x y)"
proof (rule field_completeI, unfold put)
  fix v pre post n
  assume v: "data v = take n (pre @ (put x @ put' y) @ post)" "cursor v = length pre" "length pre \<le> n"
    "n \<le> length (pre @ (put x @ put' y) @ post)" "post \<noteq> []" "\<not> over_limit (length (put x @ put' y)) v"
  let ?v = "v\<lparr>cursor := length (pre @ put x)\<rparr>"
  consider "V v = VContinue (x, ?v)" "length (pre @ put x) \<le> n" | "V v = VMore" "n < length (pre @ put x @ put' y @ post)"
    using field_completeD [OF assms(1), of v n pre "put' y @ post"] v over_limit_mono [OF v(6), of "length (put x)"] by auto
  then show "(vbind (V v) (\<lambda>(a, v). vbind (W a v) (\<lambda>(b, v). VContinue (f a b, v))) =
      VContinue (f x y, v\<lparr>cursor := length (pre @ put x @ put' y)\<rparr>) \<and> length (pre @ put x @ put' y) \<le> n) \<or>
      (vbind (V v) (\<lambda>(a, v). vbind (W a v) (\<lambda>(b, v). VContinue (f a b, v))) = VMore \<and>
       n < length (pre @ (put x @ put' y) @ post))"
  proof cases
    case 1
    have "\<not> over_limit (length (put' y)) ?v"
      using v(2,6) over_limit_cursor [of "length (put' y)" v "length (put x)"] by (simp add: add_ac)
    then show ?thesis
      using field_completeD [OF assms(2), of ?v n "pre @ put x" post] v 1 by auto
  next
    case 2
    then show ?thesis
      by simp
  qed
qed

lemma complete_tuple:
  assumes "field_complete V put (fst x)" "field_complete W put' (snd x)" "put'' x = put (fst x) @ put' (snd x)"
  shows "field_complete (\<lambda>v. vbind (V v) (\<lambda>(a, v). vbind (W v) (\<lambda>(b, v). VContinue ((a, b), v)))) put'' x"
  using complete_pair [OF assms(1,2), where f = Pair and put'' = put''] assms(3) by simp

lemma sound_pair:
  assumes "field_sound V put ok" and "\<And>a. ok a \<Longrightarrow> field_sound (W a) put' (ok' a)"
    and "\<And>a b. ok a \<Longrightarrow> ok' a b \<Longrightarrow> put'' (f a b) = put a @ put' b \<and> ok'' (f a b)"
  shows "field_sound (\<lambda>v. vbind (V v) (\<lambda>(a, v). vbind (W a v) (\<lambda>(b, v). VContinue (f a b, v)))) put'' ok''"
  unfolding field_sound_def
proof (intro allI impI)
  fix v x v'
  assume "vbind (V v) (\<lambda>(a, v). vbind (W a v) (\<lambda>(b, v). VContinue (f a b, v))) = VContinue (x, v')"
    and c: "cursor v \<le> length (data v)"
  then obtain a w b where a: "V v = VContinue (a, w)" and b: "W a w = VContinue (b, v')" and x: "x = f a b"
    by (auto simp: vbind_Continue)
  from field_soundD [OF assms(1) a c] have a': "ok a" "w = v\<lparr>cursor := cursor v + length (put a)\<rparr>"
    "cursor w \<le> length (data w)" "take (cursor w) (data w) = take (cursor v) (data v) @ put a"
    by auto
  from field_soundD [OF assms(2) [OF a'(1)] b a'(3)] a' assms(3) x
  show "ok'' x \<and> v' = v\<lparr>cursor := cursor v + length (put'' x)\<rparr> \<and> cursor v' \<le> length (data v) \<and>
      take (cursor v') (data v) = take (cursor v) (data v) @ put'' x"
    by auto
qed

lemma vbind_assoc: "vbind (vbind m f) g = vbind m (\<lambda>x. vbind (f x) g)"
  by (cases m) auto

lemma vbind_id: "vbind m (\<lambda>(x, v). VContinue (x, v)) = m"
  by (cases m) auto

lemma vbind_Continue_id: "vbind m VContinue = m"
  by (cases m) auto

section \<open>The kinds of fields\<close>

lemma complete_u8: "field_complete validate_u8 (\<lambda>b. [b]) b"
  by (rule field_completeI) (auto simp: validate_u8_def nth_append min_def)

lemma sound_u8: "field_sound validate_u8 (\<lambda>b. [b]) (\<lambda>_. True)"
  by (auto simp: field_sound_def validate_u8_def take_Suc_conv_app_nth split: if_splits)

lemma nth_take_be_u32:
  "length pre + 4 < n \<Longrightarrow>
     from_be_u32 (take n (pre @ to_be_u32 x @ post) ! length pre)
       (take n (pre @ to_be_u32 x @ post) ! (length pre + 1))
       (take n (pre @ to_be_u32 x @ post) ! (length pre + 2))
       (take n (pre @ to_be_u32 x @ post) ! (length pre + 3)) = x"
  by (simp add: nth_append to_be_u32_def from_to_be_u32)

lemma complete_u32: "field_complete validate_u32 to_be_u32 x"
proof (rule field_completeI)
  fix v :: validator and pre post n
  assume v: "data v = take n (pre @ to_be_u32 x @ post)" "cursor v = length pre" "length pre \<le> n"
    "n \<le> length (pre @ to_be_u32 x @ post)" "post \<noteq> []" "\<not> over_limit (length (to_be_u32 x)) v"
  then have len: "length (data v) = n"
    by simp
  show "(validate_u32 v = VContinue (x, v\<lparr>cursor := length (pre @ to_be_u32 x)\<rparr>) \<and> length (pre @ to_be_u32 x) \<le> n) \<or>
        (validate_u32 v = VMore \<and> n < length (pre @ to_be_u32 x @ post))"
  proof (cases "length pre + 4 < n")
    case True
    then have "validate_u32 v = VContinue (x, v\<lparr>cursor := length pre + 4\<rparr>)"
      using v(6) nth_take_be_u32 [OF True, of x post] len by (simp add: validate_u32_def v(2)) (simp add: v(1))
    with True show ?thesis
      by simp
  next
    case False
    with v(5) show ?thesis
      using v(6) len by (cases post) (simp_all add: validate_u32_def v(2))
  qed
qed

lemma take_four:
  "n + 4 \<le> length bs \<Longrightarrow> take (n + 4) bs = take n bs @ [bs ! n, bs ! (n + 1), bs ! (n + 2), bs ! (n + 3)]"
  by (simp add: take_Suc_conv_app_nth numeral_eq_Suc)

lemma sound_u32: "field_sound validate_u32 to_be_u32 (\<lambda>_. True)"
  by (auto simp: field_sound_def validate_u32_def to_from_be_u32 take_four split: if_splits)

definition put_str :: "rstring \<Rightarrow> byte list" where
  "put_str s = to_be_u32 (of_nat (length s)) @ s"

definition str_ok :: "rstring \<Rightarrow> bool" where
  "str_ok s \<longleftrightarrow> utf8_valid s \<and> length s < 2 ^ 32"

definition validate_slice :: "u32 \<Rightarrow> validator \<Rightarrow> (rstring \<times> validator) vflow" where
  "validate_slice n v =
     (let len = unat n in
       if over_limit len v then VFail Invalid_packet
       else if cursor v + len < length (data v)
       then (let r = take len (drop (cursor v) (data v)) in
             if utf8_valid r then VContinue (r, v\<lparr>cursor := cursor v + len\<rparr>) else VPanic)
       else VMore)"

lemma validate_str_slice:
  "validate_str = (\<lambda>v. vbind (validate_u32 v) (\<lambda>(n, v). vbind (validate_slice n v) (\<lambda>(s, v). VContinue (s, v))))"
  by (simp add: fun_eq_iff validate_str_def validate_slice_def vbind_Continue_id)

lemma complete_slice: "utf8_valid s \<Longrightarrow> unat n = length s \<Longrightarrow> field_complete (validate_slice n) (\<lambda>s. s) s"
proof (rule field_completeI)
  fix v :: validator and pre post k
  assume s: "utf8_valid s" "unat n = length s"
    and v: "data v = take k (pre @ s @ post)" "cursor v = length pre" "length pre \<le> k"
    "k \<le> length (pre @ s @ post)" "post \<noteq> []" "\<not> over_limit (length s) v"
  then have len: "length (data v) = k" "0 < length post"
    by auto
  show "(validate_slice n v = VContinue (s, v\<lparr>cursor := length (pre @ s)\<rparr>) \<and> length (pre @ s) \<le> k) \<or>
        (validate_slice n v = VMore \<and> k < length (pre @ s @ post))"
  proof (cases "length pre + length s < k")
    case True
    then have "take (length s) (drop (length pre) (data v)) = s"
      by (simp add: v(1))
    with True show ?thesis
      using s v(6) len by (simp add: validate_slice_def v(2) Let_def)
  next
    case False
    with v(5) show ?thesis
      using s v(6) len by (cases post) (simp_all add: validate_slice_def v(2) Let_def)
  qed
qed

lemma sound_slice: "field_sound (validate_slice n) (\<lambda>s. s) (\<lambda>s. utf8_valid s \<and> length s = unat n)"
  by (auto simp: field_sound_def validate_slice_def Let_def take_add split: if_splits)

lemma complete_str: "str_ok s \<Longrightarrow> field_complete validate_str put_str s"
  unfolding validate_str_slice
  by (rule complete_pair [where f = "\<lambda>_ b. b" and x = "of_nat (length s)" and y = s, OF complete_u32 complete_slice])
    (simp_all add: str_ok_def unat_of_nat_small put_str_def)

lemma sound_str: "field_sound validate_str put_str str_ok"
  unfolding validate_str_slice
proof (rule sound_pair [OF sound_u32 sound_slice])
  show "put_str s = to_be_u32 n @ s \<and> str_ok s" if "utf8_valid s \<and> length s = unat n" for n s
    using that unsigned_less [of n, where ?'a = nat] by (simp add: put_str_def str_ok_def)
qed

lemma get_str: "str_ok s \<Longrightarrow> p_str (put_str s @ r) = Some (s, r)"
  by (simp add: p_str_def put_str_def str_ok_def unat_of_nat_small rd_exact_def wire_simps)

interpretation v_u8: wire_validator "\<lambda>b. [b]" rd_u8 "\<lambda>_. True" validate_u8
  by unfold_locales (simp_all add: complete_u8 sound_u8)

interpretation v_u32: wire_validator to_be_u32 rd_u32 "\<lambda>_. True" validate_u32
  by unfold_locales (simp_all add: complete_u32 sound_u32 wire_simps)

interpretation v_str: wire_validator put_str p_str str_ok validate_str
  by unfold_locales (simp_all add: complete_str sound_str get_str)

section \<open>Composite fields\<close>

fun put_action :: "policy_action \<Rightarrow> byte list" where
  "put_action a = [action_byte a]"

fun put_hello :: "rstring \<times> u32 \<Rightarrow> byte list" where
  "put_hello (s, n) = put_str s @ to_be_u32 n"

fun put_target :: "rstring \<times> u32 \<times> u32 \<Rightarrow> byte list" where
  "put_target (s, lo, hi) = put_str s @ to_be_u32 lo @ to_be_u32 hi"

fun put_create_policy :: "rstring \<times> policy_action \<Rightarrow> byte list" where
  "put_create_policy (s, a) = put_str s @ put_action a"

fun put_array :: "('a \<Rightarrow> byte list) \<Rightarrow> u32 \<times> 'a list \<Rightarrow> byte list" where
  "put_array put (site, xs) = to_be_u32 site @ to_be_u32 (of_nat (length xs)) @ concat (map put xs)"

definition array_ok :: "('a \<Rightarrow> bool) \<Rightarrow> u32 \<times> 'a list \<Rightarrow> bool" where
  "array_ok ok a \<longleftrightarrow> (\<forall>x \<in> set (snd a). ok x) \<and> length (snd a) < 2 ^ 32"

lemma validate_action_eq:
  "validate_action v = (case validate_u8 v of
     VContinue (b, w) \<Rightarrow> if b = 144 then VContinue (Cull, w) else if b = 160 then VContinue (Conserve, w) else VFail Invalid_packet
   | VMore \<Rightarrow> VMore | VFail e \<Rightarrow> VFail e | VPanic \<Rightarrow> VPanic)"
  by (cases "validate_u8 v") (auto simp: validate_action_def)

lemma complete_action: "field_complete validate_action put_action a"
proof (rule field_completeI)
  fix v :: validator and pre post n
  assume "data v = take n (pre @ put_action a @ post)" "cursor v = length pre" "length pre \<le> n"
    "n \<le> length (pre @ put_action a @ post)" "post \<noteq> []" "\<not> over_limit (length (put_action a)) v"
  then show "(validate_action v = VContinue (a, v\<lparr>cursor := length (pre @ put_action a)\<rparr>) \<and>
        length (pre @ put_action a) \<le> n) \<or> (validate_action v = VMore \<and> n < length (pre @ put_action a @ post))"
    using field_completeD [OF complete_u8, of v n pre "action_byte a" post]
    by (cases a) (auto simp: validate_action_eq)
qed

lemma sound_action: "field_sound validate_action put_action (\<lambda>_. True)"
  unfolding field_sound_def
proof (intro allI impI)
  fix v a v'
  assume "validate_action v = VContinue (a, v')" "cursor v \<le> length (data v)"
  then obtain b where b: "validate_u8 v = VContinue (b, v')" "b = action_byte a"
    by (auto simp: validate_action_eq split: vflow.splits if_splits)
  with field_soundD [OF sound_u8 b(1)] \<open>cursor v \<le> length (data v)\<close>
  show "True \<and> v' = v\<lparr>cursor := cursor v + length (put_action a)\<rparr> \<and> cursor v' \<le> length (data v) \<and>
      take (cursor v') (data v) = take (cursor v) (data v) @ put_action a"
    by auto
qed

interpretation v_action: wire_validator put_action p_action "\<lambda>_. True" validate_action
proof unfold_locales
  show "p_action (put_action a @ r) = Some (a, r)" for a r
    by (cases a) (simp_all add: p_action_def)
qed (simp_all add: complete_action sound_action)

definition named_ok :: "rstring \<times> 'a \<Rightarrow> bool" where
  "named_ok p \<longleftrightarrow> str_ok (fst p)"

interpretation v_hello: wire_validator put_hello p_hello named_ok body_hello
proof unfold_locales
  show "p_hello (put_hello x @ r) = Some (x, r)" if "named_ok x" for x r
    using that by (cases x) (simp add: p_hello_def named_ok_def get_str wire_simps)
  show "field_complete body_hello put_hello x" if "named_ok x" for x
    unfolding body_hello_def [abs_def]
    by (rule complete_tuple [OF complete_str complete_u32]) (use that in \<open>cases x; simp add: named_ok_def\<close>)+
  show "field_sound body_hello put_hello named_ok"
    unfolding body_hello_def [abs_def]
    by (rule sound_pair [where f = Pair, OF sound_str sound_u32]) (simp add: named_ok_def)
qed

interpretation v_create_policy: wire_validator put_create_policy p_create_policy named_ok body_create_policy
proof unfold_locales
  show "p_create_policy (put_create_policy x @ r) = Some (x, r)" if "named_ok x" for x r
    using that v_action.get_put by (cases x) (simp add: p_create_policy_def named_ok_def get_str)
  show "field_complete body_create_policy put_create_policy x" if "named_ok x" for x
    unfolding body_create_policy_def [abs_def]
    by (rule complete_tuple [OF complete_str complete_action]) (use that in \<open>cases x; simp add: named_ok_def\<close>)+
  show "field_sound body_create_policy put_create_policy named_ok"
    unfolding body_create_policy_def [abs_def]
    by (rule sound_pair [where f = Pair, OF sound_str sound_action]) (simp add: named_ok_def)
qed

fun put_pair :: "u32 \<times> u32 \<Rightarrow> byte list" where
  "put_pair (lo, hi) = to_be_u32 lo @ to_be_u32 hi"

definition validate_pair :: "validator \<Rightarrow> ((u32 \<times> u32) \<times> validator) vflow" where
  "validate_pair v = vbind (validate_u32 v) (\<lambda>(lo, v). vbind (validate_u32 v) (\<lambda>(hi, v). VContinue ((lo, hi), v)))"

lemma validate_target_pair:
  "validate_target = (\<lambda>v. vbind (validate_str v) (\<lambda>(s, v). vbind (validate_pair v) (\<lambda>(p, v). VContinue ((s, p), v))))"
  by (simp add: fun_eq_iff validate_target_def validate_pair_def vbind_assoc case_prod_unfold)

interpretation v_target: wire_validator put_target p_target named_ok validate_target
proof unfold_locales
  have complete: "field_complete validate_pair put_pair p" for p
    unfolding validate_pair_def [abs_def]
    by (rule complete_tuple [OF complete_u32 complete_u32]) (cases p; simp)
  have sound: "field_sound validate_pair put_pair (\<lambda>_. True)"
    unfolding validate_pair_def [abs_def] by (rule sound_pair [where f = Pair, OF sound_u32 sound_u32]) simp
  show "p_target (put_target x @ r) = Some (x, r)" if "named_ok x" for x r
    using that by (cases x) (simp add: p_target_def named_ok_def get_str wire_simps)
  show "field_complete validate_target put_target x" if "named_ok x" for x
    unfolding validate_target_pair
    by (rule complete_tuple [OF complete_str complete]) (use that in \<open>cases x; simp add: named_ok_def\<close>)+
  show "field_sound validate_target put_target named_ok"
    unfolding validate_target_pair
    by (rule sound_pair [where f = Pair, OF sound_str sound]) (auto simp: named_ok_def)
qed

section \<open>Arrays\<close>

context wire_validator
begin

lemma complete_many:
  "\<forall>x \<in> set xs. ok x \<Longrightarrow> field_complete (validate_many V (length xs)) (\<lambda>xs. concat (map put xs)) xs"
proof (induction xs)
  case Nil
  show ?case
    by (rule field_completeI) simp
next
  case (Cons x xs)
  then show ?case
    using complete_pair [where f = Cons and W = "\<lambda>_. validate_many V (length xs)" and put'' = "\<lambda>xs. concat (map put xs)",
        OF complete, of x "\<lambda>xs. concat (map put xs)" xs]
    by simp
qed

lemma sound_many:
  "field_sound (validate_many V n) (\<lambda>xs. concat (map put xs)) (\<lambda>xs. length xs = n \<and> (\<forall>x \<in> set xs. ok x))"
proof (induction n)
  case 0
  show ?case
    by (simp add: field_sound_def)
next
  case (Suc n)
  show ?case
    unfolding validate_many.simps by (rule sound_pair [where f = Cons, OF sound Suc]) simp
qed

lemma array_get: "array_ok ok a \<Longrightarrow> p_array get (put_array put a @ r) = Some (a, r)"
  using many_put [of "snd a" r]
  by (cases a) (simp add: p_array_def array_ok_def wire_simps unat_of_nat_small)

definition elements :: "validator \<Rightarrow> ('a list \<times> validator) vflow" where
  "elements v = vbind (validate_u32 v) (\<lambda>(n, v). vbind (validate_many V (unat n) v) (\<lambda>(xs, v). VContinue (xs, v)))"

definition put_elements :: "'a list \<Rightarrow> byte list" where
  "put_elements xs = to_be_u32 (of_nat (length xs)) @ concat (map put xs)"

lemma body_array_elements:
  "body_array V = (\<lambda>v. vbind (validate_u32 v) (\<lambda>(site, v). vbind (elements v) (\<lambda>(xs, v). VContinue ((site, xs), v))))"
  by (simp add: fun_eq_iff body_array_def elements_def vbind_assoc case_prod_unfold)

lemma array_complete: "array_ok ok a \<Longrightarrow> field_complete (body_array V) (put_array put) a"
proof -
  assume a: "array_ok ok a"
  let ?xs = "snd a"
  have len: "unat (of_nat (length ?xs) :: u32) = length ?xs"
    using a by (simp add: array_ok_def unat_of_nat_small)
  have "field_complete (validate_many V (unat (of_nat (length ?xs) :: u32))) (\<lambda>xs. concat (map put xs)) ?xs"
    unfolding len by (rule complete_many) (use a in \<open>simp add: array_ok_def\<close>)
  then have "field_complete elements put_elements ?xs"
    unfolding elements_def [abs_def]
    by (rule complete_pair [where f = "\<lambda>_ b. b" and x = "of_nat (length ?xs)", OF complete_u32]) (simp add: put_elements_def)
  then show ?thesis
    unfolding body_array_elements
    by (rule complete_tuple [OF complete_u32]) (cases a; simp add: put_elements_def)
qed

lemma array_sound: "field_sound (body_array V) (put_array put) (array_ok ok)"
proof -
  have "field_sound elements put_elements (\<lambda>xs. length xs < 2 ^ 32 \<and> (\<forall>x \<in> set xs. ok x))"
    unfolding elements_def [abs_def]
  proof (rule sound_pair [OF sound_u32 sound_many])
    show "put_elements xs = to_be_u32 n @ concat (map put xs) \<and> length xs < 2 ^ 32 \<and> (\<forall>x \<in> set xs. ok x)"
      if "length xs = unat n \<and> (\<forall>x \<in> set xs. ok x)" for n xs
      using that unsigned_less [of n, where ?'a = nat] by (simp add: put_elements_def)
  qed
  then show ?thesis
    unfolding body_array_elements
    by (rule sound_pair [where f = Pair, OF sound_u32]) (simp add: put_elements_def array_ok_def)
qed

end

interpretation v_targets: wire_validator "put_array put_target" "p_array p_target" "array_ok named_ok" "body_array validate_target"
  by unfold_locales (simp_all add: v_target.array_get v_target.array_complete v_target.array_sound)

interpretation v_populations: wire_validator "put_array put_hello" "p_array p_hello" "array_ok named_ok" "body_array validate_population"
  by unfold_locales
    (simp_all add: validate_population_def v_hello.array_get v_hello.array_complete v_hello.array_sound)

lemma complete_unit: "field_complete body_ok (\<lambda>_. []) ()"
  by (rule field_completeI) (auto simp: body_ok_def)

lemma sound_unit: "field_sound body_ok (\<lambda>_. []) (\<lambda>_. True)"
  by (simp add: field_sound_def body_ok_def)

interpretation v_unit: wire_validator "\<lambda>_. []" "\<lambda>r. Some ((), r)" "\<lambda>_. True" body_ok
  by unfold_locales (simp_all add: complete_unit sound_unit)

section \<open>Whole packets\<close>

definition packet_bytes :: "u8 \<Rightarrow> byte list \<Rightarrow> byte list" where
  "packet_bytes t body =
     (let w = t # to_be_u32 (of_nat (length body + 6)) @ body in w @ [0 - byte_sum w])"

lemma byte_sum_fold: "fold (+) bs a = a + fold (+) bs (0 :: u8)"
proof (induction bs arbitrary: a)
  case (Cons b bs)
  show ?case
    using Cons [of "b + a"] Cons [of b] by (simp add: ac_simps)
qed simp

lemma byte_sum_simps [simp]:
  "byte_sum [] = 0"
  "byte_sum (b # bs) = b + byte_sum bs"
  "byte_sum (bs @ cs) = byte_sum bs + byte_sum cs"
  using byte_sum_fold [of bs b] byte_sum_fold [of cs "fold (+) bs 0"] by (simp_all add: byte_sum_def)

lemma length_packet_bytes [simp]: "length (packet_bytes t body) = length body + 6"
  by (simp add: packet_bytes_def Let_def)

lemma byte_sum_packet [simp]: "byte_sum (packet_bytes t body) = 0"
  by (simp add: packet_bytes_def Let_def)

lemma header_packet: "p_header (packet_bytes t body) = Some (body @ [last (packet_bytes t body)])"
  by (simp add: p_header_def packet_bytes_def Let_def wire_simps)

lemma finalize_packet: "finalize (writer_new t @ body) = packet_bytes t body"
  by (simp add: finalize_def writer_new_def packet_bytes_def Let_def add_ac)

context wire_validator
begin

lemma validate_steps:
  assumes "ok x" and small: "length (put x) + 6 < 2 ^ 32" and "post \<noteq> []"
    and src: "src = take n (t # to_be_u32 (of_nat (length (put x) + 6)) @ put x @ post)"
    and n: "n \<le> length (put x) + 5 + length post"
  shows "(validate_packet V src = VMore \<and> n < length (put x) + 5 + length post) \<or>
     (length (put x) + 5 \<le> n \<and>
      validate_packet V src = vbind (validate_checksum
        \<lparr>data = src, cursor = length (put x) + 5, limit = Some (length (put x) + 6)\<rparr>) (\<lambda>(_, v). VContinue v))"
proof -
  let ?L = "length (put x) + 6" and ?be = "to_be_u32 (of_nat (length (put x) + 6))"
  have L: "unat (of_nat ?L :: u32) = ?L"
    using small unat_of_nat_small [of ?L, where ?'l = 32] by simp
  have u8: "validate_u8 (validator_new src) =
      (if 1 \<le> n then VContinue (t, \<lparr>data = src, cursor = 1, limit = None\<rparr>) else VMore)"
    using n by (cases n) (auto simp: validate_u8_def validator_new_def over_limit_def src)
  define v1 where "v1 = \<lparr>data = src, cursor = 1, limit = None\<rparr>"
  have v1: "data v1 = take n ([t] @ ?be @ (put x @ post))" "cursor v1 = length [t]" "\<not> over_limit (length ?be) v1"
    by (simp_all add: v1_def src over_limit_def)
  have len1: "validate_length v1 = VContinue (?L, v1\<lparr>cursor := 5, limit := Some ?L\<rparr>) \<and> 5 \<le> n \<or>
      validate_length v1 = VMore \<and> n < length (put x) + 5 + length post" if "1 \<le> n"
    using field_completeD [OF complete_u32 v1(1,2) _ _ _ v1(3)] that n L \<open>post \<noteq> []\<close>
    by (auto simp: validate_length_def)
  define v2 where "v2 = v1\<lparr>cursor := 5, limit := Some ?L\<rparr>"
  have v2: "data v2 = take n (([t] @ ?be) @ put x @ post)" "cursor v2 = length ([t] @ ?be)"
    "\<not> over_limit (length (put x)) v2"
    by (simp_all add: v2_def v1_def src over_limit_def)
  have body: "V v2 = VContinue (x, v2\<lparr>cursor := length (put x) + 5\<rparr>) \<and> length (put x) + 5 \<le> n \<or>
      V v2 = VMore \<and> n < length (put x) + 5 + length post" if "5 \<le> n"
    using field_completeD [OF complete [OF assms(1)] v2(1,2) _ _ \<open>post \<noteq> []\<close> v2(3)] that n by (auto simp: add_ac)
  have "validate_packet V src = (if 1 \<le> n then vbind (validate_length v1) (\<lambda>(_, v). vbind (V v) (\<lambda>(_, v).
      vbind (validate_checksum v) (\<lambda>(_, v). VContinue v))) else VMore)"
    by (simp add: validate_packet_def u8 v1_def)
  with len1 body show ?thesis
    using \<open>post \<noteq> []\<close> by (cases "1 \<le> n") (auto simp: v2_def [symmetric], auto simp: v2_def v1_def)
qed

lemma validate_packet_complete:
  assumes "ok x" and "length (put x) + 6 < 2 ^ 32" and src: "src = packet_bytes t (put x) @ rest"
  shows "validate_packet V src =
     VContinue \<lparr>data = src, cursor = length (put x) + 6, limit = Some (length (put x) + 6)\<rparr>"
proof -
  let ?ck = "last (packet_bytes t (put x))"
  have full: "src = t # to_be_u32 (of_nat (length (put x) + 6)) @ put x @ ?ck # rest"
    by (simp add: src packet_bytes_def Let_def)
  have "validate_packet V src = vbind (validate_checksum
      \<lparr>data = src, cursor = length (put x) + 5, limit = Some (length (put x) + 6)\<rparr>) (\<lambda>(_, v). VContinue v)"
    using validate_steps [OF assms(1,2), of "?ck # rest" src "length src" t] full by auto
  moreover have "byte_sum (take (length (put x) + 6) src) = 0"
    by (simp add: src)
  moreover have "length (put x) + 5 < length src"
    by (simp add: src)
  ultimately show ?thesis
    by (simp add: validate_checksum_def validate_u8_def over_limit_def)
qed

lemma validate_packet_partial:
  assumes "ok x" and "length (put x) + 6 < 2 ^ 32" and n: "n < length (put x) + 6"
  shows "validate_packet V (take n (packet_bytes t (put x))) = VMore"
proof -
  let ?ck = "last (packet_bytes t (put x))" and ?src = "take n (packet_bytes t (put x))"
  have full: "packet_bytes t (put x) = t # to_be_u32 (of_nat (length (put x) + 6)) @ put x @ [?ck]"
    by (simp add: packet_bytes_def Let_def)
  have "validate_packet V ?src = VMore \<or> validate_packet V ?src = vbind (validate_checksum
      \<lparr>data = ?src, cursor = length (put x) + 5, limit = Some (length (put x) + 6)\<rparr>) (\<lambda>(_, v). VContinue v)"
    using validate_steps [OF assms(1,2), of "[?ck]" ?src n t] full n by auto
  then show ?thesis
    using n by (auto simp: validate_checksum_def validate_u8_def over_limit_def)
qed

lemma validate_packet_sound:
  assumes "validate_packet V src = VContinue v" and raw: "raw_packet v = Some (raw, rest)"
  shows "\<exists>x. ok x \<and> length (put x) + 6 < 2 ^ 32 \<and> raw = packet_bytes (hd src) (put x) \<and> src = raw @ rest"
proof -
  from assms(1) obtain t v1 n v2 x v3 ck where
    1: "validate_u8 (validator_new src) = VContinue (t, v1)" and
    2: "validate_u32 v1 = VContinue (n, v2)" and
    3: "V (v2\<lparr>limit := Some (unat n)\<rparr>) = VContinue (x, v3)" and
    4: "validate_checksum v3 = VContinue (ck, v)"
    by (auto simp: validate_packet_def validate_length_def vbind_Continue)
  have s1: "v1 = \<lparr>data = src, cursor = 1, limit = None\<rparr>" "1 \<le> length src" "take 1 src = [t]"
    using field_soundD [OF sound_u8 1] by (auto simp: validator_new_def)
  have s2: "v2 = v1\<lparr>cursor := 5\<rparr>" "5 \<le> length src" "take 5 src = [t] @ to_be_u32 n"
    using field_soundD [OF sound_u32 2] s1 by auto
  have s3: "ok x" "v3 = v2\<lparr>limit := Some (unat n), cursor := 5 + length (put x)\<rparr>" "5 + length (put x) \<le> length src"
    "take (5 + length (put x)) src = [t] @ to_be_u32 n @ put x"
    using field_soundD [OF sound 3] s2 s1 by auto
  have u8: "validate_u8 v3 = VContinue (ck, v)" and sum: "limit v = Some l \<Longrightarrow> byte_sum (take l (data v)) = 0" for l
    using 4 by (auto simp: validate_checksum_def vbind_Continue split: option.splits if_splits)
  have s4: "v = v3\<lparr>cursor := 6 + length (put x)\<rparr>" "6 + length (put x) \<le> length src"
    "take (6 + length (put x)) src = [t] @ to_be_u32 n @ put x @ [ck]"
    using field_soundD [OF sound_u8 u8] s3 s2 s1 by (auto simp: add.commute)
  have L: "unat n = 6 + length (put x)" "raw = take (6 + length (put x)) src" "rest = drop (6 + length (put x)) src"
    using raw s4(1) s3(2) s2(1) s1(1) by (auto simp: raw_packet_def split: if_splits)
  have n: "n = of_nat (length (put x) + 6)"
    using L(1) by (metis add.commute of_nat_unat ucast_id)
  have "byte_sum ([t] @ to_be_u32 n @ put x) + ck = 0"
    using sum [of "unat n"] L s4 s3(2) s2(1) s1(1) by (simp add: add_ac)
  then have "ck = 0 - byte_sum ([t] @ to_be_u32 n @ put x)"
    by (simp only: diff_0 eq_neg_iff_add_eq_0 add.commute [of ck])
  moreover have "hd src = t"
    using s1(2,3) by (cases src) auto
  ultimately have "raw = packet_bytes (hd src) (put x)"
    using L s4(3) n by (simp add: packet_bytes_def Let_def)
  moreover have "length (put x) + 6 < 2 ^ 32"
    using L(1) unsigned_less [of n, where ?'a = nat] by simp
  moreover have "src = raw @ rest"
    using L by simp
  ultimately show ?thesis
    using s3(1) by blast
qed

text \<open>What \<open>read_packet\<close> does, if its parser takes the fields that its validator looks at.\<close>

lemma read_packet_whole:
  assumes "\<And>r. D r = Option.bind (p_header r) (\<lambda>r. Option.bind (get r) (\<lambda>(x, _). Some (mk x)))"
    and "ok x" "length (put x) + 6 < 2 ^ 32"
  shows "read_packet V D (packet_bytes t (put x) @ rest) = (rest, Ok (Some (mk x)))"
  using assms by (simp add: read_packet_def validate_packet_complete [OF _ _ refl] raw_packet_def header_packet get_put)

lemma read_packet_part:
  assumes "ok x" "length (put x) + 6 < 2 ^ 32" "n < length (put x) + 6"
  shows "read_packet V D (take n (packet_bytes t (put x))) = (take n (packet_bytes t (put x)), Ok None)"
  using assms by (simp add: read_packet_def validate_packet_partial)

lemma read_packet_sound:
  assumes D: "\<And>r. D r = Option.bind (p_header r) (\<lambda>r. Option.bind (get r) (\<lambda>(x, _). Some (mk x)))"
    and "read_packet V D src = (rest, Ok (Some p))"
  shows "\<exists>x. p = mk x \<and> ok x \<and> length (put x) + 6 < 2 ^ 32 \<and> src = packet_bytes (hd src) (put x) @ rest"
proof -
  from assms(2) obtain v raw where v: "validate_packet V src = VContinue v" "raw_packet v = Some (raw, rest)" "D raw = Some p"
    by (auto simp: read_packet_def split: vflow.splits option.splits)
  from validate_packet_sound [OF v(1,2)] obtain x where
    x: "ok x" "length (put x) + 6 < 2 ^ 32" and raw: "raw = packet_bytes (hd src) (put x)" and src: "src = raw @ rest"
    by blast
  from v(3) have "p = mk x"
    unfolding D raw header_packet using x(1) by (simp add: get_put)
  with x src raw show ?thesis
    by blast
qed

end

lemma fold_hello:
  "fold (\<lambda>(species, count) w. w_u32 count (w_str species w)) xs w = w @ concat (map put_hello xs)"
  by (induction xs arbitrary: w) (auto simp: w_u32_def w_str_def put_str_def)

lemma fold_target:
  "fold (\<lambda>(species, lo, hi) w. w_u32 hi (w_u32 lo (w_str species w))) xs w = w @ concat (map put_target xs)"
  by (induction xs arbitrary: w) (auto simp: w_u32_def w_str_def put_str_def)

text \<open>The type byte and the fields of a packet.\<close>

fun packet_type :: "pest_packet \<Rightarrow> u8" where
  "packet_type (Hello _ _) = 80"
| "packet_type (Error_packet _) = 81"
| "packet_type Ok_packet = 82"
| "packet_type (DialAuthority _) = 83"
| "packet_type (TargetPopulations _ _) = 84"
| "packet_type (CreatePolicy _ _) = 85"
| "packet_type (DeletePolicy _) = 86"
| "packet_type (PolicyResult _) = 87"
| "packet_type (SiteVisit _ _) = 88"

fun packet_fields :: "pest_packet \<Rightarrow> byte list" where
  "packet_fields (Hello s n) = put_hello (s, n)"
| "packet_fields (Error_packet s) = put_str s"
| "packet_fields Ok_packet = []"
| "packet_fields (DialAuthority n) = to_be_u32 n"
| "packet_fields (TargetPopulations n xs) = put_array put_target (n, xs)"
| "packet_fields (CreatePolicy s a) = put_create_policy (s, a)"
| "packet_fields (DeletePolicy n) = to_be_u32 n"
| "packet_fields (PolicyResult n) = to_be_u32 n"
| "packet_fields (SiteVisit n xs) = put_array put_hello (n, xs)"

text \<open>The strings of a packet are UTF-8 and it fits in the 32 bits of its length.\<close>

fun strings_ok :: "pest_packet \<Rightarrow> bool" where
  "strings_ok (Hello s n) = str_ok s"
| "strings_ok (Error_packet s) = str_ok s"
| "strings_ok (TargetPopulations n xs) = array_ok named_ok (n, xs)"
| "strings_ok (CreatePolicy s a) = str_ok s"
| "strings_ok (SiteVisit n xs) = array_ok named_ok (n, xs)"
| "strings_ok _ = True"

definition packet_ok :: "pest_packet \<Rightarrow> bool" where
  "packet_ok p \<longleftrightarrow> strings_ok p \<and> length (pest_encode p) < 2 ^ 32"

lemma write_arrays:
  "write_target_populations n ts = packet_bytes 84 (put_array put_target (n, ts))"
  "write_site_visit n ps = packet_bytes 88 (put_array put_hello (n, ps))"
  unfolding write_target_populations_def write_site_visit_def fold_hello fold_target
  by (simp_all add: w_u32_def finalize_packet [symmetric])

lemma pest_encode_bytes: "pest_encode p = packet_bytes (packet_type p) (packet_fields p)"
  by (cases p)
    (simp_all add: write_hello_def write_error_def write_ok_def write_dial_authority_def write_arrays
      write_create_policy_def write_delete_policy_def write_policy_result_def
      w_u8_def w_u32_def w_str_def put_str_def finalize_packet [symmetric] del: put_array.simps)

lemma packet_ok_fields: "packet_ok p \<Longrightarrow> length (packet_fields p) + 6 < 2 ^ 32"
  by (simp add: packet_ok_def pest_encode_bytes)

text \<open>Each parser takes what its validator looks at.\<close>

lemma decoders:
  "decode_hello r = Option.bind (p_header r) (\<lambda>r. Option.bind (p_hello r) (\<lambda>(x, _). Some (case x of (s, n) \<Rightarrow> Hello s n)))"
  "decode_error r = Option.bind (p_header r) (\<lambda>r. Option.bind (p_str r) (\<lambda>(x, _). Some (Error_packet x)))"
  "decode_ok r = Option.bind (p_header r) (\<lambda>r. Option.bind (Some ((), r)) (\<lambda>(x, _). Some Ok_packet))"
  "decode_dial_authority r = Option.bind (p_header r) (\<lambda>r. Option.bind (rd_u32 r) (\<lambda>(x, _). Some (DialAuthority x)))"
  "decode_target_populations r =
     Option.bind (p_header r) (\<lambda>r. Option.bind (p_array p_target r) (\<lambda>(x, _). Some (case x of (n, xs) \<Rightarrow> TargetPopulations n xs)))"
  "decode_create_policy r =
     Option.bind (p_header r) (\<lambda>r. Option.bind (p_create_policy r) (\<lambda>(x, _). Some (case x of (s, a) \<Rightarrow> CreatePolicy s a)))"
  "decode_delete_policy r = Option.bind (p_header r) (\<lambda>r. Option.bind (rd_u32 r) (\<lambda>(x, _). Some (DeletePolicy x)))"
  "decode_policy_result r = Option.bind (p_header r) (\<lambda>r. Option.bind (rd_u32 r) (\<lambda>(x, _). Some (PolicyResult x)))"
  "decode_site_visit r =
     Option.bind (p_header r) (\<lambda>r. Option.bind (p_array p_hello r) (\<lambda>(x, _). Some (case x of (n, xs) \<Rightarrow> SiteVisit n xs)))"
  by (simp_all add: decode_hello_def decode_error_def decode_ok_def decode_dial_authority_def decode_target_populations_def
      decode_create_policy_def decode_delete_policy_def decode_policy_result_def decode_site_visit_def split_def)

lemmas reads = read_hello_def read_error_packet_def read_ok_def read_dial_authority_def read_target_populations_def
  read_create_policy_def read_delete_policy_def read_policy_result_def read_site_visit_def

lemmas reads_whole = v_hello.read_packet_whole [OF decoders(1)] v_str.read_packet_whole [OF decoders(2)]
  v_unit.read_packet_whole [OF decoders(3)] v_u32.read_packet_whole [OF decoders(4)]
  v_targets.read_packet_whole [OF decoders(5)] v_create_policy.read_packet_whole [OF decoders(6)]
  v_u32.read_packet_whole [OF decoders(7)] v_u32.read_packet_whole [OF decoders(8)]
  v_populations.read_packet_whole [OF decoders(9)]

lemma pest_decode_dispatch:
  "pest_decode (packet_bytes 80 b @ r) = read_hello (packet_bytes 80 b @ r)"
  "pest_decode (packet_bytes 81 b @ r) = read_error_packet (packet_bytes 81 b @ r)"
  "pest_decode (packet_bytes 82 b @ r) = read_ok (packet_bytes 82 b @ r)"
  "pest_decode (packet_bytes 83 b @ r) = read_dial_authority (packet_bytes 83 b @ r)"
  "pest_decode (packet_bytes 84 b @ r) = read_target_populations (packet_bytes 84 b @ r)"
  "pest_decode (packet_bytes 85 b @ r) = read_create_policy (packet_bytes 85 b @ r)"
  "pest_decode (packet_bytes 86 b @ r) = read_delete_policy (packet_bytes 86 b @ r)"
  "pest_decode (packet_bytes 87 b @ r) = read_policy_result (packet_bytes 87 b @ r)"
  "pest_decode (packet_bytes 88 b @ r) = read_site_visit (packet_bytes 88 b @ r)"
  by (simp_all add: packet_bytes_def Let_def)

lemma pest_decode_whole: "packet_ok p \<Longrightarrow> pest_decode (pest_encode p @ rest) = (rest, Ok (Some p))"
proof -
  assume p: "packet_ok p"
  note len = packet_ok_fields [OF p]
  from p have strings: "strings_ok p"
    by (simp add: packet_ok_def)
  show ?thesis
  proof (cases p)
    case (Hello s n)
    with len strings show ?thesis
      using reads_whole(1) [of "(s, n)" 80 rest] by (simp add: pest_encode_bytes pest_decode_dispatch reads named_ok_def)
  next
    case (Error_packet s)
    with len strings show ?thesis
      using reads_whole(2) [of s 81 rest] by (simp add: pest_encode_bytes pest_decode_dispatch reads body_error_def)
  next
    case Ok_packet
    then show ?thesis
      using reads_whole(3) [of 82 rest] by (simp add: pest_encode_bytes pest_decode_dispatch reads)
  next
    case (DialAuthority n)
    then show ?thesis
      using reads_whole(4) [of n 83 rest] by (simp add: pest_encode_bytes pest_decode_dispatch reads body_u32_def)
  next
    case (TargetPopulations n xs)
    with len strings show ?thesis
      using reads_whole(5) [of "(n, xs)" 84 rest]
      by (simp add: pest_encode_bytes pest_decode_dispatch reads del: put_array.simps)
  next
    case (CreatePolicy s a)
    with len strings show ?thesis
      using reads_whole(6) [of "(s, a)" 85 rest] by (simp add: pest_encode_bytes pest_decode_dispatch reads named_ok_def)
  next
    case (DeletePolicy n)
    then show ?thesis
      using reads_whole(7) [of n 86 rest] by (simp add: pest_encode_bytes pest_decode_dispatch reads body_u32_def)
  next
    case (PolicyResult n)
    then show ?thesis
      using reads_whole(8) [of n 87 rest] by (simp add: pest_encode_bytes pest_decode_dispatch reads body_u32_def)
  next
    case (SiteVisit n xs)
    with len strings show ?thesis
      using reads_whole(9) [of "(n, xs)" 88 rest]
      by (simp add: pest_encode_bytes pest_decode_dispatch reads del: put_array.simps)
  qed
qed

lemma pest_decode_sound:
  assumes "pest_decode src = (rest, Ok (Some p))"
  shows "src = pest_encode p @ rest \<and> packet_ok p"
proof -
  obtain c cs where src: "src = c # cs"
    using assms by (cases src) auto
  have "strings_ok p \<and> length (packet_fields p) + 6 < 2 ^ 32 \<and> src = packet_bytes (packet_type p) (packet_fields p) @ rest"
    using assms src
    by (auto simp: reads body_error_def body_u32_def named_ok_def simp del: put_array.simps split: if_splits
        dest!: v_hello.read_packet_sound [OF decoders(1)] v_str.read_packet_sound [OF decoders(2)]
          v_unit.read_packet_sound [OF decoders(3)] v_u32.read_packet_sound [OF decoders(4)]
          v_targets.read_packet_sound [OF decoders(5)] v_create_policy.read_packet_sound [OF decoders(6)]
          v_u32.read_packet_sound [OF decoders(7)] v_u32.read_packet_sound [OF decoders(8)]
          v_populations.read_packet_sound [OF decoders(9)])
  then show ?thesis
    by (simp add: packet_ok_def pest_encode_bytes)
qed

lemmas reads_part = v_hello.read_packet_part v_str.read_packet_part v_unit.read_packet_part v_u32.read_packet_part
  v_targets.read_packet_part v_create_policy.read_packet_part v_populations.read_packet_part

lemma pest_decode_partial:
  assumes p: "packet_ok p" and n: "n < length (pest_encode p)"
  shows "pest_decode (take n (pest_encode p)) = (take n (pest_encode p), Ok None)"
proof (cases n)
  case (Suc m)
  obtain cs where cs: "pest_encode p = packet_type p # cs"
    by (simp add: pest_encode_bytes packet_bytes_def Let_def)
  note len = packet_ok_fields [OF p]
  from p have strings: "strings_ok p"
    by (simp add: packet_ok_def)
  have n': "n < length (packet_fields p) + 6"
    using n by (simp add: pest_encode_bytes)
  have "pest_decode (take n (pest_encode p)) = pest_decode (packet_type p # take m cs)"
    by (simp add: cs Suc)
  moreover have "packet_type p # take m cs = take n (packet_bytes (packet_type p) (packet_fields p))"
    by (simp add: pest_encode_bytes [symmetric] cs Suc)
  ultimately show ?thesis
    using len strings n' reads_part
    by (cases p) (simp_all add: reads body_error_def body_u32_def named_ok_def pest_encode_bytes
        del: put_array.simps put_hello.simps put_create_policy.simps)
qed simp

definition pest_next :: "byte list \<Rightarrow> (pest_packet \<times> byte list) option" where
  "pest_next src = (case pest_decode src of (rest, Ok (Some p)) \<Rightarrow> Some (p, rest) | _ \<Rightarrow> None)"

interpretation pest: incremental_codec pest_encode pest_next packet_ok
proof unfold_locales
  show "pest_next (pest_encode p @ rest) = Some (p, rest)" if "packet_ok p" for p rest
    using that by (simp add: pest_next_def pest_decode_whole)
  show "pest_next bs = None" if "packet_ok p" "strict_prefix bs (pest_encode p)" for p bs
  proof -
    have "bs = take (length bs) (pest_encode p)" "length bs < length (pest_encode p)"
      using that(2) strict_prefix_length [OF that(2)] by (auto simp: strict_prefix_def prefix_def)
    then show ?thesis
      using pest_decode_partial [OF that(1), of "length bs"] by (simp add: pest_next_def)
  qed
qed

section \<open>Properties\<close>

text \<open>C4: The decoder accepts exactly the encodings: it takes a packet off the buffer if and only if the
  buffer begins with what the encoder writes for that packet, its strings are UTF-8 and its length
  fits in 32 bits. So every wrong length, checksum, string length or action is refused.\<close>

theorem pest_decode_iff:
  "pest_decode src = (rest, Ok (Some p)) \<longleftrightarrow> src = pest_encode p @ rest \<and> packet_ok p"
  using pest_decode_whole pest_decode_sound by blast

text \<open>C22: A stream of packets that arrives in pieces: from the encodings of a list of packets the decoder
  takes that list, and at any point inside a packet it waits and leaves the buffer as it is.\<close>

theorem pest_stream_decoded:
  assumes "\<forall>p \<in> set ps. packet_ok p" and "packet_ok p" and "n < length (pest_encode p)"
  shows "rd_many pest_next (length ps) (concat (map pest_encode ps) @ take n (pest_encode p))
      = Some (ps, take n (pest_encode p)) \<and>
    pest_decode (take n (pest_encode p)) = (take n (pest_encode p), Ok None)"
  using pest.many_put [OF assms(1)] pest_decode_partial [OF assms(2,3)] by blast

lemma pest_stream_decoded_witness:
  "rd_many pest_next 2 (pest_encode Ok_packet @ pest_encode (DialAuthority 12345) @ take 3 (pest_encode Ok_packet))
     = Some ([Ok_packet, DialAuthority 12345], take 3 (pest_encode Ok_packet))"
proof -
  have "\<forall>p \<in> set [Ok_packet, DialAuthority 12345]. packet_ok p" "packet_ok Ok_packet" "3 < length (pest_encode Ok_packet)"
    by (simp_all add: packet_ok_def pest_encode_bytes)
  from pest_stream_decoded [OF this, THEN conjunct1] show ?thesis
    by (simp add: numeral_2_eq_2 del: pest_encode.simps)
qed

text \<open>A packet with a string that is not UTF-8 is not refused with an error: the decoder panics, and
  with it the task that serves the connection, before the checksum is looked at.\<close>

theorem pest_bad_string_panics:
  "pest_decode ([81, 0, 0, 0, 11, 0, 0, 0, 1, 255, checksum] @ rest) =
     ([81, 0, 0, 0, 11, 0, 0, 0, 1, 255, checksum] @ rest, Panic)"
proof -
  have bad: "\<not> utf8_valid [255]"
    by (subst utf8_valid.simps) simp
  have u: "unat (from_be_u32 0 0 0 11) = 11" "unat (from_be_u32 0 0 0 1) = 1"
    by (simp_all add: from_be_u32_def)
  have eq: "numeral n = Suc (pred_numeral n)" for n
    by (rule numeral_eq_Suc)
  show ?thesis
    using bad u
    by (simp add: reads read_packet_def validate_packet_def validate_u8_def validator_new_def over_limit_def
        validate_length_def validate_u32_def body_error_def validate_str_def Let_def drop_Cons' take_Cons')
qed

end
