(* ===== verification/PestActors.thy ===== *)
theory PestActors
  imports PestCodec
begin

text \<open>
  The actors of the pest control server, \<open>rust/p11-pest-control/src/actors\<close>: the site visitor that
  checks what a client reports, the controller that keeps an authority server per site, and the
  authority server that keeps the policies of its site what the latest visit asks for. The other end
  of a connection to an authority is a parameter: a function from its state and a packet sent to it to
  its next state and what it answers, if sending and receiving succeed.
\<close>

section \<open>Connections\<close>

datatype item = Packet pest_packet | Bad pest_error

type_synonym 'p responder = "'p \<Rightarrow> pest_packet \<Rightarrow> 'p \<times> item option"

type_synonym visit = "(rstring \<times> u32) list"
type_synonym targets = "(rstring \<times> u32 \<times> u32) list"
type_synonym policies = "rstring \<rightharpoonup> u32 \<times> policy_action"

section \<open>Authority server\<close>

text \<open>Every operation gives the table of policies and the state of the other end after it.\<close>

type_synonym 'p adjusting = "(policies \<times> 'p) \<times> (pest_error, unit) outcome"

definition delete_policy :: "'p responder \<Rightarrow> rstring \<Rightarrow> policies \<times> 'p \<Rightarrow> 'p adjusting" where
  "delete_policy resp species st =
     (let (policies, q) = st in
      case policies species of
        Some (pid, _) \<Rightarrow>
          (case resp q (DeletePolicy pid) of
             (q, Some (Packet Ok_packet)) \<Rightarrow> ((policies(species := None), q), Ok ())
           | (q, _) \<Rightarrow> ((policies(species := None), q), Err Invalid_packet))
      | None \<Rightarrow> ((policies, q), Ok ()))"

definition create_policy :: "'p responder \<Rightarrow> rstring \<Rightarrow> policy_action \<Rightarrow> policies \<times> 'p \<Rightarrow> 'p adjusting" where
  "create_policy resp species action st =
     (let (policies, q) = st in
      case resp q (CreatePolicy species action) of
        (q, Some (Packet (PolicyResult policy))) \<Rightarrow> ((policies(species \<mapsto> (policy, action)), q), Ok ())
      | (q, _) \<Rightarrow> ((policies, q), Err Invalid_packet))"

definition has_policy :: "policies \<Rightarrow> rstring \<Rightarrow> policy_action \<Rightarrow> bool" where
  "has_policy policies species action \<longleftrightarrow>
     (case policies species of Some (_, current) \<Rightarrow> action = current | None \<Rightarrow> False)"

definition add_policy :: "'p responder \<Rightarrow> rstring \<Rightarrow> policy_action \<Rightarrow> policies \<times> 'p \<Rightarrow> 'p adjusting" where
  "add_policy resp species action st =
     (if has_policy (fst st) species action then (st, Ok ())
      else case delete_policy resp species st of
        (st, Ok _) \<Rightarrow> create_policy resp species action st
      | (st, r) \<Rightarrow> (st, r))"

text \<open>A loop whose body may return early with an error.\<close>

fun try_each :: "('a \<Rightarrow> 's \<Rightarrow> 's \<times> ('e, unit) outcome) \<Rightarrow> 'a list \<Rightarrow> 's \<Rightarrow> 's \<times> ('e, unit) outcome" where
  "try_each f [] s = (s, Ok ())"
| "try_each f (x # xs) s = (case f x s of (s, Ok _) \<Rightarrow> try_each f xs s | (s, r) \<Rightarrow> (s, r))"

fun find_target :: "rstring \<Rightarrow> targets \<Rightarrow> (u32 \<times> u32) option" where
  "find_target species [] = None"
| "find_target species ((s, lo, hi) # ts) = (if s = species then Some (lo, hi) else find_target species ts)"

definition adjust_seen :: "'p responder \<Rightarrow> targets \<Rightarrow> rstring \<times> u32 \<Rightarrow> policies \<times> 'p \<Rightarrow> 'p adjusting" where
  "adjust_seen resp targets population st =
     (let (species, count) = population in
      case find_target species targets of
        Some (lo, hi) \<Rightarrow>
          (if lo \<le> count \<and> count \<le> hi then delete_policy resp species st
           else if count < lo then add_policy resp species Conserve st
           else if hi < count then add_policy resp species Cull st
           else (st, Ok ()))
      | None \<Rightarrow> (st, Ok ()))"

definition adjust_unseen :: "'p responder \<Rightarrow> visit \<Rightarrow> rstring \<times> u32 \<times> u32 \<Rightarrow> policies \<times> 'p \<Rightarrow> 'p adjusting" where
  "adjust_unseen resp populations target st =
     (let (species, lo, hi) = target in
      if \<not> list_ex (\<lambda>(s, _). s = species) populations then
        (if lo \<le> 0 \<and> 0 \<le> hi then delete_policy resp species st
         else if 0 < lo then add_policy resp species Conserve st
         else (st, Ok ()))
      else (st, Ok ()))"

definition adjust_policies :: "'p responder \<Rightarrow> targets \<Rightarrow> visit \<Rightarrow> policies \<times> 'p \<Rightarrow> 'p adjusting" where
  "adjust_policies resp targets populations st =
     (case try_each (adjust_seen resp targets) populations st of
        (st, Ok _) \<Rightarrow> try_each (adjust_unseen resp populations) targets st
      | (st, r) \<Rightarrow> (st, r))"

section \<open>Connecting to an authority\<close>

definition INITIAL_BACKOFF :: nat where "INITIAL_BACKOFF = 100"
definition MAX_RETRY :: nat where "MAX_RETRY = 5"

text \<open>A connection: how the other end answers and its state. \<open>provider\<close> is the outcome of each attempt.\<close>

type_synonym 'p authority_conn = "'p responder \<times> 'p"
type_synonym 'p provider = "nat \<Rightarrow> 'p authority_conn option"

definition try_connect :: "u32 \<Rightarrow> 'p authority_conn option \<Rightarrow> ('p authority_conn \<times> targets) option" where
  "try_connect site c =
     (case c of
        None \<Rightarrow> None
      | Some (resp, q) \<Rightarrow>
          (case resp q hello_new of
             (q, Some (Packet (Hello protocol version))) \<Rightarrow>
               (if protocol = PESTCONTROL_PROTOCOL \<and> version = PESTCONTROL_VERSION then
                  (case resp q (DialAuthority site) of
                     (q, Some (Packet (TargetPopulations s populations))) \<Rightarrow>
                       (if s = site then Some ((resp, q), populations) else None)
                   | _ \<Rightarrow> None)
                else None)
           | _ \<Rightarrow> None))"

text \<open>The loop of \<open>connect\<close>: the number of the next attempt, the times slept, in milliseconds, and the
  connection, if there is one.\<close>

function connect_loop :: "u32 \<Rightarrow> 'p provider \<Rightarrow> nat \<Rightarrow> nat \<Rightarrow> nat \<Rightarrow> nat list \<Rightarrow>
    nat \<times> nat list \<times> ('p authority_conn \<times> targets) option" where
  "connect_loop site provider attempt retry delay slept =
     (case try_connect site (provider attempt) of
        Some r \<Rightarrow> (attempt + 1, slept, Some r)
      | None \<Rightarrow>
          (if MAX_RETRY < retry + 1 then (attempt + 1, slept, None)
           else connect_loop site provider (attempt + 1) (retry + 1) (delay * 2) (slept @ [delay])))"
  by pat_completeness auto
termination
  by (relation "measure (\<lambda>(_, _, _, retry, _, _). MAX_RETRY + 1 - retry)") auto

declare connect_loop.simps [simp del]

definition connect :: "u32 \<Rightarrow> 'p provider \<Rightarrow> nat \<Rightarrow> nat \<times> nat list \<times> ('p authority_conn \<times> targets) option" where
  "connect site provider attempt = connect_loop site provider attempt 0 INITIAL_BACKOFF []"

section \<open>The task of an authority server\<close>

datatype 'p phase =
    Idle
  | Connecting visit
  | Adjusting "'p authority_conn" targets visit
  | Settled "'p authority_conn" targets visit
  | Stopped

record 'p authority_server =
  as_site :: u32
  as_policies :: policies
  as_inbox :: "visit list"
  as_attempt :: nat
  as_phase :: "'p phase"

definition authority_new :: "u32 \<Rightarrow> 'p authority_server" where
  "authority_new site =
     \<lparr>as_site = site, as_policies = Map.empty, as_inbox = [], as_attempt = 0, as_phase = Idle\<rparr>"

text \<open>\<open>run\<close> from one point where it waits to the next. While the controller lives the channel is not
  closed, so that an empty inbox is waited for (\<open>None\<close>).\<close>

fun authority_step :: "'p provider \<Rightarrow> 'p authority_server \<Rightarrow> 'p authority_server option" where
  "authority_step provider s =
     (case as_phase s of
        Idle \<Rightarrow>
          (case as_inbox s of
             [] \<Rightarrow> None
           | v # vs \<Rightarrow> Some (s\<lparr>as_inbox := vs, as_phase := Connecting v\<rparr>))
      | Connecting v \<Rightarrow>
          (case connect (as_site s) provider (as_attempt s) of
             (n, _, Some (c, targets)) \<Rightarrow> Some (s\<lparr>as_attempt := n, as_phase := Adjusting c targets v\<rparr>)
           | (n, _, None) \<Rightarrow> Some (s\<lparr>as_attempt := n, as_phase := Stopped\<rparr>))
      | Adjusting (resp, q) targets v \<Rightarrow>
          (case adjust_policies resp targets v (as_policies s, q) of
             ((policies, q), Ok _) \<Rightarrow> Some (s\<lparr>as_policies := policies, as_phase := Settled (resp, q) targets v\<rparr>)
           | ((policies, q), _) \<Rightarrow> Some (s\<lparr>as_policies := policies, as_phase := Connecting v\<rparr>))
      | Settled c targets _ \<Rightarrow>
          (case as_inbox s of
             [] \<Rightarrow> None
           | v # vs \<Rightarrow> Some (s\<lparr>as_inbox := vs, as_phase := Adjusting c targets v\<rparr>))
      | Stopped \<Rightarrow> None)"

section \<open>Controller\<close>

text \<open>The servers by site. A visit for a site whose server has stopped finds the channel closed.\<close>

definition controller_visit :: "u32 \<Rightarrow> visit \<Rightarrow> (u32 \<rightharpoonup> 'p authority_server) \<Rightarrow> (u32 \<rightharpoonup> 'p authority_server)" where
  "controller_visit site populations servers =
     (let s = (case servers site of Some s \<Rightarrow> s | None \<Rightarrow> authority_new site) in
      if as_phase s = Stopped then servers(site := None)
      else servers(site \<mapsto> s\<lparr>as_inbox := as_inbox s @ [populations]\<rparr>))"

section \<open>Site visitor\<close>

datatype visitor_error = Invalid_visit rstring | Receiving pest_error

definition hex_digit :: "nat \<Rightarrow> byte" where
  "hex_digit n = of_nat (if n < 10 then 48 + n else 87 + n)"

fun show_pest_error :: "pest_error \<Rightarrow> rstring" where
  "show_pest_error (Unknown_packet c) =
     ascii ''unknown packet: 0x'' @ [hex_digit (unat c div 16), hex_digit (unat c mod 16)]"
| "show_pest_error Invalid_packet = ascii ''invalid packet''"
| "show_pest_error Invalid_checksum = ascii ''invalid checksum''"

fun show_visitor_error :: "visitor_error \<Rightarrow> rstring" where
  "show_visitor_error (Invalid_visit m) = ascii ''invalid packet: '' @ m"
| "show_visitor_error (Receiving e) = ascii ''packet receiving error: '' @ show_pest_error e"

text \<open>\<open>handle_hello\<close> after its own hello was sent: the items left and the result.\<close>

fun handle_hello :: "item list \<Rightarrow> item list \<times> (visitor_error, unit) outcome" where
  "handle_hello [] = ([], Err (Invalid_visit (ascii ''waiting hello msg'')))"
| "handle_hello (Packet (Hello protocol version) # items) =
     (items, if protocol = PESTCONTROL_PROTOCOL \<and> version = PESTCONTROL_VERSION then Ok ()
             else Err (Invalid_visit (ascii ''got invalid packet'')))"
| "handle_hello (Packet _ # items) = (items, Err (Invalid_visit (ascii ''got invalid packet'')))"
| "handle_hello (Bad e # items) = (items, Err (Receiving e))"

text \<open>The check of one visit with its map from species to counts.\<close>

fun conflicts :: "(rstring \<rightharpoonup> u32) \<Rightarrow> visit \<Rightarrow> bool" where
  "conflicts m [] = False"
| "conflicts m ((species, count) # ps) =
     (case m species of
        Some c \<Rightarrow> if c \<noteq> count then True else conflicts (m(species \<mapsto> count)) ps
      | None \<Rightarrow> conflicts (m(species \<mapsto> count)) ps)"

text \<open>\<open>handle_visits\<close>: the visits given to the controller and the result.\<close>

fun handle_visits :: "item list \<Rightarrow> (u32 \<times> visit) list \<times> (visitor_error, unit) outcome" where
  "handle_visits [] = ([], Ok ())"
| "handle_visits (Packet (SiteVisit site populations) # items) =
     (if conflicts Map.empty populations then ([], Err (Invalid_visit (ascii ''conflicts'')))
      else let (visits, r) = handle_visits items in ((site, populations) # visits, r))"
| "handle_visits (Packet _ # items) = ([], Err (Invalid_visit (ascii ''got invalid packet'')))"
| "handle_visits (Bad e # items) = ([], Err (Receiving e))"

text \<open>\<open>run\<close>: what is sent to the client and the visits given to the controller.\<close>

definition visitor_run :: "item list \<Rightarrow> pest_packet list \<times> (u32 \<times> visit) list" where
  "visitor_run items =
     (case handle_hello items of
        (items, Ok _) \<Rightarrow>
          (case handle_visits items of
             (visits, Err e) \<Rightarrow> ([hello_new, Error_packet (show_visitor_error e)], visits)
           | (visits, _) \<Rightarrow> ([hello_new], visits))
      | (_, Err e) \<Rightarrow> ([hello_new, Error_packet (show_visitor_error e)], [])
      | (_, Panic) \<Rightarrow> ([hello_new], []))"

section \<open>What a visit asks for\<close>

definition conflict_free :: "visit \<Rightarrow> bool" where
  "conflict_free ps \<longleftrightarrow> (\<forall>(s, c) \<in> set ps. \<forall>(s', c') \<in> set ps. s = s' \<longrightarrow> c = c')"

definition count_of :: "visit \<Rightarrow> rstring \<Rightarrow> u32" where
  "count_of ps species = (case map_of ps species of Some c \<Rightarrow> c | None \<Rightarrow> 0)"

definition wanted :: "u32 \<Rightarrow> u32 \<Rightarrow> u32 \<Rightarrow> policy_action option" where
  "wanted lo hi c = (if lo \<le> c \<and> c \<le> hi then None else if c < lo then Some Conserve else Some Cull)"

text \<open>The table holds exactly the policies that are in force at the authority.\<close>

definition in_step :: "policies \<Rightarrow> (u32 \<rightharpoonup> rstring \<times> policy_action) \<Rightarrow> bool" where
  "in_step policies m \<longleftrightarrow> (\<forall>i s a. m i = Some (s, a) \<longleftrightarrow> policies s = Some (i, a))"

text \<open>What the protocol says of an authority, with \<open>force q\<close> its policies and \<open>issued q\<close> the number of
  identifiers it has given out, which it does not reuse.\<close>

definition good_authority ::
  "'p responder \<Rightarrow> ('p \<Rightarrow> u32 \<rightharpoonup> rstring \<times> policy_action) \<Rightarrow> ('p \<Rightarrow> nat) \<Rightarrow> bool" where
  "good_authority resp force issued \<longleftrightarrow>
     (\<forall>q s a. issued q < 2 ^ 32 \<longrightarrow> (\<exists>q' i. resp q (CreatePolicy s a) = (q', Some (Packet (PolicyResult i))) \<and>
        force q i = None \<and> force q' = (force q)(i \<mapsto> (s, a)) \<and> issued q' = issued q + 1)) \<and>
     (\<forall>q i. force q i \<noteq> None \<longrightarrow> (\<exists>q'. resp q (DeletePolicy i) = (q', Some (Packet Ok_packet)) \<and>
        force q' = (force q)(i := None) \<and> issued q' = issued q))"

text \<open>How one step of the adjustment changes the table: the species \<open>s\<close> gets \<open>w\<close>, or is left alone.\<close>

definition effect :: "rstring \<Rightarrow> policy_action option option \<Rightarrow> policies \<Rightarrow> policies \<Rightarrow> bool" where
  "effect s w policies policies' \<longleftrightarrow>
     (\<forall>s'. s' \<noteq> s \<longrightarrow> policies' s' = policies s') \<and>
     (case w of None \<Rightarrow> policies' s = policies s | Some v \<Rightarrow> map_option snd (policies' s) = v)"

text \<open>With a good authority at the other end, \<open>f\<close> succeeds and gives the species what it should have.\<close>

definition step_to :: "('p \<Rightarrow> u32 \<rightharpoonup> rstring \<times> policy_action) \<Rightarrow> ('p \<Rightarrow> nat) \<Rightarrow>
    (policies \<times> 'p \<Rightarrow> 'p adjusting) \<Rightarrow> rstring \<Rightarrow> policy_action option option \<Rightarrow> bool" where
  "step_to force issued f s w \<longleftrightarrow>
     (\<forall>policies q. in_step policies (force q) \<longrightarrow> issued q < 2 ^ 32 \<longrightarrow>
        (\<exists>policies' q'. f (policies, q) = ((policies', q'), Ok ()) \<and> in_step policies' (force q') \<and>
           issued q' \<le> issued q + 1 \<and> effect s w policies policies'))"

lemma in_step_remove:
  assumes "in_step policies m" "policies s = Some (i, a)"
  shows "in_step (policies(s := None)) (m(i := None))"
  unfolding in_step_def
proof (intro allI)
  fix j t b
  from assms have m: "m j = Some (t, b) \<longleftrightarrow> policies t = Some (j, b)" "m i = Some (s, a)" for j t b
    by (auto simp: in_step_def)
  show "(m(i := None)) j = Some (t, b) \<longleftrightarrow> (policies(s := None)) t = Some (j, b)"
    using m(1) [of j t b] m(1) [of i t b] m(2) assms(2) by auto
qed

lemma in_step_insert:
  assumes "in_step policies m" "policies s = None" "m i = None"
  shows "in_step (policies(s \<mapsto> (i, a))) (m(i \<mapsto> (s, a)))"
  unfolding in_step_def
proof (intro allI)
  fix j t b
  from assms have m: "m j = Some (t, b) \<longleftrightarrow> policies t = Some (j, b)" for j t b
    by (auto simp: in_step_def)
  show "(m(i \<mapsto> (s, a))) j = Some (t, b) \<longleftrightarrow> (policies(s \<mapsto> (i, a))) t = Some (j, b)"
    using m [of j t b] m [of i t b] assms(2,3) by auto
qed

lemma delete_good:
  assumes good: "good_authority resp force issued" and m: "in_step policies (force q)"
  shows "\<exists>q'. delete_policy resp s (policies, q) = ((policies(s := None), q'), Ok ()) \<and>
      in_step (policies(s := None)) (force q') \<and> issued q' = issued q"
proof (cases "policies s")
  case None
  with m show ?thesis
    by (simp add: delete_policy_def fun_upd_idem)
next
  case (Some ia)
  obtain i a where ia: "ia = (i, a)"
    by (cases ia)
  with m Some have "force q i = Some (s, a)"
    by (simp add: in_step_def)
  with good obtain q' where "resp q (DeletePolicy i) = (q', Some (Packet Ok_packet))"
    "force q' = (force q)(i := None)" "issued q' = issued q"
    unfolding good_authority_def by blast
  with Some ia in_step_remove [OF m, of s i a] show ?thesis
    by (simp add: delete_policy_def)
qed

lemma delete_step: "good_authority resp force issued \<Longrightarrow> step_to force issued (delete_policy resp s) s (Some None)"
  unfolding step_to_def
proof (intro allI impI)
  fix policies q
  assume "good_authority resp force issued" "in_step policies (force q)"
  from delete_good [OF this] obtain q' where "delete_policy resp s (policies, q) = ((policies(s := None), q'), Ok ())"
    "in_step (policies(s := None)) (force q')" "issued q' = issued q"
    by blast
  then show "\<exists>policies' q'. delete_policy resp s (policies, q) = ((policies', q'), Ok ()) \<and> in_step policies' (force q') \<and>
      issued q' \<le> issued q + 1 \<and> effect s (Some None) policies policies'"
    by (intro exI [of _ "policies(s := None)"] exI [of _ q']) (simp add: effect_def)
qed

lemma add_step:
  "good_authority resp force issued \<Longrightarrow> step_to force issued (add_policy resp s a) s (Some (Some a))"
  unfolding step_to_def
proof (intro allI impI)
  fix policies q
  assume good: "good_authority resp force issued" and m: "in_step policies (force q)" and room: "issued q < 2 ^ 32"
  show "\<exists>policies' q'. add_policy resp s a (policies, q) = ((policies', q'), Ok ()) \<and> in_step policies' (force q') \<and>
      issued q' \<le> issued q + 1 \<and> effect s (Some (Some a)) policies policies'"
  proof (cases "has_policy policies s a")
    case True
    with m show ?thesis
      by (intro exI [of _ policies] exI [of _ q])
        (auto simp: add_policy_def effect_def has_policy_def split: option.splits)
  next
    case False
    from delete_good [OF good m] obtain q1 where 1: "delete_policy resp s (policies, q) = ((policies(s := None), q1), Ok ())"
      "in_step (policies(s := None)) (force q1)" "issued q1 = issued q"
      by blast
    with good room obtain q2 i where 2: "resp q1 (CreatePolicy s a) = (q2, Some (Packet (PolicyResult i)))"
      "force q1 i = None" "force q2 = (force q1)(i \<mapsto> (s, a))" "issued q2 = issued q1 + 1"
      unfolding good_authority_def by metis
    from in_step_insert [OF 1(2) _ 2(2), of s a] 1 2 False show ?thesis
      by (intro exI [of _ "policies(s \<mapsto> (i, a))"] exI [of _ q2])
        (simp add: add_policy_def create_policy_def effect_def)
  qed
qed

lemma skip_step: "step_to force issued (\<lambda>st. (st, Ok ())) s None"
  by (auto simp: step_to_def effect_def)

lemma range_step:
  assumes "step_to force issued D s (Some None)" "step_to force issued (A Conserve) s (Some (Some Conserve))"
    "step_to force issued (A Cull) s (Some (Some Cull))"
  shows "step_to force issued (\<lambda>st. if lo \<le> c \<and> c \<le> hi then D st else if c < lo then A Conserve st
      else if hi < c then A Cull st else E st) s (Some (wanted lo hi c))"
proof (cases "c < lo")
  case True
  then have "\<not> lo \<le> c"
    by simp
  with True assms show ?thesis
    by (simp add: wanted_def)
next
  case False
  then have "lo \<le> c" "hi < c \<longleftrightarrow> \<not> c \<le> hi"
    by auto
  with False assms show ?thesis
    by (cases "c \<le> hi") (simp_all add: wanted_def)
qed

lemma adjust_seen_step:
  assumes "good_authority resp force issued"
  shows "step_to force issued (adjust_seen resp targets p) (fst p)
     (case find_target (fst p) targets of None \<Rightarrow> None | Some (lo, hi) \<Rightarrow> Some (wanted lo hi (snd p)))"
proof (cases p)
  case (Pair s c)
  have "step_to force issued (\<lambda>st. if lo \<le> c \<and> c \<le> hi then delete_policy resp s st
      else if c < lo then add_policy resp s Conserve st
      else if hi < c then add_policy resp s Cull st else (st, Ok ())) s (Some (wanted lo hi c))" for lo hi
    by (rule range_step [where A = "add_policy resp s" and E = "\<lambda>st. (st, Ok ())",
        OF delete_step [OF assms] add_step [OF assms] add_step [OF assms]])
  with skip_step [of force issued s] Pair show ?thesis
    by (simp add: adjust_seen_def [abs_def] split: option.splits)
qed

lemma adjust_unseen_step:
  assumes "good_authority resp force issued"
  shows "step_to force issued (adjust_unseen resp ps t) (fst t)
     (if fst t \<in> fst ` set ps then None else Some (wanted (fst (snd t)) (snd (snd t)) 0))"
proof -
  have "list_ex (\<lambda>(s, _). s = fst t) ps \<longleftrightarrow> fst t \<in> fst ` set ps"
    by (force simp: list_ex_iff)
  then show ?thesis
    using delete_step [OF assms, of "fst t"] add_step [OF assms, of "fst t"] skip_step [of force issued "fst t"]
    by (cases t) (auto simp: adjust_unseen_def [abs_def] wanted_def word_gt_0)
qed

text \<open>A loop of such steps: what the last step for a species gave it stays.\<close>

lemma try_each_steps:
  assumes steps: "\<And>x. x \<in> set xs \<Longrightarrow> step_to force issued (f x) (k x) (w x)"
    and "in_step policies (force q)" and "issued q + length xs \<le> 2 ^ 32"
  shows "\<exists>policies' q'. try_each f xs (policies, q) = ((policies', q'), Ok ()) \<and> in_step policies' (force q') \<and>
      issued q' \<le> issued q + length xs \<and>
      (\<forall>s. (\<forall>x \<in> set xs. k x = s \<longrightarrow> w x = None) \<longrightarrow> policies' s = policies s) \<and>
      (\<forall>s v. (\<exists>x \<in> set xs. k x = s) \<longrightarrow> (\<forall>x \<in> set xs. k x = s \<longrightarrow> w x = Some v) \<longrightarrow>
         map_option snd (policies' s) = v)"
  using assms
proof (induction xs arbitrary: policies q)
  case (Cons x xs)
  have "issued q < 2 ^ 32"
    using Cons.prems(3) by simp
  with Cons.prems(1) [of x] Cons.prems(2) obtain p1 q1 where 1: "f x (policies, q) = ((p1, q1), Ok ())"
    "in_step p1 (force q1)" "issued q1 \<le> issued q + 1" "effect (k x) (w x) policies p1"
    unfolding step_to_def by fastforce
  have "issued q1 + length xs \<le> 2 ^ 32"
    using 1(3) Cons.prems(3) by simp
  from Cons.IH [OF Cons.prems(1) 1(2) this] obtain p2 q2 where 2: "try_each f xs (p1, q1) = ((p2, q2), Ok ())"
    "in_step p2 (force q2)" "issued q2 \<le> issued q1 + length xs"
    and none: "\<And>s. \<forall>x \<in> set xs. k x = s \<longrightarrow> w x = None \<Longrightarrow> p2 s = p1 s"
    and some: "\<And>s v. \<exists>x \<in> set xs. k x = s \<Longrightarrow> \<forall>x \<in> set xs. k x = s \<longrightarrow> w x = Some v \<Longrightarrow> map_option snd (p2 s) = v"
    by fastforce
  have "p2 s = policies s" if "\<forall>y \<in> set (x # xs). k y = s \<longrightarrow> w y = None" for s
    using none [of s] that 1(4) by (auto simp: effect_def split: option.splits) metis
  moreover have "map_option snd (p2 s) = v" if "\<exists>y \<in> set (x # xs). k y = s"
    "\<forall>y \<in> set (x # xs). k y = s \<longrightarrow> w y = Some v" for s v
  proof (cases "\<exists>y \<in> set xs. k y = s")
    case True
    then show ?thesis
      using some [of s v] that(2) by simp
  next
    case False
    then have "p2 s = p1 s" "k x = s" "w x = Some v"
      using none [of s] that by auto
    with 1(4) show ?thesis
      by (simp add: effect_def)
  qed
  ultimately show ?case
    using 1 2 by (intro exI [of _ p2] exI [of _ q2]) auto
qed simp

lemma find_target_Some:
  "distinct (map fst ts) \<Longrightarrow> find_target s ts = Some (lo, hi) \<longleftrightarrow> (s, lo, hi) \<in> set ts"
  by (induction ts) (auto simp: image_iff split: if_splits)

lemma find_target_None: "find_target s ts = None \<longleftrightarrow> s \<notin> fst ` set ts"
  by (induction ts) (auto split: if_splits)

lemma count_of_conflict_free: "conflict_free ps \<Longrightarrow> (s, c) \<in> set ps \<Longrightarrow> count_of ps s = c"
  using map_of_SomeD [of ps s] weak_map_of_SomeI [of s c ps]
  by (fastforce simp: count_of_def conflict_free_def)

lemma count_of_missing: "s \<notin> fst ` set ps \<Longrightarrow> count_of ps s = 0"
  by (simp add: count_of_def map_of_eq_None_iff [symmetric])

lemma conflict_free_Cons:
  "conflict_free ((s, c) # ps) \<longleftrightarrow> conflict_free ps \<and> (\<forall>c'. (s, c') \<in> set ps \<longrightarrow> c' = c)"
  by (fastforce simp: conflict_free_def)

lemma conflicts_iff:
  "\<not> conflicts m ps \<longleftrightarrow> (\<forall>s c c'. (s, c) \<in> set ps \<longrightarrow> m s = Some c' \<longrightarrow> c' = c) \<and> conflict_free ps"
proof (induction ps arbitrary: m)
  case Nil
  show ?case
    by (simp add: conflict_free_def)
next
  case (Cons p ps)
  obtain s c where p: "p = (s, c)"
    by (cases p)
  have "\<not> conflicts m (p # ps) \<longleftrightarrow> (\<forall>c'. m s = Some c' \<longrightarrow> c' = c) \<and> \<not> conflicts (m(s \<mapsto> c)) ps"
    by (cases "m s") (simp_all add: p)
  also have "\<dots> \<longleftrightarrow> (\<forall>c'. m s = Some c' \<longrightarrow> c' = c) \<and>
      (\<forall>t d c'. (t, d) \<in> set ps \<longrightarrow> (m(s \<mapsto> c)) t = Some c' \<longrightarrow> c' = d) \<and> conflict_free ps"
    by (simp add: Cons.IH)
  also have "\<dots> \<longleftrightarrow> (\<forall>t d c'. (t, d) \<in> set (p # ps) \<longrightarrow> m t = Some c' \<longrightarrow> c' = d) \<and> conflict_free (p # ps)"
    unfolding p conflict_free_Cons by (auto split: if_splits)
  finally show ?case .
qed

lemma connect_loop_cases:
  "try_connect site (provider a) = Some r \<Longrightarrow> connect_loop site provider a n d slept = (a + 1, slept, Some r)"
  "try_connect site (provider a) = None \<Longrightarrow> n < 5 \<Longrightarrow>
     connect_loop site provider a n d slept = connect_loop site provider (a + 1) (n + 1) (d * 2) (slept @ [d])"
  "try_connect site (provider a) = None \<Longrightarrow> n = 5 \<Longrightarrow>
     connect_loop site provider a n d slept = (a + 1, slept, None)"
  by (subst connect_loop.simps; simp add: MAX_RETRY_def)+

text \<open>The two loops of an adjustment: what was seen, and what was not.\<close>

lemma seen_pass:
  assumes "good_authority resp force issued" and "in_step policies (force q)"
    and "conflict_free ps" and "distinct (map fst targets)" and "issued q + length ps \<le> 2 ^ 32"
  shows "\<exists>p1 q1. try_each (adjust_seen resp targets) ps (policies, q) = ((p1, q1), Ok ()) \<and> in_step p1 (force q1) \<and>
    issued q1 \<le> issued q + length ps \<and> (\<forall>s. s \<notin> fst ` set targets \<longrightarrow> p1 s = policies s) \<and>
    (\<forall>s lo hi. (s, lo, hi) \<in> set targets \<longrightarrow> s \<in> fst ` set ps \<longrightarrow> map_option snd (p1 s) = wanted lo hi (count_of ps s))"
proof -
  define w where "w p = (case find_target (fst p) targets of None \<Rightarrow> None | Some (lo, hi) \<Rightarrow> Some (wanted lo hi (snd p)))"
    for p :: "rstring \<times> u32"
  from try_each_steps [of ps force issued "adjust_seen resp targets" fst w policies q, OF _ assms(2,5)]
  obtain p1 q1 where 1: "try_each (adjust_seen resp targets) ps (policies, q) = ((p1, q1), Ok ())"
    "in_step p1 (force q1)" "issued q1 \<le> issued q + length ps"
    and n1: "\<And>s. \<forall>x \<in> set ps. fst x = s \<longrightarrow> w x = None \<Longrightarrow> p1 s = policies s"
    and s1: "\<And>s v. \<exists>x \<in> set ps. fst x = s \<Longrightarrow> \<forall>x \<in> set ps. fst x = s \<longrightarrow> w x = Some v \<Longrightarrow> map_option snd (p1 s) = v"
    using adjust_seen_step [OF assms(1), of targets] unfolding w_def by fastforce
  have "p1 s = policies s" if "s \<notin> fst ` set targets" for s
    using that find_target_None [of s targets] by (intro n1) (simp add: w_def)
  moreover have "map_option snd (p1 s) = wanted lo hi (count_of ps s)"
    if t: "(s, lo, hi) \<in> set targets" and s: "s \<in> fst ` set ps" for s lo hi
  proof -
    have "w x = Some (wanted lo hi (count_of ps s))" if "x \<in> set ps" "fst x = s" for x
    proof -
      have "(s, snd x) \<in> set ps"
        using that by (cases x) auto
      then have "count_of ps s = snd x"
        using count_of_conflict_free [OF assms(3)] by blast
      then show ?thesis
        using that t find_target_Some [OF assms(4), of s lo hi] by (simp add: w_def)
    qed
    with s show ?thesis
      by (intro s1) auto
  qed
  ultimately show ?thesis
    using 1 by blast
qed

lemma unseen_pass:
  assumes "good_authority resp force issued" and "in_step p1 (force q1)" and "distinct (map fst targets)"
    and "issued q1 + length targets \<le> 2 ^ 32"
  shows "\<exists>p2 q2. try_each (adjust_unseen resp ps) targets (p1, q1) = ((p2, q2), Ok ()) \<and> in_step p2 (force q2) \<and>
    (\<forall>s. s \<in> fst ` set ps \<or> s \<notin> fst ` set targets \<longrightarrow> p2 s = p1 s) \<and>
    (\<forall>s lo hi. (s, lo, hi) \<in> set targets \<longrightarrow> s \<notin> fst ` set ps \<longrightarrow> map_option snd (p2 s) = wanted lo hi (count_of ps s))"
proof -
  define u where "u t = (if fst t \<in> fst ` set ps then None else Some (wanted (fst (snd t)) (snd (snd t)) 0))"
    for t :: "rstring \<times> u32 \<times> u32"
  from try_each_steps [of targets force issued "adjust_unseen resp ps" fst u p1 q1, OF _ assms(2,4)]
  obtain p2 q2 where 2: "try_each (adjust_unseen resp ps) targets (p1, q1) = ((p2, q2), Ok ())" "in_step p2 (force q2)"
    and n2: "\<And>s. \<forall>x \<in> set targets. fst x = s \<longrightarrow> u x = None \<Longrightarrow> p2 s = p1 s"
    and s2: "\<And>s v. \<exists>x \<in> set targets. fst x = s \<Longrightarrow> \<forall>x \<in> set targets. fst x = s \<longrightarrow> u x = Some v \<Longrightarrow> map_option snd (p2 s) = v"
    using adjust_unseen_step [OF assms(1), of ps] unfolding u_def by fastforce
  have "p2 s = p1 s" if "s \<in> fst ` set ps \<or> s \<notin> fst ` set targets" for s
    using that by (intro n2) (auto simp: u_def)
  moreover have "map_option snd (p2 s) = wanted lo hi (count_of ps s)"
    if t: "(s, lo, hi) \<in> set targets" and s: "s \<notin> fst ` set ps" for s lo hi
  proof -
    have "u x = Some (wanted lo hi 0)" if "x \<in> set targets" "fst x = s" for x
    proof -
      have "x = (s, lo, hi)"
        by (rule inj_onD [of fst "set targets"]) (use assms(3) that t in \<open>simp_all add: distinct_map\<close>)
      with s show ?thesis
        by (simp add: u_def)
    qed
    with t s show ?thesis
      unfolding count_of_missing [OF s] by (intro s2) force+
  qed
  ultimately show ?thesis
    using 2 by blast
qed

section \<open>Properties\<close>

text \<open>C9: After a visit has been dealt with over a connection to an authority that does as the protocol
  says, the policies settle: every controlled species has no policy, a policy to conserve or a policy
  to cull, as its count (zero if it was not seen) is within, below or above its range; no other species
  gets one; and the table holds exactly what is in force at the authority, so no species has two.\<close>

theorem policies_settle:
  assumes "good_authority resp force issued" and "in_step policies (force q)"
    and "conflict_free ps" and "distinct (map fst targets)"
    and "issued q + length ps + length targets \<le> 2 ^ 32"
  shows "\<exists>policies' q'. adjust_policies resp targets ps (policies, q) = ((policies', q'), Ok ()) \<and>
      in_step policies' (force q') \<and>
      (\<forall>s lo hi. (s, lo, hi) \<in> set targets \<longrightarrow> map_option snd (policies' s) = wanted lo hi (count_of ps s)) \<and>
      (\<forall>s. s \<notin> fst ` set targets \<longrightarrow> policies' s = policies s)"
proof -
  have room: "issued q + length ps \<le> 2 ^ 32"
    using assms(5) by simp
  from seen_pass [OF assms(1-4) room] obtain p1 q1 where
    1: "try_each (adjust_seen resp targets) ps (policies, q) = ((p1, q1), Ok ())" "in_step p1 (force q1)"
    "issued q1 \<le> issued q + length ps" "\<forall>s. s \<notin> fst ` set targets \<longrightarrow> p1 s = policies s"
    and seen: "\<forall>s lo hi. (s, lo, hi) \<in> set targets \<longrightarrow> s \<in> fst ` set ps \<longrightarrow> map_option snd (p1 s) = wanted lo hi (count_of ps s)"
    by blast
  have "issued q1 + length targets \<le> 2 ^ 32"
    using 1(3) assms(5) by simp
  from unseen_pass [OF assms(1) 1(2) assms(4) this, of ps] obtain p2 q2 where
    2: "try_each (adjust_unseen resp ps) targets (p1, q1) = ((p2, q2), Ok ())" "in_step p2 (force q2)"
    "\<forall>s. s \<in> fst ` set ps \<or> s \<notin> fst ` set targets \<longrightarrow> p2 s = p1 s"
    and unseen: "\<forall>s lo hi. (s, lo, hi) \<in> set targets \<longrightarrow> s \<notin> fst ` set ps \<longrightarrow> map_option snd (p2 s) = wanted lo hi (count_of ps s)"
    by blast
  have "map_option snd (p2 s) = wanted lo hi (count_of ps s)" if "(s, lo, hi) \<in> set targets" for s lo hi
    using that seen unseen 2(3) by (cases "s \<in> fst ` set ps") auto
  with 1 2 show ?thesis
    by (intro exI [of _ p2] exI [of _ q2]) (simp add: adjust_policies_def)
qed

text \<open>An authority that numbers its policies from zero, for the examples.\<close>

definition example_authority :: "(nat \<times> (u32 \<rightharpoonup> rstring \<times> policy_action)) responder" where
  "example_authority q p =
     (case p of
        CreatePolicy s a \<Rightarrow> ((fst q + 1, (snd q)(of_nat (fst q) \<mapsto> (s, a))), Some (Packet (PolicyResult (of_nat (fst q)))))
      | DeletePolicy i \<Rightarrow> ((fst q, (snd q)(i := None)), Some (Packet Ok_packet))
      | _ \<Rightarrow> (q, None))"

definition example_force :: "nat \<times> (u32 \<rightharpoonup> rstring \<times> policy_action) \<Rightarrow> u32 \<rightharpoonup> rstring \<times> policy_action" where
  "example_force q i = (if unat i < fst q then snd q i else None)"

lemma example_good: "good_authority example_authority example_force fst"
  unfolding good_authority_def
proof (intro conjI allI impI)
  fix q :: "nat \<times> (u32 \<rightharpoonup> rstring \<times> policy_action)" and s a
  assume room: "fst q < 2 ^ 32"
  then have n: "unat (of_nat (fst q) :: u32) = fst q"
    using unat_of_nat_small [of "fst q", where ?'l = 32] by simp
  have "example_force (fst q + 1, (snd q)(of_nat (fst q) \<mapsto> (s, a))) j = ((example_force q)(of_nat (fst q) \<mapsto> (s, a))) j" for j
  proof (cases "j = of_nat (fst q)")
    case False
    with n have "unat j \<noteq> fst q"
      by (metis of_nat_unat ucast_id)
    with False show ?thesis
      by (auto simp: example_force_def less_Suc_eq)
  qed (use n in \<open>simp add: example_force_def\<close>)
  then have "example_force (fst q + 1, (snd q)(of_nat (fst q) \<mapsto> (s, a))) = (example_force q)(of_nat (fst q) \<mapsto> (s, a))"
    by (rule ext)
  with n show "\<exists>q' i. example_authority q (CreatePolicy s a) = (q', Some (Packet (PolicyResult i))) \<and>
      example_force q i = None \<and> example_force q' = (example_force q)(i \<mapsto> (s, a)) \<and> fst q' = fst q + 1"
    by (intro exI [of _ "(fst q + 1, (snd q)(of_nat (fst q) \<mapsto> (s, a)))"] exI [of _ "of_nat (fst q)"])
      (simp add: example_authority_def example_force_def [of q "of_nat (fst q)"])
next
  fix q :: "nat \<times> (u32 \<rightharpoonup> rstring \<times> policy_action)" and i
  show "\<exists>q'. example_authority q (DeletePolicy i) = (q', Some (Packet Ok_packet)) \<and>
      example_force q' = (example_force q)(i := None) \<and> fst q' = fst q"
    by (intro exI [of _ "(fst q, (snd q)(i := None))"]) (auto simp: example_authority_def example_force_def fun_eq_iff)
qed

lemma policies_settle_witness:
  "\<exists>policies' q'. adjust_policies example_authority [(ascii ''rat'', 0, 10)] [(ascii ''rat'', 20)] (Map.empty, (0, Map.empty))
      = ((policies', q'), Ok ()) \<and> in_step policies' (example_force q') \<and>
      map_option snd (policies' (ascii ''rat'')) = Some Cull"
proof -
  have "in_step Map.empty (example_force (0, Map.empty))" "conflict_free [(ascii ''rat'', 20)]"
    "distinct (map fst [(ascii ''rat'', 0 :: u32, 10 :: u32)])"
    "fst (0 :: nat, Map.empty :: u32 \<rightharpoonup> rstring \<times> policy_action) + length [(ascii ''rat'', 20 :: u32)]
      + length [(ascii ''rat'', 0 :: u32, 10 :: u32)] \<le> 2 ^ 32"
    by (simp_all add: in_step_def example_force_def conflict_free_def)
  from policies_settle [OF example_good this] show ?thesis
    by (auto simp: wanted_def count_of_def)
qed

text \<open>A connection that breaks when a policy is to be deleted leaves two policies for a species. The
  server forgets the policy before it has sent the request; after it has connected again it dials the
  same authority, creates the new policy, and the adjustment succeeds with both in force.\<close>

theorem failed_delete_leaks:
  assumes "good_authority resp force issued" and "in_step policies (force q)" and "issued q + 2 \<le> 2 ^ 32"
    and "policies s = Some (i, old)" and "wanted lo hi c = Some new" and "new \<noteq> old"
  shows "adjust_policies (\<lambda>q p. (q, None)) [(s, lo, hi)] [(s, c)] (policies, q)
      = ((policies(s := None), q), Err Invalid_packet) \<and>
    (\<exists>policies' q' j. adjust_policies resp [(s, lo, hi)] [(s, c)] (policies(s := None), q) = ((policies', q'), Ok ()) \<and>
      j \<noteq> i \<and> force q' i = Some (s, old) \<and> force q' j = Some (s, new))"
proof
  have range: "\<not> (lo \<le> c \<and> c \<le> hi)" "c < lo \<and> new = Conserve \<or> \<not> c < lo \<and> hi < c \<and> new = Cull"
    using assms(5) by (auto simp: wanted_def split: if_splits)
  have add: "adjust_seen r [(s, lo, hi)] (s, c) st = add_policy r s new st" for r :: "'a responder" and st
    using range by (auto simp: adjust_seen_def)
  have "\<not> has_policy policies s new"
    using assms(4,6) by (simp add: has_policy_def)
  then show "adjust_policies (\<lambda>q p. (q, None)) [(s, lo, hi)] [(s, c)] (policies, q)
      = ((policies(s := None), q), Err Invalid_packet)"
    using assms(4) by (simp add: adjust_policies_def add add_policy_def delete_policy_def)
  have old: "force q i = Some (s, old)"
    using assms(2,4) by (simp add: in_step_def)
  obtain q' j where new: "resp q (CreatePolicy s new) = (q', Some (Packet (PolicyResult j)))"
    "force q j = None" "force q' = (force q)(j \<mapsto> (s, new))"
  proof -
    have "issued q < 2 ^ 32"
      using assms(3) by simp
    with assms(1) have "\<exists>q' j. resp q (CreatePolicy s new) = (q', Some (Packet (PolicyResult j))) \<and>
        force q j = None \<and> force q' = (force q)(j \<mapsto> (s, new)) \<and> issued q' = issued q + 1"
      unfolding good_authority_def by blast
    then show thesis
      using that by blast
  qed
  have "j \<noteq> i"
    using old new(2) by auto
  have "add_policy resp s new (policies(s := None), q) = ((policies(s \<mapsto> (j, new)), q'), Ok ())"
    by (simp add: add_policy_def has_policy_def delete_policy_def create_policy_def new(1))
  then have "adjust_policies resp [(s, lo, hi)] [(s, c)] (policies(s := None), q) = ((policies(s \<mapsto> (j, new)), q'), Ok ())"
    by (simp add: adjust_policies_def add adjust_unseen_def)
  then show "\<exists>policies' q' j. adjust_policies resp [(s, lo, hi)] [(s, c)] (policies(s := None), q) = ((policies', q'), Ok ()) \<and>
      j \<noteq> i \<and> force q' i = Some (s, old) \<and> force q' j = Some (s, new)"
    using old new(3) \<open>j \<noteq> i\<close>
    by (intro exI [of _ "policies(s \<mapsto> (j, new))"] exI [of _ q'] exI [of _ j]) simp
qed

lemma failed_delete_leaks_witness:
  "\<exists>policies' q' j. adjust_policies example_authority [(ascii ''rat'', 5, 10)] [(ascii ''rat'', 2)]
       (Map.empty, (1, [0 \<mapsto> (ascii ''rat'', Cull)])) = ((policies', q'), Ok ()) \<and>
     j \<noteq> 0 \<and> example_force q' 0 = Some (ascii ''rat'', Cull) \<and> example_force q' j = Some (ascii ''rat'', Conserve)"
proof -
  let ?q = "(1, [0 \<mapsto> (ascii ''rat'', Cull)]) :: nat \<times> (u32 \<rightharpoonup> rstring \<times> policy_action)"
  have "in_step [ascii ''rat'' \<mapsto> (0, Cull)] (example_force ?q)"
    by (auto simp: in_step_def example_force_def unat_eq_0 split: if_splits)
  moreover have "fst ?q + 2 \<le> 2 ^ 32" "[ascii ''rat'' \<mapsto> (0 :: u32, Cull)] (ascii ''rat'') = Some (0, Cull)"
    "wanted 5 10 2 = Some Conserve" "Conserve \<noteq> Cull"
    by (simp_all add: wanted_def)
  ultimately show ?thesis
    using failed_delete_leaks [OF example_good, THEN conjunct2, of "[ascii ''rat'' \<mapsto> (0, Cull)]" ?q]
    by fastforce
qed

text \<open>A visit that comes after the server of its site has given up is dropped, and the next one starts
  a new server whose table is empty, whatever policies are in force at the authority.\<close>

theorem stopped_server_loses_visit:
  assumes "servers site = Some s" and "as_phase s = Stopped"
  shows "controller_visit site ps servers = servers(site := None) \<and>
    controller_visit site next (controller_visit site ps servers) =
      servers(site \<mapsto> (authority_new site)\<lparr>as_inbox := [next]\<rparr>)"
  using assms by (simp add: controller_visit_def authority_new_def)

lemma stopped_server_loses_visit_witness:
  "controller_visit 7 [(ascii ''rat'', 20)] [7 \<mapsto> (authority_new 7 :: nat authority_server)\<lparr>as_phase := Stopped\<rparr>] = Map.empty"
  using stopped_server_loses_visit [of "[7 \<mapsto> (authority_new 7 :: nat authority_server)\<lparr>as_phase := Stopped\<rparr>]" 7
      "(authority_new 7 :: nat authority_server)\<lparr>as_phase := Stopped\<rparr>" "[(ascii ''rat'', 20)]" "[]"]
  by (simp add: authority_new_def)

text \<open>A client that greets and then reports visits has each of them that contradicts nothing within it
  handed on in order, and is sent nothing but the greeting; the first packet that is wrong, of another
  type or contradictory ends the session with an error packet, and nothing after it is handed on.\<close>

theorem visitor_hands_on_visits:
  assumes "\<forall>(site, ps) \<in> set vs. conflict_free ps"
    and "bad = [] \<or> (\<exists>b rest. bad = b # rest \<and> (\<forall>site ps. b = Packet (SiteVisit site ps) \<longrightarrow> \<not> conflict_free ps))"
  shows "snd (visitor_run (Packet hello_new # map (\<lambda>(site, ps). Packet (SiteVisit site ps)) vs @ bad)) = vs \<and>
    (bad = [] \<longrightarrow> fst (visitor_run (Packet hello_new # map (\<lambda>(site, ps). Packet (SiteVisit site ps)) vs @ bad)) = [hello_new]) \<and>
    (bad \<noteq> [] \<longrightarrow> (\<exists>m. fst (visitor_run (Packet hello_new # map (\<lambda>(site, ps). Packet (SiteVisit site ps)) vs @ bad))
        = [hello_new, Error_packet m]))"
proof -
  have free: "\<not> conflicts Map.empty ps \<longleftrightarrow> conflict_free ps" for ps
    by (simp add: conflicts_iff)
  have "handle_visits bad = ([], Ok ()) \<and> bad = [] \<or> (\<exists>e. handle_visits bad = ([], Err e) \<and> bad \<noteq> [])"
    using assms(2) free by (cases bad rule: handle_visits.cases) auto
  then have "handle_visits (map (\<lambda>(site, ps). Packet (SiteVisit site ps)) vs @ bad) = (vs, Ok ()) \<and> bad = [] \<or>
      (\<exists>e. handle_visits (map (\<lambda>(site, ps). Packet (SiteVisit site ps)) vs @ bad) = (vs, Err e) \<and> bad \<noteq> [])"
    using assms(1) free by (induction vs) auto
  then show ?thesis
    by (auto simp: visitor_run_def hello_new_def)
qed

lemma visitor_hands_on_visits_witness:
  "snd (visitor_run (Packet hello_new # map (\<lambda>(site, ps). Packet (SiteVisit site ps)) [(1, [(ascii ''rat'', 2), (ascii ''rat'', 2)])]
     @ [Bad Invalid_checksum])) = [(1, [(ascii ''rat'', 2), (ascii ''rat'', 2)])]"
  by (rule visitor_hands_on_visits [THEN conjunct1]) (auto simp: conflict_free_def)

text \<open>Connecting ends: there are at most six attempts, with pauses of 100, 200, 400, 800 and 1600
  milliseconds between them, and the first that succeeds is the connection.\<close>

theorem connect_bounded:
  "connect site provider n =
     (case find (\<lambda>k. try_connect site (provider (n + k)) \<noteq> None) [0, 1, 2, 3, 4, 5] of
        None \<Rightarrow> (n + 6, [100, 200, 400, 800, 1600], None)
      | Some k \<Rightarrow> (n + k + 1, take k [100, 200, 400, 800, 1600], try_connect site (provider (n + k))))"
proof -
  define t where "t k = try_connect site (provider (n + k))" for k
  have t: "try_connect site (provider n) = t 0" "try_connect site (provider (Suc n)) = t (Suc 0)"
    "try_connect site (provider (Suc (Suc n))) = t 2" "try_connect site (provider (Suc (Suc (Suc n)))) = t 3"
    "try_connect site (provider (Suc (Suc (Suc (Suc n))))) = t 4" "try_connect site (provider (Suc (Suc (Suc (Suc (Suc n)))))) = t 5"
    by (simp_all add: t_def numeral_eq_Suc)
  consider r where "t 0 = Some r" | r where "t 0 = None" "t (Suc 0) = Some r" | r where "t 0 = None" "t (Suc 0) = None" "t 2 = Some r"
    | r where "t 0 = None" "t (Suc 0) = None" "t 2 = None" "t 3 = Some r"
    | r where "t 0 = None" "t (Suc 0) = None" "t 2 = None" "t 3 = None" "t 4 = Some r"
    | r where "t 0 = None" "t (Suc 0) = None" "t 2 = None" "t 3 = None" "t 4 = None" "t 5 = Some r"
    | "t 0 = None" "t (Suc 0) = None" "t 2 = None" "t 3 = None" "t 4 = None" "t 5 = None"
    by (metis not_None_eq)
  then show ?thesis
    unfolding t_def [symmetric] connect_def INITIAL_BACKOFF_def
    by cases (simp_all add: connect_loop_cases t del: not_None_eq)
qed

end
