(* ===== verification/JobCentre.thy ===== *)
theory JobCentre
  imports Prelude "HOL-Library.Product_Lexorder" "HOL-Library.Multiset"
begin

text \<open>
  The store of the job centre, \<open>rust/p09-job-centre/src/job_centre.rs\<close>: the queues of waiting jobs, the
  table of jobs and the list of running jobs, with the operations that run under its lock. A job is any
  value. Running jobs are shared pointers (\<open>Arc\<close>), here a serial number and what it points to; a
  \<open>Weak\<close> pointer is the number, and can be upgraded while the running list holds the pointer. The
  priority queue that the store relies on is the interface \<open>max_heap\<close>.
\<close>

section \<open>Priority queues\<close>

locale max_heap =
  fixes bag :: "'q \<Rightarrow> 'x::linorder multiset"
    and empty :: 'q
    and push :: "'x \<Rightarrow> 'q \<Rightarrow> 'q"
    and peek :: "'q \<Rightarrow> 'x option"
    and pop :: "'q \<Rightarrow> ('x \<times> 'q) option"
    and retain :: "('x \<Rightarrow> bool) \<Rightarrow> 'q \<Rightarrow> 'q"
  assumes bag_empty: "bag empty = {#}"
    and bag_push: "bag (push x q) = add_mset x (bag q)"
    and bag_retain: "bag (retain p q) = filter_mset p (bag q)"
    and peek_None: "peek q = None \<longleftrightarrow> bag q = {#}"
    and peek_Some: "peek q = Some x \<Longrightarrow> x \<in># bag q \<and> (\<forall>y \<in># bag q. y \<le> x)"
    and pop_peek: "map_option fst (pop q) = peek q"
    and pop_bag: "pop q = Some (x, q') \<Longrightarrow> bag q = add_mset x (bag q')"
begin

lemma pop_None: "pop q = None \<longleftrightarrow> bag q = {#}"
  using peek_None [of q] pop_peek [of q] by (cases "pop q") auto

lemma pop_Some:
  assumes "pop q = Some (x, q')"
  shows "peek q = Some x \<and> x \<in># bag q \<and> (\<forall>y \<in># bag q. y \<le> x) \<and> bag q' = bag q - {#x#}"
proof -
  have "peek q = Some x"
    using pop_peek [of q] assms by simp
  then show ?thesis
    using peek_Some [of q x] pop_bag [OF assms] by simp
qed

lemma peek_push: "peek (push x q) = Some (case peek q of None \<Rightarrow> x | Some y \<Rightarrow> max x y)"
proof -
  obtain z where z: "peek (push x q) = Some z"
    using peek_None [of "push x q"] by (auto simp: bag_push)
  have "z = (case peek q of None \<Rightarrow> x | Some y \<Rightarrow> max x y)"
  proof (cases "peek q")
    case None
    with z peek_Some [OF z] peek_None [of q] show ?thesis
      by (simp add: bag_push)
  next
    case (Some y)
    have zq: "z = x \<or> z \<in># bag q" "x \<le> z" "\<forall>u \<in># bag q. u \<le> z"
      using peek_Some [OF z] by (auto simp: bag_push)
    have yq: "y \<in># bag q" "\<forall>u \<in># bag q. u \<le> y"
      using peek_Some [OF Some] by auto
    have "y \<le> z"
      using zq(3) yq(1) by blast
    moreover have "z = x \<or> z \<le> y"
      using zq(1) yq(2) by blast
    ultimately have "z = max x y"
      using zq(2) by (auto simp: max_def)
    with Some show ?thesis
      by simp
  qed
  with z show ?thesis
    by simp
qed

end

text \<open>A \<open>BinaryHeap\<close> of priorities and identifiers, compared in this order, as a list in any order.\<close>

type_synonym heap = "(u32 \<times> u32) list"

definition heap_push :: "u32 \<times> u32 \<Rightarrow> heap \<Rightarrow> heap" where
  "heap_push x h = x # h"

definition heap_peek :: "heap \<Rightarrow> (u32 \<times> u32) option" where
  "heap_peek h = (case h of [] \<Rightarrow> None | x # xs \<Rightarrow> Some (fold max xs x))"

definition heap_pop :: "heap \<Rightarrow> ((u32 \<times> u32) \<times> heap) option" where
  "heap_pop h = map_option (\<lambda>x. (x, remove1 x h)) (heap_peek h)"

lemma heap_peek_Some: "heap_peek h = Some x \<Longrightarrow> x \<in> set h \<and> (\<forall>y \<in> set h. y \<le> x)"
  using Max_in [of "set h"] Max_ge [of "set h"]
  by (cases h) (simp_all add: heap_peek_def Max.set_eq_fold [symmetric] del: list.set)

interpretation heap: max_heap "mset :: heap \<Rightarrow> _" "[]" heap_push heap_peek heap_pop filter
proof unfold_locales
  show "mset h = add_mset x (mset h')" if "heap_pop h = Some (x, h')" for x h h'
    using that heap_peek_Some [of h x] by (auto simp: heap_pop_def)
qed (use heap_peek_Some in \<open>auto simp: heap_push_def heap_peek_def heap_pop_def option.map_comp comp_def option.map_ident
    split: list.splits\<close>)

section \<open>The store\<close>

type_synonym arc = nat

datatype 'j job_ref = JobRef (jr_id: u32) (jr_job: 'j) (jr_pri: u32) (jr_queue: rstring)

datatype worker_error = NoJob | InvalidRequest

record 'j centre =
  next_job_id :: u32
  queues :: "rstring \<rightharpoonup> heap"
  jobs :: "u32 \<rightharpoonup> 'j \<times> u32 \<times> rstring"
  running_jobs :: "(arc \<times> 'j job_ref) list"
  next_arc :: arc

definition centre_new :: "'j centre" where
  "centre_new = \<lparr>next_job_id = 1, queues = Map.empty, jobs = Map.empty, running_jobs = [], next_arc = 0\<rparr>"

definition queue_of :: "'j centre \<Rightarrow> rstring \<Rightarrow> heap" where
  "queue_of c q = (case queues c q of Some h \<Rightarrow> h | None \<Rightarrow> [])"

text \<open>Every operation gives the store after it, which matters after a panic too.\<close>

definition take_job_id :: "bool \<Rightarrow> 'j centre \<Rightarrow> 'j centre \<times> (worker_error, u32) outcome" where
  "take_job_id oc c =
     (case add_w oc (next_job_id c) 1 of
        Ok n \<Rightarrow> (c\<lparr>next_job_id := n\<rparr>, Ok (next_job_id c))
      | Err e \<Rightarrow> (c, Err e)
      | Panic \<Rightarrow> (c, Panic))"

definition jc_put :: "bool \<Rightarrow> rstring \<Rightarrow> 'j \<Rightarrow> u32 \<Rightarrow> 'j centre \<Rightarrow> 'j centre \<times> (worker_error, u32) outcome" where
  "jc_put oc queue job priority c =
     (case take_job_id oc c of
        (c, Ok i) \<Rightarrow>
          (c\<lparr>jobs := (jobs c)(i \<mapsto> (job, priority, queue)),
             queues := (queues c)(queue \<mapsto> heap_push (priority, i) (queue_of c queue))\<rparr>, Ok i)
      | (c, r) \<Rightarrow> (c, r))"

text \<open>The job at the top of a queue, by its priority.\<close>

definition top_priority :: "'j centre \<Rightarrow> rstring \<Rightarrow> (u32 \<times> rstring) option" where
  "top_priority c q =
     (case queues c q of
        Some h \<Rightarrow> (case heap_peek h of Some (p, _) \<Rightarrow> Some (p, q) | None \<Rightarrow> None)
      | None \<Rightarrow> None)"

definition jc_get :: "rstring list \<Rightarrow> 'j centre \<Rightarrow> 'j centre \<times> (worker_error, arc) outcome" where
  "jc_get qs c =
     (case max_by_key fst (List.map_filter (top_priority c) qs) of
        None \<Rightarrow> (c, Err NoJob)
      | Some (_, q) \<Rightarrow>
          (case heap_pop (queue_of c q) of
             None \<Rightarrow> (c, Panic)
           | Some ((_, i), h) \<Rightarrow>
               (let c = c\<lparr>queues := (queues c)(q \<mapsto> h)\<rparr> in
                case jobs c i of
                  None \<Rightarrow> (c, Panic)
                | Some (job, priority, queue) \<Rightarrow>
                    (c\<lparr>running_jobs := running_jobs c @ [(next_arc c, JobRef i job priority queue)],
                       next_arc := next_arc c + 1\<rparr>, Ok (next_arc c)))))"

definition jc_delete :: "u32 \<Rightarrow> 'j centre \<Rightarrow> 'j centre \<times> (worker_error, unit) outcome" where
  "jc_delete i c =
     (case jobs c i of
        Some (_, _, queue) \<Rightarrow>
          (c\<lparr>jobs := (jobs c)(i := None),
             running_jobs := filter (\<lambda>(_, r). jr_id r \<noteq> i) (running_jobs c),
             queues := (case queues c queue of
                          Some h \<Rightarrow> (queues c)(queue \<mapsto> filter (\<lambda>(_, j). j \<noteq> i) h)
                        | None \<Rightarrow> queues c)\<rparr>, Ok ())
      | None \<Rightarrow> (c, Err NoJob))"

definition jc_abort :: "'j job_ref \<Rightarrow> 'j centre \<Rightarrow> 'j centre" where
  "jc_abort r c =
     c\<lparr>running_jobs := filter (\<lambda>(_, r'). jr_id r' \<noteq> jr_id r) (running_jobs c),
       queues := (queues c)(jr_queue r \<mapsto> heap_push (jr_pri r, jr_id r) (queue_of c (jr_queue r)))\<rparr>"

definition upgrade :: "'j centre \<Rightarrow> arc \<Rightarrow> 'j job_ref option" where
  "upgrade c a = map_of (running_jobs c) a"

fun jc_remove_worker :: "arc list \<Rightarrow> 'j centre \<Rightarrow> 'j centre" where
  "jc_remove_worker [] c = c"
| "jc_remove_worker (a # as) c =
     jc_remove_worker as (case upgrade c a of Some r \<Rightarrow> jc_abort r c | None \<Rightarrow> c)"

text \<open>\<open>get_from_working_jobs\<close>: the list of a worker after it and the job found.\<close>

fun get_from_working_jobs :: "'j centre \<Rightarrow> u32 \<Rightarrow> arc list \<Rightarrow> arc list \<times> (arc \<times> 'j job_ref) option" where
  "get_from_working_jobs c i [] = ([], None)"
| "get_from_working_jobs c i (a # as) =
     (let (kept, found) = get_from_working_jobs c i as in
      case upgrade c a of
        Some r \<Rightarrow> if jr_id r = i then (kept, case found of None \<Rightarrow> Some (a, r) | Some x \<Rightarrow> Some x) else (a # kept, found)
      | None \<Rightarrow> (kept, found))"

section \<open>Every job is in one place\<close>

definition running_ids :: "'j centre \<Rightarrow> u32 set" where
  "running_ids c = (\<lambda>(_, r). jr_id r) ` set (running_jobs c)"

text \<open>
  The invariant of the store: identifiers are below the next one; what runs is in the table, with the
  same contents and once; and a job of the table is waiting in its queue, with its priority, exactly
  once if it does not run, and nowhere if it does. Entries of jobs that are gone are not excluded.
\<close>

definition runs_ok :: "'j centre \<Rightarrow> bool" where
  "runs_ok c \<longleftrightarrow>
     distinct (map fst (running_jobs c)) \<and> distinct (map (\<lambda>(_, r). jr_id r) (running_jobs c)) \<and>
     (\<forall>(a, r) \<in> set (running_jobs c). a < next_arc c \<and> jobs c (jr_id r) = Some (jr_job r, jr_pri r, jr_queue r))"

definition ids_ok :: "'j centre \<Rightarrow> bool" where
  "ids_ok c \<longleftrightarrow>
     (\<forall>i. jobs c i \<noteq> None \<longrightarrow> i < next_job_id c) \<and> (\<forall>q p i. (p, i) \<in># mset (queue_of c q) \<longrightarrow> i < next_job_id c)"

definition placed :: "'j centre \<Rightarrow> u32 \<Rightarrow> u32 \<Rightarrow> rstring \<Rightarrow> bool" where
  "placed c i p q \<longleftrightarrow>
     (\<forall>q' p'. count (mset (queue_of c q')) (p', i) =
       (if q' = q \<and> p' = p \<and> i \<notin> running_ids c then 1 else 0))"

definition table_ok :: "'j centre \<Rightarrow> bool" where
  "table_ok c \<longleftrightarrow> runs_ok c \<and> ids_ok c \<and> (\<forall>i j p q. jobs c i = Some (j, p, q) \<longrightarrow> placed c i p q)"

lemma queue_of_new [simp]: "queue_of centre_new q = []"
  by (simp add: queue_of_def centre_new_def)

lemma queue_of_update [simp]:
  "queue_of (c\<lparr>queues := (queues c')(q \<mapsto> h)\<rparr>) q' = (if q' = q then h else queue_of c' q')"
  "queue_of (c\<lparr>jobs := js\<rparr>) q' = queue_of c q'"
  "queue_of (c\<lparr>running_jobs := rs\<rparr>) q' = queue_of c q'"
  "queue_of (c\<lparr>next_arc := a\<rparr>) q' = queue_of c q'"
  "queue_of (c\<lparr>next_job_id := i\<rparr>) q' = queue_of c q'"
  by (simp_all add: queue_of_def)

lemma running_ids_update [simp]:
  "running_ids (c\<lparr>queues := h\<rparr>) = running_ids c"
  "running_ids (c\<lparr>jobs := js\<rparr>) = running_ids c"
  "running_ids (c\<lparr>running_jobs := rs\<rparr>) = (\<lambda>(_, r). jr_id r) ` set rs"
  "running_ids (c\<lparr>next_arc := a\<rparr>) = running_ids c"
  "running_ids (c\<lparr>next_job_id := i\<rparr>) = running_ids c"
  by (simp_all add: running_ids_def)

lemma table_ok_new: "table_ok centre_new"
  by (simp add: table_ok_def runs_ok_def ids_ok_def) (simp add: centre_new_def)

lemma table_okD:
  assumes "table_ok c"
  shows "jobs c i = Some (j, p, q) \<Longrightarrow> placed c i p q" "jobs c i \<noteq> None \<Longrightarrow> i < next_job_id c"
    "(p, i) \<in># mset (queue_of c q) \<Longrightarrow> i < next_job_id c"
    "(a, r) \<in> set (running_jobs c) \<Longrightarrow> a < next_arc c \<and> jobs c (jr_id r) = Some (jr_job r, jr_pri r, jr_queue r)"
    "distinct (map fst (running_jobs c))" "distinct (map (\<lambda>(_, r). jr_id r) (running_jobs c))"
  using assms unfolding table_ok_def runs_ok_def ids_ok_def by blast+

lemma upgrade_iff: "table_ok c \<Longrightarrow> upgrade c a = Some r \<longleftrightarrow> (a, r) \<in> set (running_jobs c)"
  by (simp add: upgrade_def table_okD(5))

lemma running_unique:
  "table_ok c \<Longrightarrow> (a, r) \<in> set (running_jobs c) \<Longrightarrow> (b, r') \<in> set (running_jobs c) \<Longrightarrow> jr_id r = jr_id r' \<Longrightarrow>
    a = b \<and> r = r'"
  using inj_onD [of "\<lambda>(_, r). jr_id r" "set (running_jobs c)" "(a, r)" "(b, r')"] table_okD(6) [of c]
  by (auto simp: distinct_map)

lemma put_ok:
  assumes "table_ok c" and "unat (next_job_id c) + 1 < 2 ^ 32"
  shows "\<exists>c'. jc_put oc q j p c = (c', Ok (next_job_id c)) \<and> table_ok c' \<and>
    unat (next_job_id c') = unat (next_job_id c) + 1 \<and> running_jobs c' = running_jobs c \<and> next_arc c' = next_arc c \<and>
    jobs c' = (jobs c)(next_job_id c \<mapsto> (j, p, q)) \<and> jobs c (next_job_id c) = None"
proof -
  let ?i = "next_job_id c"
  have add: "add_w oc ?i 1 = (Ok (?i + 1) :: (worker_error, u32) outcome)" "unat (?i + 1) = unat ?i + 1"
    using assms(2) by (simp_all add: add_w_Ok unat_add_lem')
  then have less: "i < ?i + 1 \<longleftrightarrow> i < ?i \<or> i = ?i" for i
    by (auto simp: word_less_nat_alt less_Suc_eq word_unat_eq_iff)
  have fresh: "jobs c ?i = None" "\<And>p q. count (mset (queue_of c q)) (p, ?i) = 0"
    using table_okD(2) [OF assms(1), of ?i] table_okD(3) [OF assms(1), of _ ?i]
    by (blast, auto simp: count_eq_zero_iff)
  have running: "?i \<notin> running_ids c"
    using fresh(1) table_okD(4) [OF assms(1)] by (fastforce simp: running_ids_def)
  let ?c = "c\<lparr>next_job_id := ?i + 1, jobs := (jobs c)(?i \<mapsto> (j, p, q)),
    queues := (queues c)(q \<mapsto> heap_push (p, ?i) (queue_of c q))\<rparr>"
  have q: "queue_of ?c q' = (if q' = q then heap_push (p, ?i) (queue_of c q) else queue_of c q')" for q'
    by (simp add: queue_of_def)
  have "runs_ok ?c"
    using assms(1) fresh(1) by (fastforce simp: table_ok_def runs_ok_def)
  moreover have "ids_ok ?c"
    using assms(1) unfolding table_ok_def ids_ok_def q by (auto simp: less heap_push_def)
  moreover have "placed ?c i p' q'" if "jobs ?c i = Some (j', p', q')" for i j' p' q'
  proof (cases "i = ?i")
    case True
    with that fresh(2) running show ?thesis
      by (simp add: placed_def q running_ids_def heap_push_def)
  next
    case False
    with that table_okD(1) [OF assms(1), of i j' p' q'] show ?thesis
      by (simp add: placed_def q running_ids_def heap_push_def)
  qed
  ultimately have "table_ok ?c"
    by (simp add: table_ok_def)
  moreover have "jc_put oc q j p c = (?c, Ok ?i)"
    by (simp add: jc_put_def take_job_id_def add(1))
  ultimately show ?thesis
    using add(2) fresh(1) by simp
qed

lemma set_map_filter: "set (List.map_filter f xs) = {y. \<exists>x \<in> set xs. f x = Some y}"
  by (induction xs) (auto simp: map_filter_simps split: option.splits)

lemma pick_queue:
  "case max_by_key fst (List.map_filter (top_priority c) qs) of
     None \<Rightarrow> (\<forall>q \<in> set qs. queue_of c q = [])
   | Some (p, q) \<Rightarrow> q \<in> set qs \<and> (\<exists>i h. heap_pop (queue_of c q) = Some ((p, i), h) \<and>
       (\<forall>q' \<in> set qs. \<forall>(p', i') \<in> set (queue_of c q'). p' \<le> p))"
proof -
  have top: "top_priority c q = Some x \<longleftrightarrow> (\<exists>p i. heap_peek (queue_of c q) = Some (p, i) \<and> x = (p, q))" for q x
    by (auto simp: top_priority_def queue_of_def heap_peek_def split: option.splits list.splits)
  have none: "top_priority c q = None \<longleftrightarrow> queue_of c q = []" for q
    by (auto simp: top_priority_def queue_of_def heap_peek_def split: option.splits list.splits)
  let ?ts = "List.map_filter (top_priority c) qs"
  have mem: "(p, q) \<in> set ?ts \<longleftrightarrow> q \<in> set qs \<and> top_priority c q = Some (p, q)" for p q
    by (auto simp: set_map_filter top)
  show ?thesis
  proof (cases "?ts = []")
    case True
    then have "\<forall>q \<in> set qs. top_priority c q = None"
      by (auto simp: map_filter_def filter_empty_conv simp del: not_None_eq)
    with True none show ?thesis
      by simp
  next
    case False
    from max_by_key_Some [OF this, of fst] obtain p q where
      pq: "(p, q) \<in> set ?ts" "max_by_key fst ?ts = Some (p, q)" "\<forall>x \<in> set ?ts. fst x \<le> p"
      by auto
    then obtain i where i: "q \<in> set qs" "heap_peek (queue_of c q) = Some (p, i)"
      unfolding mem top by auto
    then have "heap_pop (queue_of c q) = Some ((p, i), remove1 (p, i) (queue_of c q))"
      by (simp add: heap_pop_def)
    moreover have "p' \<le> p" if q': "q' \<in> set qs" "(p', i') \<in> set (queue_of c q')" for q' p' i'
    proof -
      from q'(2) obtain p2 i2 where top': "heap_peek (queue_of c q') = Some (p2, i2)"
        using heap.peek_None [of "queue_of c q'"] by (cases "heap_peek (queue_of c q')") auto
      then have "(p', i') \<le> (p2, i2)"
        using heap_peek_Some q'(2) by blast
      moreover have "(p2, q') \<in> set ?ts"
        using q'(1) top' by (simp add: mem top)
      ultimately show ?thesis
        using pq(3) by (fastforce simp: less_eq_prod_def)
    qed
    ultimately show ?thesis
      using pq(2) i(1) by auto
  qed
qed

text \<open>A job is taken off its queue, or an entry of a job that is gone.\<close>

lemma pop_placed:
  assumes "table_ok c" and "heap_pop (queue_of c q) = Some ((p, i), h)"
  shows "(p, i) \<in># mset (queue_of c q)" "mset h = mset (queue_of c q) - {#(p, i)#}"
    "jobs c i = Some (j, p', q') \<Longrightarrow> p' = p \<and> q' = q \<and> i \<notin> running_ids c"
proof -
  show mem: "(p, i) \<in># mset (queue_of c q)" and "mset h = mset (queue_of c q) - {#(p, i)#}"
    using heap.pop_Some [OF assms(2)] by auto
  show "p' = p \<and> q' = q \<and> i \<notin> running_ids c" if "jobs c i = Some (j, p', q')"
  proof -
    have "count (mset (queue_of c q)) (p, i) = (if q = q' \<and> p = p' \<and> i \<notin> running_ids c then 1 else 0)"
      using table_okD(1) [OF assms(1) that] unfolding placed_def by blast
    with mem show ?thesis
      by (auto simp: count_eq_zero_iff [symmetric] split: if_splits)
  qed
qed

lemma table_ok_pop:
  assumes "table_ok c" and "heap_pop (queue_of c q) = Some ((p, i), h)"
  shows "jobs c i = None \<Longrightarrow> table_ok (c\<lparr>queues := (queues c)(q \<mapsto> h)\<rparr>)"
    and "jobs c i = Some (j, p', q') \<Longrightarrow>
      table_ok (c\<lparr>queues := (queues c)(q \<mapsto> h), running_jobs := running_jobs c @ [(next_arc c, JobRef i j p' q')],
        next_arc := next_arc c + 1\<rparr>)"
proof -
  note pop = pop_placed [OF assms]
  have ids: "i' < next_job_id c" if "(p2, i') \<in># mset h" for p2 i'
    using table_okD(3) [OF assms(1), of p2 i' q] that unfolding pop(2) by (auto dest: in_diffD)
  have count: "count (mset h) (p2, i') = count (mset (queue_of c q)) (p2, i')" if "i' \<noteq> i" for p2 i'
    using that by (simp add: pop(2))
  {
    assume gone: "jobs c i = None"
    have "placed (c\<lparr>queues := (queues c)(q \<mapsto> h)\<rparr>) i' p2 q2" if "jobs c i' = Some (j2, p2, q2)" for i' j2 p2 q2
      using table_okD(1) [OF assms(1) that] count [of i'] that gone
      by (cases "i' = i") (simp_all add: placed_def running_ids_def)
    with assms(1) ids show "table_ok (c\<lparr>queues := (queues c)(q \<mapsto> h)\<rparr>)"
      by (simp add: table_ok_def runs_ok_def ids_ok_def)
  next
    assume live: "jobs c i = Some (j, p', q')"
    note place = pop(3) [OF live]
    let ?c = "c\<lparr>queues := (queues c)(q \<mapsto> h), running_jobs := running_jobs c @ [(next_arc c, JobRef i j p' q')],
        next_arc := next_arc c + 1\<rparr>"
    have run: "(\<lambda>(_, r). jr_id r) ` set (running_jobs c) = running_ids c"
      by (simp add: running_ids_def)
    have "runs_ok ?c"
      using assms(1) live place by (fastforce simp: table_ok_def runs_ok_def running_ids_def)
    moreover have "placed ?c i' p2 q2" if "jobs c i' = Some (j2, p2, q2)" for i' j2 p2 q2
    proof (cases "i' = i")
      case True
      have "count (mset (queue_of ?c q3)) (p3, i) = 0" for q3 p3
        using table_okD(1) [OF assms(1) live] place by (simp add: placed_def pop(2) del: count_mset_0_iff)
      with True show ?thesis
        by (simp add: placed_def run del: count_mset_0_iff)
    next
      case False
      with table_okD(1) [OF assms(1) that] count [of i'] show ?thesis
        by (simp add: placed_def run)
    qed
    ultimately show "table_ok ?c"
      using assms(1) ids by (simp add: table_ok_def ids_ok_def)
  }
qed

lemma jc_get_ok:
  assumes "table_ok c"
  shows "case jc_get qs c of
      (c', Ok a) \<Rightarrow> table_ok c' \<and> next_job_id c' = next_job_id c \<and> jobs c' = jobs c \<and> a = next_arc c \<and> next_arc c' = a + 1 \<and>
        (\<exists>i j p q h. heap_pop (queue_of c q) = Some ((p, i), h) \<and> q \<in> set qs \<and> jobs c i = Some (j, p, q) \<and>
          running_jobs c' = running_jobs c @ [(a, JobRef i j p q)] \<and>
          (\<forall>q' \<in> set qs. \<forall>(p', i') \<in> set (queue_of c q'). p' \<le> p))
    | (c', Err e) \<Rightarrow> c' = c \<and> e = NoJob \<and> (\<forall>q \<in> set qs. queue_of c q = [])
    | (c', Panic) \<Rightarrow> table_ok c' \<and> next_job_id c' = next_job_id c \<and> jobs c' = jobs c \<and> next_arc c' = next_arc c \<and>
        running_jobs c' = running_jobs c \<and> (\<exists>q \<in> set qs. \<exists>(p, i) \<in> set (queue_of c q). jobs c i = None)"
proof (cases "max_by_key fst (List.map_filter (top_priority c) qs)")
  case None
  with pick_queue [of qs c] show ?thesis
    by (simp add: jc_get_def)
next
  case (Some pq)
  then obtain p q where pq: "max_by_key fst (List.map_filter (top_priority c) qs) = Some (p, q)"
    by (cases pq) auto
  with pick_queue [of qs c] obtain i h where q: "q \<in> set qs" "heap_pop (queue_of c q) = Some ((p, i), h)"
    "\<forall>q' \<in> set qs. \<forall>(p', i') \<in> set (queue_of c q'). p' \<le> p"
    by auto
  show ?thesis
  proof (cases "jobs c i")
    case None
    with pq q table_ok_pop(1) [OF assms q(2)] pop_placed(1) [OF assms q(2)] show ?thesis
      by (auto simp: jc_get_def)
  next
    case (Some job)
    obtain j p' q' where job: "jobs c i = Some (j, p', q')"
      using Some by (cases job) auto
    with pop_placed(3) [OF assms q(2)] have j: "jobs c i = Some (j, p, q)"
      by blast
    with pq q table_ok_pop(2) [OF assms q(2) j] show ?thesis
      by (auto simp: jc_get_def Let_def)
  qed
qed

text \<open>\<open>kept\<close>: the running list loses what has the identifier \<open>i\<close>.\<close>

definition kept :: "u32 \<Rightarrow> (arc \<times> 'j job_ref) list \<Rightarrow> (arc \<times> 'j job_ref) list" where
  "kept i rs = filter (\<lambda>(_, r). jr_id r \<noteq> i) rs"

lemma set_kept [simp]: "set (kept i rs) = {(a, r) \<in> set rs. jr_id r \<noteq> i}"
  by (auto simp: kept_def)

lemma runs_ok_kept:
  "runs_ok c \<Longrightarrow> \<forall>k. k \<noteq> i \<longrightarrow> js k = jobs c k \<Longrightarrow> runs_ok (c\<lparr>jobs := js, running_jobs := kept i (running_jobs c), queues := h\<rparr>)"
  by (auto simp: runs_ok_def distinct_map_filter kept_def)

lemma ids_kept: "(\<lambda>(_, r). jr_id r) ` {(a, r) \<in> set (running_jobs c). jr_id r \<noteq> i} = running_ids c - {i}"
  by (auto simp: running_ids_def)

lemma jc_delete_ok:
  assumes "table_ok c"
  shows "case jobs c i of
      None \<Rightarrow> jc_delete i c = (c, Err NoJob)
    | Some _ \<Rightarrow> (\<exists>c'. jc_delete i c = (c', Ok ()) \<and> table_ok c' \<and> next_job_id c' = next_job_id c \<and> next_arc c' = next_arc c \<and>
        jobs c' = (jobs c)(i := None) \<and> running_jobs c' = kept i (running_jobs c))"
proof (cases "jobs c i")
  case (Some job)
  then obtain j p q where job: "jobs c i = Some (j, p, q)"
    by (cases job) auto
  define h where "h = (case queues c q of
      Some h \<Rightarrow> (queues c)(q \<mapsto> filter (\<lambda>(_, j). j \<noteq> i) h) | None \<Rightarrow> queues c)"
  let ?c = "c\<lparr>jobs := (jobs c)(i := None), running_jobs := kept i (running_jobs c), queues := h\<rparr>"
  have del: "jc_delete i c = (?c, Ok ())"
    by (simp add: jc_delete_def job kept_def h_def)
  have queue: "queue_of ?c q' = (if q' = q then filter (\<lambda>(_, j). j \<noteq> i) (queue_of c q) else queue_of c q')" for q'
    by (auto simp: queue_of_def h_def split: option.splits)
  have count: "count (mset (queue_of ?c q')) (p', k) = count (mset (queue_of c q')) (p', k)" if "k \<noteq> i" for q' p' k
    using that by (simp add: queue del: count_mset_0_iff)
  have "runs_ok ?c"
    using assms by (intro runs_ok_kept) (auto simp: table_ok_def)
  moreover have "ids_ok ?c"
    using assms unfolding table_ok_def ids_ok_def queue by auto
  moreover have "placed ?c k p' q'" if "jobs ?c k = Some (j', p', q')" for k j' p' q'
  proof -
    from that have k: "k \<noteq> i" "jobs c k = Some (j', p', q')"
      by (auto split: if_splits)
    with table_okD(1) [OF assms k(2)] show ?thesis
      by (simp add: placed_def count ids_kept del: count_mset_0_iff)
  qed
  ultimately show ?thesis
    using job del by (simp add: table_ok_def)
qed (simp add: jc_delete_def)

lemma jc_abort_ok:
  assumes "table_ok c" and "jr_id r < next_job_id c"
    and "(a, r) \<in> set (running_jobs c) \<or> jobs c (jr_id r) = None"
  shows "table_ok (jc_abort r c) \<and> next_job_id (jc_abort r c) = next_job_id c \<and> next_arc (jc_abort r c) = next_arc c \<and>
    jobs (jc_abort r c) = jobs c \<and> running_jobs (jc_abort r c) = kept (jr_id r) (running_jobs c)"
proof -
  let ?q = "jr_queue r" let ?i = "jr_id r"
  let ?c = "c\<lparr>jobs := jobs c, running_jobs := kept ?i (running_jobs c),
    queues := (queues c)(?q \<mapsto> heap_push (jr_pri r, ?i) (queue_of c ?q))\<rparr>"
  have eq: "jc_abort r c = ?c"
    by (simp add: jc_abort_def kept_def)
  have "runs_ok ?c"
    using assms(1) by (intro runs_ok_kept) (auto simp: table_ok_def)
  moreover have "ids_ok ?c"
    using assms(1,2) by (auto simp: table_ok_def ids_ok_def heap_push_def)
  moreover have "placed ?c k p q" if job: "jobs c k = Some (j, p, q)" for k j p q
  proof (cases "k = ?i")
    case True
    with job assms(3) have r: "(a, r) \<in> set (running_jobs c)"
      by auto
    then have run: "k \<in> running_ids c"
      using True by (force simp: running_ids_def)
    from r True job table_okD(4) [OF assms(1) r] have "p = jr_pri r" "q = ?q"
      by auto
    with True run table_okD(1) [OF assms(1) job] show ?thesis
      by (simp add: placed_def ids_kept heap_push_def del: count_mset_0_iff)
  next
    case False
    with table_okD(1) [OF assms(1) job] show ?thesis
      by (simp add: placed_def ids_kept heap_push_def del: count_mset_0_iff)
  qed
  ultimately show ?thesis
    unfolding eq by (simp add: table_ok_def)
qed

lemma jc_remove_worker_ok:
  "table_ok c \<Longrightarrow> table_ok (jc_remove_worker as c) \<and> next_job_id (jc_remove_worker as c) = next_job_id c \<and>
     next_arc (jc_remove_worker as c) = next_arc c \<and> jobs (jc_remove_worker as c) = jobs c \<and>
     set (running_jobs (jc_remove_worker as c)) = {(a, r) \<in> set (running_jobs c). a \<notin> set as}"
proof (induction as arbitrary: c)
  case (Cons a as)
  show ?case
  proof (cases "upgrade c a")
    case None
    then have "\<forall>r. (a, r) \<notin> set (running_jobs c)"
      using upgrade_iff [OF Cons.prems, of a] by simp
    with None Cons show ?thesis
      by auto
  next
    case (Some r)
    then have r: "(a, r) \<in> set (running_jobs c)"
      by (simp add: upgrade_iff Cons.prems)
    then have "jr_id r < next_job_id c"
      using table_okD(4) [OF Cons.prems r] table_okD(2) [OF Cons.prems, of "jr_id r"] by simp
    note abort = jc_abort_ok [OF Cons.prems this disjI1 [OF r]]
    have "(b, r') \<in> set (running_jobs c) \<Longrightarrow> jr_id r' = jr_id r \<longleftrightarrow> b = a" for b r'
      using running_unique [OF Cons.prems _ r] r table_okD(5) [OF Cons.prems]
      by (metis eq_key_imp_eq_value)
    with Some abort Cons.IH [of "jc_abort r c"] show ?thesis
      by auto
  qed
qed simp

lemma get_from_working_jobs_ok:
  "get_from_working_jobs c i as = (kept_as, found) \<Longrightarrow>
     set kept_as = {a \<in> set as. \<exists>r. upgrade c a = Some r \<and> jr_id r \<noteq> i} \<and>
     (case found of
        Some (a, r) \<Rightarrow> a \<in> set as \<and> upgrade c a = Some r \<and> jr_id r = i
      | None \<Rightarrow> \<forall>a \<in> set as. \<forall>r. upgrade c a = Some r \<longrightarrow> jr_id r \<noteq> i)"
proof (induction as arbitrary: kept_as found)
  case (Cons a as)
  obtain k f where rec: "get_from_working_jobs c i as = (k, f)"
    by (cases "get_from_working_jobs c i as") auto
  note IH = Cons.IH [OF rec]
  show ?case
  proof (cases "upgrade c a")
    case None
    with Cons.prems rec IH show ?thesis
      by (cases f) auto
  next
    case (Some r)
    with Cons.prems rec IH show ?thesis
      by (cases "jr_id r = i"; cases f) auto
  qed
qed simp

end
