(* ===== verification/JobServer.thy ===== *)
theory JobServer
  imports JobCentre
begin

text \<open>
  The clients of the job centre: \<open>Worker\<close> of \<open>rust/p09-job-centre/src/job_centre.rs\<close> and
  \<open>handle_client\<close> of \<open>lib.rs\<close>, as tasks that take turns between the sections that hold the lock of
  the store and the calls of \<open>notify_waiters\<close>. An event is the arrival or the departure of a client,
  a request it sends, or the next turn of its task; every order of events is a run.
\<close>

section \<open>Requests and responses\<close>

datatype 'v request = Put rstring 'v u32 | Get "rstring list" bool | Delete u32 | Abort u32

datatype 'v response = Ok_response | Id u32 | Job u32 'v u32 rstring | Error_response rstring | No_job

section \<open>Tasks\<close>

text \<open>Where the task of a client is. \<open>Retry\<close> is a get that found nothing and has not yet registered to be
  notified; \<open>Notify\<close> comes before the response to a put, with its identifier, or to an abort.\<close>

datatype 'v phase =
    Idle
  | Getting "rstring list" bool
  | Retry "rstring list"
  | Waiting "rstring list"
  | Got arc
  | Aborting arc "'v job_ref"
  | Notify "u32 option"
  | Dropping
  | Leaving

record 'v worker =
  w_jobs :: "arc list"
  w_phase :: "'v phase"

record 'v system =
  centre :: "'v centre"
  workers :: "nat \<rightharpoonup> 'v worker"

definition make_worker :: "'v worker" where
  "make_worker = \<lparr>w_jobs = [], w_phase = Idle\<rparr>"

definition system_new :: "'v system" where
  "system_new = \<lparr>centre = centre_new, workers = Map.empty\<rparr>"

datatype 'v event =
    Connect nat
  | Receive nat "'v request"
  | Malformed nat
  | Turn nat
  | Disconnect nat

definition set_worker :: "nat \<Rightarrow> 'v worker option \<Rightarrow> 'v system \<Rightarrow> 'v system" where
  "set_worker w k s = s\<lparr>workers := (workers s)(w := k)\<rparr>"

text \<open>\<open>notify_waiters\<close>: who is registered looks again.\<close>

definition notified :: "'v worker \<Rightarrow> 'v worker" where
  "notified k = (case w_phase k of Waiting qs \<Rightarrow> k\<lparr>w_phase := Getting qs True\<rparr> | _ \<Rightarrow> k)"

definition notify_waiters :: "'v system \<Rightarrow> 'v system" where
  "notify_waiters s = s\<lparr>workers := (\<lambda>w. map_option notified (workers s w))\<rparr>"

type_synonym 'v effect = "'v system \<times> (nat \<times> 'v response) list"

text \<open>A request, up to the end of the first section that holds the lock, if there is one.\<close>

fun receive :: "bool \<Rightarrow> nat \<Rightarrow> 'v request \<Rightarrow> 'v worker \<Rightarrow> 'v system \<Rightarrow> 'v effect" where
  "receive oc w (Put queue job priority) k s =
     (case jc_put oc queue job priority (centre s) of
        (c, Ok i) \<Rightarrow> (set_worker w (Some (k\<lparr>w_phase := Notify (Some i)\<rparr>)) (s\<lparr>centre := c\<rparr>), [])
      | (c, _) \<Rightarrow> (set_worker w (Some (k\<lparr>w_phase := Dropping\<rparr>)) (s\<lparr>centre := c\<rparr>), []))"
| "receive oc w (Get qs wait) k s = (set_worker w (Some (k\<lparr>w_phase := Getting qs wait\<rparr>)) s, [])"
| "receive oc w (Delete i) k s =
     (case jc_delete i (centre s) of
        (c, Ok _) \<Rightarrow> (s\<lparr>centre := c\<rparr>, [(w, Ok_response)])
      | (c, _) \<Rightarrow> (s\<lparr>centre := c\<rparr>, [(w, No_job)]))"
| "receive oc w (Abort i) k s =
     (case get_from_working_jobs (centre s) i (w_jobs k) of
        (refs, Some (a, r)) \<Rightarrow> (set_worker w (Some (k\<lparr>w_jobs := refs, w_phase := Aborting a r\<rparr>)) s, [])
      | (refs, None) \<Rightarrow> (set_worker w (Some (k\<lparr>w_jobs := refs\<rparr>)) s, [(w, No_job)]))"

text \<open>The next turn of a task; \<open>None\<close> where it waits.\<close>

definition turn :: "nat \<Rightarrow> 'v worker \<Rightarrow> 'v system \<Rightarrow> 'v effect option" where
  "turn w k s =
     (case w_phase k of
        Idle \<Rightarrow> None
      | Getting qs wait \<Rightarrow>
          (case jc_get qs (centre s) of
             (c, Ok a) \<Rightarrow> Some (set_worker w (Some (k\<lparr>w_phase := Got a\<rparr>)) (s\<lparr>centre := c\<rparr>), [])
           | (c, Err _) \<Rightarrow>
               (if wait then Some (set_worker w (Some (k\<lparr>w_phase := Retry qs\<rparr>)) (s\<lparr>centre := c\<rparr>), [])
                else Some (set_worker w (Some (k\<lparr>w_phase := Idle\<rparr>)) (s\<lparr>centre := c\<rparr>), [(w, No_job)]))
           | (c, Panic) \<Rightarrow> Some (set_worker w (Some (k\<lparr>w_phase := Dropping\<rparr>)) (s\<lparr>centre := c\<rparr>), []))
      | Retry qs \<Rightarrow> Some (set_worker w (Some (k\<lparr>w_phase := Waiting qs\<rparr>)) s, [])
      | Waiting qs \<Rightarrow> None
      | Got a \<Rightarrow>
          Some (set_worker w (Some (k\<lparr>w_jobs := w_jobs k @ [a], w_phase := Idle\<rparr>)) s,
            [(w, case upgrade (centre s) a of Some (JobRef i job priority queue) \<Rightarrow> Job i job priority queue | None \<Rightarrow> No_job)])
      | Aborting a r \<Rightarrow>
          Some (set_worker w (Some (k\<lparr>w_phase := Notify None\<rparr>)) (s\<lparr>centre := jc_abort r (centre s)\<rparr>), [])
      | Notify r \<Rightarrow> Some (notify_waiters (set_worker w (Some (k\<lparr>w_phase := Idle\<rparr>)) s),
                      [(w, case r of Some i \<Rightarrow> Id i | None \<Rightarrow> Ok_response)])
      | Dropping \<Rightarrow>
          Some (set_worker w (Some (k\<lparr>w_jobs := [], w_phase := Leaving\<rparr>))
            (s\<lparr>centre := jc_remove_worker (w_jobs k) (centre s)\<rparr>), [])
      | Leaving \<Rightarrow> Some (notify_waiters (set_worker w None s), []))"

fun system_do :: "bool \<Rightarrow> 'v event \<Rightarrow> 'v system \<Rightarrow> 'v effect option" where
  "system_do oc (Connect w) s =
     (case workers s w of None \<Rightarrow> Some (set_worker w (Some make_worker) s, []) | Some _ \<Rightarrow> None)"
| "system_do oc (Receive w r) s =
     (case workers s w of
        Some k \<Rightarrow> if w_phase k = Idle then Some (receive oc w r k s) else None
      | None \<Rightarrow> None)"
| "system_do oc (Malformed w) s =
     (case workers s w of
        Some k \<Rightarrow> if w_phase k = Idle then Some (s, [(w, Error_response (ascii ''invalid request''))]) else None
      | None \<Rightarrow> None)"
| "system_do oc (Turn w) s = (case workers s w of Some k \<Rightarrow> turn w k s | None \<Rightarrow> None)"
| "system_do oc (Disconnect w) s =
     (case workers s w of
        Some k \<Rightarrow> if w_phase k = Idle then Some (set_worker w (Some (k\<lparr>w_phase := Dropping\<rparr>)) s, []) else None
      | None \<Rightarrow> None)"

fun system_run :: "bool \<Rightarrow> 'v event list \<Rightarrow> 'v system \<Rightarrow> 'v effect option" where
  "system_run oc [] s = Some (s, [])"
| "system_run oc (e # es) s =
     (case system_do oc e s of
        Some (s, out) \<Rightarrow>
          (case system_run oc es s of Some (s, out') \<Rightarrow> Some (s, out @ out') | None \<Rightarrow> None)
      | None \<Rightarrow> None)"

section \<open>Who works on what\<close>

text \<open>The running jobs that a client holds, and the one it is about to give back.\<close>

definition held :: "'v worker \<Rightarrow> arc set" where
  "held k =
     (case w_phase k of
        Got a \<Rightarrow> insert a (set (w_jobs k))
      | Aborting a _ \<Rightarrow> insert a (set (w_jobs k))
      | Leaving \<Rightarrow> {}
      | _ \<Rightarrow> set (w_jobs k))"

definition aborted :: "'v worker \<Rightarrow> (arc \<times> 'v job_ref) option" where
  "aborted k = (case w_phase k of Aborting a r \<Rightarrow> Some (a, r) | _ \<Rightarrow> None)"

definition holds :: "'v system \<Rightarrow> nat \<Rightarrow> arc set" where
  "holds s w = (case workers s w of Some k \<Rightarrow> held k | None \<Rightarrow> {})"

definition aborts :: "'v system \<Rightarrow> nat \<Rightarrow> (arc \<times> 'v job_ref) option" where
  "aborts s w = Option.bind (workers s w) aborted"

lemma held_simps [simp]:
  "held (k\<lparr>w_phase := Idle\<rparr>) = set (w_jobs k)" "held (k\<lparr>w_phase := Getting qs b\<rparr>) = set (w_jobs k)"
  "held (k\<lparr>w_phase := Retry qs\<rparr>) = set (w_jobs k)" "held (k\<lparr>w_phase := Waiting qs\<rparr>) = set (w_jobs k)"
  "held (k\<lparr>w_phase := Notify x\<rparr>) = set (w_jobs k)" "held (k\<lparr>w_phase := Dropping\<rparr>) = set (w_jobs k)"
  "held (k\<lparr>w_phase := Leaving\<rparr>) = {}" "held (k\<lparr>w_phase := Got a\<rparr>) = insert a (set (w_jobs k))"
  "held (k\<lparr>w_phase := Aborting a r\<rparr>) = insert a (set (w_jobs k))" "held make_worker = {}"
  by (simp_all add: held_def make_worker_def)

lemma aborted_simps [simp]:
  "aborted (k\<lparr>w_phase := Idle\<rparr>) = None" "aborted (k\<lparr>w_phase := Getting qs b\<rparr>) = None"
  "aborted (k\<lparr>w_phase := Retry qs\<rparr>) = None" "aborted (k\<lparr>w_phase := Waiting qs\<rparr>) = None"
  "aborted (k\<lparr>w_phase := Notify x\<rparr>) = None" "aborted (k\<lparr>w_phase := Dropping\<rparr>) = None"
  "aborted (k\<lparr>w_phase := Leaving\<rparr>) = None" "aborted (k\<lparr>w_phase := Got a\<rparr>) = None"
  "aborted (k\<lparr>w_phase := Aborting a r\<rparr>) = Some (a, r)" "aborted make_worker = None"
  by (simp_all add: aborted_def make_worker_def)

lemma holds_simps [simp]:
  "holds (set_worker w k s) = (holds s)(w := case k of Some k \<Rightarrow> held k | None \<Rightarrow> {})"
  "holds (s\<lparr>centre := c\<rparr>) = holds s" "holds (notify_waiters s) = holds s" "holds system_new = (\<lambda>w. {})"
  by (auto simp: holds_def set_worker_def notify_waiters_def notified_def held_def system_new_def fun_eq_iff
      split: option.splits phase.splits)

lemma aborts_simps [simp]:
  "aborts (set_worker w k s) = (aborts s)(w := Option.bind k aborted)"
  "aborts (s\<lparr>centre := c\<rparr>) = aborts s" "aborts (notify_waiters s) = aborts s" "aborts system_new = (\<lambda>w. None)"
  by (auto simp: aborts_def set_worker_def notify_waiters_def notified_def aborted_def system_new_def fun_eq_iff
      split: option.splits phase.splits bind_splits)

lemma centre_simps [simp]:
  "centre (set_worker w k s) = centre s" "centre (notify_waiters s) = centre s" "centre system_new = centre_new"
  by (simp_all add: set_worker_def notify_waiters_def system_new_def)

text \<open>Every running job is held by exactly one client; a client that gives one back holds it, and it runs
  unless it was deleted.\<close>

definition giving_back :: "'v centre \<Rightarrow> arc set \<Rightarrow> arc \<times> 'v job_ref \<Rightarrow> bool" where
  "giving_back c h = (\<lambda>(a, r). a \<in> h \<and> jr_id r < next_job_id c \<and>
     ((a, r) \<in> set (running_jobs c) \<or> jobs c (jr_id r) = None \<and> a \<notin> fst ` set (running_jobs c)))"

lemma arc_unique: "table_ok c \<Longrightarrow> (a, r) \<in> set (running_jobs c) \<Longrightarrow> (a, r') \<in> set (running_jobs c) \<Longrightarrow> r = r'"
  using table_okD(5) [of c] by (metis eq_key_imp_eq_value)

definition owned :: "'v centre \<Rightarrow> (nat \<Rightarrow> arc set) \<Rightarrow> (nat \<Rightarrow> (arc \<times> 'v job_ref) option) \<Rightarrow> bool" where
  "owned c H A \<longleftrightarrow>
     (\<forall>x \<in> set (running_jobs c). \<exists>w. fst x \<in> H w) \<and>
     (\<forall>w w' a. a \<in> H w \<longrightarrow> a \<in> H w' \<longrightarrow> w = w') \<and>
     (\<forall>w. \<forall>a \<in> H w. a < next_arc c) \<and>
     (\<forall>w x. A w = Some x \<longrightarrow> giving_back c (H w) x)"

definition system_ok :: "'v system \<Rightarrow> bool" where
  "system_ok s \<longleftrightarrow> table_ok (centre s) \<and> owned (centre s) (holds s) (aborts s)"

lemma ownedD:
  assumes "owned c H A"
  shows "x \<in> set (running_jobs c) \<Longrightarrow> \<exists>w. fst x \<in> H w" "a \<in> H w \<Longrightarrow> a \<in> H w' \<Longrightarrow> w = w'"
    "a \<in> H w \<Longrightarrow> a < next_arc c" "A w = Some x \<Longrightarrow> giving_back c (H w) x"
  using assms unfolding owned_def by blast+

lemma owned_shrink:
  assumes "owned c H A" and "set (running_jobs c') \<subseteq> set (running_jobs c)" and "next_arc c' = next_arc c"
    and "\<And>v. H' v \<subseteq> H v" and "\<And>v x. x \<in> set (running_jobs c') \<Longrightarrow> fst x \<in> H v \<Longrightarrow> fst x \<in> H' v"
    and "\<And>v x. A' v = Some x \<Longrightarrow> giving_back c' (H' v) x"
  shows "owned c' H' A'"
  unfolding owned_def
proof (intro conjI allI impI ballI)
  show "\<exists>w. fst x \<in> H' w" if "x \<in> set (running_jobs c')" for x
    using that assms(2,5) ownedD(1) [OF assms(1), of x] by blast
  show "v = w" if "a \<in> H' v" "a \<in> H' w" for v w a
    using that assms(4) ownedD(2) [OF assms(1), of a v w] by blast
  show "a < next_arc c'" if "a \<in> H' w" for w a
    using that assms(3,4) ownedD(3) [OF assms(1), of a w] by auto
qed (rule assms(6))

lemma owned_get:
  assumes "owned c H A" and "A w = None" and "running_jobs c' = running_jobs c @ [(next_arc c, r)]" and "next_arc c' = next_arc c + 1"
    and "jobs c' = jobs c" and "next_job_id c' = next_job_id c"
  shows "owned c' (H(w := insert (next_arc c) (H w))) A"
  unfolding owned_def
proof (intro conjI allI impI ballI)
  let ?H = "H(w := insert (next_arc c) (H w))"
  have fresh: "next_arc c \<notin> H v" for v
    using ownedD(3) [OF assms(1)] by blast
  show "\<exists>v. fst x \<in> ?H v" if x: "x \<in> set (running_jobs c')" for x
  proof (cases "x \<in> set (running_jobs c)")
    case True
    then obtain v where "fst x \<in> H v"
      using ownedD(1) [OF assms(1)] by blast
    then show ?thesis
      by (intro exI [of _ v]) auto
  next
    case False
    with x assms(3) show ?thesis
      by (intro exI [of _ w]) auto
  qed
  show "v = u" if "a \<in> ?H v" "a \<in> ?H u" for v u a
    using that fresh ownedD(2) [OF assms(1), of a v u] by (cases "a = next_arc c") (auto split: if_splits)
  show "a < next_arc c'" if "a \<in> ?H v" for a v
    using that ownedD(3) [OF assms(1), of a v] assms(4) by (auto split: if_splits)
  show "giving_back c' (?H v) x" if "A v = Some x" for v x
    using ownedD(4) [OF assms(1) that] fresh [of v] assms by (auto simp: giving_back_def)
qed

text \<open>What one client gives back, no other client does, so that it is not disturbed.\<close>

lemma giving_back_kept:
  assumes "table_ok c" and "owned c H A" and "giving_back c (H w) (a, r)" and "giving_back c (H v) x" and "v \<noteq> w"
    and "running_jobs c' = kept (jr_id r) (running_jobs c)" and "jobs c' = jobs c" and "next_job_id c' = next_job_id c"
  shows "giving_back c' (H v) x"
proof -
  obtain b r' where x: "x = (b, r')"
    by (cases x)
  have "b \<noteq> a"
    using ownedD(2) [OF assms(2), of b v w] assms(3,4,5) by (auto simp: giving_back_def x)
  moreover have "b = a" if "(b, r') \<in> set (running_jobs c)" "jr_id r' = jr_id r"
  proof -
    have "(a, r) \<in> set (running_jobs c)"
      using assms(3) that table_okD(4) [OF assms(1) that(1)] by (auto simp: giving_back_def)
    with that running_unique [OF assms(1)] show ?thesis
      by blast
  qed
  ultimately show ?thesis
    using assms(4,6,7,8) by (auto simp: giving_back_def x)
qed

lemma worker_views:
  assumes "workers s w = Some k"
  shows "holds s w = held k" "aborts s w = aborted k"
  using assms by (simp_all add: holds_def aborts_def)

lemma system_ok_worker:
  assumes "system_ok s" and "workers s w = Some k" and "held k' = held k" and "aborted k' = aborted k"
  shows "system_ok (set_worker w (Some k') s)" "system_ok (notify_waiters (set_worker w (Some k') s))"
proof -
  have "(holds s)(w := held k') = holds s" "(aborts s)(w := aborted k') = aborts s"
    using assms(3,4) worker_views [OF assms(2)] by (simp_all add: fun_upd_idem)
  with assms(1) show "system_ok (set_worker w (Some k') s)" "system_ok (notify_waiters (set_worker w (Some k') s))"
    by (simp_all add: system_ok_def)
qed

lemma system_ok_centre:
  assumes "system_ok s" and "table_ok c" and "running_jobs c = running_jobs (centre s)" and "next_arc c = next_arc (centre s)"
    and "\<And>i. i < next_job_id (centre s) \<Longrightarrow> jobs c i = jobs (centre s) i" and "next_job_id (centre s) \<le> next_job_id c"
  shows "system_ok (s\<lparr>centre := c\<rparr>)"
proof -
  have "owned c (holds s) (aborts s)"
  proof (rule owned_shrink [of "centre s" "holds s" "aborts s"])
    show "giving_back c (holds s v) x" if "aborts s v = Some x" for v x
      using ownedD(4) [of "centre s" "holds s" "aborts s" v x] that assms by (auto simp: giving_back_def system_ok_def)
  qed (use assms in \<open>auto simp: system_ok_def\<close>)
  with assms(2) show ?thesis
    by (simp add: system_ok_def)
qed

fun is_put :: "'v event \<Rightarrow> bool" where
  "is_put (Receive w (Put queue job priority)) = True"
| "is_put _ = False"

text \<open>Every event keeps the invariant, and only a put takes an identifier.\<close>

definition step_ok :: "'v system \<Rightarrow> nat \<Rightarrow> 'v system \<Rightarrow> bool" where
  "step_ok s n s' \<longleftrightarrow> system_ok s' \<and> unat (next_job_id (centre s')) = unat (next_job_id (centre s)) + n"

lemma receive_put_ok:
  assumes "system_ok s" and "workers s w = Some k" and "w_phase k = Idle" and "unat (next_job_id (centre s)) + 1 < 2 ^ 32"
  shows "step_ok s 1 (fst (receive oc w (Put queue job priority) k s))"
proof -
  from assms(1) have "table_ok (centre s)"
    by (simp add: system_ok_def)
  from put_ok [OF this assms(4), of oc queue job priority] obtain c where
    c: "jc_put oc queue job priority (centre s) = (c, Ok (next_job_id (centre s)))" "table_ok c"
    "unat (next_job_id c) = unat (next_job_id (centre s)) + 1" "running_jobs c = running_jobs (centre s)"
    "next_arc c = next_arc (centre s)" "jobs c = (jobs (centre s))(next_job_id (centre s) \<mapsto> (job, priority, queue))"
    by blast
  have "system_ok (s\<lparr>centre := c\<rparr>)"
    using c by (intro system_ok_centre [OF assms(1)]) (auto simp: word_le_nat_alt)
  then have "system_ok (set_worker w (Some (k\<lparr>w_phase := Notify (Some (next_job_id (centre s)))\<rparr>)) (s\<lparr>centre := c\<rparr>))"
    using assms(2,3) by (intro system_ok_worker(1) [where k = k]) (simp_all add: held_def aborted_def)
  with c show ?thesis
    by (simp add: step_ok_def)
qed

lemma receive_delete_ok:
  assumes "system_ok s"
  shows "step_ok s 0 (fst (receive oc w (Delete i) k s))"
proof (cases "jobs (centre s) i")
  case None
  with assms show ?thesis
    by (simp add: jc_delete_def step_ok_def)
next
  case (Some j)
  have table: "table_ok (centre s)" and own: "owned (centre s) (holds s) (aborts s)"
    using assms by (simp_all add: system_ok_def)
  from jc_delete_ok [OF table, of i] Some obtain c where
    c: "jc_delete i (centre s) = (c, Ok ())" "table_ok c" "next_job_id c = next_job_id (centre s)" "next_arc c = next_arc (centre s)"
    "jobs c = (jobs (centre s))(i := None)" "running_jobs c = kept i (running_jobs (centre s))"
    by auto
  have "owned c (holds s) (aborts s)"
  proof (rule owned_shrink [OF own])
    show "giving_back c (holds s v) x" if "aborts s v = Some x" for v x
    proof -
      obtain a r where x: "x = (a, r)"
        by (cases x)
      have "jr_id r = i \<Longrightarrow> a \<notin> fst ` set (running_jobs c)" if "(a, r) \<in> set (running_jobs (centre s))"
        using arc_unique [OF table that] c(6) by force
      with ownedD(4) [OF own that] c show ?thesis
        by (auto simp: giving_back_def x)
    qed
  qed (use c in auto)
  with c show ?thesis
    by (simp add: step_ok_def system_ok_def)
qed

lemma receive_abort_ok:
  assumes "system_ok s" and "workers s w = Some k" and "w_phase k = Idle"
  shows "step_ok s 0 (fst (receive oc w (Abort i) k s))"
proof -
  have table: "table_ok (centre s)" and own: "owned (centre s) (holds s) (aborts s)"
    using assms by (simp_all add: system_ok_def)
  obtain refs found where get: "get_from_working_jobs (centre s) i (w_jobs k) = (refs, found)"
    by (cases "get_from_working_jobs (centre s) i (w_jobs k)") auto
  note found = get_from_working_jobs_ok [OF get]
  have H: "holds s w = set (w_jobs k)"
    using assms(2,3) by (simp add: holds_def held_def)
  have up: "upgrade (centre s) a = Some r \<longleftrightarrow> (a, r) \<in> set (running_jobs (centre s))" for a r
    by (rule upgrade_iff [OF table])
  show ?thesis
  proof (cases found)
    case None
    have "owned (centre s) ((holds s)(w := set refs)) ((aborts s)(w := None))"
    proof (rule owned_shrink [OF own])
      show "giving_back (centre s) (((holds s)(w := set refs)) v) x" if "((aborts s)(w := None)) v = Some x" for v x
        using ownedD(4) [OF own, of v x] that by (auto split: if_splits)
    qed (use found None H up in \<open>auto split: if_splits\<close>)
    with table get None show ?thesis
      by (simp add: step_ok_def system_ok_def aborted_def held_def assms(3))
  next
    case (Some ar)
    then obtain a r where ar: "found = Some (a, r)"
      by (cases ar) auto
    with found up have a: "a \<in> set (w_jobs k)" "(a, r) \<in> set (running_jobs (centre s))" "jr_id r = i"
      by auto
    have only: "b = a" if "(b, r') \<in> set (running_jobs (centre s))" "jr_id r' = i" for b r'
      using running_unique [OF table that(1) a(2)] that(2) a(3) by simp
    have refs: "b = a \<or> b \<in> set refs" if "(b, r') \<in> set (running_jobs (centre s))" "b \<in> set (w_jobs k)" for b r'
      using found up only that by blast
    have "owned (centre s) ((holds s)(w := insert a (set refs))) ((aborts s)(w := Some (a, r)))"
    proof (rule owned_shrink [OF own])
      show "giving_back (centre s) (((holds s)(w := insert a (set refs))) v) x"
        if "((aborts s)(w := Some (a, r))) v = Some x" for v x
        using ownedD(4) [OF own, of v x] that a table_okD(2,4) [OF table]
        by (fastforce simp: giving_back_def split: if_splits)
      show "fst x \<in> ((holds s)(w := insert a (set refs))) v" if "x \<in> set (running_jobs (centre s))" "fst x \<in> holds s v" for v x
        using that H refs [of "fst x" "snd x"] by auto
    qed (use found ar H a in \<open>auto split: if_splits\<close>)
    with table get ar show ?thesis
      by (simp add: step_ok_def system_ok_def)
  qed
qed

lemma turn_getting_ok:
  assumes "system_ok s" and "workers s w = Some k" and "w_phase k = Getting qs wait" and "turn w k s = Some (s', out)"
  shows "step_ok s 0 s'"
proof -
  have table: "table_ok (centre s)" and own: "owned (centre s) (holds s) (aborts s)"
    using assms by (simp_all add: system_ok_def)
  have H: "held k = set (w_jobs k)" "aborted k = None" "holds s w = set (w_jobs k)" "aborts s w = None"
    using assms(2,3) by (simp_all add: holds_def held_def aborts_def aborted_def)
  obtain c r where get: "jc_get qs (centre s) = (c, r)"
    by (cases "jc_get qs (centre s)")
  note c = jc_get_ok [OF table, of qs, unfolded get]
  show ?thesis
  proof (cases r)
    case (Ok a)
    with c obtain j where a: "a = next_arc (centre s)" "running_jobs c = running_jobs (centre s) @ [(next_arc (centre s), j)]"
      "next_arc c = next_arc (centre s) + 1"
      by auto
    with c Ok H(4) have "owned c ((holds s)(w := insert a (holds s w))) (aborts s)"
      unfolding a(1) by (intro owned_get [OF own]) auto
    with assms(3,4) c Ok get H show ?thesis
      by (auto simp: turn_def step_ok_def system_ok_def fun_upd_idem)
  next
    case (Err e)
    with c have eq: "c = centre s"
      by simp
    have "system_ok (set_worker w (Some (k\<lparr>w_phase := p\<rparr>)) s)" if "p = Idle \<or> p = Retry qs" for p
      using that H by (intro system_ok_worker(1) [OF assms(1,2)]) auto
    with assms(3,4) Err get eq show ?thesis
      by (auto simp: turn_def step_ok_def split: if_splits)
  next
    case Panic
    with c have "system_ok (s\<lparr>centre := c\<rparr>)"
      by (intro system_ok_centre [OF assms(1)]) auto
    then have "system_ok (set_worker w (Some (k\<lparr>w_phase := Dropping\<rparr>)) (s\<lparr>centre := c\<rparr>))"
      using assms(2) H by (intro system_ok_worker(1) [where k = k]) simp_all
    with assms(3,4) Panic get c show ?thesis
      by (auto simp: turn_def step_ok_def)
  qed
qed

lemma turn_aborting_ok:
  assumes "system_ok s" and "workers s w = Some k" and "w_phase k = Aborting a r" and "turn w k s = Some (s', out)"
  shows "step_ok s 0 s'"
proof -
  have table: "table_ok (centre s)" and own: "owned (centre s) (holds s) (aborts s)"
    using assms by (simp_all add: system_ok_def)
  have H: "holds s w = insert a (set (w_jobs k))" "aborts s w = Some (a, r)"
    using assms(2,3) by (simp_all add: holds_def held_def aborts_def aborted_def)
  have r: "giving_back (centre s) (holds s w) (a, r)"
    by (rule ownedD(4) [OF own H(2)])
  then have "jr_id r < next_job_id (centre s)" "(a, r) \<in> set (running_jobs (centre s)) \<or> jobs (centre s) (jr_id r) = None"
    by (auto simp: giving_back_def)
  note c = jc_abort_ok [OF table this]
  have "owned (jc_abort r (centre s)) ((holds s)(w := set (w_jobs k))) ((aborts s)(w := None))"
  proof (rule owned_shrink [OF own])
    show "giving_back (jc_abort r (centre s)) (((holds s)(w := set (w_jobs k))) v) x"
      if "((aborts s)(w := None)) v = Some x" for v x
    proof -
      from that have v: "v \<noteq> w" "aborts s v = Some x"
        by (auto split: if_splits)
      with giving_back_kept [OF table own r ownedD(4) [OF own v(2)] v(1)] c show ?thesis
        by simp
    qed
    show "fst x \<in> ((holds s)(w := set (w_jobs k))) v"
      if "x \<in> set (running_jobs (jc_abort r (centre s)))" "fst x \<in> holds s v" for v x
    proof -
      obtain b r' where x: "x = (b, r')"
        by (cases x)
      with that(1) c have b: "(b, r') \<in> set (running_jobs (centre s))" "jr_id r' \<noteq> jr_id r"
        by auto
      have "b \<noteq> a"
      proof
        assume "b = a"
        then have "(a, r') \<in> set (running_jobs (centre s))" "a \<in> fst ` set (running_jobs (centre s))"
          using b(1) by force+
        with r have "(a, r) \<in> set (running_jobs (centre s))"
          by (simp add: giving_back_def)
        with arc_unique [OF table this \<open>(a, r') \<in> _\<close>] b(2) show False
          by simp
      qed
      with that(2) H x show ?thesis
        by (auto split: if_splits)
    qed
  qed (use c H in \<open>auto split: if_splits\<close>)
  with assms(3,4) c show ?thesis
    by (auto simp: turn_def step_ok_def system_ok_def)
qed

lemma turn_dropping_ok:
  assumes "system_ok s" and "workers s w = Some k" and "w_phase k = Dropping" and "turn w k s = Some (s', out)"
  shows "step_ok s 0 s'"
proof -
  have table: "table_ok (centre s)" and own: "owned (centre s) (holds s) (aborts s)"
    using assms by (simp_all add: system_ok_def)
  have H: "holds s w = set (w_jobs k)" "aborts s w = None"
    using assms(2,3) by (simp_all add: holds_def held_def aborts_def aborted_def)
  let ?c = "jc_remove_worker (w_jobs k) (centre s)"
  note c = jc_remove_worker_ok [OF table, of "w_jobs k"]
  have "owned ?c ((holds s)(w := {})) (aborts s)"
  proof (rule owned_shrink [OF own])
    show "giving_back ?c (((holds s)(w := {})) v) x" if "aborts s v = Some x" for v x
    proof -
      from that H have v: "v \<noteq> w"
        by auto
      obtain a r where x: "x = (a, r)"
        by (cases x)
      have "a \<in> holds s v \<Longrightarrow> a \<notin> set (w_jobs k)"
        using ownedD(2) [OF own, of a v w] v H(1) by auto
      with ownedD(4) [OF own that] v c show ?thesis
        by (auto simp: giving_back_def x)
    qed
  qed (use c H in \<open>auto split: if_splits\<close>)
  with assms(3,4) c H(2) show ?thesis
    by (auto simp: turn_def step_ok_def system_ok_def fun_upd_idem)
qed

lemma turn_ok:
  assumes "system_ok s" and "workers s w = Some k" and "turn w k s = Some (s', out)"
  shows "step_ok s 0 s'"
proof (cases "w_phase k")
  case (Getting qs wait)
  then show ?thesis
    by (rule turn_getting_ok [OF assms(1,2) _ assms(3)])
next
  case (Aborting a r)
  then show ?thesis
    by (rule turn_aborting_ok [OF assms(1,2) _ assms(3)])
next
  case Dropping
  then show ?thesis
    by (rule turn_dropping_ok [OF assms(1,2) _ assms(3)])
next
  case (Got a)
  have "system_ok (set_worker w (Some (k\<lparr>w_jobs := w_jobs k @ [a], w_phase := Idle\<rparr>)) s)"
    using Got by (intro system_ok_worker(1) [OF assms(1,2)]) (auto simp: held_def aborted_def)
  with Got assms(3) show ?thesis
    by (auto simp: turn_def step_ok_def)
next
  case (Retry qs)
  then have "system_ok (set_worker w (Some (k\<lparr>w_phase := Waiting qs\<rparr>)) s)"
    by (intro system_ok_worker(1) [OF assms(1,2)]) (auto simp: held_def aborted_def)
  with Retry assms(3) show ?thesis
    by (auto simp: turn_def step_ok_def)
next
  case (Notify r)
  then have "system_ok (notify_waiters (set_worker w (Some (k\<lparr>w_phase := Idle\<rparr>)) s))"
    by (intro system_ok_worker(2) [OF assms(1,2)]) (auto simp: held_def aborted_def)
  with Notify assms(3) show ?thesis
    by (auto simp: turn_def step_ok_def)
next
  case Leaving
  then have "holds s w = {}" "aborts s w = None"
    using assms(2) by (simp_all add: holds_def held_def aborts_def aborted_def)
  with assms(1) have "system_ok (notify_waiters (set_worker w None s))"
    by (simp add: system_ok_def fun_upd_idem)
  with Leaving assms(3) show ?thesis
    by (auto simp: turn_def step_ok_def)
qed (use assms(3) in \<open>simp_all add: turn_def\<close>)

lemma system_do_ok:
  assumes "system_ok s" and "system_do oc e s = Some (s', out)" and "is_put e \<Longrightarrow> unat (next_job_id (centre s)) + 1 < 2 ^ 32"
  shows "step_ok s (if is_put e then 1 else 0) s'"
proof (cases e)
  case (Connect w)
  with assms(2) have "workers s w = None" "s' = set_worker w (Some make_worker) s"
    by (auto split: option.splits)
  moreover from this have "holds s w = {}" "aborts s w = None"
    by (simp_all add: holds_def aborts_def)
  ultimately show ?thesis
    using assms(1) Connect by (simp add: step_ok_def system_ok_def fun_upd_idem)
next
  case (Receive w r)
  with assms(2) obtain k where k: "workers s w = Some k" "w_phase k = Idle" "s' = fst (receive oc w r k s)"
    by (auto split: option.splits if_splits)
  show ?thesis
  proof (cases r)
    case (Put queue job priority)
    with Receive k assms receive_put_ok [OF assms(1) k(1,2)] show ?thesis
      by simp
  next
    case (Get qs wait)
    have "system_ok (set_worker w (Some (k\<lparr>w_phase := Getting qs wait\<rparr>)) s)"
      using k(2) by (intro system_ok_worker(1) [OF assms(1) k(1)]) (auto simp: held_def aborted_def)
    with Get Receive k(3) show ?thesis
      by (simp add: step_ok_def)
  next
    case (Delete i)
    with Receive k(3) receive_delete_ok [OF assms(1), of oc w i k] show ?thesis
      by (simp del: receive.simps)
  next
    case (Abort i)
    with Receive k(3) receive_abort_ok [OF assms(1) k(1,2), of oc i] show ?thesis
      by (simp del: receive.simps)
  qed
next
  case (Turn w)
  with assms(1,2) turn_ok show ?thesis
    by (auto split: option.splits)
next
  case (Malformed w)
  with assms(1,2) show ?thesis
    by (auto simp: step_ok_def split: option.splits if_splits)
next
  case (Disconnect w)
  with assms(2) obtain k where k: "workers s w = Some k" "w_phase k = Idle" "s' = set_worker w (Some (k\<lparr>w_phase := Dropping\<rparr>)) s"
    by (auto split: option.splits if_splits)
  have "system_ok s'"
    unfolding k(3) using k(2) by (intro system_ok_worker(1) [OF assms(1) k(1)]) (auto simp: held_def aborted_def)
  with Disconnect k(3) show ?thesis
    by (simp add: step_ok_def)
qed

definition puts :: "'v event list \<Rightarrow> nat" where
  "puts es = length (filter is_put es)"

lemma system_run_ok:
  "system_run oc es s = Some (s', out) \<Longrightarrow> system_ok s \<Longrightarrow> unat (next_job_id (centre s)) + puts es < 2 ^ 32 \<Longrightarrow>
     step_ok s (puts es) s'"
proof (induction es arbitrary: s out)
  case (Cons e es)
  from Cons.prems(1) obtain t o1 o2 where t: "system_do oc e s = Some (t, o1)" "system_run oc es t = Some (s', o2)"
    by (auto split: option.splits)
  have "step_ok s (if is_put e then 1 else 0) t"
    using Cons.prems(3) by (intro system_do_ok [OF Cons.prems(2) t(1)]) (simp add: puts_def)
  then have step: "system_ok t" "unat (next_job_id (centre t)) = unat (next_job_id (centre s)) + (if is_put e then 1 else 0)"
    by (simp_all add: step_ok_def)
  with Cons.prems(3) have "step_ok t (puts es) s'"
    by (intro Cons.IH [OF t(2)]) (auto simp: puts_def)
  with step show ?case
    by (auto simp: step_ok_def puts_def)
qed (simp add: step_ok_def puts_def)

lemma system_ok_new: "system_ok system_new"
  by (simp add: system_ok_def table_ok_new) (simp add: owned_def centre_new_def)

lemma system_reachable:
  assumes "system_run oc es system_new = Some (s, out)" and "puts es < 2 ^ 32 - 1"
  shows "system_ok s" "unat (next_job_id (centre s)) = 1 + puts es"
  using system_run_ok [OF assms(1) system_ok_new] assms(2) by (simp_all add: step_ok_def centre_new_def)

end
