(* ===== verification/JobProperties.thy ===== *)
theory JobProperties
  imports JobServer
begin

text \<open>
  What the job centre promises to its clients, for every order of events, and the two orders in which
  it does not keep the promise of its documentation.
\<close>

section \<open>Examples\<close>

lemmas run_simps = system_new_def set_worker_def make_worker_def turn_def notify_waiters_def notified_def
    centre_new_def jc_put_def take_job_id_def add_w_def jc_get_def top_priority_def heap_push_def heap_peek_def heap_pop_def
    queue_of_def map_filter_simps Let_def upgrade_def jc_delete_def jc_abort_def

text \<open>One client puts a job, another one waits for it, or has it, or is about to take it.\<close>

lemma demo_put:
  "\<exists>s. system_run True [Connect 1, Receive 1 (Put q job p), Turn 1] (system_new :: 'v system) = Some (s, [(1, Id 1)]) \<and>
     jobs (centre s) 1 = Some (job, p, q)"
  by (simp add: run_simps)

lemma demo_wait:
  "\<exists>s k k'. system_run True [Connect 1, Connect 2, Receive 1 (Get [q] True), Turn 1, Turn 1] (system_new :: 'v system) = Some (s, []) \<and>
     workers s 1 = Some k \<and> w_phase k = Waiting [q] \<and> (\<forall>q' \<in> set [q]. queue_of (centre s) q' = []) \<and>
     workers s 2 = Some k' \<and> w_phase k' = Idle \<and> next_job_id (centre s) = 1"
  by (simp add: run_simps)

lemma demo_get:
  "\<exists>s k s'. system_run True [Connect 1, Receive 1 (Put q job p), Turn 1, Receive 1 (Get [q] False)] (system_new :: 'v system)
       = Some (s, [(1, Id 1)]) \<and>
     workers s 1 = Some k \<and> w_phase k = Getting [q] False \<and> system_do True (Turn 1) s = Some (s', []) \<and>
     queue_of (centre s) q = [(p, 1)] \<and> jobs (centre s) 1 = Some (job, p, q)"
  by (simp add: run_simps)

lemma demo_got:
  "\<exists>s s'. system_run True [Connect 1, Receive 1 (Put q job p), Turn 1, Receive 1 (Get [q] False), Turn 1] (system_new :: 'v system)
       = Some (s, [(1, Id 1)]) \<and> system_do True (Turn 1) s = Some (s', [(1, Job 1 job p q)])"
  by (simp add: run_simps)

section \<open>A client while others take their turns\<close>

fun client_of :: "'v event \<Rightarrow> nat" where
  "client_of (Connect w) = w"
| "client_of (Receive w _) = w"
| "client_of (Malformed w) = w"
| "client_of (Turn w) = w"
| "client_of (Disconnect w) = w"

lemma workers_simps:
  "workers (set_worker w k s) = (workers s)(w := k)" "workers (s\<lparr>centre := c\<rparr>) = workers s"
  "workers (notify_waiters s) = (\<lambda>w. map_option notified (workers s w))"
  by (simp_all add: set_worker_def notify_waiters_def)

lemma receive_others: "v \<noteq> w \<Longrightarrow> workers (fst (receive oc v r kv s)) w = workers s w"
  by (cases "(oc, v, r, kv, s)" rule: receive.cases) (auto simp: workers_simps split: prod.splits outcome.splits option.splits)

lemma turn_others:
  "turn v kv s = Some (s', out) \<Longrightarrow> v \<noteq> w \<Longrightarrow> workers s w = Some k \<Longrightarrow>
     workers s' w = Some k \<or> workers s' w = Some (notified k)"
  by (auto simp: turn_def workers_simps split: phase.splits prod.splits outcome.splits if_splits)

lemma system_do_others:
  assumes "system_do oc e s = Some (s', out)" and "client_of e \<noteq> w" and "workers s w = Some k"
  shows "workers s' w = Some k \<or> workers s' w = Some (notified k)"
proof (cases e)
  case (Receive v r)
  with assms receive_others [of v w oc r] show ?thesis
    by (auto split: option.splits if_splits) (metis fst_conv)
next
  case (Turn v)
  with assms turn_others [of v _ s s' out w k] show ?thesis
    by (auto split: option.splits)
qed (use assms in \<open>auto simp: workers_simps split: option.splits if_splits\<close>)

lemma notified_phase: "w_phase (notified k) = (case w_phase k of Waiting qs \<Rightarrow> Getting qs True | p \<Rightarrow> p)"
  by (simp add: notified_def split: phase.splits)

lemma notified_same: "\<forall>qs. w_phase k \<noteq> Waiting qs \<Longrightarrow> notified k = k"
  by (simp add: notified_def split: phase.splits)

lemma system_run_others:
  "system_run oc es s = Some (s', out) \<Longrightarrow> w \<notin> client_of ` set es \<Longrightarrow> workers s w = Some k \<Longrightarrow>
     \<forall>qs. w_phase k \<noteq> Waiting qs \<Longrightarrow> workers s' w = Some k"
proof (induction es arbitrary: s out)
  case (Cons e es)
  then obtain t o1 o2 where t: "system_do oc e s = Some (t, o1)" "system_run oc es t = Some (s', o2)"
    by (auto split: option.splits)
  have "workers t w = Some k"
    using system_do_others [OF t(1) _ Cons.prems(3)] Cons.prems(2,4) notified_same [of k] by auto
  then show ?case
    using Cons.IH [OF t(2)] Cons.prems by auto
qed simp

text \<open>Until it has notified the clients that wait, the task of a put does nothing else.\<close>

lemma notify_reaches:
  "system_run oc es s = Some (s', out) \<Longrightarrow> w \<notin> client_of ` set es \<Longrightarrow> Turn v \<in> set es \<Longrightarrow>
     workers s v = Some kv \<Longrightarrow> w_phase kv = Notify x \<Longrightarrow>
     workers s w = Some k \<Longrightarrow> w_phase k = Waiting qs \<or> w_phase k = Getting qs True \<Longrightarrow>
     \<exists>k'. workers s' w = Some k' \<and> w_phase k' = Getting qs True"
proof (induction es arbitrary: s out k)
  case (Cons e es)
  then obtain t o1 o2 where t: "system_do oc e s = Some (t, o1)" "system_run oc es t = Some (s', o2)"
    by (auto split: option.splits)
  have vw: "v \<noteq> w"
    using Cons.prems by auto
  show ?case
  proof (cases "client_of e = v")
    case True
    then have "e = Turn v"
      using t(1) Cons.prems(4,5) by (cases e) (auto split: if_splits)
    then have tw: "workers t w = Some (notified k)"
      using t(1) Cons.prems(4-6) vw by (auto simp: turn_def workers_simps)
    moreover have "w_phase (notified k) = Getting qs True"
      using Cons.prems(7) by (auto simp: notified_phase)
    ultimately show ?thesis
      using system_run_others [OF t(2) _ tw] Cons.prems(2) by auto
  next
    case False
    then have tv: "workers t v = Some kv"
      using system_do_others [OF t(1) False Cons.prems(4)] notified_same [of kv] Cons.prems(5) by auto
    obtain k1 where k1: "workers t w = Some k1" "w_phase k1 = Waiting qs \<or> w_phase k1 = Getting qs True"
      using system_do_others [OF t(1) _ Cons.prems(6)] Cons.prems(2,7) by (auto simp: notified_phase)
    have "Turn v \<in> set es"
      using Cons.prems(3) False by auto
    then show ?thesis
      using Cons.IH [OF t(2) _ _ tv Cons.prems(5) k1] Cons.prems(2) by auto
  qed
qed simp

text \<open>What a client works on stays its job while others do anything but delete it.\<close>

lemma system_do_keeps_job:
  assumes ok: "system_ok s" and do: "system_do oc e s = Some (s', out)"
    and put: "is_put e \<Longrightarrow> unat (next_job_id (centre s)) + 1 < 2 ^ 32"
    and "client_of e \<noteq> w" and a: "a \<in> holds s w" and up: "upgrade (centre s) a = Some r"
    and del: "\<And>v. e \<noteq> Receive v (Delete (jr_id r))"
  shows "upgrade (centre s') a = Some r"
proof -
  have table: "table_ok (centre s)" and own: "owned (centre s) (holds s) (aborts s)"
    using ok by (simp_all add: system_ok_def)
  have table': "table_ok (centre s')"
    using system_do_ok [OF ok do put] by (simp add: step_ok_def system_ok_def)
  have run: "(a, r) \<in> set (running_jobs (centre s))"
    using up by (simp add: upgrade_iff [OF table])
  have "(a, r) \<in> set (running_jobs (centre s'))"
  proof (cases e)
    case (Receive v q)
    with do obtain k where k: "workers s v = Some k" "s' = fst (receive oc v q k s)"
      by (auto split: option.splits if_splits)
    show ?thesis
    proof (cases q)
      case (Put queue job priority)
      with put_ok [OF table, of oc queue job priority] put Receive k(2) run show ?thesis
        by auto
    next
      case (Delete i)
      with del Receive have "jr_id r \<noteq> i"
        by auto
      with jc_delete_ok [OF table, of i] Delete k(2) run show ?thesis
        by (auto split: option.splits)
    qed (use k(2) run in \<open>auto split: prod.splits option.splits\<close>)
  next
    case (Turn v)
    with do assms(4) obtain k where k: "workers s v = Some k" "turn v k s = Some (s', out)" "v \<noteq> w"
      by (auto split: option.splits)
    show ?thesis
    proof (cases "w_phase k")
      case (Getting qs wait)
      with jc_get_ok [OF table, of qs] k(2) run show ?thesis
        by (auto simp: turn_def split: prod.splits outcome.splits if_splits)
    next
      case (Aborting b r')
      then have "aborts s v = Some (b, r')"
        using k(1) by (simp add: aborts_def aborted_def)
      then have gb: "giving_back (centre s) (holds s v) (b, r')"
        by (rule ownedD(4) [OF own])
      have "jr_id r' \<noteq> jr_id r"
      proof
        assume eq: "jr_id r' = jr_id r"
        then have "(b, r') \<in> set (running_jobs (centre s))"
          using gb table_okD(4) [OF table run] by (auto simp: giving_back_def)
        then have "b = a"
          using running_unique [OF table _ run eq] by simp
        then show False
          using ownedD(2) [OF own a] gb k(3) by (auto simp: giving_back_def)
      qed
      then have "(a, r) \<in> set (running_jobs (jc_abort r' (centre s)))"
        using run by (auto simp: jc_abort_def)
      with Aborting k(2) show ?thesis
        by (auto simp: turn_def)
    next
      case Dropping
      then have "a \<notin> set (w_jobs k)"
        using ownedD(2) [OF own a, of v] k(1,3) by (auto simp: holds_def held_def)
      with jc_remove_worker_ok [OF table, of "w_jobs k"] Dropping k(2) run show ?thesis
        by (auto simp: turn_def)
    qed (use k(2) run in \<open>auto simp: turn_def\<close>)
  qed (use do run in \<open>auto split: option.splits if_splits\<close>)
  then show ?thesis
    by (simp add: upgrade_iff [OF table'])
qed

lemma system_run_keeps_job:
  "system_run oc es s = Some (s', out) \<Longrightarrow> system_ok s \<Longrightarrow> unat (next_job_id (centre s)) + puts es < 2 ^ 32 \<Longrightarrow>
     w \<notin> client_of ` set es \<Longrightarrow> workers s w = Some k \<Longrightarrow> w_phase k = Got a \<Longrightarrow> upgrade (centre s) a = Some r \<Longrightarrow>
     \<forall>v. Receive v (Delete (jr_id r)) \<notin> set es \<Longrightarrow> upgrade (centre s') a = Some r"
proof (induction es arbitrary: s out)
  case (Cons e es)
  from Cons.prems(1) obtain t o1 o2 where t: "system_do oc e s = Some (t, o1)" "system_run oc es t = Some (s', o2)"
    by (auto split: option.splits)
  have put: "unat (next_job_id (centre s)) + 1 < 2 ^ 32" if "is_put e"
    using Cons.prems(3) that by (simp add: puts_def)
  have "step_ok s (if is_put e then 1 else 0) t"
    by (rule system_do_ok [OF Cons.prems(2) t(1) put])
  then have step: "system_ok t" "unat (next_job_id (centre t)) + puts es < 2 ^ 32"
    using Cons.prems(3) by (auto simp: step_ok_def puts_def)
  have "a \<in> holds s w"
    using Cons.prems(5,6) by (simp add: holds_def held_def)
  then have "upgrade (centre t) a = Some r"
    using Cons.prems(4,7,8) by (intro system_do_keeps_job [OF Cons.prems(2) t(1) put]) auto
  moreover have "workers t w = Some k"
    using system_do_others [OF t(1) _ Cons.prems(5)] Cons.prems(4,6) notified_same [of k] by auto
  ultimately show ?case
    using Cons.IH [OF t(2) step] Cons.prems(4,6,8) by auto
qed simp

text \<open>The turn of a get that finds a job, when none of the entries it can see outlived its job.\<close>

lemma get_turn_serves:
  assumes "system_ok s" and "workers s w = Some k" and "w_phase k = Getting qs wait"
    and "q \<in> set qs" and "(p, i) \<in> set (queue_of (centre s) q)"
    and "\<forall>q' \<in> set qs. \<forall>(p', i') \<in> set (queue_of (centre s) q'). jobs (centre s) i' \<noteq> None"
  shows "\<exists>c a r. system_do oc (Turn w) s = Some (set_worker w (Some (k\<lparr>w_phase := Got a\<rparr>)) (s\<lparr>centre := c\<rparr>), []) \<and>
    upgrade c a = Some r \<and> jr_queue r \<in> set qs \<and> p \<le> jr_pri r \<and>
    jobs (centre s) (jr_id r) = Some (jr_job r, jr_pri r, jr_queue r) \<and> next_job_id c = next_job_id (centre s)"
proof -
  have table: "table_ok (centre s)"
    using assms(1) by (simp add: system_ok_def)
  obtain c x where get: "jc_get qs (centre s) = (c, x)"
    by (cases "jc_get qs (centre s)")
  note c = jc_get_ok [OF table, of qs, unfolded get]
  show ?thesis
  proof (cases x)
    case (Ok a)
    with c obtain i j p' q' where job: "table_ok c" "q' \<in> set qs" "jobs (centre s) i = Some (j, p', q')"
      "running_jobs c = running_jobs (centre s) @ [(a, JobRef i j p' q')]" "next_job_id c = next_job_id (centre s)"
      "\<forall>q' \<in> set qs. \<forall>(p2, i') \<in> set (queue_of (centre s) q'). p2 \<le> p'"
      by auto
    have "upgrade c a = Some (JobRef i j p' q')"
      using job(1,4) by (simp add: upgrade_iff)
    moreover have "p \<le> p'"
      using job(6) assms(4,5) by fastforce
    ultimately show ?thesis
      using job assms(2,3) get Ok
      by (intro exI [of _ c] exI [of _ a] exI [of _ "JobRef i j p' q'"]) (simp add: turn_def)
  next
    case (Err e)
    with c assms(4,5) show ?thesis
      by auto
  next
    case Panic
    with c assms(6) show ?thesis
      by fastforce
  qed
qed

section \<open>An entry that outlived its job\<close>

text \<open>It leaves its queue when it is taken, and then the get panics.\<close>

lemma jc_get_entry:
  assumes "jc_get qs c = (c', x)" and "(p, i) \<in> set (queue_of c q)" and "jobs c i = None"
  shows "(p, i) \<in> set (queue_of c' q) \<or> q \<in> set qs \<and> x = Panic"
proof (cases "max_by_key fst (List.map_filter (top_priority c) qs)")
  case None
  then show ?thesis
    using assms by (simp add: jc_get_def)
next
  case (Some y)
  then obtain p1 q1 where y: "max_by_key fst (List.map_filter (top_priority c) qs) = Some (p1, q1)"
    by (cases y) auto
  with pick_queue [of qs c] obtain j h where j: "q1 \<in> set qs" "heap_pop (queue_of c q1) = Some ((p1, j), h)"
    by auto
  show ?thesis
  proof (cases "q1 = q \<and> (p1, j) = (p, i)")
    case True
    then show ?thesis
      using assms y j by (auto simp: jc_get_def)
  next
    case False
    have "h = remove1 (p1, j) (queue_of c q1)"
      using j(2) by (auto simp: heap_pop_def)
    then have "(p, i) \<in> set (if q = q1 then h else queue_of c q)"
      using False assms(2) by (auto simp: in_set_remove1)
    then show ?thesis
      using assms y j(2) False by (cases "jobs c j") (auto simp: jc_get_def Let_def)
  qed
qed

lemma remove_worker_entry:
  "x \<in> set (queue_of c q) \<Longrightarrow> x \<in> set (queue_of (jc_remove_worker as c) q)"
proof (induction as arbitrary: c)
  case (Cons a as)
  have "x \<in> set (queue_of (jc_abort r c) q)" for r
    using Cons.prems by (auto simp: jc_abort_def heap_push_def)
  with Cons show ?case
    by (simp split: option.split)
qed simp

definition stale :: "'v centre \<Rightarrow> u32 \<Rightarrow> u32 \<Rightarrow> rstring \<Rightarrow> bool" where
  "stale c p i q \<longleftrightarrow> (p, i) \<in> set (queue_of c q) \<and> jobs c i = None"

text \<open>The turn of a client that begins to look in the queue \<open>q\<close> and panics.\<close>

definition panics_on :: "bool \<Rightarrow> rstring \<Rightarrow> 'v event \<Rightarrow> 'v system \<Rightarrow> bool" where
  "panics_on oc q e s \<longleftrightarrow>
     (\<exists>u k qs wait s'. e = Turn u \<and> workers s u = Some k \<and> w_phase k = Getting qs wait \<and> q \<in> set qs \<and>
        system_do oc e s = Some (s', []) \<and> map_option w_phase (workers s' u) = Some Dropping)"

lemma stale_step:
  assumes ok: "system_ok s" and do: "system_do oc e s = Some (s', out)"
    and put: "is_put e \<Longrightarrow> unat (next_job_id (centre s)) + 1 < 2 ^ 32"
    and stale: "stale (centre s) p i q"
  shows "stale (centre s') p i q \<or> panics_on oc q e s"
proof -
  have table: "table_ok (centre s)"
    using ok by (simp add: system_ok_def)
  have entry: "(p, i) \<in> set (queue_of (centre s) q)" "jobs (centre s) i = None"
    using stale by (simp_all add: stale_def)
  show ?thesis
  proof (cases e)
    case (Receive v r)
    with do obtain k where k: "s' = fst (receive oc v r k s)"
      by (auto split: option.splits if_splits simp del: receive.simps) (metis fst_conv)
    show ?thesis
    proof (cases r)
      case (Put queue job priority)
      have "i < next_job_id (centre s)"
        using table_okD(3) [OF table] entry(1) by simp
      with Put put Receive k entry show ?thesis
        by (auto simp: stale_def jc_put_def take_job_id_def heap_push_def add_w_Ok queue_of_def)
    next
      case (Delete j)
      with k entry show ?thesis
        by (auto simp: stale_def jc_delete_def queue_of_def split: option.splits)
    qed (use k stale in \<open>auto split: prod.splits option.splits\<close>)
  next
    case (Turn v)
    with do obtain k where k: "workers s v = Some k" "turn v k s = Some (s', out)"
      by (auto split: option.splits)
    show ?thesis
    proof (cases "w_phase k")
      case (Getting qs wait)
      obtain c x where get: "jc_get qs (centre s) = (c, x)"
        by (cases "jc_get qs (centre s)")
      have jobs: "jobs c = jobs (centre s)"
        using jc_get_ok [OF table, of qs] get by (cases x) auto
      from jc_get_entry [OF get entry] show ?thesis
      proof
        assume "(p, i) \<in> set (queue_of c q)"
        with Getting k(2) get jobs entry(2) show ?thesis
          by (cases x) (auto simp: turn_def stale_def split: if_splits)
      next
        assume "q \<in> set qs \<and> x = Panic"
        with Getting k get do Turn show ?thesis
          by (auto simp: panics_on_def turn_def workers_simps)
      qed
    next
      case (Aborting a r)
      with k(2) entry show ?thesis
        by (auto simp: turn_def stale_def jc_abort_def heap_push_def)
    next
      case Dropping
      with k(2) entry remove_worker_entry [OF entry(1)] jc_remove_worker_ok [OF table, of "w_jobs k"] show ?thesis
        by (auto simp: turn_def stale_def)
    qed (use k(2) stale in \<open>auto simp: turn_def\<close>)
  qed (use do stale in \<open>auto split: option.splits if_splits\<close>)
qed

lemma stale_run:
  "system_run oc es s = Some (s', out) \<Longrightarrow> system_ok s \<Longrightarrow> unat (next_job_id (centre s)) + puts es < 2 ^ 32 \<Longrightarrow>
     stale (centre s) p i q \<Longrightarrow>
     stale (centre s') p i q \<or>
     (\<exists>es1 e es2 s1 out1. es = es1 @ e # es2 \<and> system_run oc es1 s = Some (s1, out1) \<and> panics_on oc q e s1)"
proof (induction es arbitrary: s out)
  case (Cons e es)
  from Cons.prems(1) obtain t o1 o2 where t: "system_do oc e s = Some (t, o1)" "system_run oc es t = Some (s', o2)"
    by (auto split: option.splits)
  have put: "unat (next_job_id (centre s)) + 1 < 2 ^ 32" if "is_put e"
    using Cons.prems(3) that by (simp add: puts_def)
  have "step_ok s (if is_put e then 1 else 0) t"
    by (rule system_do_ok [OF Cons.prems(2) t(1) put])
  then have step: "system_ok t" "unat (next_job_id (centre t)) + puts es < 2 ^ 32"
    using Cons.prems(3) by (auto simp: step_ok_def puts_def)
  from stale_step [OF Cons.prems(2) t(1) put Cons.prems(4)] show ?case
  proof
    assume "stale (centre t) p i q"
    from Cons.IH [OF t(2) step this] show ?thesis
    proof (elim disjE exE conjE)
      fix es1 e' es2 s1 out1
      assume *: "es = es1 @ e' # es2" "system_run oc es1 t = Some (s1, out1)" "panics_on oc q e' s1"
      then have "system_run oc (e # es1) s = Some (s1, o1 @ out1)"
        using t(1) by simp
      with * show ?thesis
        by (intro disjI2 exI [of _ "e # es1"] exI [of _ e'] exI [of _ es2] exI [of _ s1] exI) auto
    qed simp
  next
    assume "panics_on oc q e s"
    then show ?thesis
      by (intro disjI2 exI [of _ "[]"] exI [of _ e] exI [of _ es] exI [of _ s] exI [of _ "[]"]) simp
  qed
qed simp

section \<open>Properties\<close>

text \<open>C2: Whatever the clients do and however their tasks interleave, a job that was put and not deleted is
  in one place: either it waits in the queue it was put in, with its priority, once and nowhere else,
  and no client works on it; or it is in no queue, and exactly one client holds it, with the contents
  it was put with. So no job is lost, given to two clients or left behind by a client that is gone.\<close>

theorem every_job_in_one_place:
  assumes "system_run oc es system_new = Some (s, out)" and "puts es < 2 ^ 32 - 1"
    and "jobs (centre s) i = Some (job, p, q)"
  shows "count (mset (queue_of (centre s) q)) (p, i) = 1 \<and>
      (\<forall>q' p'. (p', i) \<in> set (queue_of (centre s) q') \<longrightarrow> q' = q \<and> p' = p) \<and>
      (\<forall>w. \<forall>a \<in> holds s w. \<forall>r. upgrade (centre s) a = Some r \<longrightarrow> jr_id r \<noteq> i) \<or>
    (\<forall>q' p'. (p', i) \<notin> set (queue_of (centre s) q')) \<and>
      (\<exists>!w. \<exists>a \<in> holds s w. upgrade (centre s) a = Some (JobRef i job p q))"
proof -
  from system_reachable [OF assms(1,2)] have table: "table_ok (centre s)" and own: "owned (centre s) (holds s) (aborts s)"
    by (simp_all add: system_ok_def)
  have placed: "count (mset (queue_of (centre s) q')) (p', i) =
      (if q' = q \<and> p' = p \<and> i \<notin> running_ids (centre s) then 1 else 0)" for q' p'
    using table_okD(1) [OF table assms(3)] unfolding placed_def by blast
  have up: "upgrade (centre s) a = Some r \<longleftrightarrow> (a, r) \<in> set (running_jobs (centre s))" for a r
    by (rule upgrade_iff [OF table])
  show ?thesis
  proof (cases "i \<in> running_ids (centre s)")
    case True
    then obtain a r where r: "(a, r) \<in> set (running_jobs (centre s))" "jr_id r = i"
      by (auto simp: running_ids_def)
    with table_okD(4) [OF table r(1)] assms(3) have eq: "r = JobRef i job p q"
      by (cases r) simp
    obtain w where w: "a \<in> holds s w"
      using ownedD(1) [OF own r(1)] by auto
    have unique: "v = w" if "b \<in> holds s v" "upgrade (centre s) b = Some (JobRef i job p q)" for v b
    proof -
      from that(2) have "(b, JobRef i job p q) \<in> set (running_jobs (centre s))"
        by (simp add: up)
      from running_unique [OF table this r(1)] r(2) have "b = a"
        by simp
      with that(1) w show ?thesis
        by (auto intro: ownedD(2) [OF own])
    qed
    have "\<exists>!w. \<exists>a \<in> holds s w. upgrade (centre s) a = Some (JobRef i job p q)"
      using w r(1) unfolding eq up [symmetric] by (intro ex1I [of _ w]) (auto intro: unique)
    moreover have "(p', i) \<notin> set (queue_of (centre s) q')" for q' p'
      using placed [of q' p'] True by simp
    ultimately show ?thesis
      by blast
  next
    case False
    then have "jr_id r \<noteq> i" if "upgrade (centre s) a = Some r" for a r
      using that up by (force simp: running_ids_def)
    moreover have "(p', i) \<in> set (queue_of (centre s) q') \<Longrightarrow> q' = q \<and> p' = p" for q' p'
      using placed [of q' p'] by (auto split: if_splits)
    ultimately show ?thesis
      using placed [of q p] False by auto
  qed
qed

lemma every_job_in_one_place_witness:
  "\<exists>s out. system_run True [Connect 1, Receive 1 (Put [] (5 :: nat) 9), Turn 1] system_new = Some (s, out) \<and>
     (count (mset (queue_of (centre s) [])) (9, 1) = 1 \<or> (\<exists>!w. \<exists>a \<in> holds s w. upgrade (centre s) a = Some (JobRef 1 5 9 [])))"
proof -
  obtain s where s: "system_run True [Connect 1, Receive 1 (Put [] (5 :: nat) 9), Turn 1] system_new = Some (s, [(1, Id 1)])"
    "jobs (centre s) 1 = Some (5, 9, [])"
    using demo_put [of "[]" "5 :: nat" 9] by blast
  have "puts [Connect 1, Receive 1 (Put [] (5 :: nat) 9), Turn 1] < 2 ^ 32 - 1"
    by (simp add: puts_def)
  from every_job_in_one_place [OF s(1) this s(2)] s(1) show ?thesis
    by blast
qed

text \<open>C23: A client is only ever answered with a job that exists at that moment, with its contents, and then it
  works on it: a deleted job is never handed out again, however the requests interleave.\<close>

theorem answered_jobs_exist:
  assumes "system_run oc es system_new = Some (s, out)" and "puts es < 2 ^ 32 - 1"
    and "system_do oc e s = Some (s', out')" and "(w, Job i job p q) \<in> set out'"
  shows "jobs (centre s) i = Some (job, p, q) \<and>
    (\<exists>a \<in> holds s' w. upgrade (centre s') a = Some (JobRef i job p q))"
proof -
  from system_reachable [OF assms(1,2)] have table: "table_ok (centre s)"
    by (simp add: system_ok_def)
  have e: "e = Turn w" and "\<exists>k a. workers s w = Some k \<and> w_phase k = Got a"
    using assms(3,4)
    by (cases e; auto simp: turn_def split: option.splits if_splits prod.splits outcome.splits phase.splits job_ref.splits
        elim!: receive.elims)+
  then obtain k a where k: "workers s w = Some k" "w_phase k = Got a"
    by blast
  with assms(3,4) e have a: "upgrade (centre s) a = Some (JobRef i job p q)"
    and s': "s' = set_worker w (Some (k\<lparr>w_jobs := w_jobs k @ [a], w_phase := Idle\<rparr>)) s"
    by (auto simp: turn_def split: option.splits job_ref.splits)
  from a have "jobs (centre s) i = Some (job, p, q)"
    using table_okD(4) [OF table, of a "JobRef i job p q"] by (simp add: upgrade_iff [OF table])
  with a s' show ?thesis
    by auto
qed

lemma answered_jobs_exist_witness:
  "\<exists>s out. system_run True [Connect 1, Receive 1 (Put [] (5 :: nat) 9), Turn 1, Receive 1 (Get [[]] False), Turn 1] system_new
     = Some (s, out) \<and> jobs (centre s) 1 = Some (5, 9, [])"
proof -
  obtain s s' where s: "system_run True [Connect 1, Receive 1 (Put [] (5 :: nat) 9), Turn 1, Receive 1 (Get [[]] False), Turn 1] system_new
      = Some (s, [(1, Id 1)])" "system_do True (Turn 1) s = Some (s', [(1, Job 1 5 9 [])])"
    using demo_got [of "[]" "5 :: nat" 9] by blast
  from answered_jobs_exist [OF s(1) _ s(2), of 1 1 5 9 "[]"] s(1) show ?thesis
    by (auto simp: puts_def)
qed

text \<open>C15: A turn of a get has one of three outcomes: it takes, of all the jobs that wait in the queues it lists,
  one of the highest priority, together with its contents; or none waits, and it says so at once, or begins
  to wait if it was asked to; or it panics, which is only on an entry that outlived its deleted job.\<close>

theorem get_takes_highest:
  assumes "system_run oc es system_new = Some (s, out)" and "puts es < 2 ^ 32 - 1"
    and "workers s w = Some k" and "w_phase k = Getting qs wait" and "system_do oc (Turn w) s = Some (s', out')"
  shows "(\<exists>a i job p q. holds s' w = insert a (holds s w) \<and> upgrade (centre s') a = Some (JobRef i job p q) \<and>
        q \<in> set qs \<and> (p, i) \<in> set (queue_of (centre s) q) \<and> jobs (centre s) i = Some (job, p, q) \<and>
        (\<forall>q' \<in> set qs. \<forall>(p', i') \<in> set (queue_of (centre s) q'). p' \<le> p)) \<or>
    (\<forall>q \<in> set qs. queue_of (centre s) q = []) \<and> centre s' = centre s \<and>
        (if wait then out' = [] \<and> map_option w_phase (workers s' w) = Some (Retry qs) else out' = [(w, No_job)]) \<or>
    map_option w_phase (workers s' w) = Some Dropping \<and>
        (\<exists>q \<in> set qs. \<exists>(p, i) \<in> set (queue_of (centre s) q). jobs (centre s) i = None)"
proof -
  from system_reachable [OF assms(1,2)] have table: "table_ok (centre s)"
    by (simp add: system_ok_def)
  have H: "holds s w = set (w_jobs k)"
    using assms(3,4) by (simp add: holds_def held_def)
  obtain c r where get: "jc_get qs (centre s) = (c, r)"
    by (cases "jc_get qs (centre s)")
  note c = jc_get_ok [OF table, of qs, unfolded get]
  show ?thesis
  proof (cases r)
    case (Ok a)
    with c obtain i j p q h where job: "table_ok c" "heap_pop (queue_of (centre s) q) = Some ((p, i), h)" "q \<in> set qs"
      "jobs (centre s) i = Some (j, p, q)" "running_jobs c = running_jobs (centre s) @ [(a, JobRef i j p q)]"
      "\<forall>q' \<in> set qs. \<forall>(p', i') \<in> set (queue_of (centre s) q'). p' \<le> p"
      by auto
    have "upgrade c a = Some (JobRef i j p q)"
      using job(1,5) by (simp add: upgrade_iff)
    moreover have "(p, i) \<in> set (queue_of (centre s) q)"
      using pop_placed(1) [OF table job(2)] by simp
    moreover have "s' = set_worker w (Some (k\<lparr>w_phase := Got a\<rparr>)) (s\<lparr>centre := c\<rparr>)"
      using assms(3-5) get Ok by (simp add: turn_def)
    ultimately show ?thesis
      using job(3,4,6) H by (intro disjI1) auto
  qed (use c get assms(3-5) in \<open>auto simp: turn_def set_worker_def split: if_splits\<close>)
qed

lemma get_takes_highest_witness:
  "\<exists>s s' a. system_run True [Connect 1, Receive 1 (Put [] (5 :: nat) 9), Turn 1, Receive 1 (Get [[]] False)] system_new
     = Some (s, [(1, Id 1)]) \<and> system_do True (Turn 1) s = Some (s', []) \<and> upgrade (centre s') a = Some (JobRef 1 5 9 [])"
proof -
  obtain s k s' where s: "system_run True [Connect 1, Receive 1 (Put [] (5 :: nat) 9), Turn 1, Receive 1 (Get [[]] False)] system_new
      = Some (s, [(1, Id 1)])" "workers s 1 = Some k" "w_phase k = Getting [[]] False" "system_do True (Turn 1) s = Some (s', [])"
    and q: "queue_of (centre s) [] = [(9, 1)]" "jobs (centre s) 1 = Some (5, 9, [])"
    using demo_get [of "[]" "5 :: nat" 9] by blast
  from get_takes_highest [OF s(1) _ s(2-4)] have "\<exists>a. upgrade (centre s') a = Some (JobRef 1 5 9 [])"
    using q by (auto simp: puts_def)
  with s show ?thesis
    by blast
qed

text \<open>C24: A client that is registered to wait is served. Another client puts a job into a queue that it
  waits for; its task takes its turn, and any other events happen, but none of the waiting client. Then the
  waiting client looks again. If the job still waits, which means that no other client took or deleted it,
  and no entry of the queues it waits for outlived its job, its turn takes a job from them, of the
  priority of that job or higher; and whatever others do then, unless they delete the job that it took, its
  next turn answers it with this job.\<close>

theorem waiting_client_is_served:
  assumes "system_run oc es system_new = Some (s, out)"
    and "workers s w = Some k" and "w_phase k = Waiting qs" and "q \<in> set qs"
    and "system_run oc (Receive v (Put q job p) # es1) s = Some (s1, out1)"
    and "w \<notin> client_of ` set es1" and "Turn v \<in> set es1"
    and "puts es + puts es1 < 2 ^ 32 - 2"
  shows "map_option w_phase (workers s1 w) = Some (Getting qs True) \<and>
    ((p, next_job_id (centre s)) \<in> set (queue_of (centre s1) q) \<and>
      (\<forall>q' \<in> set qs. \<forall>(p', i') \<in> set (queue_of (centre s1) q'). jobs (centre s1) i' \<noteq> None) \<longrightarrow>
      (\<exists>s2 i' job' p' q'. system_do oc (Turn w) s1 = Some (s2, []) \<and>
        q' \<in> set qs \<and> p \<le> p' \<and> jobs (centre s1) i' = Some (job', p', q') \<and>
        (\<forall>es2 s3 out3. system_run oc es2 s2 = Some (s3, out3) \<and> w \<notin> client_of ` set es2 \<and>
           (\<forall>u. Receive u (Delete i') \<notin> set es2) \<and> puts es + puts es1 + puts es2 < 2 ^ 32 - 2 \<longrightarrow>
           (\<exists>s4. system_do oc (Turn w) s3 = Some (s4, [(w, Job i' job' p' q')])))))"
proof -
  have "puts es < 2 ^ 32 - 1"
    using assms(8) by simp
  note ok = system_reachable [OF assms(1) this]
  obtain t o1 where t: "system_do oc (Receive v (Put q job p)) s = Some (t, [])" "system_run oc es1 t = Some (s1, o1)"
    using assms(5) by (auto split: option.splits if_splits prod.splits outcome.splits)
  have put: "unat (next_job_id (centre s)) + 1 < 2 ^ 32"
    using ok(2) assms(8) by simp
  obtain kv where kv: "workers s v = Some kv" "w_phase kv = Idle" "fst (receive oc v (Put q job p) kv s) = t"
    using t(1) by (auto split: option.splits if_splits simp del: receive.simps)
  have vw: "v \<noteq> w"
    using kv assms(2,3) by auto
  have "\<exists>kv'. workers t v = Some kv' \<and> w_phase kv' = Notify (Some (next_job_id (centre s)))"
    using put_ok [OF _ put, of oc q job p] ok(1) kv(3) by (auto simp: system_ok_def workers_simps)
  then obtain kv' where kv': "workers t v = Some kv'" "w_phase kv' = Notify (Some (next_job_id (centre s)))"
    by blast
  have "workers t w = Some k"
    using receive_others [OF vw] kv(3) assms(2) by metis
  from notify_reaches [OF t(2) assms(6,7) kv' this disjI1 [OF assms(3)]]
  obtain k1 where k1: "workers s1 w = Some k1" "w_phase k1 = Getting qs True"
    by blast
  have "step_ok s 1 t"
    using system_do_ok [OF ok(1) t(1)] put by simp
  then have tok: "system_ok t" "unat (next_job_id (centre t)) + puts es1 < 2 ^ 32"
    using ok(2) assms(8) by (simp_all add: step_ok_def)
  then have s1: "system_ok s1" "unat (next_job_id (centre s1)) = 2 + puts es + puts es1"
    using system_run_ok [OF t(2) tok] \<open>step_ok s 1 t\<close> ok(2) by (simp_all add: step_ok_def)
  show ?thesis
  proof (intro conjI impI)
    show "map_option w_phase (workers s1 w) = Some (Getting qs True)"
      using k1 by simp
    assume seen: "(p, next_job_id (centre s)) \<in> set (queue_of (centre s1) q) \<and>
      (\<forall>q' \<in> set qs. \<forall>(p', i') \<in> set (queue_of (centre s1) q'). jobs (centre s1) i' \<noteq> None)"
    from get_turn_serves [OF s1(1) k1 assms(4) conjunct1 [OF seen] conjunct2 [OF seen], of oc]
    obtain c a r where turn: "system_do oc (Turn w) s1 = Some (set_worker w (Some (k1\<lparr>w_phase := Got a\<rparr>)) (s1\<lparr>centre := c\<rparr>), [])"
      and r: "upgrade c a = Some r" "jr_queue r \<in> set qs" "p \<le> jr_pri r"
        "jobs (centre s1) (jr_id r) = Some (jr_job r, jr_pri r, jr_queue r)" "next_job_id c = next_job_id (centre s1)"
      by blast
    let ?s2 = "set_worker w (Some (k1\<lparr>w_phase := Got a\<rparr>)) (s1\<lparr>centre := c\<rparr>)"
    have s2: "system_ok ?s2"
      using system_do_ok [OF s1(1) turn] by (simp add: step_ok_def)
    have "\<exists>s4. system_do oc (Turn w) s3 = Some (s4, [(w, Job (jr_id r) (jr_job r) (jr_pri r) (jr_queue r))])"
      if run: "system_run oc es2 ?s2 = Some (s3, out3)" and es2: "w \<notin> client_of ` set es2"
        "\<forall>u. Receive u (Delete (jr_id r)) \<notin> set es2" "puts es + puts es1 + puts es2 < 2 ^ 32 - 2" for es2 s3 out3
    proof -
      have bound: "unat (next_job_id (centre ?s2)) + puts es2 < 2 ^ 32"
        using es2(3) s1(2) r(5) by simp
      have w2: "workers ?s2 w = Some (k1\<lparr>w_phase := Got a\<rparr>)"
        by (simp add: workers_simps)
      have "workers s3 w = Some (k1\<lparr>w_phase := Got a\<rparr>)"
        by (rule system_run_others [OF run es2(1) w2]) simp
      moreover have "upgrade (centre s3) a = Some r"
        using r(1) by (intro system_run_keeps_job [OF run s2 bound es2(1) w2 _ _ es2(2)]) simp_all
      ultimately show ?thesis
        by (simp add: turn_def split: job_ref.splits)
    qed
    then show "\<exists>s2 i' job' p' q'. system_do oc (Turn w) s1 = Some (s2, []) \<and>
        q' \<in> set qs \<and> p \<le> p' \<and> jobs (centre s1) i' = Some (job', p', q') \<and>
        (\<forall>es2 s3 out3. system_run oc es2 s2 = Some (s3, out3) \<and> w \<notin> client_of ` set es2 \<and>
           (\<forall>u. Receive u (Delete i') \<notin> set es2) \<and> puts es + puts es1 + puts es2 < 2 ^ 32 - 2 \<longrightarrow>
           (\<exists>s4. system_do oc (Turn w) s3 = Some (s4, [(w, Job i' job' p' q')])))"
      using turn r(2-4) by blast
  qed
qed

text \<open>Client 1 waits; client 2 puts and client 3 comes meanwhile, and leaves before the answer.\<close>

lemma demo_served:
  "\<exists>s k s1 s2 s3. system_run True [Connect 1, Connect 2, Receive 1 (Get [q] True), Turn 1, Turn 1] (system_new :: 'v system) = Some (s, []) \<and>
     workers s 1 = Some k \<and> w_phase k = Waiting [q] \<and> next_job_id (centre s) = 1 \<and>
     system_run True [Receive 2 (Put q job p), Connect 3, Turn 2] s = Some (s1, [(2, Id 1)]) \<and>
     queue_of (centre s1) q = [(p, 1)] \<and> jobs (centre s1) 1 = Some (job, p, q) \<and>
     system_do True (Turn 1) s1 = Some (s2, []) \<and>
     system_run True [Disconnect 3] s2 = Some (s3, [])"
  by (simp add: run_simps)

lemma waiting_client_is_served_witness:
  "\<exists>s s1 s2 s3 s4 i job p. system_run True [Connect 1, Connect 2, Receive 1 (Get [[]] True), Turn 1, Turn 1] system_new = Some (s, []) \<and>
     system_run True [Receive 2 (Put [] (5 :: nat) 9), Connect 3, Turn 2] s = Some (s1, [(2, Id 1)]) \<and>
     system_do True (Turn 1) s1 = Some (s2, []) \<and> system_run True [Disconnect 3] s2 = Some (s3, []) \<and>
     system_do True (Turn 1) s3 = Some (s4, [(1, Job i job p [])]) \<and> 9 \<le> p"
proof -
  obtain s k s1 s2 s3 where s: "system_run True [Connect 1, Connect 2, Receive 1 (Get [[]] True), Turn 1, Turn 1] (system_new :: nat system) = Some (s, [])"
    "workers s 1 = Some k" "w_phase k = Waiting [[]]" and id: "next_job_id (centre s) = 1"
    and s1: "system_run True [Receive 2 (Put [] (5 :: nat) 9), Connect 3, Turn 2] s = Some (s1, [(2, Id 1)])"
    and q: "queue_of (centre s1) [] = [(9, 1)]" "jobs (centre s1) 1 = Some (5, 9, [])"
    and s2: "system_do True (Turn 1) s1 = Some (s2, [])" and s3: "system_run True [Disconnect 3] s2 = Some (s3, [])"
    using demo_served [of "[]" "5 :: nat" 9] by blast
  have hyps: "[] \<in> set [[] :: rstring]" "1 \<notin> client_of ` set [Connect 3, Turn 2 :: nat event]"
    "Turn 2 \<in> set [Connect 3, Turn 2 :: nat event]"
    "puts [Connect 1, Connect 2, Receive 1 (Get [[]] True), Turn 1, Turn 1 :: nat event] + puts [Connect 3, Turn 2 :: nat event] < 2 ^ 32 - 2"
    by (simp_all add: puts_def)
  have seen: "(9, next_job_id (centre s)) \<in> set (queue_of (centre s1) []) \<and>
      (\<forall>q' \<in> set [[]]. \<forall>(p', i') \<in> set (queue_of (centre s1) q'). jobs (centre s1) i' \<noteq> None)"
    using q id by simp
  from mp [OF conjunct2 [OF waiting_client_is_served [OF s hyps(1) s1 hyps(2-4)]] seen]
  obtain t i job p q' where t: "system_do True (Turn 1) s1 = Some (t, [])" "q' \<in> set [[]]" "9 \<le> p"
    and answer: "\<And>es2 s3 out3. system_run True es2 t = Some (s3, out3) \<and> 1 \<notin> client_of ` set es2 \<and>
           (\<forall>u. Receive u (Delete i) \<notin> set es2) \<and>
           puts [Connect 1, Connect 2, Receive 1 (Get [[]] True), Turn 1, Turn 1 :: nat event] + puts [Connect 3, Turn 2 :: nat event] + puts es2 < 2 ^ 32 - 2 \<Longrightarrow>
           (\<exists>s4. system_do True (Turn 1) s3 = Some (s4, [(1, Job i job p q')]))"
    by blast
  have "\<exists>s4. system_do True (Turn 1) s3 = Some (s4, [(1, Job i job p q')])"
    using t(1) s2 s3 by (intro answer [of "[Disconnect 3]"]) (simp add: puts_def)
  then show ?thesis
    using s(1) s1 s2 s3 t by auto
qed

text \<open>C25: Aborting races with deleting. A client gives a job back that another one has deleted in the meantime:
  the entry is put into the queue of the job nevertheless, and then it stays there, whatever happens, until a
  get of that queue takes it; and that get panics, which drops its client.\<close>

theorem stale_abort_panics:
  assumes "system_run oc es system_new = Some (s, out)" and "puts es + puts es' < 2 ^ 32 - 1"
    and "workers s w = Some k" and "w_phase k = Aborting a r" and "jobs (centre s) (jr_id r) = None"
    and "system_run oc (Turn w # es') s = Some (s', out')"
  shows "stale (centre s') (jr_pri r) (jr_id r) (jr_queue r) \<or>
    (\<exists>es1 e es2 s1 out1. es' = es1 @ e # es2 \<and> system_run oc (Turn w # es1) s = Some (s1, out1) \<and>
       panics_on oc (jr_queue r) e s1)"
proof -
  have "puts es < 2 ^ 32 - 1"
    using assms(2) by simp
  note ok = system_reachable [OF assms(1) this]
  obtain t o1 where t: "system_do oc (Turn w) s = Some (t, [])" "system_run oc es' t = Some (s', o1)"
    and c: "centre t = jc_abort r (centre s)"
    using assms(3,4,6) by (auto simp: turn_def split: option.splits)
  have "step_ok s 0 t"
    using system_do_ok [OF ok(1) t(1)] by simp
  then have t': "system_ok t" "unat (next_job_id (centre t)) + puts es' < 2 ^ 32"
    using ok(2) assms(2) by (simp_all add: step_ok_def)
  have "stale (centre t) (jr_pri r) (jr_id r) (jr_queue r)"
    using assms(5) unfolding c by (simp add: stale_def jc_abort_def heap_push_def)
  from stale_run [OF t(2) t' this] show ?thesis
    using t(1) by fastforce
qed

lemma demo_stale:
  "\<exists>s k a s'. system_run True
       [Connect 1, Connect 2, Receive 1 (Put q job p), Turn 1, Receive 1 (Get [q] False), Turn 1, Turn 1,
        Receive 1 (Abort 1), Receive 2 (Delete 1)] (system_new :: 'v system)
      = Some (s, [(1, Id 1), (1, Job 1 job p q), (2, Ok_response)]) \<and>
     workers s 1 = Some k \<and> w_phase k = Aborting a (JobRef 1 job p q) \<and> jobs (centre s) 1 = None \<and>
     system_run True (Turn 1 # [Turn 1, Receive 2 (Get [q] False), Turn 2]) s = Some (s', [(1, Ok_response)]) \<and>
     queue_of (centre s') q = []"
  by (simp add: run_simps)

lemma stale_abort_panics_witness:
  "\<exists>s s1. system_run True
       [Connect 1, Connect 2, Receive 1 (Put [] (5 :: nat) 9), Turn 1, Receive 1 (Get [[]] False), Turn 1, Turn 1,
        Receive 1 (Abort 1), Receive 2 (Delete 1)] system_new
      = Some (s, [(1, Id 1), (1, Job 1 5 9 []), (2, Ok_response)]) \<and> (\<exists>e. panics_on True [] e (s1 :: nat system))"
proof -
  obtain s k a s' where s: "system_run True
       [Connect 1, Connect 2, Receive 1 (Put [] (5 :: nat) 9), Turn 1, Receive 1 (Get [[]] False), Turn 1, Turn 1,
        Receive 1 (Abort 1), Receive 2 (Delete 1)] system_new
      = Some (s, [(1, Id 1), (1, Job 1 5 9 []), (2, Ok_response)])"
    "workers s 1 = Some k" "w_phase k = Aborting a (JobRef 1 5 9 [])" "jobs (centre s) 1 = None"
    "system_run True (Turn 1 # [Turn 1, Receive 2 (Get [[]] False), Turn 2]) s = Some (s', [(1, Ok_response)])"
    "queue_of (centre s') [] = []"
    using demo_stale [of "[]" "5 :: nat" 9] by blast
  have "\<not> stale (centre s') 9 1 []"
    using s(6) by (simp add: stale_def)
  then have "\<exists>(s1 :: nat system) e. panics_on True [] e s1"
    using stale_abort_panics [OF s(1) _ s(2,3) _ s(5)] s(4) by (simp add: puts_def) blast
  with s(1) show ?thesis
    by blast
qed

text \<open>Waiting races with putting. A client that has found nothing registers to be notified only after it
  has left the lock; a job that is put in between notifies nobody, and then the job waits in the queue,
  the client waits for it, and no task has a turn to take.\<close>

theorem lost_wakeup:
  "\<exists>s. system_run oc
       [Connect 1, Connect 2, Receive 1 (Get [q] True), Turn 1, Receive 2 (Put q job p), Turn 2, Turn 1] system_new =
     Some (s, [(2, Id 1)]) \<and> map_option w_phase (workers s 1) = Some (Waiting [q]) \<and>
     queue_of (centre s) q = [(p, 1)] \<and> (\<forall>w. system_do oc (Turn w) s = None)"
  by (simp add: run_simps)

end
