(* ===== verification/JobProtocol.thy ===== *)
theory JobProtocol
  imports JobServer
begin

text \<open>
  The lines of the job centre's protocol, \<open>rust/p09-job-centre/src/protocol.rs\<close>: the request decoder
  with its limit on the length of a line, the response decoder, and both encoders. JSON values and
  what the code does with them are \<open>serde_json\<close>, which is not part of the repository: a record of
  functions over any type of values.
\<close>

section \<open>JSON\<close>

record 'v serde =
  from_slice :: "byte list \<Rightarrow> 'v option"
  to_vec :: "'v \<Rightarrow> byte list option"
  get_field :: "'v \<Rightarrow> rstring \<Rightarrow> 'v option"
  as_string :: "'v \<Rightarrow> rstring option"
  as_strings :: "'v \<Rightarrow> rstring list option"
  as_u32 :: "'v \<Rightarrow> u32 option"
  as_bool :: "'v \<Rightarrow> bool option"
  is_number :: "'v \<Rightarrow> bool"
  show_value :: "'v \<Rightarrow> rstring"
  of_string :: "rstring \<Rightarrow> 'v"
  of_strings :: "rstring list \<Rightarrow> 'v"
  of_u32 :: "u32 \<Rightarrow> 'v"
  of_bool' :: "bool \<Rightarrow> 'v"
  of_object :: "(rstring \<times> 'v) list \<Rightarrow> 'v"

section \<open>Requests\<close>

datatype request_error = Serde | Max_line_length_exceeded | Field_not_found rstring | Invalid_request_error rstring

definition need :: "'v serde \<Rightarrow> 'v \<Rightarrow> string \<Rightarrow> (request_error, 'v) outcome" where
  "need S v name = (case get_field S v (ascii name) of Some x \<Rightarrow> Ok x | None \<Rightarrow> Err (Field_not_found (ascii name)))"

definition from_value :: "('v \<Rightarrow> 'a option) \<Rightarrow> 'v \<Rightarrow> (request_error, 'a) outcome" where
  "from_value f v = or_err Serde (f v)"

definition parse_wait :: "'v serde \<Rightarrow> 'v \<Rightarrow> (request_error, bool) outcome" where
  "parse_wait S v = (case get_field S v (ascii ''wait'') of Some x \<Rightarrow> from_value (as_bool S) x | None \<Rightarrow> Ok False)"

definition parse_request :: "'v serde \<Rightarrow> byte list \<Rightarrow> (request_error, 'v request) outcome" where
  "parse_request S line =
     (case from_slice S line of
        None \<Rightarrow> Err Serde
      | Some v \<Rightarrow>
          (case get_field S v (ascii ''request'') of
             None \<Rightarrow> Err (Field_not_found (ascii ''request''))
           | Some k \<Rightarrow>
               (case as_string S k of
                  None \<Rightarrow> Err (Invalid_request_error (ascii ''invalid field type''))
                | Some name \<Rightarrow>
                    (if name = ascii ''put'' then
                       bind_outcome (need S v ''queue'') (\<lambda>q. bind_outcome (from_value (as_string S) q) (\<lambda>queue.
                       bind_outcome (need S v ''job'') (\<lambda>job.
                       bind_outcome (need S v ''pri'') (\<lambda>p. bind_outcome (from_value (as_u32 S) p) (\<lambda>priority.
                       Ok (Put queue job priority))))))
                     else if name = ascii ''get'' then
                       bind_outcome (need S v ''queues'') (\<lambda>q. bind_outcome (from_value (as_strings S) q) (\<lambda>qs.
                       bind_outcome (parse_wait S v) (\<lambda>wait. Ok (Get qs wait))))
                     else if name = ascii ''delete'' then
                       bind_outcome (need S v ''id'') (\<lambda>i. bind_outcome (from_value (as_u32 S) i) (\<lambda>i. Ok (Delete i)))
                     else if name = ascii ''abort'' then
                       bind_outcome (need S v ''id'') (\<lambda>i. bind_outcome (from_value (as_u32 S) i) (\<lambda>i. Ok (Abort i)))
                     else Err (Invalid_request_error name)))))"

definition usize_max :: nat where
  "usize_max = 2 ^ 64 - 1"

record request_codec =
  max_length :: nat
  next_index :: nat
  is_discarding :: bool

definition codec_with_max_length :: "nat \<Rightarrow> request_codec" where
  "codec_with_max_length n = \<lparr>max_length = n, next_index = 0, is_discarding = False\<rparr>"

definition codec_new :: request_codec where
  "codec_new = codec_with_max_length usize_max"

definition read_to :: "request_codec \<Rightarrow> byte list \<Rightarrow> nat" where
  "read_to k src = min (min (max_length k + 1) usize_max) (length src)"

definition newline_offset :: "nat \<Rightarrow> nat \<Rightarrow> byte list \<Rightarrow> nat option" where
  "newline_offset a b src = position (\<lambda>c. c = 10) (drop a (take b src))"

lemma newline_offset_nonempty: "newline_offset a b src = Some n \<Longrightarrow> src \<noteq> []"
  by (auto simp: newline_offset_def)

text \<open>\<open>RequestCodec::decode\<close>: the decoder and the buffer after the call, and its result.\<close>

function request_decode :: "'v serde \<Rightarrow> request_codec \<Rightarrow> byte list \<Rightarrow>
    request_codec \<times> byte list \<times> (request_error, 'v request option) outcome" where
  "request_decode S k src =
     (if read_to k src < next_index k then (k, src, Panic)
      else case (is_discarding k, newline_offset (next_index k) (read_to k src) src) of
        (True, Some offset) \<Rightarrow>
          request_decode S (k\<lparr>is_discarding := False, next_index := 0\<rparr>) (drop (offset + next_index k + 1) src)
      | (True, None) \<Rightarrow>
          (if drop (read_to k src) src = [] then (k\<lparr>next_index := 0\<rparr>, [], Ok None)
           else request_decode S (k\<lparr>next_index := 0\<rparr>) (drop (read_to k src) src))
      | (False, Some offset) \<Rightarrow>
          (k\<lparr>next_index := 0\<rparr>, drop (offset + next_index k + 1) src,
            bind_outcome (parse_request S (take (offset + next_index k) src)) (\<lambda>r. Ok (Some r)))
      | (False, None) \<Rightarrow>
          (if max_length k < length src then (k\<lparr>is_discarding := True\<rparr>, src, Err Max_line_length_exceeded)
           else (k\<lparr>next_index := read_to k src\<rparr>, src, Ok None)))"
  by pat_completeness auto
termination
  by (relation "measure (\<lambda>(S, k, src). length src)")
    (auto simp: read_to_def usize_max_def dest!: newline_offset_nonempty [OF sym])

declare request_decode.simps [simp del]

text \<open>\<open>RequestCodec::encode\<close>: what it appends to the buffer.\<close>

fun request_object :: "'v serde \<Rightarrow> 'v request \<Rightarrow> 'v" where
  "request_object S (Put queue job priority) =
     of_object S [(ascii ''request'', of_string S (ascii ''put'')), (ascii ''queue'', of_string S queue), (ascii ''job'', job),
       (ascii ''pri'', of_u32 S priority)]"
| "request_object S (Get qs wait) =
     of_object S [(ascii ''request'', of_string S (ascii ''get'')), (ascii ''queues'', of_strings S qs),
       (ascii ''wait'', of_bool' S wait)]"
| "request_object S (Delete i) = of_object S [(ascii ''request'', of_string S (ascii ''delete'')), (ascii ''id'', of_u32 S i)]"
| "request_object S (Abort i) = of_object S [(ascii ''request'', of_string S (ascii ''abort'')), (ascii ''id'', of_u32 S i)]"

definition request_encode :: "'v serde \<Rightarrow> request_codec \<Rightarrow> 'v request \<Rightarrow> (request_error, byte list) outcome" where
  "request_encode S k r =
     (case to_vec S (request_object S r) of
        None \<Rightarrow> Err Serde
      | Some bs \<Rightarrow> if max_length k < length bs then Err Max_line_length_exceeded else Ok (bs @ [10]))"

section \<open>What arrives in pieces\<close>

abbreviation newline :: "byte list \<Rightarrow> nat option" where
  "newline \<equiv> position (\<lambda>c. c = 10)"

lemma newline_bound: "newline bs = Some n \<Longrightarrow> n < length bs"
  by (simp add: position_Some)

text \<open>The results that a stream of bytes stands for: one for every line, an error for a line that is too
  long, and that error already when the last, unfinished line is too long.\<close>

function line_results :: "'v serde \<Rightarrow> nat \<Rightarrow> byte list \<Rightarrow> (request_error, 'v request) outcome list" where
  "line_results S m bs =
     (case newline bs of
        None \<Rightarrow> if m < length bs then [Err Max_line_length_exceeded] else []
      | Some n \<Rightarrow> (if n \<le> m then parse_request S (take n bs) else Err Max_line_length_exceeded)
          # line_results S m (drop (n + 1) bs))"
  by pat_completeness auto
termination
  by (relation "measure (\<lambda>(S, m, bs). length bs)") (auto dest!: newline_bound newline_bound [OF sym])

declare line_results.simps [simp del]

text \<open>Bytes arrive at any time, and the decoder is called at any time: what has arrived, the results so
  far, the decoder and the buffer.\<close>

definition result_of :: "(request_error, 'v request option) outcome \<Rightarrow> (request_error, 'v request) outcome list" where
  "result_of r = (case r of Ok None \<Rightarrow> [] | Ok (Some x) \<Rightarrow> [Ok x] | Err e \<Rightarrow> [Err e] | Panic \<Rightarrow> [Panic])"

inductive decoding :: "'v serde \<Rightarrow> nat \<Rightarrow> byte list \<Rightarrow> (request_error, 'v request) outcome list \<Rightarrow> request_codec \<Rightarrow> byte list \<Rightarrow> bool"
  for S m where
  start: "decoding S m [] [] (codec_with_max_length m) []"
| arrive: "decoding S m bs rs k src \<Longrightarrow> decoding S m (bs @ cs) rs k (src @ cs)"
| call: "decoding S m bs rs k src \<Longrightarrow> request_decode S k src = (k', src', r) \<Longrightarrow>
    decoding S m bs (rs @ result_of r) k' src'"

text \<open>The decoder has looked at the first \<open>next_index\<close> bytes and found no end of a line.\<close>

definition scanned :: "request_codec \<Rightarrow> byte list \<Rightarrow> bool" where
  "scanned k src \<longleftrightarrow> next_index k \<le> length src \<and> next_index k \<le> max_length k + 1 \<and> 10 \<notin> set (take (next_index k) src)"

lemma read_to_eq:
  "length src \<le> usize_max \<Longrightarrow> max_length k \<le> usize_max \<Longrightarrow> read_to k src = min (max_length k + 1) (length src)"
  by (auto simp: read_to_def min_def)

lemma newline_offset_eq:
  assumes "scanned k src" and "length src \<le> usize_max" and "max_length k \<le> usize_max"
  shows "next_index k \<le> read_to k src"
    and "map_option ((+) (next_index k)) (newline_offset (next_index k) (read_to k src) src) =
      (case newline src of Some n \<Rightarrow> if n \<le> max_length k then Some n else None | None \<Rightarrow> None)"
proof -
  let ?t = "take (read_to k src) src"
  note R = read_to_eq [OF assms(2,3)]
  show le: "next_index k \<le> read_to k src"
    using assms(1) R by (simp add: scanned_def)
  then have "newline ?t = map_option ((+) (next_index k)) (newline (drop (next_index k) ?t))"
    using assms(1) by (intro position_drop) (auto simp: scanned_def min_def)
  moreover have "newline ?t = (case newline src of Some n \<Rightarrow> if n \<le> max_length k then Some n else None | None \<Rightarrow> None)"
  proof (cases "newline src")
    case None
    then have "newline ?t = None"
      by (auto simp: position_None dest: in_set_takeD)
    with None show ?thesis
      by simp
  next
    case (Some n)
    show ?thesis
    proof (cases "n \<le> max_length k")
      case True
      with Some have "newline ?t = Some n"
        unfolding position_Some by (auto simp: R)
      with Some True show ?thesis
        by simp
    next
      case False
      with Some have "newline ?t = None"
        unfolding position_None position_Some by (auto simp: in_set_conv_nth R)
      with Some False show ?thesis
        by simp
    qed
  qed
  ultimately show "map_option ((+) (next_index k)) (newline_offset (next_index k) (read_to k src) src) =
      (case newline src of Some n \<Rightarrow> if n \<le> max_length k then Some n else None | None \<Rightarrow> None)"
    by (simp add: newline_offset_def)
qed

text \<open>A call outside a line that is discarded.\<close>

lemma decode_line:
  assumes "scanned k src" and "length src \<le> usize_max" and "max_length k \<le> usize_max" and "\<not> is_discarding k"
  shows "request_decode S k src =
    (case newline src of
       Some n \<Rightarrow> if n \<le> max_length k
         then (k\<lparr>next_index := 0\<rparr>, drop (n + 1) src, bind_outcome (parse_request S (take n src)) (\<lambda>r. Ok (Some r)))
         else (k\<lparr>is_discarding := True\<rparr>, src, Err Max_line_length_exceeded)
     | None \<Rightarrow> if max_length k < length src then (k\<lparr>is_discarding := True\<rparr>, src, Err Max_line_length_exceeded)
         else (k\<lparr>next_index := length src\<rparr>, src, Ok None))"
proof (cases "newline_offset (next_index k) (read_to k src) src")
  case (Some i)
  with newline_offset_eq(2) [OF assms(1-3)] have "newline src = Some (i + next_index k)" "i + next_index k \<le> max_length k"
    by (auto simp: add.commute split: option.splits if_splits)
  with Some newline_offset_eq(1) [OF assms(1-3)] assms(4) show ?thesis
    by (subst request_decode.simps) simp
next
  case None
  with newline_offset_eq(2) [OF assms(1-3)] have none: "newline src = Some n \<Longrightarrow> max_length k < n" for n
    by (auto split: option.splits if_splits)
  have "request_decode S k src =
      (if max_length k < length src then (k\<lparr>is_discarding := True\<rparr>, src, Err Max_line_length_exceeded)
       else (k\<lparr>next_index := read_to k src\<rparr>, src, Ok None))"
    using None newline_offset_eq(1) [OF assms(1-3)] assms(4) by (subst request_decode.simps) simp
  moreover have "read_to k src = length src" if "\<not> max_length k < length src"
    using that by (simp add: read_to_eq [OF assms(2,3)])
  moreover have "max_length k < length src" if "newline src = Some n" for n
    using none [OF that] newline_bound [OF that] by simp
  ultimately show ?thesis
    using none by (auto split: option.splits)
qed

text \<open>A call within one: what is left of it is skipped.\<close>

lemma decode_discarding:
  "scanned k src \<Longrightarrow> length src \<le> usize_max \<Longrightarrow> max_length k \<le> usize_max \<Longrightarrow> is_discarding k \<Longrightarrow>
    request_decode S k src =
      (case newline src of
         Some n \<Rightarrow> request_decode S (k\<lparr>is_discarding := False, next_index := 0\<rparr>) (drop (n + 1) src)
       | None \<Rightarrow> (k\<lparr>next_index := 0\<rparr>, [], Ok None))"
proof (induction "length src" arbitrary: k src rule: less_induct)
  case less
  note eq = newline_offset_eq [OF less.prems(1-3)]
  let ?R = "read_to k src"
  show ?case
  proof (cases "newline_offset (next_index k) ?R src")
    case (Some i)
    with eq(2) have "newline src = Some (i + next_index k)"
      by (auto simp: add.commute split: option.splits if_splits)
    with Some eq(1) less.prems(4) show ?thesis
      by (subst request_decode.simps) (simp add: add.commute)
  next
    case None
    have R: "?R = min (max_length k + 1) (length src)"
      by (rule read_to_eq [OF less.prems(2,3)])
    from None eq(2) have none: "newline src = Some n \<Longrightarrow> max_length k < n" for n
      by (auto split: option.splits if_splits)
    have clean: "\<forall>x \<in> set (take ?R src). x \<noteq> 10"
    proof (cases "newline src")
      case None
      then show ?thesis
        by (auto simp: position_None dest: in_set_takeD)
    next
      case (Some n)
      with none [OF this] show ?thesis
        by (auto simp: position_Some in_set_conv_nth R)
    qed
    then have step: "newline src = map_option ((+) ?R) (newline (drop ?R src))"
      by (intro position_drop) (auto simp: R)
    show ?thesis
    proof (cases "drop ?R src = []")
      case True
      with None eq(1) less.prems(4) step show ?thesis
        by (subst request_decode.simps) simp
    next
      case False
      then have "0 < ?R" "src \<noteq> []"
        by (auto simp: R)
      then have "request_decode S (k\<lparr>next_index := 0\<rparr>) (drop ?R src) =
        (case newline (drop ?R src) of
           Some n \<Rightarrow> request_decode S (k\<lparr>is_discarding := False, next_index := 0\<rparr>) (drop (n + 1) (drop ?R src))
         | None \<Rightarrow> (k\<lparr>next_index := 0\<rparr>, [], Ok None))"
        using less.prems by (subst less.hyps) (simp_all add: scanned_def split: option.split)
      with False None eq(1) less.prems(4) show ?thesis
        by (subst request_decode.simps) (simp add: step add_ac split: option.splits)
    qed
  qed
qed

definition whole :: "byte list \<Rightarrow> bool" where
  "whole bs \<longleftrightarrow> (bs = [] \<or> last bs = 10)"

lemma line_results_append: "whole bs \<Longrightarrow> line_results S m (bs @ cs) = line_results S m bs @ line_results S m cs"
proof (induction S m bs rule: line_results.induct)
  case (1 S m bs)
  show ?case
  proof (cases "newline bs")
    case None
    with 1(2) have "bs = []"
      by (cases bs rule: rev_cases) (auto simp: whole_def position_None)
    then show ?thesis
      by (simp add: line_results.simps [of S m "[]"])
  next
    case (Some n)
    then have n: "n < length bs"
      by (rule newline_bound)
    with 1(2) have "whole (drop (n + 1) bs)"
      by (cases "n + 1 < length bs") (auto simp: whole_def last_drop)
    with 1(1) [OF Some] have IH: "line_results S m (drop (n + 1) bs @ cs) = line_results S m (drop (n + 1) bs) @ line_results S m cs"
      by simp
    from Some have "newline (bs @ cs) = Some n"
      by (simp add: position_append)
    with Some n IH show ?thesis
      by (subst (1 2) line_results.simps) simp
  qed
qed

lemma parse_request_total: "parse_request S line \<noteq> Panic"
  by (auto simp: parse_request_def need_def from_value_def parse_wait_def bind_outcome_Panic_iff
      split: option.splits if_splits elim!: or_err.elims)

text \<open>Where the decoder is in the stream: after some whole lines, or within a line that is too long.\<close>

definition too_long :: "nat \<Rightarrow> byte list \<Rightarrow> bool" where
  "too_long m bs \<longleftrightarrow> (case newline bs of Some n \<Rightarrow> m < n | None \<Rightarrow> m < length bs)"

lemma too_long_results: "too_long m bs \<Longrightarrow> \<exists>rs. line_results S m bs = Err Max_line_length_exceeded # rs"
  by (subst line_results.simps) (auto simp: too_long_def split: option.splits)

lemma too_long_append: "too_long m bs \<Longrightarrow> too_long m (bs @ cs)"
  by (auto simp: too_long_def position_append split: option.splits)

definition in_step :: "'v serde \<Rightarrow> nat \<Rightarrow> byte list \<Rightarrow> (request_error, 'v request) outcome list \<Rightarrow> request_codec \<Rightarrow> byte list \<Rightarrow> bool" where
  "in_step S m bs rs k src \<longleftrightarrow>
     max_length k = m \<and> scanned k src \<and>
     (if is_discarding k
      then \<exists>Z T. bs = Z @ T @ src \<and> whole Z \<and> 10 \<notin> set T \<and> too_long m (T @ src) \<and>
        rs = line_results S m Z @ [Err Max_line_length_exceeded]
      else \<exists>Z. bs = Z @ src \<and> whole Z \<and> rs = line_results S m Z)"

lemma scanned_append: "scanned k src \<Longrightarrow> scanned k (src @ cs)"
  by (simp add: scanned_def)

lemma in_step_discarding:
  assumes "is_discarding k" and "max_length k = m" and "scanned k src" and "bs = Z @ T @ src" and "whole Z" and "10 \<notin> set T"
    and "too_long m (T @ src)" and "rs = line_results S m Z @ [Err Max_line_length_exceeded]"
  shows "in_step S m bs rs k src"
  unfolding in_step_def using assms by (metis (full_types))

lemma begin_discarding:
  assumes "max_length k = m" and "scanned k src" and "whole Z" and "too_long m src"
  shows "in_step S m (Z @ src) (line_results S m Z @ [Err Max_line_length_exceeded]) (k\<lparr>is_discarding := True\<rparr>) src"
  by (rule in_step_discarding [where Z = Z and T = "[]"]) (use assms in \<open>simp_all add: scanned_def\<close>)

text \<open>One call outside a discarded line, from a stream of which \<open>Z\<close> is done.\<close>

lemma call_line:
  assumes "in_step S m (Z @ src) (line_results S m Z) k src" and "\<not> is_discarding k" and "whole Z"
    and "length src \<le> usize_max" and "m \<le> usize_max" and "request_decode S k src = (k', src', r)"
  shows "in_step S m (Z @ src) (line_results S m Z @ result_of r) k' src' \<and> r \<noteq> Panic \<and>
    (r = Ok None \<longrightarrow> line_results S m Z = line_results S m (Z @ src))"
proof -
  from assms(1) have k: "max_length k = m" "scanned k src"
    by (simp_all add: in_step_def)
  note dec = decode_line [OF k(2) assms(4) _ assms(2), of S, unfolded k(1) assms(6), OF assms(5)]
  show ?thesis
  proof (cases "newline src")
    case (Some n)
    then have n: "n < length src" "src ! n = 10"
      by (simp_all add: position_Some)
    show ?thesis
    proof (cases "n \<le> m")
      case True
      with dec Some have eq: "k' = k\<lparr>next_index := 0\<rparr>" "src' = drop (n + 1) src"
        "r = bind_outcome (parse_request S (take n src)) (\<lambda>r. Ok (Some r))"
        by auto
      have line: "newline (take (n + 1) src) = Some n"
        using Some by (auto simp: position_Some)
      have "result_of r = [parse_request S (take n src)]" "r \<noteq> Panic" "r \<noteq> Ok None"
        using parse_request_total [of S "take n src"] by (cases "parse_request S (take n src)"; simp add: eq(3) result_of_def)+
      moreover have "line_results S m (Z @ take (n + 1) src) = line_results S m Z @ [parse_request S (take n src)]"
        unfolding line_results_append [OF assms(3)] using True line n
        by (subst (2) line_results.simps) (simp add: line_results.simps [of S m "[]"] min_def)
      moreover have "whole (Z @ take (n + 1) src)"
        using n by (simp add: whole_def take_Suc_conv_app_nth)
      ultimately show ?thesis
        using assms(2) k(1) unfolding eq(1,2)
        by (auto simp: in_step_def scanned_def intro!: exI [of _ "Z @ take (n + 1) src"])
    next
      case False
      with dec Some have eq: "k' = k\<lparr>is_discarding := True\<rparr>" "src' = src" "r = Err Max_line_length_exceeded"
        by auto
      from False Some have "too_long m src"
        by (simp add: too_long_def)
      with begin_discarding [OF k assms(3)] show ?thesis
        unfolding eq by (simp add: result_of_def)
    qed
  next
    case None
    show ?thesis
    proof (cases "m < length src")
      case True
      with dec None have eq: "k' = k\<lparr>is_discarding := True\<rparr>" "src' = src" "r = Err Max_line_length_exceeded"
        by auto
      from True None have "too_long m src"
        by (simp add: too_long_def)
      with begin_discarding [OF k assms(3)] show ?thesis
        unfolding eq by (simp add: result_of_def)
    next
      case False
      with dec None have eq: "k' = k\<lparr>next_index := length src\<rparr>" "src' = src" "r = Ok None"
        by auto
      have "line_results S m src = []"
        using None False by (subst line_results.simps) simp
      moreover have "10 \<notin> set src"
        using None by (auto simp: position_None)
      ultimately show ?thesis
        using k assms(2,3) False unfolding eq
        by (auto simp: in_step_def scanned_def result_of_def line_results_append)
    qed
  qed
qed

lemma call_step:
  assumes "in_step S m bs rs k src" and "length bs \<le> usize_max" and "m \<le> usize_max"
    and "request_decode S k src = (k', src', r)"
  shows "in_step S m bs (rs @ result_of r) k' src' \<and> r \<noteq> Panic \<and> (r = Ok None \<longrightarrow> rs = line_results S m bs)"
proof (cases "is_discarding k")
  case False
  with assms(1) obtain Z where "bs = Z @ src" "whole Z" "rs = line_results S m Z"
    by (auto simp: in_step_def)
  with call_line [of S m Z src k k' src' r] assms False show ?thesis
    by simp
next
  case True
  with assms(1) obtain Z T where Z: "bs = Z @ T @ src" "whole Z" "10 \<notin> set T" "too_long m (T @ src)"
    "rs = line_results S m Z @ [Err Max_line_length_exceeded]" and k: "max_length k = m" "scanned k src"
    by (auto simp: in_step_def)
  have src: "length src \<le> usize_max"
    using assms(2) Z(1) by simp
  note dec = decode_discarding [OF k(2) src _ True, of S, unfolded k(1) assms(4), OF assms(3)]
  show ?thesis
  proof (cases "newline src")
    case None
    with dec have eq: "k' = k\<lparr>next_index := 0\<rparr>" "src' = []" "r = Ok None"
      by auto
    have clean: "10 \<notin> set (T @ src)"
      using None Z(3) by (auto simp: position_None)
    then have "newline (T @ src) = None"
      by (auto simp: position_None)
    with Z(4) have "line_results S m (T @ src) = [Err Max_line_length_exceeded]"
      by (subst line_results.simps) (simp add: too_long_def)
    then have "rs = line_results S m bs"
      by (simp add: Z(1,2,5) line_results_append)
    moreover have "in_step S m bs rs k' src'"
      by (rule in_step_discarding [where Z = Z and T = "T @ src"])
        (use Z True k clean in \<open>simp_all add: eq scanned_def\<close>)
    ultimately show ?thesis
      by (simp add: eq result_of_def)
  next
    case (Some n)
    let ?k = "k\<lparr>is_discarding := False, next_index := 0\<rparr>" and ?Z = "Z @ T @ take (n + 1) src"
    have n: "n < length src" "src ! n = 10"
      using Some by (simp_all add: position_Some)
    have T: "newline T = None"
      using Z(3) by (auto simp: position_None)
    have "newline (take (n + 1) src) = Some n"
      using Some by (auto simp: position_Some)
    then have "newline (T @ take (n + 1) src) = Some (length T + n)"
      by (simp add: position_append T)
    moreover have "m < length T + n"
      using Z(4) Some by (simp add: too_long_def position_append T)
    ultimately have "line_results S m (T @ take (n + 1) src) = [Err Max_line_length_exceeded]"
      using n by (subst line_results.simps) (simp add: line_results.simps [of S m "[]"])
    then have rs: "line_results S m ?Z = rs"
      by (simp add: line_results_append [OF Z(2)] Z(5))
    have whole: "whole ?Z"
      using n by (simp add: whole_def take_Suc_conv_app_nth)
    have bs: "bs = ?Z @ drop (n + 1) src"
      by (simp add: Z(1))
    have "in_step S m bs rs ?k (drop (n + 1) src)"
      using k whole rs bs by (auto simp: in_step_def scanned_def intro!: exI [of _ ?Z])
    moreover have "request_decode S ?k (drop (n + 1) src) = (k', src', r)"
      using dec Some by simp
    ultimately show ?thesis
      using call_line [of S m ?Z "drop (n + 1) src" ?k k' src' r] whole rs bs src assms(3) by simp
  qed
qed

lemma decoding_in_step:
  "decoding S m bs rs k src \<Longrightarrow> length bs \<le> usize_max \<Longrightarrow> m \<le> usize_max \<Longrightarrow> in_step S m bs rs k src"
proof (induction rule: decoding.induct)
  case start
  then show ?case
    by (simp add: in_step_def codec_with_max_length_def scanned_def whole_def line_results.simps [of S m "[]"])
next
  case (arrive bs rs k src cs)
  then have "in_step S m bs rs k src"
    by simp
  show ?case
  proof (cases "is_discarding k")
    case True
    with \<open>in_step S m bs rs k src\<close> obtain Z T where Z: "bs = Z @ T @ src" "whole Z" "10 \<notin> set T" "too_long m (T @ src)"
      "rs = line_results S m Z @ [Err Max_line_length_exceeded]" "max_length k = m" "scanned k src"
      by (auto simp: in_step_def)
    with True too_long_append [OF Z(4), of cs] show ?thesis
      by (intro in_step_discarding [where Z = Z and T = T]) (simp_all add: scanned_append)
  next
    case False
    with \<open>in_step S m bs rs k src\<close> show ?thesis
      by (auto simp: in_step_def scanned_append)
  qed
next
  case (call bs rs k src k' src' r)
  with call_step [of S m bs rs k src k' src' r] show ?case
    by simp
qed

lemma in_step_prefix: "in_step S m bs rs k src \<Longrightarrow> prefix rs (line_results S m bs)"
  using too_long_results by (fastforce simp: in_step_def line_results_append prefix_def split: if_splits)

section \<open>Responses\<close>

definition response_new :: nat where
  "response_new = 0"

definition parse_response :: "'v serde \<Rightarrow> byte list \<Rightarrow> 'v response option" where
  "parse_response S line =
     Option.bind (from_slice S line) (\<lambda>v.
     Option.bind (get_field S v (ascii ''status'')) (\<lambda>k.
     Option.bind (as_string S k) (\<lambda>status.
       if status = ascii ''ok'' then
         (case get_field S v (ascii ''id'') of
            Some i \<Rightarrow>
              (if is_number S i then
                 (case Option.bind (get_field S v (ascii ''queue'')) (as_string S) of
                    Some queue \<Rightarrow>
                      Option.bind (as_u32 S i) (\<lambda>i. Option.bind (get_field S v (ascii ''job'')) (\<lambda>job.
                      Option.bind (get_field S v (ascii ''pri'')) (\<lambda>p. Option.bind (as_u32 S p) (\<lambda>p.
                      Some (Job i job p queue)))))
                  | None \<Rightarrow> map_option Id (as_u32 S i))
               else Some Ok_response)
          | None \<Rightarrow> Some Ok_response)
       else if status = ascii ''error'' then
         Some (Error_response (case get_field S v (ascii ''error'') of
            Some e \<Rightarrow> show_value S e | None \<Rightarrow> ascii ''<EMPTY ERROR MESSAGE>''))
       else if status = ascii ''no-job'' then Some No_job
       else None)))"

text \<open>\<open>ResponseCodec::decode\<close>, its state the next index; every error is an invalid line.\<close>

definition response_decode :: "'v serde \<Rightarrow> nat \<Rightarrow> byte list \<Rightarrow> nat \<times> byte list \<times> (unit, 'v response option) outcome" where
  "response_decode S k src =
     (if length src < k then (k, src, Panic)
      else case newline_offset k (length src) src of
        Some offset \<Rightarrow>
          (0, drop (k + offset + 1) src,
            bind_outcome (or_err () (parse_response S (take (k + offset) src))) (\<lambda>r. Ok (Some r)))
      | None \<Rightarrow> (length src, src, Ok None))"

fun response_object :: "'v serde \<Rightarrow> 'v response \<Rightarrow> 'v" where
  "response_object S Ok_response = of_object S [(ascii ''status'', of_string S (ascii ''ok''))]"
| "response_object S (Id i) = of_object S [(ascii ''status'', of_string S (ascii ''ok'')), (ascii ''id'', of_u32 S i)]"
| "response_object S (Job i job priority queue) =
     of_object S [(ascii ''status'', of_string S (ascii ''ok'')), (ascii ''id'', of_u32 S i), (ascii ''job'', job),
       (ascii ''pri'', of_u32 S priority), (ascii ''queue'', of_string S queue)]"
| "response_object S (Error_response msg) =
     of_object S [(ascii ''status'', of_string S (ascii ''error'')), (ascii ''error'', of_string S msg)]"
| "response_object S No_job = of_object S [(ascii ''status'', of_string S (ascii ''no-job''))]"

definition response_encode :: "'v serde \<Rightarrow> 'v response \<Rightarrow> (unit, byte list) outcome" where
  "response_encode S r = bind_outcome (or_err () (to_vec S (response_object S r))) (\<lambda>bs. Ok (bs @ [10]))"

section \<open>Properties\<close>

text \<open>C16: However the bytes of a client arrive and whenever the decoder is called, it gives the results that
  the bytes stand for, line by line and in order: it never panics, has given all of them when it asks
  for more, and gives one error for a line over the limit, of which it keeps nothing.\<close>

theorem request_lines_decoded:
  assumes "decoding S m bs rs k src" and "length bs \<le> usize_max" and "m \<le> usize_max"
    and "request_decode S k src = (k', src', r)"
  shows "r \<noteq> Panic \<and> prefix (rs @ result_of r) (line_results S m bs) \<and> (r = Ok None \<longrightarrow> rs = line_results S m bs)"
  using call_step [OF decoding_in_step [OF assms(1-3)] assms(2-4)] in_step_prefix by blast

text \<open>A reader of JSON that knows two lines, for the example.\<close>

definition example_serde :: "nat serde" where
  "example_serde = \<lparr>from_slice = (\<lambda>bs. if bs = ascii ''delete 7'' then Some 0 else None), to_vec = (\<lambda>_. None),
     get_field = (\<lambda>v name. if v = 0 \<and> name = ascii ''request'' then Some 1 else if v = 0 \<and> name = ascii ''id'' then Some 7 else None),
     as_string = (\<lambda>v. if v = 1 then Some (ascii ''delete'') else None), as_strings = (\<lambda>_. None), as_u32 = (\<lambda>v. Some (of_nat v)),
     as_bool = (\<lambda>_. None), is_number = (\<lambda>v. v = 7), show_value = (\<lambda>_. []), of_string = (\<lambda>_. 1), of_strings = (\<lambda>_. 0),
     of_u32 = unat, of_bool' = (\<lambda>_. 0), of_object = (\<lambda>_. 0)\<rparr>"

lemma request_lines_decoded_witness:
  "prefix [Ok (Delete 7)] (line_results example_serde 20 (ascii ''delete 7'' @ [10, 33]))"
proof -
  have parse: "parse_request example_serde (ascii ''delete 7'') = Ok (Delete 7)"
    by (simp add: parse_request_def example_serde_def need_def from_value_def ascii_def)
  have "decoding example_serde 20 ([] @ ascii ''delete 7'' @ [10, 33]) [] (codec_with_max_length 20) ([] @ ascii ''delete 7'' @ [10, 33])"
    by (intro arrive start)
  moreover have "request_decode example_serde (codec_with_max_length 20) (ascii ''delete 7'' @ [10, 33])
      = (codec_with_max_length 20, [33], Ok (Some (Delete 7)))"
    using parse by (subst decode_line) (simp_all add: scanned_def codec_with_max_length_def usize_max_def ascii_def)
  ultimately have "prefix ([] @ result_of (Ok (Some (Delete 7)) :: (_, nat request option) outcome))
      (line_results example_serde 20 (ascii ''delete 7'' @ [10, 33]))"
    by (intro request_lines_decoded [THEN conjunct2, THEN conjunct1, of example_serde 20]) (auto simp: usize_max_def ascii_def)
  then show ?thesis
    by (simp add: result_of_def)
qed

end
