(* ===== verification/Spec2Isabelle.thy ===== *)
theory Spec2Isabelle
  imports WasiSpeed WasiHeartbeat WasiReactor PrimeTime WasiNet Database MobProxy Means WasiChat WasiSync WasiCodec LrcpService SpeedServer CipherCodec VcsServer VcsLocks PestActors JobProperties JobProtocol
begin

text \<open>
  \<^bold>\<open>Servers for the Protohackers problems\<close>

  The repository holds twelve network servers in Rust (\<open>rust/p00-smoke-test\<close> to \<open>rust/p11-pest-control\<close>),
  seven of them once more for WASI (\<open>wasi/problems/p00-smoke-test\<close> to \<open>p06-speed-daemon\<close>), and the two crates
  that the WASI servers run on: the runtime \<open>wasi/crates/wasi-async-runtime\<close> and the sockets, framing and
  clocks of \<open>wasi/crates/wasi-async\<close>. Each server is a program of its own: it listens, gives each
  connection a task, and the tasks share a state by message channels or a lock. This development
  models what the tasks do with what they read, the state they share, and the order of their steps.

  \<^bold>\<open>The theories\<close>

  \<^item> \<open>Prelude\<close>, \<open>Utf8\<close>, \<open>Text\<close>: bytes and integers, big-endian readers, \<open>outcome\<close>; UTF-8 as
    \<open>str::from_utf8\<close> and \<open>from_utf8_lossy\<close> read it; numerals, words and lines.
  \<^item> \<open>LrcpPackets\<close>, \<open>LrcpProtocol\<close>, \<open>LrcpSocket\<close> (\<open>p07\<close>): the packets of the Line Reversal Control Protocol
    (\<open>lrcp/packets.rs\<close>), one end of a session with its stream and the branches of \<open>lrcp_handler\<close>, the
    listener and the application (\<open>lrcp/protocol.rs\<close>, \<open>lib.rs\<close>). \<open>LrcpNetwork\<close> puts two ends on a network
    that loses, repeats and reorders, and proves its invariant; \<open>LrcpDelivery\<close> draws from it what
    the two applications may rely on, and \<open>LrcpService\<close> puts the line reversal on top, from end to end.
  \<^item> \<open>SpeedWire\<close>, \<open>SpeedController\<close>, \<open>SpeedServer\<close> (\<open>p06\<close>): the messages (\<open>wire.rs\<close>), the rules of tickets
    (\<open>controller.rs\<close>), and dispatchers, cameras, heartbeats and clients (\<open>lib.rs\<close>).
  \<^item> \<open>CipherCodec\<close> (\<open>p08\<close>): the operations, the check of a spec, the codec (\<open>cipher.rs\<close>) and the requests
    (\<open>lib.rs\<close>).
  \<^item> \<open>JobCentre\<close>, \<open>JobServer\<close>, \<open>JobProtocol\<close>, \<open>JobProperties\<close> (\<open>p09\<close>): the store (\<open>job_centre.rs\<close>), the tasks of the
    clients (\<open>lib.rs\<close>), the lines (\<open>protocol.rs\<close>), and what the whole promises.
  \<^item> \<open>VcsStore\<close>, \<open>VcsLocks\<close>, \<open>VcsServer\<close> (\<open>p10\<close>): the tree of revisions and the locks of its directories
    (\<open>vcs.rs\<close>), and the sessions (\<open>lib.rs\<close>), whose requests are one step each.
  \<^item> \<open>PestCodec\<close>, \<open>PestActors\<close> (\<open>p11\<close>): the packets with their validators (\<open>codec/\<close>) and the actors (\<open>actors/\<close>).
  \<^item> \<open>PrimeTime\<close>, \<open>Means\<close>, \<open>BudgetChat\<close>, \<open>Database\<close>, \<open>MobProxy\<close> (\<open>p00\<close> to \<open>p05\<close>): echo and primes, prices, chat,
    key-value store and proxy; all but the chat with the version of the WASI port.
  \<^item> \<open>WasiReactor\<close>, \<open>WasiSync\<close>: the runtime (\<open>reactor.rs\<close>, \<open>poller.rs\<close>, \<open>block_on\<close>) and its locks (\<open>sync/\<close>).
  \<^item> \<open>WasiCodec\<close>, \<open>WasiTcp\<close>, \<open>WasiNet\<close>: framing (\<open>codec.rs\<close>, \<open>io.rs\<close>), the halves of a connection (\<open>net/tcp.rs\<close>),
    and addresses, listening, connecting, shutting down and clocks (\<open>net.rs\<close>, \<open>net/tcp.rs\<close>, \<open>time.rs\<close>).
  \<^item> \<open>WasiChat\<close>, \<open>WasiSpeed\<close>, \<open>WasiHeartbeat\<close>: the chat and the speed daemon of the port, and its heartbeat on the
    clocks of 64 bits.

  \<^bold>\<open>How the code is rendered\<close>

  A struct is a record, an enum a datatype, an integer a word or, where the code cannot reach the end of
  its range, a \<open>nat\<close> or \<open>int\<close>. A function that may fail gives an \<open>outcome\<close>: \<open>Ok\<close>, \<open>Err\<close> with the error of the
  code, or \<open>Panic\<close>. Arithmetic that overflows panics in a debug build and wraps in a release build;
  the argument \<open>oc\<close> chooses, and the properties hold for both values or say for which. An \<open>async\<close>
  function that reads is a function of all that it will read, or a step for each thing that it awaits;
  a server is a run of events in any order, where an event that cannot happen is \<open>None\<close>. Strings are the bytes
  of their UTF-8. Loops are structural or have a measure; where the code may wait for ever the model
  gives \<open>None\<close> or \<open>Pending\<close>, and the properties that promise a result prove it. The codec of \<open>CipherCodec\<close>
  is a partial function, because it does not return on a spec that comes in pieces. The runtime
  of \<open>WasiReactor\<close> runs for a number of polls that is an argument of \<open>block_on\<close>; its safety is proved for
  every number, and nothing that is claimed needs it to end.

  What is not in the repository is a parameter: \<open>serde_json\<close> and the primality test (\<open>PrimeTime\<close>,
  \<open>JobProtocol\<close>), the iteration order of hash maps and sets (\<open>SpeedController\<close>, \<open>BudgetChat\<close>), the table
  of alphanumeric characters (\<open>BudgetChat\<close>), the authority that answers (\<open>PestActors\<close>), the crate \<open>slab\<close>
  (\<open>WasiReactor\<close>), and the host: what reads give, what writes accept, which pollables are ready.

  \<^bold>\<open>Interfaces\<close>

  \<^item> \<open>field_codec\<close> and \<open>incremental_codec\<close> (\<open>Prelude\<close>): a writer and a reader that undo each other, and that wait
    on a part. Interpreted on integers, on strings, on the messages of \<open>SpeedWire\<close> through
    \<open>tagged_message\<close>, on the packets of \<open>PestCodec\<close> through \<open>wire_validator\<close>.
  \<^item> \<open>invariant_system\<close> (\<open>Prelude\<close>): initial states, steps and an invariant; on two LRCP ends, the LRCP listener, the
    camera registry, the store of revisions, the line reversal service, the shutdowns of a connection and the
    count of readers.
  \<^item> \<open>simulation\<close> (\<open>Prelude\<close>), which extends it: each step of the system is a step of an abstract one in a view of
    the state, or none. Two LRCP ends implement two pipes; the version control server an archive of
    histories; the mutex a lock with one holder; the other lock a set of readers beside at most one writer.
  \<^item> \<open>byte_cipher\<close> (\<open>CipherCodec\<close>): decoding undoes encoding at each position; on one operation and on a spec.
  \<^item> \<open>max_heap\<close> (\<open>JobCentre\<close>): what the store needs of \<open>BinaryHeap\<close>; on the heap of the model.
  \<^item> \<open>revision_store\<close> (\<open>VcsStore\<close>): a history for each file; on the tree with the names in it.
  \<^item> \<open>item_decoder\<close> (\<open>WasiCodec\<close>): a decoder that takes items from the front of a buffer; on lines and chunks.

  \<^bold>\<open>What is shown\<close>

  \<^item> Codecs: acceptance of exactly the grammar (LRCP packets, pest control packets, lines of the job centre), round
    trips, independence of how the input is cut, length bounds of LRCP payloads.
  \<^item> LRCP: a session is two pipes, so that each application reads a beginning of what the other wrote; nothing that was written is
    lost; no turn of a session's handler of the server panics, on packets or on its own events; the client of the line reversal reads the reversals of
    its lines in their order.
  \<^item> Speed daemon: one ticket per car and day, only and always for cars that were too fast, each
    sent once or kept, where integers do not overflow; of the port the two ways in which the program
    dies, and the two more that a build with overflow checks has.
  \<^item> Job centre: each job is in one place, answers name jobs that exist, a get takes the highest
    priority, a waiting client is served unless others are faster, and every abort of a deleted job
    leaves an entry on which a later get panics.
  \<^item> Version control: revisions are histories that never change, listings are exact, and what one
    session puts any session gets; the locks of the directories make the calls of several threads
    calls one after the other, without deadlock.
  \<^item> Pest control: after an adjustment the policies are those that the visit asks for.
  \<^item> Ciphers: a session is answered however it is cut into reads after a first one with the whole spec, and what
    becomes of a spec that comes in pieces.
  \<^item> Chat, prices, primes, key-value store, proxy: the functional behaviour of a session, and for
    the chats that no order of events makes the server panic, nor in the port a task, and that names
    stay distinct.
  \<^item> WASI: safety of the runtime, mutual exclusion and no lost wake-up for the locks, framing, and
    \<open>write_all\<close> with the permits of the host on which it panics.

  Lemmas beside the properties exhibit where the code falls short: bytes that \<open>ReadHalf::read\<close> drops, a join
  handle that is polled twice, a spawned task that is not polled, a plate that breaks a ticket, a
  dispatcher that leaves and ends the program, a permit of 4 GiB, of which nothing is left on a platform of
  32 bits, a reader who is not told of the end of its session.

  \<^bold>\<open>Not modelled\<close>

  The \<open>main\<close> functions, bindings, logging and tests; the accept loops of the servers under \<open>tokio\<close>
  (that of the chat is), the wrap-around of the numbers of tasks and of chat clients,
  the sockets of \<open>tokio\<close>, and the errors of writing to a client where the code ignores them or ends the
  task. Futures of the WASI locks that are
  dropped before they are done. The reference counts behind the wakers of the runtime. The capacity of
  buffers. Timers fire at any time, so that no property depends on a timeout.
\<close>

end
